(* ===== verification/Prelude.thy ===== *)
theory Prelude
  imports Main "HOL-Library.Word" "HOL-Library.Sublist"
begin

text \<open>
  Shared vocabulary of the development: the machine types of the C++ code, the parts of
  \<^verbatim>\<open>std::string\<close>, \<^verbatim>\<open>std::string_view\<close> and \<^verbatim>\<open>memcpy\<close> it uses, its error
  enumerations, and the generic list and word lemmas the components share.
\<close>

unbundle bit_operations_syntax

section \<open>Machine types\<close>

type_synonym u8 = "8 word"
type_synonym u16 = "16 word"
type_synonym u32 = "32 word"
type_synonym u64 = "64 word"
type_synonym byte = u8
type_synonym bytes = "byte list"

text \<open>The error enumeration of \<^verbatim>\<open>servercore/Error.h\<close>.\<close>

datatype core_error = KInvalidArgument | KResourceExhausted | KAlreadyExists | KNotFound

named_theorems word_nat_simps \<open>moving 32-bit word arithmetic to the natural numbers\<close>
named_theorems mem_simps \<open>reading back what memcpy and memmove wrote\<close>
named_theorems find_simps \<open>searching strings\<close>

section \<open>Words as natural numbers\<close>

lemma unat_sub_le [word_nat_simps]: "b \<le> a \<Longrightarrow> unat (a - b) = unat a - unat b"
  by (simp add: unat_sub)

lemma unat_add_lt32 [word_nat_simps]:
  "unat a + unat b < 2 ^ 32 \<Longrightarrow> unat (a + b :: u32) = unat a + unat b"
  by (simp add: unat_word_ariths)

lemma unat_of_nat32 [word_nat_simps]: "n < 2 ^ 32 \<Longrightarrow> unat (of_nat n :: u32) = n"
  by (simp add: unat_of_nat take_bit_eq_mod)

lemma unat_of_nat64 [word_nat_simps]: "n < 2 ^ 64 \<Longrightarrow> unat (of_nat n :: u64) = n"
  by (simp add: unat_of_nat take_bit_eq_mod)

lemma unat_lt32: "unat (a :: u32) < 2 ^ 32"
  by (rule order_less_le_trans [OF unsigned_less]) simp

section \<open>Raw memory\<close>

text \<open>\<^verbatim>\<open>memcpy(base + pos, data, n)\<close> into a block of bytes.\<close>

definition mem_write :: "'a list \<Rightarrow> nat \<Rightarrow> 'a list \<Rightarrow> 'a list" where
  "mem_write buf pos xs = take pos buf @ xs @ drop (pos + length xs) buf"

text \<open>The block of \<^verbatim>\<open>n\<close> bytes that starts at \<^verbatim>\<open>base + pos\<close>.\<close>

definition mem_read :: "'a list \<Rightarrow> nat \<Rightarrow> nat \<Rightarrow> 'a list" where
  "mem_read buf pos n = take n (drop pos buf)"

lemma length_mem_write [mem_simps]:
  "pos + length xs \<le> length buf \<Longrightarrow> length (mem_write buf pos xs) = length buf"
  by (simp add: mem_write_def)

lemma length_mem_read [mem_simps]:
  "pos + n \<le> length buf \<Longrightarrow> length (mem_read buf pos n) = n"
  by (simp add: mem_read_def)

lemma mem_read_write_same [mem_simps]:
  "pos + length xs \<le> length buf \<Longrightarrow> mem_read (mem_write buf pos xs) pos (length xs) = xs"
  by (simp add: mem_read_def mem_write_def)

lemma mem_read_write_before [mem_simps]:
  "p + n \<le> pos \<Longrightarrow> pos \<le> length buf \<Longrightarrow> mem_read (mem_write buf pos xs) p n = mem_read buf p n"
  by (simp add: mem_read_def mem_write_def drop_take min_absorb1)

lemma mem_read_write_after [mem_simps]:
  "pos + length xs \<le> p \<Longrightarrow> pos + length xs \<le> length buf \<Longrightarrow>
   mem_read (mem_write buf pos xs) p n = mem_read buf p n"
  by (simp add: mem_read_def mem_write_def)

lemma mem_read_split [mem_simps]:
  "mem_read buf p (n + m) = mem_read buf p n @ mem_read buf (p + n) m"
  unfolding mem_read_def take_add by (simp add: add.commute)

lemma mem_write_append [mem_simps]:
  "pos + length xs \<le> length buf \<Longrightarrow>
   mem_write (mem_write buf pos xs) (pos + length xs) ys = mem_write buf pos (xs @ ys)"
  by (simp add: mem_write_def ac_simps)

lemma mem_write_Nil [simp]: "mem_write buf pos [] = buf"
  by (simp add: mem_write_def)

lemma mem_write_all: "length xs = length buf \<Longrightarrow> mem_write buf 0 xs = xs"
  by (simp add: mem_write_def)

section \<open>Big-endian integers\<close>

lemma byte_lt: "unat (b :: u8) < 256"
  using unsigned_less [of b, where ?'a = nat] by simp

lemma unat_ucast8 [word_nat_simps]: "unat (ucast (b :: u8) :: u64) = unat b"
proof -
  have "unat b < 2 ^ 64" using unsigned_less [of b] by (rule order_less_trans) simp
  then show ?thesis by (simp add: unsigned_ucast_eq take_bit_nat_eq_self)
qed

lemma unat_ucast_up:
  assumes "LENGTH('a) \<le> LENGTH('b)"
  shows "unat (ucast (v :: 'a :: len word) :: 'b :: len word) = unat v"
proof -
  have "unat v < 2 ^ LENGTH('a)" by (rule unsigned_less)
  also have "(2 :: nat) ^ LENGTH('a) \<le> 2 ^ LENGTH('b)" using assms by (intro power_increasing) simp_all
  finally show ?thesis by (simp add: unsigned_ucast_eq take_bit_nat_eq_self)
qed

lemma unat_two_power: "k < LENGTH('a) \<Longrightarrow> unat ((2 :: 'a :: len word) ^ k) = 2 ^ k"
proof -
  assume "k < LENGTH('a)"
  then have "take_bit LENGTH('a) (2 ^ k :: nat) = 2 ^ k" by (simp add: take_bit_nat_eq_self)
  then show ?thesis by (metis of_nat_numeral of_nat_power unsigned_of_nat)
qed
lemma take_bit_word_self: "unat (x :: 'a :: len word) < 2 ^ k \<Longrightarrow> take_bit k x = x"
  by (simp add: word_unat_eq_iff unsigned_take_bit_eq take_bit_nat_eq_self)

lemma and_mask_self: "unat (x :: 'a :: len word) < 2 ^ k \<Longrightarrow> x AND mask k = x"
  by (simp add: take_bit_word_self flip: take_bit_eq_mask)

lemma shift_or_byte:
  assumes "unat (acc :: u64) < 2 ^ 56"
  shows "unat ((push_bit 8 acc) OR ucast (b :: u8)) = unat acc * 256 + unat b"
proof -
  have "(push_bit 8 acc) AND (ucast b :: u64) = 0"
    by (rule bit_word_eqI) (auto simp: bit_simps dest: bit_imp_le_length)
  then have "(push_bit 8 acc) OR (ucast b :: u64) = push_bit 8 acc + ucast b"
    by (rule disjunctive_add_eq_or [symmetric])
  moreover have p: "unat (push_bit 8 acc) = unat acc * 256"
    using assms unat_mult_lem [of acc 256] by (simp add: push_bit_eq_mult)
  moreover have "unat b < 256" using unsigned_less [of b] by simp
  moreover have "unat (push_bit 8 acc) + unat (ucast b :: u64) < 2 ^ 64"
    using assms \<open>unat b < 256\<close> unfolding p unat_ucast8 by simp
  ultimately show ?thesis by (simp add: unat_plus_if' unat_ucast8)
qed

definition be_nat :: "bytes \<Rightarrow> nat" where
  "be_nat xs = fold (\<lambda>b acc. acc * 256 + unat b) xs 0"

lemma be_fold:
  "Suc acc * 256 ^ length xs \<le> 2 ^ 64 \<Longrightarrow> unat a = acc \<Longrightarrow>
   unat (fold (\<lambda>b acc. (push_bit 8 acc) OR ucast b) xs (a :: u64)) =
   fold (\<lambda>b acc. acc * 256 + unat b) (xs :: bytes) acc"
proof (induction xs arbitrary: a acc)
  case (Cons b xs)
  have "Suc acc * 256 * 256 ^ length xs \<le> 2 ^ 64" using Cons.prems(1) by (simp add: algebra_simps)
  moreover have "Suc acc * 256 \<le> Suc acc * 256 * 256 ^ length xs" by simp
  ultimately have "Suc acc * 256 \<le> 2 ^ 64" by (rule order_trans [rotated])
  then have "unat a < 2 ^ 56" using Cons.prems(2) by simp
  then have step: "unat ((push_bit 8 a) OR ucast b) = acc * 256 + unat b"
    using shift_or_byte Cons.prems(2) by simp
  have "unat b < 256" using unsigned_less [of b] by simp
  then have "Suc (acc * 256 + unat b) \<le> Suc acc * 256" by simp
  then have "Suc (acc * 256 + unat b) * 256 ^ length xs \<le> Suc acc * 256 * 256 ^ length xs"
    by (rule mult_right_mono) simp
  then have "Suc (acc * 256 + unat b) * 256 ^ length xs \<le> 2 ^ 64"
    using \<open>Suc acc * 256 * 256 ^ length xs \<le> 2 ^ 64\<close> by (rule order_trans)
  then show ?case using Cons.IH [OF _ step] by simp
qed simp

end
