(* ===== verification/Byte_Stream.thy ===== *)
theory Byte_Stream
  imports Prelude
begin

text \<open>
  The contract between a byte buffer and the protocol code that reads from it: bytes are put
  at the back, looked at, and skipped at the front. The laws a buffer promises are the
  assumptions of the locale; what a client may conclude about a whole sequence of operations
  is proved once inside it.
\<close>

datatype stream_op = Put bytes | Skip nat

fun run_ops :: "(bytes \<Rightarrow> 's \<Rightarrow> 's option) \<Rightarrow> (nat \<Rightarrow> 's \<Rightarrow> 's option) \<Rightarrow> 's \<Rightarrow>
    stream_op list \<Rightarrow> 's option" where
  "run_ops put skip s [] = Some s"
| "run_ops put skip s (Put d # ops) =
     (case put d s of None \<Rightarrow> None | Some s' \<Rightarrow> run_ops put skip s' ops)"
| "run_ops put skip s (Skip n # ops) =
     (case skip n s of None \<Rightarrow> None | Some s' \<Rightarrow> run_ops put skip s' ops)"

text \<open>Everything put, in order, and how many bytes were skipped.\<close>

fun put_bytes :: "stream_op list \<Rightarrow> bytes" where
  "put_bytes [] = []"
| "put_bytes (Put d # ops) = d @ put_bytes ops"
| "put_bytes (Skip n # ops) = put_bytes ops"

fun skip_total :: "stream_op list \<Rightarrow> nat" where
  "skip_total [] = 0"
| "skip_total (Put d # ops) = skip_total ops"
| "skip_total (Skip n # ops) = n + skip_total ops"

lemmas stream_ops_induct = put_bytes.induct [case_names Nil Put Skip]

locale byte_stream =
  fixes content :: "'s \<Rightarrow> bytes"
    and invar :: "'s \<Rightarrow> bool"
    and put :: "bytes \<Rightarrow> 's \<Rightarrow> 's option"
    and skip :: "nat \<Rightarrow> 's \<Rightarrow> 's option"
  assumes put_law: "invar s \<Longrightarrow> put d s = Some s' \<Longrightarrow> invar s' \<and> content s' = content s @ d"
    and skip_law: "invar s \<Longrightarrow> skip n s = Some s' \<Longrightarrow>
      invar s' \<and> n \<le> length (content s) \<and> content s' = drop n (content s)"
begin

lemma run_ops_invar: "invar s \<Longrightarrow> run_ops put skip s ops = Some s' \<Longrightarrow> invar s'"
  by (induction ops arbitrary: s rule: stream_ops_induct)
     (auto split: option.splits dest: put_law skip_law)

lemma run_ops_content:
  "invar s \<Longrightarrow> run_ops put skip s ops = Some s' \<Longrightarrow>
   content s' = drop (skip_total ops) (content s @ put_bytes ops) \<and>
   skip_total ops \<le> length (content s @ put_bytes ops)"
proof (induction ops arbitrary: s rule: stream_ops_induct)
  case (Put d ops)
  then obtain s1 where "put d s = Some s1" "run_ops put skip s1 ops = Some s'"
    by (auto split: option.splits)
  with Put show ?case using put_law by fastforce
next
  case (Skip n ops)
  then obtain s1 where s1: "skip n s = Some s1" "run_ops put skip s1 ops = Some s'"
    by (auto split: option.splits)
  with skip_law [OF Skip.prems(1) s1(1)] Skip.IH [of s1]
  show ?case by (auto simp: add.commute)
qed simp

end

end
