(* ===== verification/Recv_Buffer.thy ===== *)
theory Recv_Buffer
  imports Byte_Stream
begin

text \<open>
  The reassembly buffer of \<^verbatim>\<open>servercore/buffer/RecvBuffer.h\<close>: a byte array with 32-bit
  read and write cursors. It is shown to implement a bounded byte queue.
\<close>

section \<open>State and operations\<close>

record recv_buffer =
  rb_buffer :: bytes
  rb_capacity :: u32
  rb_read_pos :: u32
  rb_write_pos :: u32

definition recv_buffer_new :: "u32 \<Rightarrow> recv_buffer" where
  "recv_buffer_new n =
     \<lparr>rb_buffer = replicate (unat n) 0, rb_capacity = n,
      rb_read_pos = 0, rb_write_pos = 0\<rparr>"

definition IsEmpty :: "recv_buffer \<Rightarrow> bool" where
  "IsEmpty rb \<longleftrightarrow> rb_read_pos rb = rb_write_pos rb"

definition ShouldCompact :: "recv_buffer \<Rightarrow> bool" where
  "ShouldCompact rb \<longleftrightarrow> rb_read_pos rb > rb_capacity rb div 2"

definition ReadableSize :: "recv_buffer \<Rightarrow> u32" where
  "ReadableSize rb = rb_write_pos rb - rb_read_pos rb"

definition WritableSize :: "recv_buffer \<Rightarrow> u32" where
  "WritableSize rb = rb_capacity rb - rb_write_pos rb"

definition ReadRegion :: "recv_buffer \<Rightarrow> bytes" where
  "ReadRegion rb =
     mem_read (rb_buffer rb) (unat (rb_read_pos rb)) (unat (rb_write_pos rb - rb_read_pos rb))"

text \<open>\<^verbatim>\<open>WriteRegion\<close> hands out a mutable span; the model has its start and its size.\<close>

definition WriteRegion :: "recv_buffer \<Rightarrow> nat \<times> nat" where
  "WriteRegion rb = (unat (rb_write_pos rb), unat (rb_capacity rb - rb_write_pos rb))"

definition OnWrite :: "u32 \<Rightarrow> recv_buffer \<Rightarrow> recv_buffer" where
  "OnWrite n rb = rb\<lparr>rb_write_pos := rb_write_pos rb + n\<rparr>"

definition OnRead :: "u32 \<Rightarrow> recv_buffer \<Rightarrow> recv_buffer" where
  "OnRead n rb =
     (let rb1 = rb\<lparr>rb_read_pos := rb_read_pos rb + n\<rparr>
      in if rb_read_pos rb1 = rb_write_pos rb1
         then rb1\<lparr>rb_read_pos := 0, rb_write_pos := 0\<rparr> else rb1)"

definition Compact :: "recv_buffer \<Rightarrow> recv_buffer" where
  "Compact rb =
     (if rb_read_pos rb = 0 then rb
      else let remaining = rb_write_pos rb - rb_read_pos rb;
               buf = (if remaining > 0
                      then mem_write (rb_buffer rb) 0
                             (mem_read (rb_buffer rb) (unat (rb_read_pos rb)) (unat remaining))
                      else rb_buffer rb)
           in rb\<lparr>rb_buffer := buf, rb_read_pos := 0, rb_write_pos := remaining\<rparr>)"

text \<open>
  \<^verbatim>\<open>Append\<close> compacts when the data does not fit behind the write cursor, and the compaction
  stays even when it then reports the error.
\<close>

definition Append :: "bytes \<Rightarrow> recv_buffer \<Rightarrow> (core_error + unit) \<times> recv_buffer" where
  "Append xs rb =
     (let size = of_nat (length xs);
          rb1 = (if WritableSize rb < size then Compact rb else rb)
      in if WritableSize rb1 < size then (Inl KResourceExhausted, rb1)
         else (Inr (), rb1\<lparr>rb_buffer := mem_write (rb_buffer rb1) (unat (rb_write_pos rb1)) xs,
                           rb_write_pos := rb_write_pos rb1 + size\<rparr>))"

section \<open>Invariant\<close>

definition rb_inv :: "recv_buffer \<Rightarrow> bool" where
  "rb_inv rb \<longleftrightarrow> length (rb_buffer rb) = unat (rb_capacity rb) \<and>
     rb_read_pos rb \<le> rb_write_pos rb \<and> rb_write_pos rb \<le> rb_capacity rb"

lemmas recv_buffer_defs = IsEmpty_def ShouldCompact_def ReadableSize_def WritableSize_def
  ReadRegion_def WriteRegion_def OnWrite_def OnRead_def Compact_def Append_def Let_def

lemma rb_invD:
  assumes "rb_inv rb"
  shows "length (rb_buffer rb) = unat (rb_capacity rb)"
    and "unat (rb_read_pos rb) \<le> unat (rb_write_pos rb)"
    and "unat (rb_write_pos rb) \<le> unat (rb_capacity rb)"
  using assms by (simp_all add: rb_inv_def word_le_nat_alt)

lemma ReadRegion_eq:
  "rb_inv rb \<Longrightarrow> ReadRegion rb =
     mem_read (rb_buffer rb) (unat (rb_read_pos rb)) (unat (rb_write_pos rb) - unat (rb_read_pos rb))"
  by (simp add: ReadRegion_def rb_inv_def word_nat_simps)

lemma length_ReadRegion:
  "rb_inv rb \<Longrightarrow> length (ReadRegion rb) = unat (rb_write_pos rb) - unat (rb_read_pos rb)"
  using rb_invD [of rb] by (simp add: ReadRegion_eq length_mem_read)

lemma recv_buffer_new_inv: "rb_inv (recv_buffer_new n)"
  by (simp add: rb_inv_def recv_buffer_new_def)

lemma Compact_pos:
  assumes "rb_inv rb"
  shows "rb_read_pos (Compact rb) = 0"
    and "unat (rb_write_pos (Compact rb)) = unat (rb_write_pos rb) - unat (rb_read_pos rb)"
    and "rb_capacity (Compact rb) = rb_capacity rb"
  using assms by (simp_all add: Compact_def Let_def rb_inv_def unat_sub_le)

lemma Compact_buffer:
  assumes "rb_inv rb"
  shows "length (rb_buffer (Compact rb)) = unat (rb_capacity rb)"
    and "mem_read (rb_buffer (Compact rb)) 0 (unat (rb_write_pos rb) - unat (rb_read_pos rb)) =
         ReadRegion rb"
proof -
  let ?n = "unat (rb_write_pos rb) - unat (rb_read_pos rb)"
  note inv = rb_invD [OF assms]
  have xs: "length (ReadRegion rb) = ?n" using assms by (rule length_ReadRegion)
  have buf: "rb_buffer (Compact rb) =
      (if rb_read_pos rb = 0 \<or> ?n = 0 then rb_buffer rb
       else mem_write (rb_buffer rb) 0 (ReadRegion rb))"
    using assms by (simp add: Compact_def Let_def ReadRegion_def rb_inv_def word_gt_0 unat_sub_le
        unat_eq_zero [symmetric] del: unat_eq_zero)
  show "length (rb_buffer (Compact rb)) = unat (rb_capacity rb)"
    using inv xs by (simp add: buf length_mem_write)
  have "mem_read (mem_write (rb_buffer rb) 0 (ReadRegion rb)) 0 (length (ReadRegion rb)) =
      ReadRegion rb"
    by (rule mem_read_write_same) (use inv xs in simp)
  then show "mem_read (rb_buffer (Compact rb)) 0 ?n = ReadRegion rb"
    using xs assms by (auto simp: buf ReadRegion_eq mem_read_def)
qed

lemma Compact_inv:
  assumes "rb_inv rb"
  shows "rb_inv (Compact rb)"
proof -
  have "unat (rb_write_pos (Compact rb)) \<le> unat (rb_capacity (Compact rb))"
    using rb_invD(3) [OF assms] by (simp add: Compact_pos [OF assms])
  then show ?thesis
    using Compact_buffer(1) [OF assms] Compact_pos(1,3) [OF assms]
    by (simp add: rb_inv_def word_le_nat_alt)
qed

lemma Compact_region:
  assumes "rb_inv rb"
  shows "ReadRegion (Compact rb) = ReadRegion rb"
  using Compact_buffer(2) [OF assms]
  by (simp add: ReadRegion_eq [OF Compact_inv [OF assms]] Compact_pos [OF assms])

section \<open>Behaviour of the operations\<close>

lemma WritableSize_less_iff:
  assumes "rb_inv rb" and "length xs < 2 ^ 32"
  shows "WritableSize rb < of_nat (length xs) \<longleftrightarrow>
         unat (rb_capacity rb) < unat (rb_write_pos rb) + length xs"
proof -
  have "WritableSize rb < of_nat (length xs) \<longleftrightarrow>
      unat (rb_capacity rb - rb_write_pos rb) < unat (of_nat (length xs) :: u32)"
    by (simp only: WritableSize_def word_less_nat_alt)
  also have "\<dots> \<longleftrightarrow> unat (rb_capacity rb) - unat (rb_write_pos rb) < length xs"
    using assms by (simp only: unat_of_nat32 rb_inv_def unat_sub_le)
  finally show ?thesis using rb_invD(3) [OF assms(1)] by linarith
qed

text \<open>The final copy of \<^verbatim>\<open>Append\<close>, in a state with room for the data.\<close>

lemma append_copy:
  assumes inv: "rb_inv rb" and room: "unat (rb_write_pos rb) + length xs \<le> unat (rb_capacity rb)"
  defines "rb' \<equiv> rb\<lparr>rb_buffer := mem_write (rb_buffer rb) (unat (rb_write_pos rb)) xs,
                    rb_write_pos := rb_write_pos rb + of_nat (length xs)\<rparr>"
  shows "rb_inv rb'" and "ReadRegion rb' = ReadRegion rb @ xs"
proof -
  note i = rb_invD [OF inv]
  have cap: "unat (rb_capacity rb) < 2 ^ 32" by (rule unat_lt32)
  have w: "unat (rb_write_pos rb') = unat (rb_write_pos rb) + length xs"
    using room cap by (simp add: rb'_def unat_add_lt32 unat_of_nat32)
  have rd: "rb_read_pos rb' = rb_read_pos rb" by (simp add: rb'_def)
  have buf: "length (rb_buffer rb') = unat (rb_capacity rb)"
    using room i(1) by (simp add: rb'_def length_mem_write)
  have le: "unat (rb_read_pos rb) \<le> unat (rb_write_pos rb')" using i(2) w by simp
  then show inv': "rb_inv rb'"
    using buf w room unfolding rb_inv_def word_le_nat_alt by (simp add: rb'_def)
  have "ReadRegion rb' = mem_read (rb_buffer rb') (unat (rb_read_pos rb))
      ((unat (rb_write_pos rb) - unat (rb_read_pos rb)) + length xs)"
    using i(2) w rd by (simp add: ReadRegion_eq [OF inv'])
  also have "\<dots> = mem_read (rb_buffer rb') (unat (rb_read_pos rb))
        (unat (rb_write_pos rb) - unat (rb_read_pos rb)) @
      mem_read (rb_buffer rb') (unat (rb_write_pos rb)) (length xs)"
    unfolding mem_read_split using i(2) by simp
  also have "\<dots> = ReadRegion rb @ xs"
    using i room by (simp add: rb'_def mem_read_write_before mem_read_write_same ReadRegion_eq [OF inv])
  finally show "ReadRegion rb' = ReadRegion rb @ xs" .
qed

lemma Append_success:
  assumes inv: "rb_inv rb" and len: "length xs < 2 ^ 32"
    and fits: "length (ReadRegion rb) + length xs \<le> unat (rb_capacity rb)"
  shows "\<exists>rb'. Append xs rb = (Inr (), rb') \<and> rb_inv rb' \<and>
               ReadRegion rb' = ReadRegion rb @ xs \<and> rb_capacity rb' = rb_capacity rb"
proof (cases "WritableSize rb < of_nat (length xs)")
  case True
  let ?c = "Compact rb"
  have room: "unat (rb_write_pos ?c) + length xs \<le> unat (rb_capacity ?c)"
    using fits by (simp add: Compact_pos [OF inv] length_ReadRegion [OF inv])
  then have "\<not> WritableSize ?c < of_nat (length xs)"
    by (simp add: WritableSize_less_iff [OF Compact_inv [OF inv] len])
  with True show ?thesis
    using append_copy [OF Compact_inv [OF inv] room]
    by (simp add: Append_def Let_def Compact_region [OF inv] Compact_pos [OF inv])
next
  case False
  then have room: "unat (rb_write_pos rb) + length xs \<le> unat (rb_capacity rb)"
    by (simp add: WritableSize_less_iff [OF inv len])
  with False show ?thesis
    using append_copy [OF inv room] by (simp add: Append_def Let_def)
qed

lemma Append_failure:
  assumes inv: "rb_inv rb" and len: "length xs < 2 ^ 32"
    and full: "unat (rb_capacity rb) < length (ReadRegion rb) + length xs"
  shows "\<exists>rb'. Append xs rb = (Inl KResourceExhausted, rb') \<and> rb_inv rb' \<and>
               ReadRegion rb' = ReadRegion rb \<and> rb_capacity rb' = rb_capacity rb"
proof -
  let ?c = "Compact rb"
  have "WritableSize rb < of_nat (length xs)"
    using full by (simp add: WritableSize_less_iff [OF inv len] length_ReadRegion [OF inv])
  moreover have "WritableSize ?c < of_nat (length xs)"
    using full by (simp add: WritableSize_less_iff [OF Compact_inv [OF inv] len]
        Compact_pos [OF inv] length_ReadRegion [OF inv])
  ultimately show ?thesis
    using Compact_inv [OF inv] Compact_region [OF inv] Compact_pos(3) [OF inv]
    by (simp add: Append_def Let_def)
qed

lemma OnRead_spec:
  assumes inv: "rb_inv rb" and le: "unat n \<le> length (ReadRegion rb)"
  shows "rb_inv (OnRead n rb)" and "ReadRegion (OnRead n rb) = drop (unat n) (ReadRegion rb)"
    and "rb_capacity (OnRead n rb) = rb_capacity rb"
proof -
  note i = rb_invD [OF inv]
  let ?r = "rb_read_pos rb + n"
  have le': "unat (rb_read_pos rb) + unat n \<le> unat (rb_write_pos rb)"
    using le i(2) by (simp add: length_ReadRegion [OF inv])
  have r: "unat ?r = unat (rb_read_pos rb) + unat n"
    using le' unat_lt32 [of "rb_write_pos rb"] by (intro unat_add_lt32) linarith
  have "rb_inv (OnRead n rb) \<and> ReadRegion (OnRead n rb) = drop (unat n) (ReadRegion rb)"
  proof (cases "?r = rb_write_pos rb")
    case True
    then have "length (ReadRegion rb) = unat n"
      using r by (simp add: length_ReadRegion [OF inv])
    then have "drop (unat n) (ReadRegion rb) = []" by simp
    with True i(1) show ?thesis
      by (simp add: OnRead_def Let_def rb_inv_def ReadRegion_def mem_read_def)
  next
    case False
    let ?rb = "rb\<lparr>rb_read_pos := ?r\<rparr>"
    have inv': "rb_inv ?rb"
      using i le' r inv unfolding rb_inv_def by (simp add: word_le_nat_alt)
    have "ReadRegion ?rb = drop (unat n) (ReadRegion rb)"
      using r le' unfolding ReadRegion_eq [OF inv'] ReadRegion_eq [OF inv]
      by (simp add: mem_read_def drop_take add.commute)
    with inv' False show ?thesis by (simp add: OnRead_def Let_def)
  qed
  then show "rb_inv (OnRead n rb)" and "ReadRegion (OnRead n rb) = drop (unat n) (ReadRegion rb)"
    by simp_all
  show "rb_capacity (OnRead n rb) = rb_capacity rb" by (simp add: OnRead_def Let_def)
qed

section \<open>The buffer as a byte stream\<close>

text \<open>
  The two entry points its clients use, with the caller's side of the contract as a guard:
  at most 4 GiB per append, and never more bytes marked read than \<^verbatim>\<open>ReadRegion\<close> showed.
\<close>

definition rb_put :: "bytes \<Rightarrow> recv_buffer \<Rightarrow> recv_buffer option" where
  "rb_put xs rb =
     (if length xs < 2 ^ 32
      then (case Append xs rb of (Inr _, rb') \<Rightarrow> Some rb' | (Inl _, _) \<Rightarrow> None) else None)"

definition rb_skip :: "nat \<Rightarrow> recv_buffer \<Rightarrow> recv_buffer option" where
  "rb_skip n rb = (if n \<le> unat (ReadableSize rb) then Some (OnRead (of_nat n) rb) else None)"

lemma ReadableSize_length: "rb_inv rb \<Longrightarrow> unat (ReadableSize rb) = length (ReadRegion rb)"
  by (simp add: length_ReadRegion) (simp add: ReadableSize_def rb_inv_def unat_sub_le)

interpretation rbs: byte_stream ReadRegion rb_inv rb_put rb_skip
proof
  fix s s' d
  assume inv: "rb_inv s" and put: "rb_put d s = Some s'"
  then have len: "length d < 2 ^ 32" by (simp add: rb_put_def split: if_splits)
  show "rb_inv s' \<and> ReadRegion s' = ReadRegion s @ d"
  proof (cases "length (ReadRegion s) + length d \<le> unat (rb_capacity s)")
    case True
    then show ?thesis using Append_success [OF inv len True] put len by (auto simp: rb_put_def)
  next
    case False
    then show ?thesis using Append_failure [OF inv len] put len by (auto simp: rb_put_def)
  qed
next
  fix s s' n
  assume inv: "rb_inv s" and skip: "rb_skip n s = Some s'"
  then have le: "n \<le> length (ReadRegion s)" and s': "s' = OnRead (of_nat n) s"
    by (auto simp: rb_skip_def ReadableSize_length split: if_splits)
  have "length (ReadRegion s) < 2 ^ 32"
    using unat_lt32 [of "ReadableSize s"] by (simp only: ReadableSize_length [OF inv])
  with le have "unat (of_nat n :: u32) = n" by (intro unat_of_nat32) linarith
  with le show "rb_inv s' \<and> n \<le> length (ReadRegion s) \<and> ReadRegion s' = drop n (ReadRegion s)"
    using OnRead_spec [OF inv, of "of_nat n"] by (simp add: s')
qed

section \<open>Properties\<close>

text \<open>\<^verbatim>\<open>Append\<close> stores the data behind the unread bytes exactly when both together fit the
  capacity, whatever the cursor positions (compacting if it has to); otherwise it reports
  \<^verbatim>\<open>kResourceExhausted\<close> and no unread byte is lost. The cursor invariant holds either way.\<close>

theorem recv_buffer_append_spec:
  assumes "rb_inv rb" and "length xs < 2 ^ 32"
  shows "\<exists>rb'. rb_inv rb' \<and> rb_capacity rb' = rb_capacity rb \<and>
    (if length (ReadRegion rb) + length xs \<le> unat (rb_capacity rb)
     then Append xs rb = (Inr (), rb') \<and> ReadRegion rb' = ReadRegion rb @ xs
     else Append xs rb = (Inl KResourceExhausted, rb') \<and> ReadRegion rb' = ReadRegion rb)"
proof (cases "length (ReadRegion rb) + length xs \<le> unat (rb_capacity rb)")
  case True
  with Append_success [OF assms] show ?thesis by auto
next
  case False
  with Append_failure [OF assms] show ?thesis by auto
qed

theorem recv_buffer_append_spec_witness:
  "\<exists>rb'. Append [1, 2, 3] (recv_buffer_new 4) = (Inr (), rb') \<and> ReadRegion rb' = [1, 2, 3]"
  using recv_buffer_append_spec [OF recv_buffer_new_inv [of 4], of "[1, 2, 3]"]
  by (auto simp: recv_buffer_new_def ReadRegion_def mem_read_def)

text \<open>Over any sequence of appends and reads that the buffer accepts, what a reader can still
  see is what was appended, in order, less exactly the bytes already read: the reassembly
  buffer neither drops, repeats nor reorders a byte.\<close>

theorem recv_buffer_stream:
  assumes "run_ops rb_put rb_skip (recv_buffer_new cap) ops = Some rb"
  shows "ReadRegion rb = drop (skip_total ops) (put_bytes ops) \<and>
         skip_total ops \<le> length (put_bytes ops) \<and> length (ReadRegion rb) \<le> unat cap"
proof -
  have new: "ReadRegion (recv_buffer_new cap) = []"
    by (simp add: recv_buffer_new_def ReadRegion_def mem_read_def)
  have cap: "rb_capacity rb' = rb_capacity rb0" if "run_ops rb_put rb_skip rb0 ops = Some rb'"
    for rb0 rb' ops using that
    by (induction ops arbitrary: rb0 rule: stream_ops_induct)
       (auto simp: rb_put_def rb_skip_def Append_def OnRead_def Compact_def Let_def
          split: if_splits option.splits)
  have "rb_inv rb" using rbs.run_ops_invar [OF recv_buffer_new_inv assms] .
  then have "length (ReadRegion rb) \<le> unat (rb_capacity rb)"
    using rb_invD [of rb] by (simp add: length_ReadRegion)
  moreover have "rb_capacity rb = cap" using cap [OF assms] by (simp add: recv_buffer_new_def)
  ultimately show ?thesis
    using rbs.run_ops_content [OF recv_buffer_new_inv assms] new by simp
qed

theorem recv_buffer_stream_witness:
  "ReadRegion (OnRead 2 (snd (Append [7, 8, 9] (recv_buffer_new 4)))) = [9]"
proof -
  have run: "run_ops rb_put rb_skip (recv_buffer_new 4) [Put [7, 8, 9], Skip 2] =
      Some (OnRead 2 (snd (Append [7, 8, 9] (recv_buffer_new 4))))"
    by (simp add: rb_put_def rb_skip_def Append_def WritableSize_def ReadableSize_def
        recv_buffer_new_def)
  show ?thesis using recv_buffer_stream [OF run] by simp
qed

end
