(* ===== verification/Send_Buffer.thy ===== *)
theory Send_Buffer
  imports Prelude
begin

text \<open>
  The outgoing side of the buffer layer (\<^verbatim>\<open>include/servercore/buffer/SendBuffer.h\<close>). A \<^verbatim>\<open>BufferPool\<close> carves \<^verbatim>\<open>SendBuffer\<close>s out of reference-counted
  chunks; a chunk's address is an identifier drawn from a counter, a buffer's pointer an
  offset into its chunk. The mutex makes \<^verbatim>\<open>Allocate\<close> atomic. A release takes no lock: its
  decrement of the counter, its test of \<^verbatim>\<open>Full()\<close> and its hand-back of the chunk are three steps,
  between which other threads may run; whether the hand-back finds the mutex taken is an
  argument of \<^verbatim>\<open>OnChunkUnused\<close>.
\<close>

section \<open>State\<close>

record chunk =
  ch_id :: nat
  ch_mem :: bytes
  ch_offset :: u32
  ch_refs :: u32

record send_buffer =
  sb_owner :: nat
  sb_base :: nat
  sb_alloc :: u32
  sb_written :: u32

record buffer_pool =
  pending_gc :: "nat list"
  active_chunks :: "chunk list"
  free_chunks :: "chunk list"
  chunk_size :: u32
  max_chunks :: u32
  next_chunk :: nat

definition kMaxFreeChunks :: nat where
  "kMaxFreeChunks = 8"

definition buffer_pool_new :: "u32 \<Rightarrow> u32 \<Rightarrow> buffer_pool" where
  "buffer_pool_new csize maxc =
     \<lparr>pending_gc = [], active_chunks = [], free_chunks = [], chunk_size = csize,
      max_chunks = maxc, next_chunk = 0\<rparr>"

definition chunk_new :: "nat \<Rightarrow> u32 \<Rightarrow> chunk" where
  "chunk_new i csize = \<lparr>ch_id = i, ch_mem = replicate (unat csize) 0, ch_offset = 0, ch_refs = 0\<rparr>"

section \<open>Chunk operations\<close>

text \<open>\<^verbatim>\<open>offset_ + size\<close> is a 32-bit sum, and wraps as the source's does.\<close>

definition Open :: "u32 \<Rightarrow> chunk \<Rightarrow> (send_buffer \<times> chunk) option" where
  "Open n c =
     (if ch_offset c + n > of_nat (length (ch_mem c)) then None
      else Some (\<lparr>sb_owner = ch_id c, sb_base = unat (ch_offset c), sb_alloc = n, sb_written = 0\<rparr>,
                 c\<lparr>ch_offset := ch_offset c + n, ch_refs := ch_refs c + 1\<rparr>))"

definition chunk_Reset :: "chunk \<Rightarrow> chunk" where
  "chunk_Reset c = c\<lparr>ch_offset := 0\<rparr>"

definition chunk_Full :: "chunk \<Rightarrow> bool" where
  "chunk_Full c = (ch_offset c \<ge> of_nat (length (ch_mem c)))"

definition chunk_Unused :: "chunk \<Rightarrow> bool" where
  "chunk_Unused c = (ch_refs c = 0)"

section \<open>Pool operations\<close>

definition MoveToFree :: "nat \<Rightarrow> buffer_pool \<Rightarrow> buffer_pool" where
  "MoveToFree i p =
     (case find (\<lambda>c. ch_id c = i) (active_chunks p) of
        None \<Rightarrow> p
      | Some c \<Rightarrow>
          p\<lparr>free_chunks := (if length (free_chunks p) < kMaxFreeChunks
                            then free_chunks p @ [chunk_Reset c] else free_chunks p),
            active_chunks := remove1 c (active_chunks p)\<rparr>)"

definition FlushPendingGc :: "buffer_pool \<Rightarrow> buffer_pool" where
  "FlushPendingGc p = fold MoveToFree (pending_gc p) (p\<lparr>pending_gc := []\<rparr>)"

definition OnChunkUnused :: "bool \<Rightarrow> nat \<Rightarrow> buffer_pool \<Rightarrow> buffer_pool" where
  "OnChunkUnused contended i p =
     (if contended then p\<lparr>pending_gc := pending_gc p @ [i]\<rparr> else MoveToFree i p)"

definition AcquireChunk :: "buffer_pool \<Rightarrow> chunk option \<times> buffer_pool" where
  "AcquireChunk p =
     (if free_chunks p \<noteq> []
      then (Some (last (free_chunks p)), p\<lparr>free_chunks := butlast (free_chunks p)\<rparr>)
      else if length (active_chunks p) \<ge> unat (max_chunks p) then (None, p)
      else (Some (chunk_new (next_chunk p) (chunk_size p)), p\<lparr>next_chunk := Suc (next_chunk p)\<rparr>))"

definition Allocate :: "u32 \<Rightarrow> buffer_pool \<Rightarrow> (core_error + send_buffer) \<times> buffer_pool" where
  "Allocate n p0 =
     (let p = FlushPendingGc p0 in
      case (if active_chunks p = [] then None else Open n (last (active_chunks p))) of
        Some (sb, c) \<Rightarrow> (Inr sb, p\<lparr>active_chunks := butlast (active_chunks p) @ [c]\<rparr>)
      | None \<Rightarrow>
          (case AcquireChunk p of
             (None, p') \<Rightarrow> (Inl KResourceExhausted, p')
           | (Some c, p') \<Rightarrow>
               (case Open n c of
                  None \<Rightarrow> (Inl KResourceExhausted,
                           p'\<lparr>active_chunks := active_chunks p' @ [c]\<rparr>)
                | Some (sb, c') \<Rightarrow> (Inr sb, p'\<lparr>active_chunks := active_chunks p' @ [c']\<rparr>))))"

text \<open>A buffer points into its chunk wherever the pool keeps it; a chunk in neither list has been
  destroyed.\<close>

definition pool_chunks :: "buffer_pool \<Rightarrow> chunk list" where
  "pool_chunks p = active_chunks p @ free_chunks p"

definition find_chunk :: "nat \<Rightarrow> buffer_pool \<Rightarrow> chunk option" where
  "find_chunk i p = find (\<lambda>c. ch_id c = i) (pool_chunks p)"

definition update_chunk :: "nat \<Rightarrow> (chunk \<Rightarrow> chunk) \<Rightarrow> buffer_pool \<Rightarrow> buffer_pool" where
  "update_chunk i f p =
     p\<lparr>active_chunks := map (\<lambda>c. if ch_id c = i then f c else c) (active_chunks p),
       free_chunks := map (\<lambda>c. if ch_id c = i then f c else c) (free_chunks p)\<rparr>"

text \<open>The first step of a release, \<^verbatim>\<open>ref_count_.fetch_sub(1) == 1\<close>: whether the reference was the
  last one. \<^const>\<open>None\<close> is an access to a chunk that has been destroyed.\<close>

definition release_ref :: "nat \<Rightarrow> buffer_pool \<Rightarrow> (bool \<times> buffer_pool) option" where
  "release_ref i p =
     (case find_chunk i p of
        None \<Rightarrow> None
      | Some c \<Rightarrow> Some (ch_refs c = 1, update_chunk i (\<lambda>c. c\<lparr>ch_refs := ch_refs c - 1\<rparr>) p))"

text \<open>The shared-pointer deleter, when no other thread runs in between: drop one reference, and
  hand the chunk back when it was the last one and the chunk is full. The interleaved runs
  below take its steps one at a time.\<close>

definition OnRelease :: "bool \<Rightarrow> send_buffer \<Rightarrow> buffer_pool \<Rightarrow> buffer_pool" where
  "OnRelease contended sb p =
     (case release_ref (sb_owner sb) p of
        None \<Rightarrow> p
      | Some (is_last, p') \<Rightarrow>
          if is_last \<and> (case find_chunk (sb_owner sb) p' of None \<Rightarrow> False | Some c \<Rightarrow> chunk_Full c)
          then OnChunkUnused contended (sb_owner sb) p' else p')"

section \<open>Buffer operations\<close>

definition Writable :: "send_buffer \<Rightarrow> nat \<times> nat" where
  "Writable sb = (sb_base sb + unat (sb_written sb), unat (sb_alloc sb - sb_written sb))"

definition Commit :: "u32 \<Rightarrow> send_buffer \<Rightarrow> send_buffer" where
  "Commit n sb = sb\<lparr>sb_written := sb_written sb + n\<rparr>"

definition sb_Data :: "buffer_pool \<Rightarrow> send_buffer \<Rightarrow> bytes" where
  "sb_Data p sb =
     (case find_chunk (sb_owner sb) p of
        None \<Rightarrow> []
      | Some c \<Rightarrow> mem_read (ch_mem c) (sb_base sb) (unat (sb_written sb)))"

text \<open>The \<^verbatim>\<open>memcpy\<close> into \<^verbatim>\<open>Writable()\<close> that every builder does.\<close>

definition fill_writable :: "bytes \<Rightarrow> send_buffer \<Rightarrow> buffer_pool \<Rightarrow> buffer_pool" where
  "fill_writable xs sb p =
     update_chunk (sb_owner sb) (\<lambda>c. c\<lparr>ch_mem := mem_write (ch_mem c) (fst (Writable sb)) xs\<rparr>) p"

text \<open>The builders' common shape: allocate as many bytes as the message has, copy, commit.\<close>

definition build_buffer :: "bytes \<Rightarrow> buffer_pool \<Rightarrow> send_buffer option \<times> buffer_pool" where
  "build_buffer xs p =
     (case Allocate (of_nat (length xs)) p of
        (Inl _, p') \<Rightarrow> (None, p')
      | (Inr sb, p') \<Rightarrow> (Some (Commit (of_nat (length xs)) sb), fill_writable xs sb p'))"

section \<open>Ownership invariant\<close>

text \<open>\<^verbatim>\<open>live\<close> is the list of buffers whose last reference has not been dropped, oldest first.\<close>

definition owned :: "nat \<Rightarrow> send_buffer list \<Rightarrow> send_buffer list" where
  "owned i live = filter (\<lambda>sb. sb_owner sb = i) live"

definition sb_end :: "send_buffer \<Rightarrow> nat" where
  "sb_end sb = sb_base sb + unat (sb_alloc sb)"

definition chunk_ok :: "u32 \<Rightarrow> send_buffer list \<Rightarrow> chunk \<Rightarrow> bool" where
  "chunk_ok csize live c =
     (ch_offset c \<le> csize \<and>
      unat (ch_refs c) = length (owned (ch_id c) live) \<and>
      sum_list (map (\<lambda>sb. unat (sb_alloc sb)) (owned (ch_id c) live)) \<le> unat (ch_offset c) \<and>
      (\<forall>sb \<in> set (owned (ch_id c) live). sb_end sb \<le> unat (ch_offset c)) \<and>
      sorted_wrt (\<lambda>a b. sb_end a \<le> sb_base b) (owned (ch_id c) live))"

definition pool_ok :: "nat list \<Rightarrow> buffer_pool \<Rightarrow> send_buffer list \<Rightarrow> bool" where
  "pool_ok gc p live =
     (distinct (map ch_id (active_chunks p @ free_chunks p)) \<and>
      (\<forall>c \<in> set (active_chunks p @ free_chunks p).
         ch_id c < next_chunk p \<and> length (ch_mem c) = unat (chunk_size p)) \<and>
      (\<forall>c \<in> set (active_chunks p). chunk_ok (chunk_size p) live c) \<and>
      (\<forall>c \<in> set (free_chunks p). ch_offset c = 0 \<and> ch_refs c = 0) \<and>
      (\<forall>sb \<in> set live. sb_owner sb \<in> ch_id ` set (active_chunks p) \<and>
         0 < unat (sb_alloc sb) \<and> sb_written sb \<le> sb_alloc sb) \<and>
      distinct gc \<and>
      (\<forall>i \<in> set gc. \<exists>c \<in> set (active_chunks p). ch_id c = i \<and> ch_offset c = chunk_size p \<and>
         ch_refs c = 0))"

definition pool_inv :: "buffer_pool \<Rightarrow> send_buffer list \<Rightarrow> bool" where
  "pool_inv p live = pool_ok (pending_gc p) p live"

lemma pool_okI:
  assumes "distinct (map ch_id (active_chunks p @ free_chunks p))"
    and "\<And>c. c \<in> set (active_chunks p @ free_chunks p) \<Longrightarrow>
           ch_id c < next_chunk p \<and> length (ch_mem c) = unat (chunk_size p)"
    and "\<And>c. c \<in> set (active_chunks p) \<Longrightarrow> chunk_ok (chunk_size p) live c"
    and "\<And>c. c \<in> set (free_chunks p) \<Longrightarrow> ch_offset c = 0 \<and> ch_refs c = 0"
    and "\<And>sb. sb \<in> set live \<Longrightarrow> sb_owner sb \<in> ch_id ` set (active_chunks p) \<and>
           0 < unat (sb_alloc sb) \<and> sb_written sb \<le> sb_alloc sb"
    and "distinct gc"
    and "\<And>i. i \<in> set gc \<Longrightarrow> \<exists>c \<in> set (active_chunks p). ch_id c = i \<and>
           ch_offset c = chunk_size p \<and> ch_refs c = 0"
  shows "pool_ok gc p live"
  using assms unfolding pool_ok_def by blast

lemma pool_okD:
  assumes "pool_ok gc p live"
  shows "distinct (map ch_id (active_chunks p @ free_chunks p))"
    and "c \<in> set (active_chunks p @ free_chunks p) \<Longrightarrow>
           ch_id c < next_chunk p \<and> length (ch_mem c) = unat (chunk_size p)"
    and "c \<in> set (active_chunks p) \<Longrightarrow> chunk_ok (chunk_size p) live c"
    and "c \<in> set (free_chunks p) \<Longrightarrow> ch_offset c = 0 \<and> ch_refs c = 0"
    and "sb \<in> set live \<Longrightarrow> sb_owner sb \<in> ch_id ` set (active_chunks p) \<and>
           0 < unat (sb_alloc sb) \<and> sb_written sb \<le> sb_alloc sb"
    and "distinct gc"
    and "i \<in> set gc \<Longrightarrow> \<exists>c \<in> set (active_chunks p). ch_id c = i \<and>
           ch_offset c = chunk_size p \<and> ch_refs c = 0"
  using assms unfolding pool_ok_def by blast+

lemma pool_ok_pending [simp]: "pool_ok gc (p\<lparr>pending_gc := x\<rparr>) live = pool_ok gc p live"
  by (simp add: pool_ok_def)

lemma find_id:
  assumes "distinct (map f xs)" and "c \<in> set xs"
  shows "find (\<lambda>x. f x = f c) xs = Some c"
  using assms by (induction xs) (auto simp: rev_image_eqI)

lemma find_snoc: "(\<forall>d \<in> set xs. \<not> P d) \<Longrightarrow> P c \<Longrightarrow> find P (xs @ [c]) = Some c"
  by (induction xs) auto

lemma pool_find:
  assumes "pool_ok gc p live" and "c \<in> set (active_chunks p)"
  shows "find (\<lambda>x. ch_id x = ch_id c) (active_chunks p) = Some c"
  using find_id [of ch_id "active_chunks p" c] pool_okD(1) [OF assms(1)] assms(2) by simp

lemma pool_find_chunk:
  assumes "pool_ok gc p live" and "c \<in> set (active_chunks p)"
  shows "find_chunk (ch_id c) p = Some c"
  unfolding find_chunk_def pool_chunks_def
  by (rule find_id) (use pool_okD(1) [OF assms(1)] assms(2) in simp_all)

lemma pool_ok_mono:
  assumes "pool_ok gc p live" and "distinct gc'" and "set gc' \<subseteq> set gc"
  shows "pool_ok gc' p live"
  using assms unfolding pool_ok_def by blast

lemma owned_empty_iff: "owned i live = [] \<longleftrightarrow> i \<notin> sb_owner ` set live"
  by (auto simp: owned_def filter_empty_conv)

lemma MoveToFree_pending [simp]: "pending_gc (MoveToFree i p) = pending_gc p"
  by (simp add: MoveToFree_def split: option.splits)

lemma MoveToFree_sizes [simp]:
  "chunk_size (MoveToFree i p) = chunk_size p" "max_chunks (MoveToFree i p) = max_chunks p"
  "next_chunk (MoveToFree i p) = next_chunk p"
  by (simp_all add: MoveToFree_def split: option.splits)

text \<open>Moving an unreferenced chunk to the free list (or dropping it) disturbs no live buffer.\<close>

lemma MoveToFree_ok:
  assumes ok: "pool_ok gc p live" and c: "c \<in> set (active_chunks p)" "ch_refs c = 0"
    and gc: "ch_id c \<notin> set gc'" "set gc' \<subseteq> set gc" "distinct gc'"
  shows "pool_ok gc' (MoveToFree (ch_id c) p) live"
proof -
  note inv = pool_okD [OF ok]
  have none: "owned (ch_id c) live = []" using inv(3) [OF c(1)] c(2) by (simp add: chunk_ok_def)
  have dist: "distinct (active_chunks p)" "distinct (map ch_id (active_chunks p))"
    using inv(1) by (simp_all add: distinct_map)
  define free' where "free' = (if length (free_chunks p) < kMaxFreeChunks
      then free_chunks p @ [chunk_Reset c] else free_chunks p)"
  define p' where "p' = p\<lparr>free_chunks := free', active_chunks := remove1 c (active_chunks p)\<rparr>"
  have act: "set (active_chunks p') = set (active_chunks p) - {c}"
    using dist by (simp add: p'_def)
  have free: "set (free_chunks p') \<subseteq> set (free_chunks p) \<union> {chunk_Reset c}"
    by (auto simp: p'_def free'_def)
  have other: "x \<in> set (active_chunks p')" if "x \<in> set (active_chunks p)" "ch_id x \<noteq> ch_id c" for x
    using that act by auto
  have "pool_ok gc' p' live"
  proof (rule pool_okI)
    have "distinct (map ch_id (remove1 c (active_chunks p)))"
      "ch_id ` set (remove1 c (active_chunks p)) = ch_id ` set (active_chunks p) - {ch_id c}"
      using dist c(1) by (auto simp: distinct_map inj_on_def)
    then show "distinct (map ch_id (active_chunks p' @ free_chunks p'))"
      using inv(1) c(1) by (auto simp: p'_def free'_def chunk_Reset_def)
  next
    fix sb assume "sb \<in> set live"
    then have "sb_owner sb \<in> ch_id ` set (active_chunks p)" "sb_owner sb \<noteq> ch_id c"
      using inv(5) none by (auto simp: owned_empty_iff image_iff)
    then show "sb_owner sb \<in> ch_id ` set (active_chunks p') \<and> 0 < unat (sb_alloc sb) \<and>
        sb_written sb \<le> sb_alloc sb"
      using inv(5) [OF \<open>sb \<in> set live\<close>] other by auto
  next
    fix i assume "i \<in> set gc'"
    then show "\<exists>c \<in> set (active_chunks p'). ch_id c = i \<and> ch_offset c = chunk_size p' \<and> ch_refs c = 0"
      using inv(7) [of i] gc other by (fastforce simp: p'_def)
  qed (use inv(2,3,4) act free c gc in \<open>auto simp: p'_def chunk_Reset_def\<close>)
  moreover have "MoveToFree (ch_id c) p = p'"
    by (simp add: MoveToFree_def pool_find [OF ok c(1)] p'_def free'_def)
  ultimately show ?thesis by simp
qed

lemma FlushPendingGc_ok:
  assumes "pool_ok (pending_gc p @ gc) p live"
  shows "pool_ok gc (FlushPendingGc p) live" "pending_gc (FlushPendingGc p) = []"
proof -
  have "pool_ok (xs @ gc) q live \<Longrightarrow> pool_ok gc (fold MoveToFree xs q) live" for xs q
  proof (induction xs arbitrary: q)
    case (Cons i xs)
    obtain c where c: "c \<in> set (active_chunks q)" "ch_id c = i" "ch_refs c = 0"
      using pool_okD(7) [OF Cons.prems, of i] by auto
    have "pool_ok (xs @ gc) (MoveToFree i q) live"
      using MoveToFree_ok [OF Cons.prems c(1,3), of "xs @ gc"] pool_okD(6) [OF Cons.prems] c(2) by auto
    then show ?case using Cons.IH by simp
  qed simp
  then show "pool_ok gc (FlushPendingGc p) live" using assms by (simp add: FlushPendingGc_def)
  have "pending_gc (fold MoveToFree xs q) = pending_gc q" for xs q
    by (induction xs arbitrary: q) simp_all
  then show "pending_gc (FlushPendingGc p) = []" by (simp add: FlushPendingGc_def)
qed

lemma length_le_sum_list:
  assumes "\<forall>x \<in> set xs. 0 < f x"
  shows "length xs \<le> sum_list (map f xs :: nat list)"
  using assms by (induction xs) (auto simp: Suc_le_eq)

lemma owned_append [simp]: "owned i (xs @ ys) = owned i xs @ owned i ys"
  by (simp add: owned_def)

lemma owned_single [simp]: "owned i [sb] = (if sb_owner sb = i then [sb] else [])"
  by (simp add: owned_def)

text \<open>With no 32-bit wrap-around, \<^verbatim>\<open>Open\<close> succeeds exactly when the request fits.\<close>

lemma Open_iff:
  assumes "length (ch_mem c) = unat csize" "ch_offset c \<le> csize" "unat n + unat csize < 2 ^ 32"
  shows "Open n c = None \<longleftrightarrow> unat csize < unat (ch_offset c) + unat n"
proof -
  have "unat (ch_offset c + n) = unat (ch_offset c) + unat n"
    using assms(2,3) by (intro unat_add_lt32) (simp add: word_le_nat_alt)
  moreover have "of_nat (length (ch_mem c)) = csize" using assms(1) by simp
  ultimately show ?thesis by (simp add: Open_def word_less_nat_alt)
qed

lemma Open_ok:
  assumes ok: "chunk_ok csize live c" and mem: "length (ch_mem c) = unat csize"
    and n: "0 < unat n" "unat n + unat csize < 2 ^ 32"
    and pos: "\<forall>sb \<in> set live. 0 < unat (sb_alloc sb)"
    and op: "Open n c = Some (sb, c')"
  shows "chunk_ok csize (live @ [sb]) c'" "ch_id c' = ch_id c" "ch_mem c' = ch_mem c"
    "sb_owner sb = ch_id c" "sb_alloc sb = n" "sb_written sb = 0" "sb_base sb = unat (ch_offset c)"
proof -
  have off: "ch_offset c \<le> csize" using ok by (simp add: chunk_ok_def)
  have fit: "unat (ch_offset c) + unat n \<le> unat csize"
    using Open_iff [OF mem off n(2)] op by simp
  then have add: "unat (ch_offset c + n) = unat (ch_offset c) + unat n"
    using n(2) by (intro unat_add_lt32) linarith
  show fields: "ch_id c' = ch_id c" "ch_mem c' = ch_mem c" "sb_owner sb = ch_id c" "sb_alloc sb = n"
    "sb_written sb = 0" "sb_base sb = unat (ch_offset c)"
    using op by (auto simp: Open_def split: if_splits)
  have c': "ch_offset c' = ch_offset c + n" "ch_refs c' = ch_refs c + 1"
    using op by (auto simp: Open_def split: if_splits)
  have "length (owned (ch_id c) live) \<le> unat (ch_offset c)"
    using ok length_le_sum_list [of "owned (ch_id c) live" "\<lambda>sb. unat (sb_alloc sb)"] pos
    by (auto simp: chunk_ok_def owned_def)
  then have "unat (ch_refs c) + unat (1 :: u32) < 2 ^ 32" using ok fit n(1) n(2)
    by (simp add: chunk_ok_def)
  then have "unat (ch_refs c + 1) = unat (ch_refs c) + 1" using unat_add_lt32 by fastforce
  then show "chunk_ok csize (live @ [sb]) c'"
    using ok fit unfolding chunk_ok_def fields c'
    by (auto simp: add word_le_nat_alt sb_end_def fields sorted_wrt_append)
qed

lemma chunk_ok_other:
  "sb_owner sb \<noteq> ch_id d \<Longrightarrow> chunk_ok csize (live @ [sb]) d = chunk_ok csize live d"
  by (simp add: chunk_ok_def)

text \<open>Replacing one active chunk by what \<^verbatim>\<open>Open\<close> made of it keeps the pool consistent.\<close>

lemma pool_ok_opened:
  assumes ok: "pool_ok gc p live" and act: "active_chunks p = xs @ [c]"
    and n: "0 < unat n" "unat n + unat (chunk_size p) < 2 ^ 32" and op: "Open n c = Some (sb, c')"
  shows "pool_ok gc (p\<lparr>active_chunks := xs @ [c']\<rparr>) (live @ [sb])"
proof -
  note inv = pool_okD [OF ok]
  have c: "c \<in> set (active_chunks p)" using act by simp
  note o = Open_ok [OF inv(3) [OF c] _ n _ op]
  have mem: "length (ch_mem c) = unat (chunk_size p)" using inv(2) c by simp
  have pos: "\<forall>sb \<in> set live. 0 < unat (sb_alloc sb)" using inv(5) by blast
  note o = o [OF mem pos]
  have diff: "ch_id d \<noteq> ch_id c" if "d \<in> set xs" for d
    using inv(1) that act by (auto simp: image_iff)
  have "ch_offset c \<noteq> chunk_size p"
    using Open_iff [OF mem _ n(2)] inv(3) [OF c] n(1) op by (auto simp: chunk_ok_def)
  then have full: "\<exists>d \<in> set xs. ch_id d = i \<and> ch_offset d = chunk_size p \<and> ch_refs d = 0"
    if "i \<in> set gc" for i using inv(7) [OF that] act by auto
  show ?thesis
  proof (rule pool_okI)
    fix d assume "d \<in> set (active_chunks (p\<lparr>active_chunks := xs @ [c']\<rparr>))"
    then show "chunk_ok (chunk_size (p\<lparr>active_chunks := xs @ [c']\<rparr>)) (live @ [sb]) d"
      using o(1,4) inv(3) [of d] act diff [of d] by (auto simp: chunk_ok_other)
  next
    fix i assume "i \<in> set gc"
    then show "\<exists>d \<in> set (active_chunks (p\<lparr>active_chunks := xs @ [c']\<rparr>)). ch_id d = i \<and>
        ch_offset d = chunk_size (p\<lparr>active_chunks := xs @ [c']\<rparr>) \<and> ch_refs d = 0"
      using full by auto
  qed (use inv(1,2,4,5,6) o n(1) act in \<open>auto simp: image_iff\<close>)
qed

lemma AcquireChunk_ok:
  assumes ok: "pool_ok gc p live" and acq: "AcquireChunk p = (Some c, p')"
  shows "pool_ok gc (p'\<lparr>active_chunks := active_chunks p' @ [c]\<rparr>) live"
    "chunk_size p' = chunk_size p" "pending_gc p' = pending_gc p"
    "length (active_chunks p') = length (active_chunks p)"
proof -
  note inv = pool_okD [OF ok]
  show "chunk_size p' = chunk_size p" "pending_gc p' = pending_gc p"
    "length (active_chunks p') = length (active_chunks p)"
    using acq by (auto simp: AcquireChunk_def split: if_splits)
  have unused: "owned i live = []" if "i \<notin> ch_id ` set (active_chunks p)" for i
    using inv(5) that by (auto simp: owned_empty_iff)
  show "pool_ok gc (p'\<lparr>active_chunks := active_chunks p' @ [c]\<rparr>) live"
  proof (cases "free_chunks p = []")
    case True
    then have p': "c = chunk_new (next_chunk p) (chunk_size p)"
      "p' = p\<lparr>next_chunk := Suc (next_chunk p)\<rparr>"
      using acq by (auto simp: AcquireChunk_def split: if_splits)
    have new: "next_chunk p \<notin> ch_id ` set (active_chunks p)" 
    proof
      assume "next_chunk p \<in> ch_id ` set (active_chunks p)"
      then obtain d where "d \<in> set (active_chunks p)" "next_chunk p = ch_id d" by auto
      with inv(2) [of d] show False by simp
    qed
    with unused have "owned (next_chunk p) live = []" by simp
    then have "chunk_ok (chunk_size p) live c" by (simp add: p' chunk_new_def chunk_ok_def)
    then show ?thesis
      by (intro pool_okI) (use inv new True in \<open>auto simp: p' chunk_new_def less_Suc_eq\<close>)
  next
    case False
    then obtain fs where fs: "free_chunks p = fs @ [c]" "p' = p\<lparr>free_chunks := fs\<rparr>"
      using acq by (cases "free_chunks p" rule: rev_cases) (auto simp: AcquireChunk_def)
    have "ch_id c \<notin> ch_id ` set (active_chunks p)" using inv(1) fs(1) by auto
    then have "chunk_ok (chunk_size p) live c"
      using unused [of "ch_id c"] inv(4) [of c] fs(1) by (simp add: chunk_ok_def)
    then show ?thesis
      by (intro pool_okI) (use inv fs(1) in \<open>auto simp: fs(2)\<close>)
  qed
qed

section \<open>The operations keep the invariant\<close>

lemma Allocate_cases:
  assumes "Allocate n p = (r, p')"
  obtains
    (current) xs c c' sb where "active_chunks (FlushPendingGc p) = xs @ [c]"
      "Open n c = Some (sb, c')" "r = Inr sb"
      "p' = (FlushPendingGc p)\<lparr>active_chunks := xs @ [c']\<rparr>"
  | (exhausted) "AcquireChunk (FlushPendingGc p) = (None, p')" "r = Inl KResourceExhausted"
  | (too_big) c q where "AcquireChunk (FlushPendingGc p) = (Some c, q)" "Open n c = None"
      "r = Inl KResourceExhausted" "p' = q\<lparr>active_chunks := active_chunks q @ [c]\<rparr>"
  | (acquired) c q c' sb where "AcquireChunk (FlushPendingGc p) = (Some c, q)"
      "Open n c = Some (sb, c')" "r = Inr sb" "p' = q\<lparr>active_chunks := active_chunks q @ [c']\<rparr>"
proof -
  let ?p = "FlushPendingGc p"
  show thesis
  proof (cases "if active_chunks ?p = [] then None else Open n (last (active_chunks ?p))")
    case None
    then show thesis using assms that(2-4)
      by (auto simp: Allocate_def Let_def split: prod.splits option.splits)
  next
    case (Some sc)
    then obtain xs c where "active_chunks ?p = xs @ [c]"
      by (cases "active_chunks ?p" rule: rev_cases) (auto split: if_splits)
    then show thesis using Some assms that(1) by (cases sc) (auto simp: Allocate_def Let_def)
  qed
qed

lemma fold_MoveToFree_sizes [simp]:
  "chunk_size (fold MoveToFree gc p) = chunk_size p"
  "max_chunks (fold MoveToFree gc p) = max_chunks p"
  by (induction gc arbitrary: p) simp_all

lemma FlushPendingGc_sizes [simp]:
  "chunk_size (FlushPendingGc p) = chunk_size p" "max_chunks (FlushPendingGc p) = max_chunks p"
  by (simp_all add: FlushPendingGc_def)

lemma Allocate_ok:
  assumes inv: "pool_ok (pending_gc p @ gc) p live"
    and n: "0 < unat n" "unat n + unat (chunk_size p) < 2 ^ 32" and alloc: "Allocate n p = (r, p')"
  shows "pending_gc p' = [] \<and> (case r of Inl e \<Rightarrow> e = KResourceExhausted \<and> pool_ok gc p' live
    | Inr sb \<Rightarrow> pool_ok gc p' (live @ [sb]) \<and> sb_alloc sb = n \<and> sb_written sb = 0)"
  using alloc
proof (cases rule: Allocate_cases)
  note flush = FlushPendingGc_ok [OF inv]
  case (current xs c c' sb)
  then show ?thesis
    using pool_ok_opened [OF flush(1) current(1) n(1) _ current(2)] n(2) flush(2)
    by (auto simp: Open_def split: if_splits)
next
  case exhausted
  then show ?thesis using FlushPendingGc_ok [OF inv]
    by (auto simp: AcquireChunk_def split: if_splits)
next
  case (too_big c q)
  then show ?thesis using AcquireChunk_ok [OF FlushPendingGc_ok(1) [OF inv] too_big(1)]
    FlushPendingGc_ok(2) [OF inv] by simp
next
  case (acquired c q c' sb)
  note acq = AcquireChunk_ok [OF FlushPendingGc_ok(1) [OF inv] acquired(1)]
  have "pool_ok gc (q\<lparr>active_chunks := active_chunks q @ [c']\<rparr>) (live @ [sb])"
    using pool_ok_opened [OF acq(1), of "active_chunks q" c n sb c'] acquired(2) acq(2) n by simp
  then show ?thesis using acquired acq(3) FlushPendingGc_ok(2) [OF inv]
    by (auto simp: Open_def split: if_splits)
qed

lemma Allocate_inv:
  assumes inv: "pool_inv p live" and n: "0 < unat n" "unat n + unat (chunk_size p) < 2 ^ 32"
    and alloc: "Allocate n p = (r, p')"
  shows "case r of Inl e \<Rightarrow> e = KResourceExhausted \<and> pool_inv p' live
    | Inr sb \<Rightarrow> pool_inv p' (live @ [sb]) \<and> sb_alloc sb = n \<and> sb_written sb = 0"
  using Allocate_ok [of p "[]" live n, OF _ n alloc] inv by (auto simp: pool_inv_def split: sum.splits)

lemma sorted_wrt_remove1: "sorted_wrt P xs \<Longrightarrow> sorted_wrt P (remove1 x xs)"
  by (induction xs) (auto dest: set_remove1_subset [THEN subsetD])

lemma owned_remove1: "owned i (remove1 sb live) = remove1 sb (owned i live)"
  by (simp add: owned_def filter_remove1)

lemma chunk_ok_released:
  assumes ok: "chunk_ok csize live c" and sb: "sb \<in> set live" "sb_owner sb = ch_id c"
  shows "chunk_ok csize (remove1 sb live) (c\<lparr>ch_refs := ch_refs c - 1\<rparr>)"
proof -
  have mem: "sb \<in> set (owned (ch_id c) live)" using sb by (simp add: owned_def)
  then have "0 < unat (ch_refs c)" using ok by (auto simp: chunk_ok_def)
  then have "unat (ch_refs c - 1) = unat (ch_refs c) - 1"
    by (intro unat_minus_one) auto
  moreover have "sum_list (map (\<lambda>sb. unat (sb_alloc sb)) (remove1 sb (owned (ch_id c) live)))
      \<le> sum_list (map (\<lambda>sb. unat (sb_alloc sb)) (owned (ch_id c) live))"
    using sum_list_map_remove1 [OF mem] by (metis le_add2)
  ultimately show ?thesis
    using ok mem by (auto simp: chunk_ok_def owned_remove1 length_remove1 sorted_wrt_remove1
        dest: set_remove1_subset [THEN subsetD])
qed

lemma update_chunk_fields [simp]:
  "pending_gc (update_chunk i f p) = pending_gc p"
  "chunk_size (update_chunk i f p) = chunk_size p" "max_chunks (update_chunk i f p) = max_chunks p"
  "next_chunk (update_chunk i f p) = next_chunk p"
  by (simp_all add: update_chunk_def)

lemma active_update_chunk:
  "active_chunks (update_chunk i f p) = map (\<lambda>c. if ch_id c = i then f c else c) (active_chunks p)"
  by (simp add: update_chunk_def)

lemma free_update_chunk:
  assumes "pool_ok gc p live" and "i \<in> ch_id ` set (active_chunks p)"
  shows "free_chunks (update_chunk i f p) = free_chunks p"
proof -
  have "ch_id c \<noteq> i" if "c \<in> set (free_chunks p)" for c
    using pool_okD(1) [OF assms(1)] assms(2) that by (auto simp: image_iff)
  then show ?thesis by (auto simp: update_chunk_def intro!: map_idI)
qed

lemma ids_update_chunk:
  assumes "\<And>c. ch_id (f c) = ch_id c"
  shows "map ch_id (active_chunks (update_chunk i f p)) = map ch_id (active_chunks p)"
  using assms by (simp add: active_update_chunk)

lemma chunk_ok_remove_other:
  "sb_owner sb \<noteq> ch_id d \<Longrightarrow> chunk_ok csize (remove1 sb live) d = chunk_ok csize live d"
proof -
  assume "sb_owner sb \<noteq> ch_id d"
  then have "sb \<notin> set (owned (ch_id d) live)" by (simp add: owned_def)
  then show ?thesis by (simp add: chunk_ok_def owned_remove1 remove1_idem)
qed

lemma released_ok:
  assumes ok: "pool_ok gc p live" and sb: "sb \<in> set live"
  defines "q \<equiv> update_chunk (sb_owner sb) (\<lambda>c. c\<lparr>ch_refs := ch_refs c - 1\<rparr>) p"
  shows "pool_ok gc q (remove1 sb live)"
proof (rule pool_okI)
  note inv = pool_okD [OF ok]
  have ids: "map ch_id (active_chunks q) = map ch_id (active_chunks p)"
    unfolding q_def by (rule ids_update_chunk) simp
  then have idset: "ch_id ` set (active_chunks q) = ch_id ` set (active_chunks p)"
    by (metis set_map)
  have free: "free_chunks q = free_chunks p"
    unfolding q_def by (rule free_update_chunk [OF ok]) (use inv(5) [OF sb] in blast)
  show "distinct (map ch_id (active_chunks q @ free_chunks q))"
    using inv(1) ids by (simp add: free idset flip: set_map)
  show "ch_id c < next_chunk q \<and> length (ch_mem c) = unat (chunk_size q)"
    if c: "c \<in> set (active_chunks q @ free_chunks q)" for c
  proof -
    obtain c0 where "c0 \<in> set (active_chunks p @ free_chunks p)" "ch_id c = ch_id c0"
      "ch_mem c = ch_mem c0"
      using c unfolding free by (fastforce simp: q_def active_update_chunk)
    then show ?thesis using inv(2) [of c0] by (simp add: q_def)
  qed
  show "chunk_ok (chunk_size q) (remove1 sb live) d" if "d \<in> set (active_chunks q)" for d
    using that inv(3) chunk_ok_released [OF _ sb] chunk_ok_remove_other [of sb]
    by (auto simp: q_def active_update_chunk)
  show "sb_owner sb' \<in> ch_id ` set (active_chunks q) \<and> 0 < unat (sb_alloc sb') \<and>
      sb_written sb' \<le> sb_alloc sb'" if "sb' \<in> set (remove1 sb live)" for sb'
    using inv(5) [OF set_remove1_subset [THEN subsetD, OF that]] by (simp add: idset)
  show "ch_offset c = 0 \<and> ch_refs c = 0" if "c \<in> set (free_chunks q)" for c
    using that inv(4) by (simp add: free)
  fix i assume "i \<in> set gc"
  then obtain c where c: "c \<in> set (active_chunks p)" "ch_id c = i" "ch_offset c = chunk_size p"
    "ch_refs c = 0" using inv(7) by blast
  then have "owned i live = []" using inv(3) [OF c(1)] by (simp add: chunk_ok_def)
  then have "sb_owner sb \<noteq> i" using sb by (auto simp: owned_empty_iff)
  then show "\<exists>c \<in> set (active_chunks q). ch_id c = i \<and> ch_offset c = chunk_size q \<and> ch_refs c = 0"
    using c by (auto simp: q_def active_update_chunk intro!: bexI [of _ c])
qed (rule pool_okD(6) [OF ok])

lemma live_owner:
  assumes "pool_ok gc p live" and "sb \<in> set live"
  obtains c where "c \<in> set (active_chunks p)" "ch_id c = sb_owner sb"
    "find_chunk (sb_owner sb) p = Some c"
    "chunk_ok (chunk_size p) live c" "length (ch_mem c) = unat (chunk_size p)" "sb_owner sb \<notin> set gc"
proof -
  note inv = pool_okD [OF assms(1)]
  obtain c where c: "c \<in> set (active_chunks p)" "ch_id c = sb_owner sb"
    using inv(5) [OF assms(2)] by auto
  moreover have "sb_owner sb \<notin> set gc"
  proof
    assume "sb_owner sb \<in> set gc"
    then obtain d where "d \<in> set (active_chunks p)" "ch_id d = sb_owner sb" "ch_refs d = 0"
      using inv(7) by blast
    then have "owned (sb_owner sb) live = []" using inv(3) [of d] by (auto simp: chunk_ok_def)
    then show False using assms(2) by (auto simp: owned_empty_iff)
  qed
  ultimately show thesis using that pool_find_chunk [OF assms(1) c(1)] inv(2,3) by simp
qed

text \<open>The handle a buffer becomes when its owner commits \<^verbatim>\<open>n\<close> bytes; its place is unchanged.\<close>

definition recommit :: "send_buffer \<Rightarrow> u32 \<Rightarrow> send_buffer list \<Rightarrow> send_buffer list" where
  "recommit sb n live = map (\<lambda>s. if s = sb then Commit n sb else s) live"

lemma Commit_fields [simp]:
  "sb_owner (Commit n sb) = sb_owner sb" "sb_base (Commit n sb) = sb_base sb"
  "sb_alloc (Commit n sb) = sb_alloc sb" "sb_end (Commit n sb) = sb_end sb"
  "sb_written (Commit n sb) = sb_written sb + n"
  by (simp_all add: Commit_def sb_end_def)

lemma chunk_ok_recommit [simp]: "chunk_ok csize (recommit sb n live) c = chunk_ok csize live c"
proof -
  define f where "f s = (if s = sb then Commit n sb else s)" for s
  have f: "sb_owner (f s) = sb_owner s" "sb_base (f s) = sb_base s" "sb_alloc (f s) = sb_alloc s"
    "sb_end (f s) = sb_end s" for s by (simp_all add: f_def)
  have "owned i (recommit sb n live) = map f (owned i live)" for i
    by (simp add: owned_def recommit_def filter_map comp_def f flip: f_def)
  then show ?thesis by (simp add: chunk_ok_def sorted_wrt_map comp_def f)
qed

lemma chunk_ok_mem [simp]: "chunk_ok csize live (c\<lparr>ch_mem := m\<rparr>) = chunk_ok csize live c"
  by (simp add: chunk_ok_def)

lemma fill_writable_ok:
  assumes ok: "pool_ok gc p live" and sb: "sb \<in> set live"
    and len: "length xs \<le> snd (Writable sb)"
  shows "pool_ok gc (fill_writable xs sb p) (recommit sb (of_nat (length xs)) live)"
    "unat (sb_written (Commit (of_nat (length xs)) sb)) = unat (sb_written sb) + length xs"
proof -
  note D = pool_okD [OF ok]
  have le: "unat (sb_written sb) + length xs \<le> unat (sb_alloc sb)"
    using len D(5) [OF sb] by (auto simp: Writable_def unat_sub_le word_le_nat_alt)
  then have "unat (of_nat (length xs) :: u32) = length xs"
    using unat_lt32 [of "sb_alloc sb"] by (intro unat_of_nat32) linarith
  then show w: "unat (sb_written (Commit (of_nat (length xs)) sb)) = unat (sb_written sb) + length xs"
    using le unat_lt32 [of "sb_alloc sb"] unat_add_lt32 [of "sb_written sb" "of_nat (length xs)"] by simp
  let ?p = "fill_writable xs sb p" and ?live = "recommit sb (of_nat (length xs)) live"
  have ids: "map ch_id (active_chunks ?p) = map ch_id (active_chunks p)"
    by (simp add: fill_writable_def ids_update_chunk)
  then have idset: "ch_id ` set (active_chunks ?p) = ch_id ` set (active_chunks p)"
    by (metis set_map)
  have free: "free_chunks ?p = free_chunks p"
    unfolding fill_writable_def by (rule free_update_chunk [OF ok]) (use D(5) [OF sb] in blast)
  have fits: "length (mem_write (ch_mem c) (fst (Writable sb)) xs) = length (ch_mem c)"
    if "c \<in> set (active_chunks p)" "ch_id c = sb_owner sb" for c
  proof -
    have "sb_end sb \<le> unat (ch_offset c)" "ch_offset c \<le> chunk_size p"
      using D(3) [OF that(1)] sb that(2) by (auto simp: chunk_ok_def owned_def)
    then show ?thesis using le D(2) [of c] that(1)
      by (intro length_mem_write) (auto simp: Writable_def sb_end_def word_le_nat_alt)
  qed
  show "pool_ok gc ?p ?live"
  proof (rule pool_okI)
    show "distinct (map ch_id (active_chunks ?p @ free_chunks ?p))"
      using D(1) ids idset by (simp add: free)
    show "ch_id c < next_chunk ?p \<and> length (ch_mem c) = unat (chunk_size ?p)"
      if c: "c \<in> set (active_chunks ?p @ free_chunks ?p)" for c
    proof -
      obtain c0 where "c0 \<in> set (active_chunks p @ free_chunks p)" "ch_id c = ch_id c0"
        "length (ch_mem c) = length (ch_mem c0)"
        using c fits unfolding free by (fastforce simp: fill_writable_def active_update_chunk)
      then show ?thesis using D(2) [of c0] by (simp add: fill_writable_def)
    qed
    show "chunk_ok (chunk_size ?p) ?live c" if "c \<in> set (active_chunks ?p)" for c
      using that D(3) by (auto simp: fill_writable_def active_update_chunk)
    show "\<exists>c \<in> set (active_chunks ?p). ch_id c = i \<and> ch_offset c = chunk_size ?p \<and> ch_refs c = 0"
      if i: "i \<in> set gc" for i
    proof -
      obtain c where "c \<in> set (active_chunks p)" "ch_id c = i" "ch_offset c = chunk_size p" "ch_refs c = 0"
        using D(7) [OF i] by blast
      then show ?thesis
        by (intro bexI [of _ "if ch_id c = sb_owner sb
              then c\<lparr>ch_mem := mem_write (ch_mem c) (fst (Writable sb)) xs\<rparr> else c"])
           (auto simp: fill_writable_def active_update_chunk)
    qed
    show "ch_offset c = 0 \<and> ch_refs c = 0" if "c \<in> set (free_chunks ?p)" for c
      using that D(4) by (simp add: free)
    fix s assume "s \<in> set ?live"
    then obtain s0 where "s0 \<in> set live" "s = (if s0 = sb then Commit (of_nat (length xs)) sb else s0)"
      by (auto simp: recommit_def)
    then show "sb_owner s \<in> ch_id ` set (active_chunks ?p) \<and> 0 < unat (sb_alloc s) \<and>
        sb_written s \<le> sb_alloc s"
      using D(5) [of s0] w le by (auto simp: idset word_le_nat_alt)
  qed (rule D(6))
qed

lemma fill_writable_inv:
  assumes "pool_inv p live" and "sb \<in> set live" and "length xs \<le> snd (Writable sb)"
  shows "pool_inv (fill_writable xs sb p) (recommit sb (of_nat (length xs)) live)"
    "unat (sb_written (Commit (of_nat (length xs)) sb)) = unat (sb_written sb) + length xs"
  using fill_writable_ok [OF _ assms(2,3)] assms(1) by (auto simp: pool_inv_def fill_writable_def)

section \<open>What the operations do to the bytes of live buffers\<close>

definition mem_of :: "buffer_pool \<Rightarrow> nat \<Rightarrow> bytes option" where
  "mem_of p = map_of (map (\<lambda>c. (ch_id c, ch_mem c)) (pool_chunks p))"

lemma find_mem_of: "map_option ch_mem (find_chunk i p) = mem_of p i"
proof -
  have "map_option ch_mem (find (\<lambda>c. ch_id c = i) xs) = map_of (map (\<lambda>c. (ch_id c, ch_mem c)) xs) i"
    for xs by (induction xs) auto
  then show ?thesis by (simp add: mem_of_def find_chunk_def)
qed

lemma sb_Data_mem_of:
  "sb_Data p sb = (case mem_of p (sb_owner sb) of None \<Rightarrow> []
     | Some m \<Rightarrow> mem_read m (sb_base sb) (unat (sb_written sb)))"
  by (simp add: sb_Data_def flip: find_mem_of split: option.splits)

lemma mem_of_MoveToFree: "i \<noteq> j \<Longrightarrow> mem_of (MoveToFree j p) i = mem_of p i"
proof -
  assume ij: "i \<noteq> j"
  have "map_of (map (\<lambda>c. (ch_id c, ch_mem c)) (remove1 c xs)) i =
      map_of (map (\<lambda>c. (ch_id c, ch_mem c)) xs) i" if "ch_id c = j" for c xs
    using ij that by (induction xs) auto
  note removed = this
  show ?thesis
  proof (cases "find (\<lambda>c. ch_id c = j) (active_chunks p)")
    case (Some c)
    then have c: "ch_id c = j" by (metis (mono_tags, lifting) find_Some_iff)
    show ?thesis using ij c removed [OF c]
      by (auto simp: MoveToFree_def Some mem_of_def pool_chunks_def chunk_Reset_def map_add_def
          split: option.splits)
  qed (simp add: MoveToFree_def)
qed

lemma mem_of_FlushPendingGc:
  assumes "i \<notin> set (pending_gc p)"
  shows "mem_of (FlushPendingGc p) i = mem_of p i"
proof -
  have "i \<notin> set gc \<Longrightarrow> mem_of (fold MoveToFree gc q) i = mem_of q i" for gc q
    by (induction gc arbitrary: q) (auto simp: mem_of_MoveToFree)
  then show ?thesis using assms by (simp add: FlushPendingGc_def) (simp add: mem_of_def pool_chunks_def)
qed

lemma mem_of_active:
  assumes "i \<in> ch_id ` set (active_chunks p)"
  shows "mem_of p i = map_of (map (\<lambda>c. (ch_id c, ch_mem c)) (active_chunks p)) i"
proof -
  have "map_of (map (\<lambda>c. (ch_id c, ch_mem c)) (active_chunks p)) i \<noteq> None"
    using assms by (simp add: map_of_eq_None_iff image_image)
  then show ?thesis by (auto simp: mem_of_def pool_chunks_def map_add_def)
qed

lemma mem_of_live:
  assumes "pool_inv p live" and "sb \<in> set live"
  obtains c where "mem_of p (sb_owner sb) = Some (ch_mem c)" "c \<in> set (active_chunks p)"
    "ch_id c = sb_owner sb" "chunk_ok (chunk_size p) live c"
    "length (ch_mem c) = unat (chunk_size p)" "sb_owner sb \<notin> set (pending_gc p)"
proof -
  have ok: "pool_ok (pending_gc p) p live" using assms(1) by (simp add: pool_inv_def)
  show thesis
    by (rule live_owner [OF ok assms(2)], rule that) (simp_all flip: find_mem_of)
qed

lemma mem_of_Allocate:
  assumes inv: "pool_inv p live" and sb: "sb \<in> set live" and alloc: "Allocate n p = (r, p')"
  shows "mem_of p' (sb_owner sb) = mem_of p (sb_owner sb)"
proof -
  obtain m where m: "mem_of p (sb_owner sb) = Some m" and "sb_owner sb \<notin> set (pending_gc p)"
    by (rule mem_of_live [OF inv sb])
  then have flush: "mem_of (FlushPendingGc p) (sb_owner sb) = Some m"
    by (simp add: mem_of_FlushPendingGc)
  have act: "sb_owner sb \<in> ch_id ` set (active_chunks (FlushPendingGc p))"
    using FlushPendingGc_ok(1) [of p "[]" live] pool_okD(5) [OF _ sb] inv by (simp add: pool_inv_def)
  have acq: "active_chunks q = active_chunks (FlushPendingGc p)"
    if "AcquireChunk (FlushPendingGc p) = (c, q)" for c q
    using that by (auto simp: AcquireChunk_def split: if_splits)
  have "mem_of p' (sb_owner sb) = Some m"
    using alloc
  proof (cases rule: Allocate_cases)
    case (current xs c c' sb')
    then have "mem_of p' = mem_of (FlushPendingGc p)"
      by (auto simp: mem_of_def pool_chunks_def Open_def split: if_splits)
    then show ?thesis using flush by simp
  next
    case exhausted
    then show ?thesis using flush acq [OF exhausted(1)] by (auto simp: AcquireChunk_def split: if_splits)
  next
    case (too_big c q)
    then show ?thesis using flush acq [OF too_big(1)] act by (simp add: mem_of_active map_add_Some_iff)
  next
    case (acquired c q c' sb')
    then show ?thesis using flush acq [OF acquired(1)] act by (simp add: mem_of_active map_add_Some_iff)
  qed
  then show ?thesis using m by simp
qed

lemma mem_of_update_chunk:
  assumes "\<And>c. ch_id (f c) = ch_id c"
  shows "mem_of (update_chunk i f p) j =
    (if j = i then map_option (\<lambda>c. ch_mem (f c)) (find_chunk i p) else mem_of p j)"
proof -
  have "map_of (map (\<lambda>c. (ch_id c, ch_mem c)) (map (\<lambda>c. if ch_id c = i then f c else c) xs)) j =
      (if j = i then map_option (\<lambda>c. ch_mem (f c)) (find (\<lambda>c. ch_id c = i) xs)
       else map_of (map (\<lambda>c. (ch_id c, ch_mem c)) xs) j)" for xs
    using assms by (induction xs) auto
  moreover have "pool_chunks (update_chunk i f p) = map (\<lambda>c. if ch_id c = i then f c else c) (pool_chunks p)"
    by (simp add: update_chunk_def pool_chunks_def)
  ultimately show ?thesis by (simp add: mem_of_def find_chunk_def)
qed

lemma mem_of_release_ref: "release_ref i p = Some (b, p') \<Longrightarrow> mem_of p' j = mem_of p j"
  using find_mem_of [of i p] by (auto simp: release_ref_def mem_of_update_chunk split: option.splits)

lemma sorted_wrt_pair:
  "sorted_wrt R xs \<Longrightarrow> a \<in> set xs \<Longrightarrow> b \<in> set xs \<Longrightarrow> a \<noteq> b \<Longrightarrow> R a b \<or> R b a"
  by (induction xs) auto

text \<open>Writing into one live buffer extends that buffer and no other.\<close>

lemma sb_Data_fill:
  assumes inv: "pool_inv p live" and sb: "sb \<in> set live" and s: "s \<in> set live"
    and len: "length xs \<le> snd (Writable sb)"
  shows "sb_Data (fill_writable xs sb p) (if s = sb then Commit (of_nat (length xs)) sb else s) =
         (if s = sb then sb_Data p s @ xs else sb_Data p s)"
proof -
  have ok: "pool_ok (pending_gc p) p live" using inv by (simp add: pool_inv_def)
  note D = pool_okD(5) [OF ok]
  have le: "unat (sb_written sb) + length xs \<le> unat (sb_alloc sb)"
    using len D [OF sb] by (auto simp: Writable_def unat_sub_le word_le_nat_alt)
  obtain c where c: "find_chunk (sb_owner sb) p = Some c"
    "ch_id c = sb_owner sb" "chunk_ok (chunk_size p) live c" "length (ch_mem c) = unat (chunk_size p)"
    by (rule live_owner [OF ok sb])
  have mem: "mem_of (fill_writable xs sb p) i = (if i = sb_owner sb
      then Some (mem_write (ch_mem c) (sb_base sb + unat (sb_written sb)) xs) else mem_of p i)" for i
    by (simp add: fill_writable_def mem_of_update_chunk c(1) Writable_def)
  have old: "mem_of p (sb_owner sb) = Some (ch_mem c)" using c(1) by (simp flip: find_mem_of)
  have bound: "sb_end sb \<le> length (ch_mem c)"
    using c(2,3,4) sb by (auto simp: chunk_ok_def owned_def word_le_nat_alt)
  show ?thesis
  proof (cases "s = sb")
    case True
    have "unat (sb_written sb + of_nat (length xs)) = unat (sb_written sb) + length xs"
      using fill_writable_inv(2) [OF inv sb len] by simp
    moreover have "mem_read (mem_write (ch_mem c) (sb_base sb + unat (sb_written sb)) xs) (sb_base sb)
        (unat (sb_written sb) + length xs) =
        mem_read (ch_mem c) (sb_base sb) (unat (sb_written sb)) @ xs"
      unfolding mem_read_split using le bound by (simp add: mem_simps sb_end_def)
    ultimately show ?thesis using True by (simp add: sb_Data_mem_of mem old)
  next
    case False
    have "sb_end s \<le> sb_base sb \<or> sb_end sb \<le> sb_base s" if "sb_owner s = sb_owner sb"
      using sorted_wrt_pair [of _ "owned (ch_id c) live" s sb] c(2,3) s sb that False
      by (auto simp: chunk_ok_def owned_def)
    then show ?thesis using False D [OF s] le bound
      by (auto simp: sb_Data_mem_of mem old sb_end_def word_le_nat_alt
          mem_read_write_before mem_read_write_after)
  qed
qed


section \<open>Interleaved runs of the pool\<close>

text \<open>
  The threads that share a pool take these steps, in any order: a whole \<^verbatim>\<open>Allocate\<close>, which holds
  the mutex; a write into \<^verbatim>\<open>Writable()\<close> with its \<^verbatim>\<open>Commit\<close>; and the three steps of the deleter,
  \<^verbatim>\<open>fetch_sub\<close>, \<^verbatim>\<open>Full()\<close> and \<^verbatim>\<open>OnChunkUnused\<close>. A release that has taken its first or its second
  step is recorded with the chunk it is about and the step it takes next.
\<close>

datatype release_phase = AtFull | AtUnused

type_synonym pool_sys = "buffer_pool \<times> send_buffer list \<times> (nat \<times> release_phase) list"

datatype pool_call = CallAllocate u32 | CallWrite send_buffer bytes | CallFetchSub send_buffer
  | CallFull nat | CallOnChunkUnused bool nat

fun pool_exec :: "pool_call \<Rightarrow> pool_sys \<Rightarrow> pool_sys option" where
  "pool_exec (CallAllocate n) (p, live, rel) =
     (case Allocate n p of
        (Inl _, p') \<Rightarrow> Some (p', live, rel)
      | (Inr sb, p') \<Rightarrow> Some (p', live @ [sb], rel))"
| "pool_exec (CallWrite sb xs) (p, live, rel) =
     (if sb \<in> set live \<and> length xs \<le> snd (Writable sb)
      then Some (fill_writable xs sb p, recommit sb (of_nat (length xs)) live, rel) else None)"
| "pool_exec (CallFetchSub sb) (p, live, rel) =
     (if sb \<in> set live
      then (case release_ref (sb_owner sb) p of
              None \<Rightarrow> None
            | Some (is_last, p') \<Rightarrow>
                Some (p', remove1 sb live, if is_last then rel @ [(sb_owner sb, AtFull)] else rel))
      else None)"
| "pool_exec (CallFull i) (p, live, rel) =
     (if (i, AtFull) \<in> set rel
      then (case find_chunk i p of
              None \<Rightarrow> None
            | Some c \<Rightarrow> Some (p, live, remove1 (i, AtFull) rel @ (if chunk_Full c then [(i, AtUnused)] else [])))
      else None)"
| "pool_exec (CallOnChunkUnused contended i) (p, live, rel) =
     (if (i, AtUnused) \<in> set rel
      then Some (OnChunkUnused contended i p, live, remove1 (i, AtUnused) rel) else None)"

fun pool_run :: "pool_call list \<Rightarrow> pool_sys \<Rightarrow> pool_sys option" where
  "pool_run [] s = Some s"
| "pool_run (c # cs) s = (case pool_exec c s of None \<Rightarrow> None | Some s' \<Rightarrow> pool_run cs s')"

definition at_phase :: "release_phase \<Rightarrow> (nat \<times> release_phase) list \<Rightarrow> nat list" where
  "at_phase ph rel = map fst (filter (\<lambda>r. snd r = ph) rel)"

text \<open>What the code relies on without enforcing it: requests are positive and so small that
  \<^verbatim>\<open>offset_ + size\<close> does not wrap, and no thread allocates while another is between its
  \<^verbatim>\<open>fetch_sub\<close> of a last reference and its \<^verbatim>\<open>Full()\<close>.\<close>

definition sized :: "u32 \<Rightarrow> pool_call \<Rightarrow> bool" where
  "sized csize c = (case c of CallAllocate n \<Rightarrow> 0 < unat n \<and> unat n + unat csize < 2 ^ 32 | _ \<Rightarrow> True)"

definition careful :: "pool_call \<Rightarrow> pool_sys \<Rightarrow> bool" where
  "careful c s = (case c of CallAllocate n \<Rightarrow> at_phase AtFull (snd (snd s)) = [] | _ \<Rightarrow> True)"

inductive pool_reach :: "u32 \<Rightarrow> u32 \<Rightarrow> pool_sys \<Rightarrow> bool" for csize maxc where
  start: "pool_reach csize maxc (buffer_pool_new csize maxc, [], [])"
| step: "pool_reach csize maxc s \<Longrightarrow> sized csize c \<Longrightarrow> careful c s \<Longrightarrow> pool_exec c s = Some s' \<Longrightarrow>
    pool_reach csize maxc s'"

text \<open>A release that nothing interrupts is the whole deleter.\<close>

lemma OnRelease_run:
  assumes "sb \<in> set live" and "release_ref (sb_owner sb) p \<noteq> None"
  shows "\<exists>cs. pool_run (CallFetchSub sb # cs) (p, live, []) = Some (OnRelease contended sb p, remove1 sb live, [])"
proof -
  obtain b p' where r: "release_ref (sb_owner sb) p = Some (b, p')" using assms(2) by auto
  have "pool_chunks p' = map (\<lambda>c. if ch_id c = sb_owner sb then c\<lparr>ch_refs := ch_refs c - 1\<rparr> else c) (pool_chunks p)"
    using r by (auto simp: release_ref_def update_chunk_def pool_chunks_def split: option.splits)
  moreover have "find (\<lambda>c. ch_id c = i) (map (\<lambda>c. if ch_id c = i then c\<lparr>ch_refs := ch_refs c - 1\<rparr> else c) xs) = None
      \<longleftrightarrow> find (\<lambda>c. ch_id c = i) xs = None" for i and xs :: "chunk list" by (induction xs) auto
  ultimately obtain c where c: "find_chunk (sb_owner sb) p' = Some c"
    using r by (cases "find_chunk (sb_owner sb) p'") (auto simp: release_ref_def find_chunk_def split: option.splits)
  define cs where "cs = (if b then CallFull (sb_owner sb) #
      (if chunk_Full c then [CallOnChunkUnused contended (sb_owner sb)] else []) else [])"
  have "pool_run (CallFetchSub sb # cs) (p, live, []) = Some (OnRelease contended sb p, remove1 sb live, [])"
    using assms(1) r c by (simp add: cs_def OnRelease_def)
  then show ?thesis by blast
qed

section \<open>The invariant of interleaved runs\<close>

text \<open>A chunk whose release is under way has no reference; past the test it is full as well.\<close>

definition sys_inv :: "pool_sys \<Rightarrow> bool" where
  "sys_inv s = (case s of (p, live, rel) \<Rightarrow>
     pool_ok (pending_gc p @ at_phase AtUnused rel) p live \<and>
     distinct (pending_gc p @ at_phase AtUnused rel @ at_phase AtFull rel) \<and>
     (\<forall>i \<in> set (at_phase AtFull rel). \<exists>c \<in> set (active_chunks p). ch_id c = i \<and> ch_refs c = 0))"

lemma sys_invD:
  assumes "sys_inv (p, live, rel)"
  shows "pool_ok (pending_gc p @ at_phase AtUnused rel) p live"
    "distinct (pending_gc p @ at_phase AtUnused rel @ at_phase AtFull rel)"
    "i \<in> set (at_phase AtFull rel) \<Longrightarrow> \<exists>c \<in> set (active_chunks p). ch_id c = i \<and> ch_refs c = 0"
  using assms unfolding sys_inv_def by auto

lemma sys_inv_pool_inv: "sys_inv (p, live, rel) \<Longrightarrow> pool_inv p live"
  unfolding pool_inv_def by (rule pool_ok_mono [OF sys_invD(1)]) (auto dest: sys_invD(2))

lemma at_phase_append [simp]: "at_phase ph (xs @ ys) = at_phase ph xs @ at_phase ph ys"
  by (simp add: at_phase_def)

lemma at_phase_simps [simp]:
  "at_phase ph [] = []" "at_phase ph ((i, q) # xs) = (if q = ph then i # at_phase ph xs else at_phase ph xs)"
  by (simp_all add: at_phase_def)

lemma at_phase_mem [simp]: "i \<in> set (at_phase ph rel) \<longleftrightarrow> (i, ph) \<in> set rel"
  by (force simp: at_phase_def)

lemma at_phase_remove1: "at_phase q (remove1 (i, ph) rel) = (if q = ph then remove1 i (at_phase q rel) else at_phase q rel)"
  by (induction rel) (auto simp: at_phase_def)

lemma sys_inv_Allocate:
  assumes inv: "sys_inv (p, live, rel)" and n: "0 < unat n" "unat n + unat (chunk_size p) < 2 ^ 32"
    and quiet: "at_phase AtFull rel = []" and alloc: "Allocate n p = (r, p')"
  shows "sys_inv (p', case r of Inl e \<Rightarrow> live | Inr sb \<Rightarrow> live @ [sb], rel)"
  using Allocate_ok [OF sys_invD(1) [OF inv] n alloc] sys_invD(2) [OF inv] quiet
  by (auto simp: sys_inv_def split: sum.splits)

lemma sys_inv_write:
  assumes inv: "sys_inv (p, live, rel)" and sb: "sb \<in> set live" "length xs \<le> snd (Writable sb)"
  shows "sys_inv (fill_writable xs sb p, recommit sb (of_nat (length xs)) live, rel)"
proof -
  let ?f = "\<lambda>c. if ch_id c = sb_owner sb then c\<lparr>ch_mem := mem_write (ch_mem c) (fst (Writable sb)) xs\<rparr> else c"
  have "\<exists>c \<in> set (active_chunks (fill_writable xs sb p)). ch_id c = i \<and> ch_refs c = 0"
    if "i \<in> set (at_phase AtFull rel)" for i
  proof -
    obtain c where "c \<in> set (active_chunks p)" "ch_id c = i" "ch_refs c = 0"
      using sys_invD(3) [OF inv] \<open>i \<in> set (at_phase AtFull rel)\<close> by blast
    then show ?thesis by (intro bexI [of _ "?f c"]) (auto simp: fill_writable_def active_update_chunk)
  qed
  then show ?thesis using fill_writable_ok(1) [OF sys_invD(1) [OF inv] sb] sys_invD(2) [OF inv]
    unfolding sys_inv_def by (simp add: fill_writable_def)
qed

lemma sys_inv_fetch_sub:
  assumes inv: "sys_inv (p, live, rel)" and sb: "sb \<in> set live"
    and rel: "release_ref (sb_owner sb) p = Some (is_last, p')"
  shows "sys_inv (p', remove1 sb live, if is_last then rel @ [(sb_owner sb, AtFull)] else rel)"
proof -
  note ok = sys_invD(1) [OF inv]
  obtain c where c: "c \<in> set (active_chunks p)" "ch_id c = sb_owner sb" "find_chunk (sb_owner sb) p = Some c"
    "chunk_ok (chunk_size p) live c" "sb_owner sb \<notin> set (pending_gc p @ at_phase AtUnused rel)"
    by (rule live_owner [OF ok sb])
  have p': "p' = update_chunk (sb_owner sb) (\<lambda>c. c\<lparr>ch_refs := ch_refs c - 1\<rparr>) p" "is_last = (ch_refs c = 1)"
    using rel c(3) by (auto simp: release_ref_def)
  have ok': "pool_ok (pending_gc p @ at_phase AtUnused rel) p' (remove1 sb live)"
    unfolding p' by (rule released_ok [OF ok sb])
  have "ch_refs c \<noteq> 0" using c(2,4) sb by (auto simp: chunk_ok_def owned_def filter_empty_conv)
  moreover have same: "d = c" if "d \<in> set (active_chunks p)" "ch_id d = sb_owner sb" for d
    using pool_find_chunk [OF ok that(1)] that(2) c(3) by simp
  ultimately have other: "(sb_owner sb, AtFull) \<notin> set rel"
    using sys_invD(3) [OF inv, of "sb_owner sb"] by auto
  have keep: "\<exists>d \<in> set (active_chunks p'). ch_id d = i \<and> ch_refs d = 0" if i: "(i, AtFull) \<in> set rel" for i
  proof -
    obtain d where "d \<in> set (active_chunks p)" "ch_id d = i" "ch_refs d = 0"
      using sys_invD(3) [OF inv, of i] i by auto
    then show ?thesis using i other by (auto simp: p' active_update_chunk intro!: bexI [of _ d])
  qed
  have new: "\<exists>d \<in> set (active_chunks p'). ch_id d = sb_owner sb \<and> ch_refs d = 0" if is_last
    using that c(1,2)
    by (intro bexI [of _ "c\<lparr>ch_refs := ch_refs c - 1\<rparr>"]) (auto simp: p' active_update_chunk image_iff intro!: bexI [of _ c])
  show ?thesis using ok' sys_invD(2) [OF inv] keep new other c(5)
    by (auto simp: sys_inv_def p'(1))
qed

lemma sys_inv_full:
  assumes inv: "sys_inv (p, live, rel)" and i: "(i, AtFull) \<in> set rel" and c: "find_chunk i p = Some c"
  shows "sys_inv (p, live, remove1 (i, AtFull) rel @ (if chunk_Full c then [(i, AtUnused)] else []))"
proof -
  note ok = sys_invD(1) [OF inv] and D = sys_invD(2) [OF inv]
  obtain d where d: "d \<in> set (active_chunks p)" "ch_id d = i" "ch_refs d = 0"
    using sys_invD(3) [OF inv, of i] i by auto
  have "d = c" using pool_find_chunk [OF ok d(1)] d(2) c by simp
  then have full: "ch_offset d = chunk_size p" if "chunk_Full c"
    using that pool_okD(2) [OF ok, of d] pool_okD(3) [OF ok d(1)] d(1) by (auto simp: chunk_Full_def chunk_ok_def)
  have gc: "i \<notin> set (pending_gc p @ at_phase AtUnused rel)" using D i by auto
  have "pool_ok (pending_gc p @ at_phase AtUnused rel @ [i]) p live" if "chunk_Full c"
    using ok gc d full [OF that] D unfolding pool_ok_def by auto
  moreover have "distinct (at_phase AtFull rel)" using D by auto
  ultimately show ?thesis using ok D gc sys_invD(3) [OF inv]
    by (auto simp: sys_inv_def at_phase_remove1)
qed

lemma sys_inv_unused:
  assumes inv: "sys_inv (p, live, rel)" and i: "(i, AtUnused) \<in> set rel"
  shows "sys_inv (OnChunkUnused contended i p, live, remove1 (i, AtUnused) rel)"
proof -
  note ok = sys_invD(1) [OF inv] and D = sys_invD(2) [OF inv]
  let ?rel = "remove1 (i, AtUnused) rel"
  have gc: "set (at_phase AtUnused ?rel) = set (at_phase AtUnused rel) - {i}" "distinct (at_phase AtUnused ?rel)"
    "at_phase AtFull ?rel = at_phase AtFull rel" "i \<notin> set (pending_gc p)" "(i, AtFull) \<notin> set rel"
    "i \<in> set (at_phase AtUnused rel)"
    using D i by (auto simp: at_phase_remove1)
  obtain c where c: "c \<in> set (active_chunks p)" "ch_id c = i" "ch_refs c = 0"
    using pool_okD(7) [OF ok, of i] i by auto
  have moved: "pool_ok (pending_gc p @ at_phase AtUnused ?rel) (MoveToFree i p) live"
    using MoveToFree_ok [OF ok c(1,3), of "pending_gc p @ at_phase AtUnused ?rel"] gc D c(2) by auto
  have queued: "pool_ok ((pending_gc p @ [i]) @ at_phase AtUnused ?rel) p live"
    by (rule pool_ok_mono [OF ok]) (use gc D i in auto)
  have keep: "\<exists>d \<in> set (active_chunks (MoveToFree i p)). ch_id d = j \<and> ch_refs d = 0" if j: "(j, AtFull) \<in> set rel" for j
  proof -
    obtain d where d: "d \<in> set (active_chunks p)" "ch_id d = j" "ch_refs d = 0"
      using sys_invD(3) [OF inv, of j] j by auto
    have "d \<noteq> c" using d(2) c(2) j gc(5) by auto
    then have "d \<in> set (active_chunks (MoveToFree i p))"
      using d(1) pool_find [OF ok c(1)] c(2) by (simp add: MoveToFree_def in_set_remove1)
    then show ?thesis using d by blast
  qed
  have dist: "distinct (pending_gc p @ at_phase AtUnused ?rel @ at_phase AtFull rel)"
    "distinct ((pending_gc p @ [i]) @ at_phase AtUnused ?rel @ at_phase AtFull rel)"
    using D gc i by auto
  show ?thesis
  proof (cases contended)
    case True
    have "\<exists>d \<in> set (active_chunks p). ch_id d = j \<and> ch_refs d = 0" if "j \<in> set (at_phase AtFull rel)" for j
      using sys_invD(3) [OF inv that] .
    then show ?thesis using queued dist(2) True by (simp add: sys_inv_def OnChunkUnused_def gc(3))
  next
    case False
    then show ?thesis using moved dist(1) keep by (simp add: sys_inv_def OnChunkUnused_def gc(3))
  qed
qed

lemma pool_exec_inv:
  assumes "sys_inv s" and "sized (chunk_size (fst s)) c" and "careful c s" and "pool_exec c s = Some s'"
  shows "sys_inv s'"
proof -
  obtain p live rel where s: "s = (p, live, rel)" by (cases s)
  show ?thesis
  proof (cases c)
    case (CallAllocate n)
    obtain r p' where "Allocate n p = (r, p')" by fastforce
    then show ?thesis using sys_inv_Allocate [of p live rel n r p'] assms CallAllocate
      by (auto simp: s sized_def careful_def split: sum.splits)
  next
    case (CallFull i)
    then show ?thesis using sys_inv_full [of p live rel i] assms
      by (auto simp: s split: if_splits option.splits)
  qed (use assms in \<open>auto simp: s split: if_splits option.splits
         intro: sys_inv_write sys_inv_fetch_sub sys_inv_unused\<close>)
qed

lemma Allocate_sizes: "chunk_size (snd (Allocate n p)) = chunk_size p"
proof -
  obtain r p' where a: "Allocate n p = (r, p')" by fastforce
  from a have "chunk_size p' = chunk_size p"
    by (cases rule: Allocate_cases) (auto simp: AcquireChunk_def split: if_splits)
  then show ?thesis by (simp add: a)
qed

lemma pool_exec_sizes: "pool_exec c (p, live, rel) = Some (p', live', rel') \<Longrightarrow> chunk_size p' = chunk_size p"
proof (cases c)
  case (CallAllocate n)
  moreover assume "pool_exec c (p, live, rel) = Some (p', live', rel')"
  ultimately show ?thesis
    using Allocate_sizes [of n p] by (auto split: prod.splits sum.splits)
qed (auto simp: fill_writable_def release_ref_def OnChunkUnused_def split: if_splits option.splits)

lemma pool_reach_sys_inv: "pool_reach csize maxc s \<Longrightarrow> sys_inv s \<and> chunk_size (fst s) = csize"
proof (induction rule: pool_reach.induct)
  case start
  then show ?case by (simp add: sys_inv_def pool_ok_def buffer_pool_new_def)
next
  case (step s c s')
  then show ?case using pool_exec_inv [of s c s']
    by (cases s; cases s') (auto dest: pool_exec_sizes)
qed

lemma pool_reach_inv: "pool_reach csize maxc (p, live, rel) \<Longrightarrow> pool_inv p live"
  using pool_reach_sys_inv sys_inv_pool_inv by blast


lemma build_buffer_ok:
  assumes inv: "pool_inv p live" and len: "0 < length xs" "length xs + unat (chunk_size p) < 2 ^ 32"
    and build: "build_buffer xs p = (Some sb, p')"
  shows "pool_inv p' (live @ [sb])" "sb_Data p' sb = xs" "s \<in> set live \<Longrightarrow> sb_Data p' s = sb_Data p s"
proof -
  let ?n = "of_nat (length xs) :: u32"
  have n: "unat ?n = length xs" using len by (intro unat_of_nat32) linarith
  obtain sb0 q where alloc: "Allocate ?n p = (Inr sb0, q)" and sb: "sb = Commit ?n sb0"
    and p': "p' = fill_writable xs sb0 q"
    using build by (auto simp: build_buffer_def split: prod.splits sum.splits)
  have q: "pool_inv q (live @ [sb0])" "sb_alloc sb0 = ?n" "sb_written sb0 = 0"
    using Allocate_inv [OF inv _ _ alloc] len n by auto
  have mem: "sb0 \<in> set (live @ [sb0])" by simp
  have room: "length xs \<le> snd (Writable sb0)" using q n by (simp add: Writable_def)
  have new: "sb0 \<notin> set live"
  proof
    assume "sb0 \<in> set live"
    have ok: "pool_ok (pending_gc q) q (live @ [sb0])" using q(1) by (simp add: pool_inv_def)
    obtain c where "ch_id c = sb_owner sb0" "chunk_ok (chunk_size q) (live @ [sb0]) c"
      by (rule live_owner [OF ok mem])
    then have "sb_end sb0 \<le> sb_base sb0" using \<open>sb0 \<in> set live\<close>
      by (auto simp: chunk_ok_def sorted_wrt_append owned_def)
    then show False using q(2) n len(1) by (simp add: sb_end_def)
  qed
  then have "recommit sb0 ?n (live @ [sb0]) = live @ [sb]" by (auto simp: recommit_def sb intro!: map_idI)
  then show "pool_inv p' (live @ [sb])"
    using fill_writable_inv(1) [OF q(1) mem room] by (simp add: p')
  have "sb_Data q sb0 = []" using q(3) by (simp add: sb_Data_mem_of mem_read_def split: option.splits)
  then show "sb_Data p' sb = xs" using sb_Data_fill [OF q(1) mem mem room] by (simp add: p' sb)
  show "sb_Data p' s = sb_Data p s" if s: "s \<in> set live"
  proof -
    have "s \<noteq> sb0" using s new by blast
    then have "sb_Data p' s = sb_Data q s"
      using sb_Data_fill [OF q(1) mem _ room, of s] s by (simp add: p')
    then show ?thesis using mem_of_Allocate [OF inv s alloc] by (simp add: sb_Data_mem_of)
  qed
qed

section \<open>Properties of the pool\<close>

text \<open>C7: take any interleaving of allocations, writes and the three steps of releases in which
  requests are positive and do not make \<^verbatim>\<open>offset_ + size\<close> wrap, and in which no allocation falls
  between a release's \<^verbatim>\<open>fetch_sub\<close> of a last reference and its \<^verbatim>\<open>Full()\<close>. Two live send buffers
  then never share a byte, and every live buffer lies inside the chunk that owns it, which is
  still an active chunk of the pool.\<close>

theorem live_buffers_disjoint:
  assumes "pool_reach csize maxc (p, live, rel)" and "a \<in> set live" and "b \<in> set live"
  shows "(\<exists>c \<in> set (active_chunks p). ch_id c = sb_owner a \<and> sb_end a \<le> length (ch_mem c)) \<and>
    (a \<noteq> b \<and> sb_owner a = sb_owner b \<longrightarrow> sb_end a \<le> sb_base b \<or> sb_end b \<le> sb_base a)"
proof -
  have ok: "pool_ok (pending_gc p) p live" using pool_reach_inv [OF assms(1)] by (simp add: pool_inv_def)
  obtain c where c: "c \<in> set (active_chunks p)" "ch_id c = sb_owner a"
    "chunk_ok (chunk_size p) live c" "length (ch_mem c) = unat (chunk_size p)"
    by (rule live_owner [OF ok assms(2)])
  then have "sb_end a \<le> length (ch_mem c)" using assms(2)
    by (auto simp: chunk_ok_def owned_def word_le_nat_alt)
  moreover have "sb_end a \<le> sb_base b \<or> sb_end b \<le> sb_base a" if "a \<noteq> b" "sb_owner a = sb_owner b"
    using sorted_wrt_pair [of _ "owned (ch_id c) live" a b] c(2,3) assms(2,3) that
    by (auto simp: chunk_ok_def owned_def)
  ultimately show ?thesis using c by blast
qed

text \<open>A pool with 8-byte chunks after two allocations.\<close>

definition demo_a :: send_buffer where
  "demo_a = \<lparr>sb_owner = 0, sb_base = 0, sb_alloc = 3, sb_written = 0\<rparr>"

definition demo_b :: send_buffer where
  "demo_b = \<lparr>sb_owner = 0, sb_base = 3, sb_alloc = 2, sb_written = 0\<rparr>"

definition demo_pool :: buffer_pool where
  "demo_pool = snd (Allocate 2 (snd (Allocate 3 (buffer_pool_new 8 4))))"

lemma demo_reach: "pool_reach 8 4 (demo_pool, [demo_a, demo_b], [])"
proof -
  have a: "pool_exec (CallAllocate 3) (buffer_pool_new 8 4, [], []) =
      Some (snd (Allocate 3 (buffer_pool_new 8 4)), [demo_a], [])"
    unfolding demo_a_def by code_simp
  have b: "pool_exec (CallAllocate 2) (snd (Allocate 3 (buffer_pool_new 8 4)), [demo_a], []) =
      Some (demo_pool, [demo_a, demo_b], [])"
    unfolding demo_a_def demo_b_def demo_pool_def by code_simp
  have ok: "sized 8 (CallAllocate 3)" "sized 8 (CallAllocate 2)" "careful (CallAllocate n) (p, live, [])"
    for n p live by (simp_all add: sized_def careful_def)
  show ?thesis
    by (rule pool_reach.step [OF pool_reach.step [OF pool_reach.start ok(1) _ a] ok(2) _ b])
       (simp_all add: ok(3))
qed

theorem live_buffers_disjoint_witness:
  "demo_a \<noteq> demo_b \<and> sb_owner demo_a = sb_owner demo_b \<and>
   (sb_end demo_a \<le> sb_base demo_b \<or> sb_end demo_b \<le> sb_base demo_a)"
  using live_buffers_disjoint [OF demo_reach, of demo_a demo_b] by (simp add: demo_a_def demo_b_def)

text \<open>C8: from every state that such an interleaving reaches, no step of any thread, an allocation
  of whatever size and at whatever moment included, changes the committed bytes of a buffer that
  is live before and after it: only a write to that very buffer does.\<close>

theorem live_data_stable:
  assumes reach: "pool_reach csize maxc (p, live, rel)"
    and step: "pool_exec c (p, live, rel) = Some (p', live', rel')"
    and s: "s \<in> set live" "s \<in> set live'"
  shows "sb_Data p' s = sb_Data p s"
proof -
  have sys: "sys_inv (p, live, rel)" using pool_reach_sys_inv [OF reach] by blast
  have inv: "pool_inv p live" by (rule pool_reach_inv [OF reach])
  show ?thesis
  proof (cases c)
    case (CallAllocate n)
    then show ?thesis using step mem_of_Allocate [OF inv s(1), of n]
      by (auto simp: sb_Data_mem_of split: prod.splits sum.splits)
  next
    case (CallWrite sb xs)
    then have sb: "sb \<in> set live" "length xs \<le> snd (Writable sb)"
      and eqs: "p' = fill_writable xs sb p" "live' = recommit sb (of_nat (length xs)) live"
      using step by (auto split: if_splits)
    have "xs = []" if "Commit (of_nat (length xs)) sb = sb"
      using fill_writable_inv(2) [OF inv sb] unfolding that by simp
    then have "s \<noteq> sb \<or> xs = []" using s(2) eqs(2) by (auto simp: recommit_def split: if_splits)
    then show ?thesis
      using sb_Data_fill [OF inv sb(1) s(1) sb(2)] eqs(1) by (auto simp: Commit_def split: if_splits)
  next
    case (CallFetchSub sb)
    then show ?thesis using step mem_of_release_ref [of "sb_owner sb" p]
      by (auto simp: sb_Data_mem_of split: if_splits option.splits)
  next
    case (CallOnChunkUnused contended i)
    then have i: "(i, AtUnused) \<in> set rel" and p': "p' = OnChunkUnused contended i p"
      using step by (auto split: if_splits)
    obtain d where "sb_owner s \<notin> set (pending_gc p @ at_phase AtUnused rel)"
      by (rule live_owner [OF sys_invD(1) [OF sys] s(1)])
    then have "sb_owner s \<noteq> i" using i by auto
    then have "mem_of p' (sb_owner s) = mem_of p (sb_owner s)"
      using mem_of_MoveToFree [of "sb_owner s" i p]
      by (simp add: p' OnChunkUnused_def mem_of_def pool_chunks_def)
    then show ?thesis by (simp add: sb_Data_mem_of)
  qed (use step in \<open>auto split: if_splits option.splits\<close>)
qed

theorem live_data_stable_witness:
  "sb_Data (fill_writable [7, 8] demo_b demo_pool) demo_a = sb_Data demo_pool demo_a"
proof -
  have len: "length [7, 8 :: byte] \<le> snd (Writable demo_b)" by code_simp
  have "pool_exec (CallWrite demo_b [7, 8]) (demo_pool, [demo_a, demo_b], []) =
      Some (fill_writable [7, 8] demo_b demo_pool,
        recommit demo_b (of_nat (length [7, 8 :: byte])) [demo_a, demo_b], [])"
    using len by simp
  then show ?thesis
    by (rule live_data_stable [OF demo_reach]) (simp_all add: recommit_def demo_a_def demo_b_def)
qed



text \<open>What a builder commits is what the transport will send: a buffer built from a message
  holds exactly that message, in a consistent pool, and the other live buffers keep theirs.\<close>

theorem build_buffer_correct:
  assumes "pool_reach csize maxc (p, live, rel)" and "0 < length xs"
    and "length xs + unat (chunk_size p) < 2 ^ 32" and "build_buffer xs p = (Some sb, p')"
  shows "sb_Data p' sb = xs \<and> (\<forall>s \<in> set live. sb_Data p' s = sb_Data p s) \<and> pool_inv p' (live @ [sb])"
  using build_buffer_ok [of p live xs sb p'] pool_reach_inv [OF assms(1)] assms(2-4) by auto

theorem build_buffer_correct_witness:
  "\<exists>sb p'. build_buffer [1, 2, 3] demo_pool = (Some sb, p') \<and> sb_Data p' sb = [1, 2, 3] \<and>
     sb_Data p' demo_a = sb_Data demo_pool demo_a"
proof -
  have some: "fst (build_buffer [1, 2, 3] demo_pool) \<noteq> None" unfolding demo_pool_def by code_simp
  have "chunk_size demo_pool = 8" unfolding demo_pool_def by code_simp
  then show ?thesis
    using some build_buffer_correct [OF demo_reach, of "[1, 2, 3]"]
    by (cases "build_buffer [1, 2, 3] demo_pool") auto
qed

section \<open>Chunks that are never recycled\<close>

text \<open>A client that allocates, and at once releases, \<^verbatim>\<open>k\<close> buffers of \<^verbatim>\<open>n\<close> bytes.\<close>

fun alloc_rounds :: "nat \<Rightarrow> u32 \<Rightarrow> buffer_pool \<Rightarrow> buffer_pool" where
  "alloc_rounds 0 n p = p"
| "alloc_rounds (Suc k) n p =
     (case Allocate n p of
        (Inl _, p') \<Rightarrow> p'
      | (Inr sb, p') \<Rightarrow> alloc_rounds k n (OnRelease False sb p'))"

definition parked :: "u32 \<Rightarrow> nat \<Rightarrow> u32 \<Rightarrow> u32 \<Rightarrow> buffer_pool \<Rightarrow> bool" where
  "parked n k csize maxc p =
     (pending_gc p = [] \<and> free_chunks p = [] \<and> chunk_size p = csize \<and> max_chunks p = maxc \<and>
      next_chunk p = k \<and> map ch_id (active_chunks p) = [0..<k] \<and>
      (\<forall>c \<in> set (active_chunks p). ch_offset c = n \<and> length (ch_mem c) = unat csize))"

lemma parked_no_room:
  assumes "parked n k csize maxc p" "n \<le> csize" "unat csize < 2 * unat n"
    "unat n + unat csize < 2 ^ 32" "active_chunks p \<noteq> []"
  shows "Open n (last (active_chunks p)) = None"
  using Open_iff [of "last (active_chunks p)" csize n] assms by (simp add: parked_def)

lemma parked_step:
  assumes p: "parked n k csize maxc p" and k: "k < unat maxc"
    and n: "n < csize" "unat csize < 2 * unat n" "unat n + unat csize < 2 ^ 32"
  obtains sb p' where "Allocate n p = (Inr sb, p')" "parked n (Suc k) csize maxc (OnRelease False sb p')"
proof -
  define c where "c = chunk_new k csize"
  define sb where "sb = \<lparr>sb_owner = k, sb_base = 0, sb_alloc = n, sb_written = 0\<rparr>"
  define c' where "c' = c\<lparr>ch_offset := n, ch_refs := 1\<rparr>"
  define p' where "p' = p\<lparr>next_chunk := Suc k, active_chunks := active_chunks p @ [c']\<rparr>"
  have len: "length (active_chunks p) = k" using p by (metis parked_def length_map length_upt diff_zero)
  have op: "Open n c = Some (sb, c')"
    using n(1) by (simp add: Open_def c_def chunk_new_def sb_def c'_def not_less)
  have "(if active_chunks p = [] then None else Open n (last (active_chunks p))) = None"
    using parked_no_room [OF p _ n(2,3)] n(1) by simp
  moreover have "AcquireChunk p = (Some c, p\<lparr>next_chunk := Suc k\<rparr>)"
    using p k len by (simp add: AcquireChunk_def parked_def c_def)
  moreover have "FlushPendingGc p = p" using p by (simp add: FlushPendingGc_def parked_def)
  ultimately have alloc: "Allocate n p = (Inr sb, p')"
    using op by (simp add: Allocate_def Let_def p'_def)
  have ids: "ch_id d \<noteq> k" if "d \<in> set (active_chunks p)" for d
  proof -
    have "map ch_id (active_chunks p) = [0..<k]" using p by (simp add: parked_def)
    then have "ch_id ` set (active_chunks p) = {0..<k}" by (metis set_map set_upt)
    then show ?thesis using that by auto
  qed
  have c'k: "ch_id c' = k" "ch_offset c' = n" "ch_refs c' = 1" "length (ch_mem c') = unat csize"
    by (simp_all add: c'_def c_def chunk_new_def)
  let ?dec = "\<lambda>c. c\<lparr>ch_refs := ch_refs c - 1\<rparr>"
  have "map (\<lambda>d. if ch_id d = k then ?dec d else d) (active_chunks p) = active_chunks p"
    using ids by (intro map_idI) simp
  then have upd: "update_chunk k ?dec p' = p'\<lparr>active_chunks := active_chunks p @ [c'\<lparr>ch_refs := 0\<rparr>]\<rparr>"
    using c'k p by (simp add: p'_def parked_def update_chunk_def)
  have find: "find_chunk k (p'\<lparr>active_chunks := active_chunks p @ [d]\<rparr>) = Some d" if "ch_id d = k" for d
    using ids that find_snoc [of "active_chunks p" "\<lambda>d. ch_id d = k" d] p
    by (simp add: find_chunk_def pool_chunks_def p'_def parked_def)
  have "p'\<lparr>active_chunks := active_chunks p @ [c']\<rparr> = p'" by (simp add: p'_def)
  then have "find_chunk k p' = Some c'" using find [OF c'k(1)] by simp
  moreover have "\<not> chunk_Full (c'\<lparr>ch_refs := 0\<rparr>)" using n(1) c'k by (simp add: chunk_Full_def not_le)
  ultimately have rel: "OnRelease False sb p' = p'\<lparr>active_chunks := active_chunks p @ [c'\<lparr>ch_refs := 0\<rparr>]\<rparr>"
    using find [of "c'\<lparr>ch_refs := 0\<rparr>"] c'k by (simp add: OnRelease_def release_ref_def sb_def upd)
  then have "active_chunks (OnRelease False sb p') = active_chunks p @ [c'\<lparr>ch_refs := 0\<rparr>]" by simp
  moreover have "pending_gc (OnRelease False sb p') = []" "free_chunks (OnRelease False sb p') = []"
    "chunk_size (OnRelease False sb p') = csize" "max_chunks (OnRelease False sb p') = maxc"
    "next_chunk (OnRelease False sb p') = Suc k"
    unfolding rel using p by (simp_all add: p'_def parked_def)
  ultimately have "parked n (Suc k) csize maxc (OnRelease False sb p')"
    using p c'k by (simp add: parked_def)
  with alloc show thesis by (rule that)
qed

lemma parked_rounds:
  assumes n: "n < csize" "unat csize < 2 * unat n" "unat n + unat csize < 2 ^ 32"
  shows "parked n j csize maxc p \<Longrightarrow> j + k \<le> unat maxc \<Longrightarrow>
    parked n (j + k) csize maxc (alloc_rounds k n p)"
proof (induction k arbitrary: j p)
  case (Suc k)
  obtain sb p' where "Allocate n p = (Inr sb, p')" "parked n (Suc j) csize maxc (OnRelease False sb p')"
    using parked_step [OF Suc.prems(1) _ n] Suc.prems(2) by auto
  then show ?case using Suc.IH [of "Suc j"] Suc.prems(2) by simp
qed simp

text \<open>A chunk goes back to the free list only if its allocations happen to fill it exactly
  (\<^verbatim>\<open>OnRelease\<close> tests \<^verbatim>\<open>Full()\<close>). With buffers of more than half, but less than all, of the chunk
  size, a pool whose every buffer has been released refuses all further requests once
  \<^verbatim>\<open>max_chunks\<close> of them have been served.\<close>

theorem pool_exhausted_with_no_live_buffer:
  assumes "n < csize" and "unat csize < 2 * unat n" and "unat n + unat csize < 2 ^ 32" and "0 < maxc"
  shows "fst (Allocate n (alloc_rounds (unat maxc) n (buffer_pool_new csize maxc))) = Inl KResourceExhausted"
proof -
  define p where "p = alloc_rounds (unat maxc) n (buffer_pool_new csize maxc)"
  have "parked n 0 csize maxc (buffer_pool_new csize maxc)" by (simp add: parked_def buffer_pool_new_def)
  from parked_rounds [OF assms(1-3) this, of "unat maxc"]
  have p: "parked n (unat maxc) csize maxc p" by (simp add: p_def)
  have len: "length (active_chunks p) = unat maxc"
    using p by (metis parked_def length_map length_upt diff_zero)
  have ne: "active_chunks p \<noteq> []" using len assms(4) by (auto simp: word_less_nat_alt)
  have "Open n (last (active_chunks p)) = None"
    using parked_no_room [OF p _ assms(2,3) ne] assms(1) by simp
  moreover have "AcquireChunk p = (None, p)" using p len by (simp add: AcquireChunk_def parked_def)
  moreover have "FlushPendingGc p = p" using p by (simp add: FlushPendingGc_def parked_def)
  ultimately show ?thesis using ne by (simp add: Allocate_def Let_def flip: p_def)
qed

theorem pool_exhausted_with_no_live_buffer_witness:
  "fst (Allocate 3 (alloc_rounds (unat (2 :: u32)) 3 (buffer_pool_new 4 2))) = Inl KResourceExhausted"
  using pool_exhausted_with_no_live_buffer [of 3 4 2] by simp

text \<open>The bound check of \<^verbatim>\<open>Open\<close> is done modulo \<^verbatim>\<open>2 ^ 32\<close>, so a request near that size slips
  through on any chunk that has been used: the buffer handed out extends past its chunk.\<close>

theorem Open_wraps_around:
  assumes "length (ch_mem c) < 2 ^ 32" and "0 < ch_offset c"
  shows "\<exists>sb c'. Open (- ch_offset c) c = Some (sb, c') \<and> length (ch_mem c) < sb_end sb \<and> ch_offset c' = 0"
proof -
  have "unat (- ch_offset c) = 2 ^ 32 - unat (ch_offset c)"
    using assms(2) by (simp add: unat_sub_if' word_less_nat_alt flip: diff_0)
  then show ?thesis using assms unat_lt32 [of "ch_offset c"] by (simp add: Open_def sb_end_def)
qed

theorem Open_wraps_around_witness:
  "\<exists>sb c'. Open (- 4) \<lparr>ch_id = 0, ch_mem = replicate 8 0, ch_offset = 4, ch_refs = 1\<rparr> =
     Some (sb, c') \<and> 8 < sb_end sb"
proof -
  define c where "c = \<lparr>ch_id = 0, ch_mem = replicate 8 0, ch_offset = 4, ch_refs = 1\<rparr>"
  have "length (ch_mem c) = 8" "ch_offset c = 4" by (simp_all add: c_def)
  then show ?thesis using Open_wraps_around [of c] unfolding c_def [symmetric] by auto
qed

end
