(* ===== verification/Ws_Parser.thy ===== *)
theory Ws_Parser
  imports Byte_Stream
begin

text \<open>
  The WebSocket frame decoder (\<^verbatim>\<open>src/web/ws/WsFrameParser.cpp\<close>, \<^verbatim>\<open>WsFrame.h\<close>). The parser
  object is a record; the two callbacks are modelled by the log of calls made to them. An
  opcode is the byte the source casts to its enumeration, so values outside the enumeration
  stay possible, as they are in C++. \<^verbatim>\<open>ParseBuffer\<close> is the source's loop, one iteration per
  call of \<^verbatim>\<open>ws_step\<close>; it terminates on every input.
\<close>

section \<open>State\<close>

abbreviation kContinuation :: u8 where "kContinuation \<equiv> 0x0"
abbreviation kText :: u8 where "kText \<equiv> 0x1"
abbreviation kBinary :: u8 where "kBinary \<equiv> 0x2"
abbreviation kClose :: u8 where "kClose \<equiv> 0x8"
abbreviation kPing :: u8 where "kPing \<equiv> 0x9"
abbreviation kPong :: u8 where "kPong \<equiv> 0xA"

datatype ws_state = SHeader | SPayloadLen16 | SPayloadLen64 | SMaskKey | SPayload

datatype ws_event = OnFrame u8 bytes | OnError string

record ws_frame =
  fr_fin :: bool
  fr_opcode :: u8
  fr_masked :: bool
  fr_payload_length :: u64
  fr_masking_key :: bytes
  fr_payload :: bytes

record ws_parser =
  ws_st :: ws_state
  ws_current :: ws_frame
  ws_received :: u64
  ws_error :: bool
  ws_frag_opcode :: u8
  ws_frag_buffer :: bytes
  ws_in_fragment :: bool
  ws_buffer :: bytes
  ws_log :: "ws_event list"

definition ws_frame_new :: ws_frame where
  "ws_frame_new = \<lparr>fr_fin = True, fr_opcode = kText, fr_masked = False, fr_payload_length = 0,
     fr_masking_key = [0, 0, 0, 0], fr_payload = []\<rparr>"

definition ws_parser_new :: ws_parser where
  "ws_parser_new = \<lparr>ws_st = SHeader, ws_current = ws_frame_new, ws_received = 0, ws_error = False,
     ws_frag_opcode = kContinuation, ws_frag_buffer = [], ws_in_fragment = False, ws_buffer = [],
     ws_log = []\<rparr>"

section \<open>Operations\<close>

definition ws_Reset :: "ws_parser \<Rightarrow> ws_parser" where
  "ws_Reset w = w\<lparr>ws_st := SHeader, ws_current := ws_frame_new, ws_received := 0, ws_error := False,
     ws_frag_opcode := kContinuation, ws_frag_buffer := [], ws_in_fragment := False, ws_buffer := []\<rparr>"

definition ws_SetError :: "string \<Rightarrow> ws_parser \<Rightarrow> ws_parser" where
  "ws_SetError reason w = w\<lparr>ws_error := True, ws_log := ws_log w @ [OnError reason]\<rparr>"

definition xor_mask :: "bytes \<Rightarrow> bytes \<Rightarrow> bytes" where
  "xor_mask key xs = map (\<lambda>i. (xs ! i) XOR (key ! (i mod 4))) [0..<length xs]"

definition ws_Unmask :: "ws_parser \<Rightarrow> ws_parser" where
  "ws_Unmask w =
     (if \<not> fr_masked (ws_current w) then w
      else w\<lparr>ws_current := (ws_current w)
               \<lparr>fr_payload := xor_mask (fr_masking_key (ws_current w)) (fr_payload (ws_current w))\<rparr>\<rparr>)"

text \<open>\<^verbatim>\<open>std::move(current_.payload)\<close> leaves the vector empty.\<close>

definition ws_emit :: "u8 \<Rightarrow> bytes \<Rightarrow> ws_parser \<Rightarrow> ws_parser" where
  "ws_emit op xs w = w\<lparr>ws_log := ws_log w @ [OnFrame op xs]\<rparr>"

definition ws_take_payload :: "ws_parser \<Rightarrow> ws_parser" where
  "ws_take_payload w = w\<lparr>ws_current := (ws_current w)\<lparr>fr_payload := []\<rparr>\<rparr>"

definition ws_ProcessFrame :: "ws_parser \<Rightarrow> ws_parser" where
  "ws_ProcessFrame w =
     (let cur = ws_current w; opcode = fr_opcode cur in
      if opcode \<ge> kClose then ws_take_payload (ws_emit opcode (fr_payload cur) w)
      else if opcode \<noteq> kContinuation then
        (if fr_fin cur then ws_take_payload (ws_emit opcode (fr_payload cur) w)
         else ws_take_payload (w\<lparr>ws_in_fragment := True, ws_frag_opcode := opcode,
                ws_frag_buffer := fr_payload cur\<rparr>))
      else if \<not> ws_in_fragment w then ws_SetError ''unexpected continuation frame'' w
      else
        (let w1 = w\<lparr>ws_frag_buffer := ws_frag_buffer w @ fr_payload cur\<rparr> in
         if fr_fin cur
         then (ws_emit (ws_frag_opcode w) (ws_frag_buffer w1) w1)
                \<lparr>ws_in_fragment := False, ws_frag_buffer := []\<rparr>
         else w1))"

text \<open>\<^verbatim>\<open>resize\<close> zero-fills; in every use the vector has just been emptied.\<close>

definition ws_resize :: "u64 \<Rightarrow> ws_parser \<Rightarrow> ws_parser" where
  "ws_resize n w =
     w\<lparr>ws_current := (ws_current w)\<lparr>fr_payload := take (unat n) (fr_payload (ws_current w)) @
          replicate (unat n - length (fr_payload (ws_current w))) 0\<rparr>,
       ws_received := 0\<rparr>"

definition set_payload_length :: "u64 \<Rightarrow> ws_parser \<Rightarrow> ws_parser" where
  "set_payload_length n w = w\<lparr>ws_current := (ws_current w)\<lparr>fr_payload_length := n\<rparr>\<rparr>"

definition after_length :: "ws_parser \<Rightarrow> ws_parser" where
  "after_length w = w\<lparr>ws_st := if fr_masked (ws_current w) then SMaskKey else SPayload\<rparr>"

definition kMaxPayload :: u64 where
  "kMaxPayload = 16 * 1024 * 1024"

definition be64 :: "bytes \<Rightarrow> u64" where
  "be64 xs = fold (\<lambda>b acc. (push_bit 8 acc) OR ucast b) xs 0"

text \<open>
  One iteration of the loop on the unread bytes \<^verbatim>\<open>p + consumed\<close> (never empty here): the new
  state and the number of bytes consumed, or \<^term>\<open>None\<close> where the source returns for want of
  input.
\<close>

definition ws_step_header :: "ws_parser \<Rightarrow> bytes \<Rightarrow> (ws_parser \<times> nat) option" where
  "ws_step_header w rest =
     (if length rest < 2 then None
      else
        let b0 = rest ! 0; b1 = rest ! 1; len7 = b1 AND 0x7F;
            w1 = w\<lparr>ws_current := ws_frame_new\<lparr>fr_fin := (b0 AND 0x80 \<noteq> 0), fr_opcode := b0 AND 0x0F,
                    fr_masked := (b1 AND 0x80 \<noteq> 0)\<rparr>\<rparr>
        in
        if len7 < 126 then
          (let w2 = set_payload_length (ucast len7) w1 in
           if len7 = 0 then
             (if b1 AND 0x80 \<noteq> 0 then Some (w2\<lparr>ws_st := SMaskKey\<rparr>, 2)
              else Some ((ws_ProcessFrame (w2\<lparr>ws_received := 0\<rparr>))\<lparr>ws_st := SHeader\<rparr>, 2))
           else Some (after_length (ws_resize (ucast len7) w2), 2))
        else if len7 = 126 then Some (w1\<lparr>ws_st := SPayloadLen16\<rparr>, 2)
        else Some (w1\<lparr>ws_st := SPayloadLen64\<rparr>, 2))"

definition ws_step_len16 :: "ws_parser \<Rightarrow> bytes \<Rightarrow> (ws_parser \<times> nat) option" where
  "ws_step_len16 w rest =
     (if length rest < 2 then None
      else
        let n = (push_bit 8 (ucast (rest ! 0))) OR ucast (rest ! 1) in
        Some (after_length (ws_resize n (set_payload_length n w)), 2))"

definition ws_step_len64 :: "ws_parser \<Rightarrow> bytes \<Rightarrow> (ws_parser \<times> nat) option" where
  "ws_step_len64 w rest =
     (if length rest < 8 then None
      else
        let n = be64 (take 8 rest); w1 = set_payload_length n w in
        if n > kMaxPayload then Some (ws_SetError ''payload too large'' w1, 8)
        else Some (after_length (ws_resize n w1), 8))"

definition ws_step_mask :: "ws_parser \<Rightarrow> bytes \<Rightarrow> (ws_parser \<times> nat) option" where
  "ws_step_mask w rest =
     (if length rest < 4 then None
      else
        let w1 = w\<lparr>ws_current := (ws_current w)\<lparr>fr_masking_key := take 4 rest\<rparr>\<rparr> in
        if fr_payload_length (ws_current w) = 0
        then Some ((ws_ProcessFrame (ws_Unmask (ws_take_payload w1)))\<lparr>ws_st := SHeader\<rparr>, 4)
        else Some (w1\<lparr>ws_st := SPayload\<rparr>, 4))"

definition ws_step_payload :: "ws_parser \<Rightarrow> bytes \<Rightarrow> (ws_parser \<times> nat) option" where
  "ws_step_payload w rest =
     (let remaining = unat (fr_payload_length (ws_current w) - ws_received w);
          to_copy = min remaining (length rest);
          w1 = w\<lparr>ws_current := (ws_current w)\<lparr>fr_payload :=
                   mem_write (fr_payload (ws_current w)) (unat (ws_received w)) (take to_copy rest)\<rparr>,
                 ws_received := ws_received w + of_nat to_copy\<rparr>
      in
      if ws_received w1 = fr_payload_length (ws_current w1)
      then Some ((ws_ProcessFrame (ws_Unmask w1))\<lparr>ws_st := SHeader\<rparr>, to_copy)
      else Some (w1, to_copy))"

definition ws_step :: "ws_parser \<Rightarrow> bytes \<Rightarrow> (ws_parser \<times> nat) option" where
  "ws_step w rest =
     (case ws_st w of
        SHeader \<Rightarrow> ws_step_header w rest
      | SPayloadLen16 \<Rightarrow> ws_step_len16 w rest
      | SPayloadLen64 \<Rightarrow> ws_step_len64 w rest
      | SMaskKey \<Rightarrow> ws_step_mask w rest
      | SPayload \<Rightarrow> ws_step_payload w rest)"

lemmas ws_step_defs = ws_step_header_def ws_step_len16_def ws_step_len64_def ws_step_mask_def
  ws_step_payload_def

lemmas ws_op_defs = ws_emit_def ws_take_payload_def ws_SetError_def ws_Unmask_def ws_resize_def
  set_payload_length_def after_length_def

section \<open>The loop terminates\<close>

lemma ws_step_payload_progress:
  assumes "ws_step_payload w rest = Some (w', k)" and "rest \<noteq> []" and "ws_st w = SPayload"
  shows "k \<le> length rest \<and> (k = 0 \<longrightarrow> ws_st w' = SHeader)"
proof -
  have "ws_st w' = SHeader" if "k = 0"
  proof -
    have "unat (fr_payload_length (ws_current w) - ws_received w) = 0"
      using assms that by (auto simp: ws_step_payload_def Let_def min_def split: if_splits)
    then have "fr_payload_length (ws_current w) = ws_received w" by (simp add: unat_eq_0)
    then show ?thesis using assms(1) that by (auto simp: ws_step_payload_def Let_def)
  qed
  then show ?thesis using assms(1) by (auto simp: ws_step_payload_def Let_def split: if_splits)
qed

lemma ws_step_progress:
  assumes "ws_step w rest = Some (w', k)" and "rest \<noteq> []"
  shows "k \<le> length rest \<and> (k = 0 \<longrightarrow> ws_st w = SPayload \<and> ws_st w' = SHeader)"
proof (cases "ws_st w = SPayload")
  case True
  then show ?thesis using ws_step_payload_progress [of w rest w' k] assms by (simp add: ws_step_def)
next
  case False
  then show ?thesis using assms
    by (auto simp: ws_step_def ws_step_defs Let_def split: ws_state.splits if_splits)
qed

function ws_loop :: "bytes \<Rightarrow> ws_parser \<Rightarrow> nat \<Rightarrow> ws_parser \<times> nat" where
  "ws_loop p w consumed =
     (if consumed < length p \<and> \<not> ws_error w then
        (case ws_step w (drop consumed p) of
           None \<Rightarrow> (w, consumed)
         | Some (w', k) \<Rightarrow> ws_loop p w' (consumed + k))
      else (w, consumed))"
  by pat_completeness auto
termination
proof (relation "measure (\<lambda>(p, w, consumed).
    2 * (length p - consumed) + (if ws_st w = SPayload then 1 else 0))", goal_cases)
  case (2 p w consumed wk w' k)
  then have "drop consumed p \<noteq> []" by simp
  with ws_step_progress [of w "drop consumed p" w' k] 2
  show ?case by auto
qed simp

declare ws_loop.simps [simp del]

definition ws_ParseBuffer :: "ws_parser \<Rightarrow> ws_parser \<times> nat" where
  "ws_ParseBuffer w = ws_loop (ws_buffer w) w 0"

definition ws_Feed :: "bytes \<Rightarrow> ws_parser \<Rightarrow> ws_parser \<times> nat" where
  "ws_Feed data w =
     (if ws_error w then (w, 0)
      else
        let (w1, consumed) = ws_ParseBuffer (w\<lparr>ws_buffer := ws_buffer w @ data\<rparr>) in
        (w1\<lparr>ws_buffer := drop consumed (ws_buffer w1)\<rparr>, length data))"

section \<open>The loop as a function of the unread bytes\<close>

definition ws_run :: "ws_parser \<Rightarrow> bytes \<Rightarrow> ws_parser \<times> bytes" where
  "ws_run w rest = (case ws_loop rest w 0 of (w', k) \<Rightarrow> (w', drop k rest))"

lemma ws_loop_shift:
  "c \<le> length p \<Longrightarrow> ws_loop p w (c + d) = apsnd ((+) c) (ws_loop (drop c p) w d)"
proof (induction "drop c p" w d rule: ws_loop.induct)
  case (1 w d)
  show ?case
  proof (cases "c + d < length p \<and> \<not> ws_error w")
    case True
    then have "d < length (drop c p) \<and> \<not> ws_error w" by auto
    then show ?thesis using 1 True
      by (subst (1 2) ws_loop.simps)
         (auto simp: add.commute add.left_commute split: option.splits)
  next
    case False
    then show ?thesis using 1(2) by (subst (1 2) ws_loop.simps) auto
  qed
qed

lemma ws_run_simps:
  "ws_run w rest =
     (if rest \<noteq> [] \<and> \<not> ws_error w then
        (case ws_step w rest of
           None \<Rightarrow> (w, rest)
         | Some (w', k) \<Rightarrow> ws_run w' (drop k rest))
      else (w, rest))"
proof (cases "rest \<noteq> [] \<and> \<not> ws_error w")
  case True
  show ?thesis
  proof (cases "ws_step w rest")
    case None
    then show ?thesis using True by (simp add: ws_run_def ws_loop.simps [of rest w 0])
  next
    case (Some wk)
    obtain w' k where wk: "wk = (w', k)" by (cases wk)
    have "k \<le> length rest" using ws_step_progress [of w rest w' k] Some True wk by simp
    then have "ws_loop rest w' (k + 0) = apsnd ((+) k) (ws_loop (drop k rest) w' 0)"
      by (rule ws_loop_shift)
    then show ?thesis using True Some wk
      by (simp add: ws_run_def ws_loop.simps [of rest w 0] add.commute split: prod.splits)
  qed
qed (auto simp: ws_run_def ws_loop.simps)

lemma ws_run_induct [case_names run]:
  assumes "\<And>w rest. (\<And>w' k. rest \<noteq> [] \<Longrightarrow> \<not> ws_error w \<Longrightarrow> ws_step w rest = Some (w', k) \<Longrightarrow>
     P w' (drop k rest)) \<Longrightarrow> P w rest"
  shows "P w rest"
proof (induction "2 * length rest + (if ws_st w = SPayload then 1 else 0)" arbitrary: w rest
    rule: less_induct)
  case less
  show ?case
  proof (rule assms)
    fix w' k assume *: "rest \<noteq> []" "ws_step w rest = Some (w', k)"
    then show "P w' (drop k rest)"
      using ws_step_progress [OF *(2,1)] by (intro less) auto
  qed
qed

text \<open>The loop neither reads nor writes the \<^verbatim>\<open>buffer_\<close> member other than through its argument.\<close>

lemma buffer_commute:
  "ws_emit op xs (w\<lparr>ws_buffer := b\<rparr>) = (ws_emit op xs w)\<lparr>ws_buffer := b\<rparr>"
  "ws_take_payload (w\<lparr>ws_buffer := b\<rparr>) = (ws_take_payload w)\<lparr>ws_buffer := b\<rparr>"
  "ws_SetError e (w\<lparr>ws_buffer := b\<rparr>) = (ws_SetError e w)\<lparr>ws_buffer := b\<rparr>"
  "ws_Unmask (w\<lparr>ws_buffer := b\<rparr>) = (ws_Unmask w)\<lparr>ws_buffer := b\<rparr>"
  "ws_resize n (w\<lparr>ws_buffer := b\<rparr>) = (ws_resize n w)\<lparr>ws_buffer := b\<rparr>"
  "set_payload_length n (w\<lparr>ws_buffer := b\<rparr>) = (set_payload_length n w)\<lparr>ws_buffer := b\<rparr>"
  "after_length (w\<lparr>ws_buffer := b\<rparr>) = (after_length w)\<lparr>ws_buffer := b\<rparr>"
  by (simp_all add: ws_op_defs)

lemma fields_commute:
  "w\<lparr>ws_buffer := b, ws_current := x\<rparr> = w\<lparr>ws_current := x, ws_buffer := b\<rparr>"
  "w\<lparr>ws_buffer := b, ws_st := y\<rparr> = w\<lparr>ws_st := y, ws_buffer := b\<rparr>"
  "w\<lparr>ws_buffer := b, ws_received := n\<rparr> = w\<lparr>ws_received := n, ws_buffer := b\<rparr>"
  "w\<lparr>ws_buffer := b, ws_frag_buffer := xs\<rparr> = w\<lparr>ws_frag_buffer := xs, ws_buffer := b\<rparr>"
  "w\<lparr>ws_buffer := b, ws_in_fragment := f\<rparr> = w\<lparr>ws_in_fragment := f, ws_buffer := b\<rparr>"
  "w\<lparr>ws_buffer := b, ws_frag_opcode := c\<rparr> = w\<lparr>ws_frag_opcode := c, ws_buffer := b\<rparr>"
  by simp_all

lemma ProcessFrame_buffer:
  "ws_ProcessFrame (w\<lparr>ws_buffer := b\<rparr>) = (ws_ProcessFrame w)\<lparr>ws_buffer := b\<rparr>"
  unfolding ws_ProcessFrame_def Let_def by (simp add: buffer_commute fields_commute)

lemma ws_step_buffer:
  "ws_step (w\<lparr>ws_buffer := b\<rparr>) rest =
   map_option (\<lambda>(w', k). (w'\<lparr>ws_buffer := b\<rparr>, k)) (ws_step w rest)"
proof -
  let ?b = "map_option (\<lambda>(w', k). (w'\<lparr>ws_buffer := b\<rparr>, k))"
  have "ws_step_header (w\<lparr>ws_buffer := b\<rparr>) rest = ?b (ws_step_header w rest)"
    unfolding ws_step_header_def Let_def
    by (simp add: ProcessFrame_buffer buffer_commute fields_commute)
  moreover have "ws_step_len16 (w\<lparr>ws_buffer := b\<rparr>) rest = ?b (ws_step_len16 w rest)"
    unfolding ws_step_len16_def Let_def by (simp add: buffer_commute)
  moreover have "ws_step_len64 (w\<lparr>ws_buffer := b\<rparr>) rest = ?b (ws_step_len64 w rest)"
    unfolding ws_step_len64_def Let_def by (simp add: buffer_commute)
  moreover have "ws_step_mask (w\<lparr>ws_buffer := b\<rparr>) rest = ?b (ws_step_mask w rest)"
    unfolding ws_step_mask_def Let_def
    by (simp add: ProcessFrame_buffer buffer_commute fields_commute)
  moreover have "ws_step_payload (w\<lparr>ws_buffer := b\<rparr>) rest = ?b (ws_step_payload w rest)"
    unfolding ws_step_payload_def Let_def
    by (simp add: ProcessFrame_buffer buffer_commute fields_commute)
  ultimately show ?thesis by (simp add: ws_step_def split: ws_state.split)
qed

lemma ws_run_buffer:
  "ws_run (w\<lparr>ws_buffer := b\<rparr>) rest = apfst (\<lambda>w'. w'\<lparr>ws_buffer := b\<rparr>) (ws_run w rest)"
proof (induction w rest rule: ws_run_induct)
  case (run w rest)
  then show ?case
    by (subst (1 2) ws_run_simps) (auto simp: ws_step_buffer split: option.splits)
qed

lemma ws_run_ws_buffer: "ws_run w rest = (w', r) \<Longrightarrow> ws_buffer w' = ws_buffer w"
  using ws_run_buffer [where w = w and b = "ws_buffer w" and rest = rest] by (cases w') auto

lemma ws_Feed_run:
  "ws_Feed data w =
     (if ws_error w then (w, 0)
      else case ws_run w (ws_buffer w @ data) of (w1, r) \<Rightarrow> (w1\<lparr>ws_buffer := r\<rparr>, length data))"
proof (cases "ws_error w")
  case False
  define b where "b = ws_buffer w @ data"
  obtain w1 k where l: "ws_loop b (w\<lparr>ws_buffer := b\<rparr>) 0 = (w1, k)" by fastforce
  have run: "ws_run (w\<lparr>ws_buffer := b\<rparr>) b = (w1, drop k b)" by (simp add: ws_run_def l)
  obtain w2 r where r: "ws_run w b = (w2, r)" by fastforce
  have "w1 = w2\<lparr>ws_buffer := b\<rparr>" "drop k b = r"
    using run ws_run_buffer [where w = w and b = b and rest = b] r by auto
  then show ?thesis using False l r
    by (simp add: ws_Feed_def ws_ParseBuffer_def flip: b_def)
qed (simp add: ws_Feed_def)

section \<open>Invariant\<close>

definition ws_inv :: "ws_parser \<Rightarrow> bool" where
  "ws_inv w =
     (case ws_st w of
        SHeader \<Rightarrow> True
      | SPayloadLen16 \<Rightarrow> fr_payload (ws_current w) = []
      | SPayloadLen64 \<Rightarrow> fr_payload (ws_current w) = []
      | SMaskKey \<Rightarrow> length (fr_payload (ws_current w)) = unat (fr_payload_length (ws_current w)) \<and>
          fr_payload_length (ws_current w) \<le> kMaxPayload \<and>
          (fr_payload_length (ws_current w) \<noteq> 0 \<longrightarrow> ws_received w = 0)
      | SPayload \<Rightarrow> length (fr_payload (ws_current w)) = unat (fr_payload_length (ws_current w)) \<and>
          fr_payload_length (ws_current w) \<le> kMaxPayload \<and>
          ws_received w \<le> fr_payload_length (ws_current w))"

lemma ws_inv_new [simp]: "ws_inv ws_parser_new"
  by (simp add: ws_inv_def ws_parser_new_def)

lemma unat_kMaxPayload: "unat kMaxPayload = 16777216"
  by (simp add: kMaxPayload_def)

lemma len7_le_max: "(ucast (b :: u8) :: u64) \<le> kMaxPayload"
  using byte_lt [of b] by (simp add: word_le_nat_alt unat_ucast8 unat_kMaxPayload)

lemma unat_len16: "unat ((push_bit 8 (ucast (a :: u8))) OR ucast (b :: u8) :: u64) = unat a * 256 + unat b"
  using byte_lt [of a] by (subst shift_or_byte) (simp_all add: unat_ucast8)

lemma len16_le_max: "((push_bit 8 (ucast (a :: u8))) OR ucast (b :: u8) :: u64) \<le> kMaxPayload"
  using byte_lt [of a] byte_lt [of b]
  by (simp add: word_le_nat_alt unat_len16 unat_kMaxPayload)

lemma ws_inv_resized:
  assumes "fr_payload (ws_current w) = []" and "n \<le> kMaxPayload"
  shows "ws_inv (after_length (ws_resize n (set_payload_length n w)))"
  using assms by (simp add: ws_inv_def after_length_def ws_resize_def set_payload_length_def)

lemma payload_bounds:
  assumes "ws_inv w" and "ws_st w = SPayload"
  shows "length (fr_payload (ws_current w)) = unat (fr_payload_length (ws_current w))"
    "unat (ws_received w) \<le> unat (fr_payload_length (ws_current w))"
    "unat (fr_payload_length (ws_current w) - ws_received w) =
     unat (fr_payload_length (ws_current w)) - unat (ws_received w)"
    "k \<le> unat (fr_payload_length (ws_current w) - ws_received w) \<Longrightarrow>
     unat (ws_received w + of_nat k) = unat (ws_received w) + k"
proof -
  have le: "ws_received w \<le> fr_payload_length (ws_current w)"
    using assms by (simp add: ws_inv_def)
  then show "unat (ws_received w) \<le> unat (fr_payload_length (ws_current w))"
    by (simp add: word_le_nat_alt)
  show sub: "unat (fr_payload_length (ws_current w) - ws_received w) =
     unat (fr_payload_length (ws_current w)) - unat (ws_received w)"
    using le by (simp add: unat_sub)
  show "length (fr_payload (ws_current w)) = unat (fr_payload_length (ws_current w))"
    using assms by (simp add: ws_inv_def)
  assume k: "k \<le> unat (fr_payload_length (ws_current w) - ws_received w)"
  moreover have lt: "unat (fr_payload_length (ws_current w)) < 2 ^ 64"
    by (rule order_less_le_trans [OF unsigned_less]) simp
  ultimately have "unat (of_nat k :: u64) = k"
    unfolding sub by (simp add: unat_of_nat take_bit_eq_mod)
  then show "unat (ws_received w + of_nat k) = unat (ws_received w) + k"
    using k lt le unfolding sub by (simp add: unat_plus_if' word_le_nat_alt)
qed

lemma ws_step_inv:
  assumes inv: "ws_inv w" and step: "ws_step w rest = Some (w', k)"
  shows "ws_inv w'"
proof (cases "ws_st w")
  case SHeader
  then have "ws_step_header w rest = Some (w', k)" using step by (simp add: ws_step_def)
  then show ?thesis
    by (auto simp: ws_step_header_def Let_def len7_le_max ws_frame_new_def
        intro: ws_inv_resized split: if_splits)
       (auto simp: ws_inv_def set_payload_length_def)
next
  case SPayloadLen16
  then show ?thesis using step inv
    by (auto simp: ws_step_def ws_step_len16_def Let_def len16_le_max ws_inv_def [of w]
        intro!: ws_inv_resized split: if_splits)
next
  case SPayloadLen64
  then have "ws_step_len64 w rest = Some (w', k)" "fr_payload (ws_current w) = []"
    using step inv by (simp_all add: ws_step_def ws_inv_def)
  then show ?thesis using SPayloadLen64
    by (auto simp: ws_step_len64_def Let_def intro!: ws_inv_resized split: if_splits)
       (simp add: ws_inv_def ws_SetError_def set_payload_length_def)
next
  case SMaskKey
  then show ?thesis using step inv
    by (auto simp: ws_step_def ws_step_mask_def Let_def ws_inv_def split: if_splits)
next
  case SPayload
  define m where "m = min (unat (fr_payload_length (ws_current w) - ws_received w)) (length rest)"
  note b = payload_bounds [OF inv SPayload]
  have m: "unat (ws_received w + of_nat m) = unat (ws_received w) + m"
    "m \<le> unat (fr_payload_length (ws_current w)) - unat (ws_received w)" "m \<le> length rest"
    using b(4) [of m] unfolding m_def b(3) by auto
  have "length (mem_write (fr_payload (ws_current w)) (unat (ws_received w)) (take m rest)) =
      unat (fr_payload_length (ws_current w))"
    using b(1,2) m by (subst length_mem_write) auto
  then show ?thesis using step SPayload inv b(2) m
    by (auto simp: ws_step_def ws_step_payload_def Let_def ws_inv_def word_le_nat_alt
        simp flip: m_def split: if_splits)
qed

section \<open>Independence of the chunking of the input\<close>

lemma ws_step_payload_append:
  assumes inv: "ws_inv w" and st: "ws_st w = SPayload" and step: "ws_step_payload w a = Some (w', k)"
    and err: "\<not> ws_error w"
  shows "ws_step_payload w (a @ b) = Some (w', k) \<or>
    (k = length a \<and> \<not> ws_error w' \<and> ws_st w' = SPayload \<and>
     (\<exists>w'' j. ws_step_payload w (a @ b) = Some (w'', length a + j) \<and> ws_step_payload w' b = Some (w'', j)))"
proof (cases "unat (fr_payload_length (ws_current w) - ws_received w) \<le> length a")
  case True
  define R where "R = unat (fr_payload_length (ws_current w) - ws_received w)"
  have "min R (length (a @ b)) = R" "min R (length a) = R" "take R (a @ b) = take R a"
    using True by (simp_all add: R_def)
  then have "ws_step_payload w (a @ b) = ws_step_payload w a"
    unfolding ws_step_payload_def Let_def R_def [symmetric] by (simp only:)
  then show ?thesis using step by simp
next
  case False
  note pb = payload_bounds [OF inv st]
  define R where "R = unat (fr_payload_length (ws_current w) - ws_received w)"
  have R: "length a < R" "R = unat (fr_payload_length (ws_current w)) - unat (ws_received w)"
    using False pb(3) by (simp_all add: R_def)
  have recv: "unat (ws_received w + of_nat (length a)) = unat (ws_received w) + length a"
    using pb(4) R(1) by (simp add: R_def)
  have ne: "ws_received w + of_nat (length a) \<noteq> fr_payload_length (ws_current w)"
    using recv R pb(2) by auto
  define w1 where "w1 = w\<lparr>ws_current := (ws_current w)\<lparr>fr_payload :=
      mem_write (fr_payload (ws_current w)) (unat (ws_received w)) a\<rparr>,
      ws_received := ws_received w + of_nat (length a)\<rparr>"
  have w': "w' = w1" "k = length a"
    using step R(1) ne by (auto simp: ws_step_payload_def Let_def w1_def min_def R_def)
  have "unat (fr_payload_length (ws_current w1) - ws_received w1) = R - length a"
    using R recv pb(2) by (simp add: w1_def unat_sub word_le_nat_alt)
  then have m: "min R (length (a @ b)) =
      length a + min (unat (fr_payload_length (ws_current w1) - ws_received w1)) (length b)"
    using R(1) by simp
  define j where "j = min (unat (fr_payload_length (ws_current w1) - ws_received w1)) (length b)"
  have mem: "mem_write (fr_payload (ws_current w1)) (unat (ws_received w1)) (take j b) =
      mem_write (fr_payload (ws_current w)) (unat (ws_received w)) (a @ take j b)"
    using R pb(1,2) recv by (simp add: w1_def mem_write_append)
  have "\<exists>w''. ws_step_payload w (a @ b) = Some (w'', length a + j) \<and> ws_step_payload w1 b = Some (w'', j)"
    unfolding ws_step_payload_def Let_def R_def [symmetric] m j_def [symmetric] mem
    by (simp add: w1_def add.assoc)
  moreover have "\<not> ws_error w1" "ws_st w1 = SPayload" using err st by (simp_all add: w1_def)
  ultimately show ?thesis using w' by auto
qed

lemma ws_step_append:
  assumes inv: "ws_inv w" and step: "ws_step w a = Some (w', k)" and err: "\<not> ws_error w"
  shows "ws_step w (a @ b) = Some (w', k) \<or>
    (k = length a \<and> \<not> ws_error w' \<and> ws_st w' = SPayload \<and>
     (\<exists>w'' j. ws_step w (a @ b) = Some (w'', length a + j) \<and> ws_step w' b = Some (w'', j)))"
proof (cases "ws_st w = SPayload")
  case True
  then show ?thesis using ws_step_payload_append [OF inv True _ err, of a w' k b] step
    by (auto simp: ws_step_def)
next
  case False
  have nth: "(a @ b) ! 0 = a ! 0" "(a @ b) ! 1 = a ! 1" if "\<not> length a < 2"
    using that by (auto simp: nth_append)
  have "ws_step w (a @ b) = Some (w', k)"
  proof (cases "ws_st w")
    case SHeader
    have "length a \<ge> 2" using step SHeader
      by (simp add: ws_step_def ws_step_header_def not_less split: if_splits)
    then have "ws_step_header w (a @ b) = ws_step_header w a"
      using nth by (simp add: ws_step_header_def)
    then show ?thesis using step SHeader by (simp add: ws_step_def)
  next
    case SPayloadLen16
    have "length a \<ge> 2" using step SPayloadLen16
      by (simp add: ws_step_def ws_step_len16_def not_less split: if_splits)
    then have "ws_step_len16 w (a @ b) = ws_step_len16 w a"
      using nth by (simp add: ws_step_len16_def)
    then show ?thesis using step SPayloadLen16 by (simp add: ws_step_def)
  next
    case SPayloadLen64
    then show ?thesis using step by (auto simp: ws_step_def ws_step_len64_def Let_def split: if_splits)
  next
    case SMaskKey
    then show ?thesis using step by (auto simp: ws_step_def ws_step_mask_def Let_def split: if_splits)
  qed (use False in simp)
  then show ?thesis by simp
qed

lemma ws_run_append:
  "ws_inv w \<Longrightarrow> ws_run w a = (w1, r1) \<Longrightarrow>
   ws_run w (a @ b) = (if ws_error w1 then (w1, r1 @ b) else ws_run w1 (r1 @ b)) \<and> ws_inv w1"
proof (induction w a rule: ws_run_induct)
  case (run w a)
  show ?case
  proof (cases "a \<noteq> [] \<and> \<not> ws_error w \<and> ws_step w a \<noteq> None")
    case False
    then have "w1 = w" "r1 = a" using run.prems(2) 
      by (auto simp: ws_run_simps [of w a] split: if_splits option.splits)
    moreover have "ws_error w \<Longrightarrow> ws_run w (a @ b) = (w, a @ b)" by (simp add: ws_run_simps)
    ultimately show ?thesis using run.prems(1) by auto
  next
    case True
    then obtain w' k where step: "ws_step w a = Some (w', k)" by auto
    have run': "ws_run w' (drop k a) = (w1, r1)"
      using run.prems(2) True step by (simp add: ws_run_simps [of w a])
    have inv': "ws_inv w'" using ws_step_inv [OF run.prems(1) step] .
    have k: "k \<le> length a" using ws_step_progress [OF step] True by simp
    from ws_step_append [OF run.prems(1) step, of b] True
    consider "ws_step w (a @ b) = Some (w', k)"
      | w'' j where "k = length a" "\<not> ws_error w'" "ws_step w (a @ b) = Some (w'', length a + j)"
        "ws_step w' b = Some (w'', j)" "b \<noteq> []" "ws_step w (a @ b) \<noteq> Some (w', k)"
      using step by fastforce
    then show ?thesis
    proof cases
      case 1
      then have "ws_run w (a @ b) = ws_run w' (drop k a @ b)"
        using True k by (simp add: ws_run_simps [of w "a @ b"])
      then show ?thesis using run.IH [OF _ _ step inv' run'] True by simp
    next
      case 2
      then have "w1 = w'" "r1 = []" using run' by (auto simp: ws_run_simps [of w' "[]"])
      moreover have "ws_run w (a @ b) = ws_run w'' (drop j b)"
        using 2 True by (simp add: ws_run_simps [of w "a @ b"])
      moreover have "ws_run w' b = ws_run w'' (drop j b)"
        using 2 by (simp add: ws_run_simps [of w' b])
      ultimately show ?thesis using 2(2) inv' by simp
    qed
  qed
qed

text \<open>Feeding the pieces of an input one after the other.\<close>

definition feed_all :: "bytes list \<Rightarrow> ws_parser \<Rightarrow> ws_parser" where
  "feed_all chunks w = fold (\<lambda>d w. fst (ws_Feed d w)) chunks w"

lemma feed_all_simps [simp]:
  "feed_all [] w = w" "feed_all (d # ds) w = feed_all ds (fst (ws_Feed d w))"
  by (simp_all add: feed_all_def)

lemma ws_run_idem: "ws_inv w \<Longrightarrow> ws_run w a = (w1, r1) \<Longrightarrow> ws_run w1 r1 = (w1, r1)"
  using ws_run_append [of w a w1 r1 "[]"] ws_run_simps [of w1 r1]
  by (cases "ws_error w1") (simp_all del: drop_eq_Nil)

lemma ws_run_stuck: "ws_run w a = (w1, r1) \<Longrightarrow> r1 = [] \<or> ws_error w1 \<or> ws_step w1 r1 = None"
proof (induction w a rule: ws_run_induct)
  case (run w a)
  show ?case
  proof (cases "a \<noteq> [] \<and> \<not> ws_error w \<and> ws_step w a \<noteq> None")
    case True
    then obtain w' k where step: "ws_step w a = Some (w', k)" by auto
    then have "ws_run w' (drop k a) = (w1, r1)"
      using run.prems True by (simp add: ws_run_simps [of w a])
    then show ?thesis using run.IH [OF _ _ step] True by simp
  next
    case False
    then have "w1 = w \<and> r1 = a"
      using run.prems by (auto simp: ws_run_simps [of w a] split: if_splits option.splits)
    then show ?thesis using False by auto
  qed
qed

lemma ws_step_None: "ws_step w r = None \<Longrightarrow> length r < 8"
proof (rule ccontr)
  assume none: "ws_step w r = None" and "\<not> length r < 8"
  then have "\<not> length r < 2" "\<not> length r < 4" "\<not> length r < 8" by auto
  with none show False
    by (cases "ws_st w") (simp_all add: ws_step_def ws_step_header_def ws_step_len16_def
        ws_step_len64_def ws_step_mask_def ws_step_payload_def Let_def split: if_splits)
qed

lemma feed_all_error: "ws_error w \<Longrightarrow> feed_all ds w = w"
  by (induction ds) (simp_all add: ws_Feed_def)

lemma ws_inv_buffer [simp]: "ws_inv (w\<lparr>ws_buffer := b\<rparr>) = ws_inv w"
  by (simp add: ws_inv_def cong: ws_state.case_cong)

lemma feed_all_run:
  assumes "ws_inv w" and "ws_run w (ws_buffer w) = (w, ws_buffer w)"
  shows "\<exists>w1 r. ws_run w (ws_buffer w @ concat ds) = (w1, r) \<and>
    (if ws_error w1 then feed_all ds w = w1\<lparr>ws_buffer := ws_buffer (feed_all ds w)\<rparr>
     else feed_all ds w = w1\<lparr>ws_buffer := r\<rparr>)"
  using assms
proof (induction ds arbitrary: w)
  case (Cons d ds)
  obtain w1 r1 where r: "ws_run w (ws_buffer w @ d) = (w1, r1)" by fastforce
  note app = ws_run_append [OF Cons.prems(1) r, of "concat ds"]
  show ?case
  proof (cases "ws_error w")
    case True
    then show ?thesis by (simp add: feed_all_error ws_Feed_def ws_run_simps [of w])
  next
    case False
    then have feed: "fst (ws_Feed d w) = w1\<lparr>ws_buffer := r1\<rparr>" using r by (simp add: ws_Feed_run)
    have idem: "ws_run (w1\<lparr>ws_buffer := r1\<rparr>) r1 = (w1\<lparr>ws_buffer := r1\<rparr>, r1)"
      using ws_run_idem [OF Cons.prems(1) r] by (simp add: ws_run_buffer)
    have inv1: "ws_inv (w1\<lparr>ws_buffer := r1\<rparr>)" using app by simp
    show ?thesis
    proof (cases "ws_error w1")
      case True
      then show ?thesis using app by (simp add: feed feed_all_error)
    next
      case nerr: False
      obtain w2 r2 where r2: "ws_run w1 (r1 @ concat ds) = (w2, r2)" by fastforce
      then have "ws_run (w1\<lparr>ws_buffer := r1\<rparr>) (r1 @ concat ds) = (w2\<lparr>ws_buffer := r1\<rparr>, r2)"
        by (simp add: ws_run_buffer)
      then show ?thesis using Cons.IH [OF inv1] idem nerr app r2 by (auto simp: feed split: if_splits)
    qed
  qed
qed auto

lemma feed_all_new:
  assumes "ws_run ws_parser_new (concat ds) = (w, r)"
  shows "ws_log (feed_all ds ws_parser_new) = ws_log w" "ws_error (feed_all ds ws_parser_new) = ws_error w"
    "\<not> ws_error w \<Longrightarrow> feed_all ds ws_parser_new = w\<lparr>ws_buffer := r\<rparr>"
    "ws_st (feed_all ds ws_parser_new) = ws_st w" "ws_current (feed_all ds ws_parser_new) = ws_current w"
proof -
  have "ws_buffer ws_parser_new = []" "ws_run ws_parser_new [] = (ws_parser_new, [])"
    by (simp_all add: ws_parser_new_def ws_run_simps)
  then have *: "if ws_error w then feed_all ds ws_parser_new = w\<lparr>ws_buffer := ws_buffer (feed_all ds ws_parser_new)\<rparr>
      else feed_all ds ws_parser_new = w\<lparr>ws_buffer := r\<rparr>"
    using feed_all_run [of ws_parser_new ds] assms by auto
  then obtain b where b: "feed_all ds ws_parser_new = w\<lparr>ws_buffer := b\<rparr>" by (metis (full_types))
  show "ws_log (feed_all ds ws_parser_new) = ws_log w" "ws_error (feed_all ds ws_parser_new) = ws_error w"
    "ws_st (feed_all ds ws_parser_new) = ws_st w" "ws_current (feed_all ds ws_parser_new) = ws_current w"
    by (simp_all add: b)
  show "\<not> ws_error w \<Longrightarrow> feed_all ds ws_parser_new = w\<lparr>ws_buffer := r\<rparr>" using * by simp
qed

section \<open>The wire format, and what it means\<close>

text \<open>A frame as a peer sends it: FIN bit, opcode, masking key if it masks, and the payload.\<close>

datatype wire_frame = Wire bool u8 "bytes option" bytes

definition ext_length :: "nat \<Rightarrow> bytes" where
  "ext_length n =
     (if n < 126 then []
      else if n \<le> 65535 then [of_nat (n div 256), of_nat n]
      else map (\<lambda>i. of_nat (n div 256 ^ (7 - i))) [0..<8])"

definition len7_of :: "nat \<Rightarrow> u8" where
  "len7_of n = (if n < 126 then of_nat n else if n \<le> 65535 then 126 else 127)"

fun wire_bytes :: "wire_frame \<Rightarrow> bytes" where
  "wire_bytes (Wire fin op key payload) =
     [(if fin then 0x80 else 0) OR op, (if key = None then 0 else 0x80) OR len7_of (length payload)] @
     ext_length (length payload) @
     (case key of None \<Rightarrow> payload | Some k \<Rightarrow> k @ xor_mask k payload)"

fun wire_ok :: "wire_frame \<Rightarrow> bool" where
  "wire_ok (Wire fin op key payload) =
     (op < 16 \<and> length payload \<le> 16 * 1024 * 1024 \<and> (\<forall>k. key = Some k \<longrightarrow> length k = 4))"

text \<open>The messages a sequence of frames stands for; the argument is the message being
  reassembled, if one is.\<close>

fun ws_deliver :: "(u8 \<times> bytes) option \<Rightarrow> wire_frame list \<Rightarrow> ws_event list" where
  "ws_deliver frag [] = []"
| "ws_deliver frag (Wire fin op key payload # fs) =
     (if op \<ge> kClose then OnFrame op payload # ws_deliver frag fs
      else if op \<noteq> kContinuation then
        (if fin then OnFrame op payload # ws_deliver frag fs
         else ws_deliver (Some (op, payload)) fs)
      else
        (case frag of
           None \<Rightarrow> [OnError ''unexpected continuation frame'']
         | Some (op0, sofar) \<Rightarrow>
             if fin then OnFrame op0 (sofar @ payload) # ws_deliver None fs
             else ws_deliver (Some (op0, sofar @ payload)) fs))"

lemma length_xor_mask [simp]: "length (xor_mask k xs) = length xs"
  by (simp add: xor_mask_def)

lemma xor_mask_involution [simp]: "xor_mask k (xor_mask k xs) = xs"
  by (rule nth_equalityI) (simp_all add: xor_mask_def xor.assoc)

text \<open>Reading back the two header bytes.\<close>

lemma len7_bits:
  "(len7_of n) AND 0x80 = 0" "(0x80 OR len7_of n) AND 0x80 \<noteq> 0"
  "(0x80 OR len7_of n) AND 0x7F = len7_of n" "(len7_of n) AND 0x7F = len7_of n"
proof -
  have lt: "len7_of n < 0x80"
    by (simp add: len7_of_def word_less_nat_alt unat_of_nat take_bit_eq_mod)
  have mask: "x AND 0x7F = x" if "x < 0x80" for x :: u8
    using and_mask_self [of x 7] that by (simp add: word_less_nat_alt mask_eq_exp_minus_1)
  show c: "(len7_of n) AND 0x7F = len7_of n" using mask [OF lt] .
  have "(len7_of n) AND 0x80 = ((len7_of n) AND 0x7F) AND 0x80" unfolding c ..
  also have "\<dots> = 0" by (simp add: and.assoc)
  finally show "(len7_of n) AND 0x80 = 0" .
  then show "(0x80 OR len7_of n) AND 0x80 \<noteq> 0" by (simp add: bit.conj_disj_distrib2)
  show "(0x80 OR len7_of n) AND 0x7F = len7_of n" by (simp add: bit.conj_disj_distrib2 c)
qed

lemma op_bits:
  assumes "op < (16 :: u8)"
  shows "((if fin then 0x80 else 0) OR op) AND 0x0F = op"
    "((if fin then 0x80 else 0) OR op) AND 0x80 \<noteq> 0 \<longleftrightarrow> fin"
proof -
  have c: "op AND 0x0F = op"
    using and_mask_self [of op 4] assms by (simp add: word_less_nat_alt mask_eq_exp_minus_1)
  have "op AND 0x80 = (op AND 0x0F) AND 0x80" unfolding c ..
  then have "op AND 0x80 = 0" by (simp add: and.assoc)
  then show "((if fin then 0x80 else 0) OR op) AND 0x0F = op"
    "((if fin then 0x80 else 0) OR op) AND 0x80 \<noteq> 0 \<longleftrightarrow> fin"
    by (simp_all add: bit.conj_disj_distrib2 c)
qed

text \<open>The extended length field reads back as the payload size.\<close>

lemma horner8:
  fixes m :: "nat \<Rightarrow> nat"
  assumes "m 0 = n" "m 6 = 256 * m 7 + r6" "m 5 = 256 * m 6 + r5" "m 4 = 256 * m 5 + r4" "m 3 = 256 * m 4 + r3"
    "m 2 = 256 * m 3 + r2" "m 1 = 256 * m 2 + r1" "m 0 = 256 * m 1 + r0"
  shows "((((((m 7 * 256 + r6) * 256 + r5) * 256 + r4) * 256 + r3) * 256 + r2) * 256 + r1) * 256 + r0 = n"
  unfolding assms(1) [symmetric] assms(8) assms(7) assms(6) assms(5) assms(4) assms(3) assms(2)
  by (simp only: mult.commute)

lemma be64_ext:
  assumes "65535 < n" and "n < 2 ^ 64"
  shows "unat (be64 (map (\<lambda>i. of_nat (n div 256 ^ (7 - i))) [0..<8])) = n"
proof -
  let ?xs = "map (\<lambda>i. of_nat (n div 256 ^ (7 - i))) [0..<8] :: bytes"
  have "unat (be64 ?xs) = fold (\<lambda>b acc. acc * 256 + unat b) ?xs 0"
    unfolding be64_def by (rule be_fold) (simp_all add: length_upt)
  also have "\<dots> = n"
  proof -
    define m where "m k = n div 256 ^ k" for k
    have m: "m k = 256 * m (Suc k) + m k mod 256" for k
    proof -
      have "m (Suc k) = m k div 256" by (simp add: m_def mult.commute flip: div_mult2_eq)
      then show ?thesis by simp
    qed
    have "m 7 < 256" using assms(2) by (simp add: m_def less_mult_imp_div_less)
    moreover have "m 0 = n" by (simp add: m_def)
    ultimately have "((((((m 7 * 256 + m 6 mod 256) * 256 + m 5 mod 256) * 256 + m 4 mod 256) * 256 +
        m 3 mod 256) * 256 + m 2 mod 256) * 256 + m 1 mod 256) * 256 + m 0 mod 256 = n"
      using m [of 6, unfolded Suc_numeral semiring_norm] m [of 5, unfolded Suc_numeral semiring_norm]
        m [of 4, unfolded Suc_numeral semiring_norm] m [of 3, unfolded Suc_numeral semiring_norm]
        m [of 2, unfolded Suc_numeral semiring_norm] m [of 1, unfolded Suc_1]
        m [of 0, unfolded One_nat_def [symmetric]] by (intro horner8)
    moreover have "m 7 mod 256 = m 7" using \<open>m 7 < 256\<close> by simp
    moreover have "?xs = map (\<lambda>k. of_nat (m k)) [7, 6, 5, 4, 3, 2, 1, 0]"
      by (simp add: upt_rec m_def)
    ultimately show ?thesis by (simp add: unat_of_nat take_bit_eq_mod)
  qed
  finally show ?thesis .
qed

lemma len16_ext:
  assumes "n \<le> 65535"
  shows "unat (of_nat (n div 256) :: u8) * 256 + unat (of_nat n :: u8) = n"
  using assms by (simp add: unat_of_nat take_bit_eq_mod)

text \<open>The state in which a complete frame is handed to \<^verbatim>\<open>ProcessFrame\<close>.\<close>

definition ready :: "bool \<Rightarrow> u8 \<Rightarrow> bytes \<Rightarrow> ws_frame \<Rightarrow> bool" where
  "ready fin op payload cur = (fr_fin cur = fin \<and> fr_opcode cur = op \<and> fr_payload cur = payload)"

definition processed :: "ws_parser \<Rightarrow> bool \<Rightarrow> u8 \<Rightarrow> bytes \<Rightarrow> ws_parser \<Rightarrow> bool" where
  "processed w fin op payload w' =
     (\<exists>cur n st. ready fin op payload cur \<and>
        w' = (ws_ProcessFrame (w\<lparr>ws_current := cur, ws_received := n, ws_st := st\<rparr>))\<lparr>ws_st := SHeader\<rparr>)"

lemma processedI:
  "ready fin op payload (ws_current v) \<Longrightarrow>
   v = w\<lparr>ws_current := ws_current v, ws_received := ws_received v, ws_st := ws_st v\<rparr> \<Longrightarrow>
   processed w fin op payload ((ws_ProcessFrame v)\<lparr>ws_st := SHeader\<rparr>)"
  unfolding processed_def by metis

lemma run_payload:
  assumes "ws_st w = SPayload" "\<not> ws_error w" "ws_received w = 0"
    "unat (fr_payload_length (ws_current w)) = length xs"
    "length (fr_payload (ws_current w)) = length xs" "xs \<noteq> []"
  shows "ws_run w (xs @ rest) =
    ws_run ((ws_ProcessFrame (ws_Unmask (w\<lparr>ws_current := (ws_current w)\<lparr>fr_payload := xs\<rparr>,
      ws_received := fr_payload_length (ws_current w)\<rparr>)))\<lparr>ws_st := SHeader\<rparr>) rest"
proof -
  have n: "of_nat (length xs) = fr_payload_length (ws_current w)"
    using arg_cong [OF assms(4), of "of_nat :: nat \<Rightarrow> u64"] by simp
  then show ?thesis
    using assms by (simp add: ws_run_simps [of w "xs @ rest"] ws_step_def ws_step_payload_def Let_def
        mem_write_all)
qed

lemma run_mask:
  assumes "ws_st w = SMaskKey" "\<not> ws_error w" "fr_payload_length (ws_current w) \<noteq> 0" "length k = 4"
  shows "ws_run w (k @ rest) =
    ws_run (w\<lparr>ws_current := (ws_current w)\<lparr>fr_masking_key := k\<rparr>, ws_st := SPayload\<rparr>) rest"
proof -
  have "k @ rest \<noteq> []" using assms(4) by auto
  then show ?thesis
    using assms by (simp add: ws_run_simps [of w "k @ rest"] ws_step_def ws_step_mask_def Let_def)
qed

text \<open>Once the length is known, the rest of a frame is read the same way whatever its form.\<close>

lemma run_body:
  assumes w: "\<not> ws_error w" "ws_current w = ws_frame_new\<lparr>fr_fin := fin, fr_opcode := op, fr_masked := (key \<noteq> None)\<rparr>"
    and n: "unat n = length payload" "payload \<noteq> []" and key: "\<forall>k. key = Some k \<longrightarrow> length k = 4"
  shows "\<exists>w'. processed w fin op payload w' \<and>
    ws_run (after_length (ws_resize n (set_payload_length n w)))
      ((case key of None \<Rightarrow> payload | Some k \<Rightarrow> k @ xor_mask k payload) @ rest) = ws_run w' rest"
proof -
  define v where "v = after_length (ws_resize n (set_payload_length n w))"
  have v: "\<not> ws_error v" "ws_received v = 0" "unat (fr_payload_length (ws_current v)) = length payload"
    "length (fr_payload (ws_current v)) = length payload" "fr_fin (ws_current v) = fin"
    "fr_opcode (ws_current v) = op" "fr_masked (ws_current v) = (key \<noteq> None)"
    "ws_st v = (if key \<noteq> None then SMaskKey else SPayload)"
    "v = w\<lparr>ws_current := ws_current v, ws_received := ws_received v, ws_st := ws_st v\<rparr>"
    using w n by (simp_all add: v_def ws_op_defs ws_frame_new_def)
  obtain c0 r0 s0 where veq: "v = w\<lparr>ws_current := c0, ws_received := r0, ws_st := s0\<rparr>"
    using v(9) by blast
  show ?thesis
  proof (cases key)
    case None
    have "ws_run v (payload @ rest) = ws_run ((ws_ProcessFrame (ws_Unmask
        (v\<lparr>ws_current := (ws_current v)\<lparr>fr_payload := payload\<rparr>,
           ws_received := fr_payload_length (ws_current v)\<rparr>)))\<lparr>ws_st := SHeader\<rparr>) rest"
      using v n(2) None by (intro run_payload) simp_all
    moreover have "processed w fin op payload ((ws_ProcessFrame (ws_Unmask
        (v\<lparr>ws_current := (ws_current v)\<lparr>fr_payload := payload\<rparr>,
           ws_received := fr_payload_length (ws_current v)\<rparr>)))\<lparr>ws_st := SHeader\<rparr>)"
      by (rule processedI) (use v(5-7) [unfolded veq] None in \<open>simp_all add: veq ws_Unmask_def ready_def\<close>)
    ultimately show ?thesis using None by (auto simp flip: v_def)
  next
    case (Some k)
    define v2 where "v2 = v\<lparr>ws_current := (ws_current v)\<lparr>fr_masking_key := k\<rparr>, ws_st := SPayload\<rparr>"
    have "fr_payload_length (ws_current v) \<noteq> 0" using v(3) n(2) by (auto simp: unat_eq_0)
    then have "ws_run v (k @ xor_mask k payload @ rest) = ws_run v2 (xor_mask k payload @ rest)"
      using v Some key by (simp add: run_mask v2_def)
    also have "\<dots> = ws_run ((ws_ProcessFrame (ws_Unmask
        (v2\<lparr>ws_current := (ws_current v2)\<lparr>fr_payload := xor_mask k payload\<rparr>,
           ws_received := fr_payload_length (ws_current v2)\<rparr>)))\<lparr>ws_st := SHeader\<rparr>) rest"
      using v n(2) by (intro run_payload) (simp_all add: v2_def, auto simp: xor_mask_def)
    also have "processed w fin op payload ((ws_ProcessFrame (ws_Unmask
        (v2\<lparr>ws_current := (ws_current v2)\<lparr>fr_payload := xor_mask k payload\<rparr>,
           ws_received := fr_payload_length (ws_current v2)\<rparr>)))\<lparr>ws_st := SHeader\<rparr>)"
      by (rule processedI) (use v(5-7) [unfolded veq] Some in \<open>simp_all add: v2_def veq ws_Unmask_def ready_def\<close>)
    ultimately show ?thesis using Some by (auto simp flip: v_def)
  qed
qed

lemma run_header:
  assumes "ws_st w = SHeader" "\<not> ws_error w" "ws_step_header w [b0, b1] = Some (w', 2)"
  shows "ws_run w (b0 # b1 # rest) = ws_run w' rest"
proof -
  have "ws_step_header w (b0 # b1 # rest) = ws_step_header w [b0, b1]"
    by (simp add: ws_step_header_def)
  then show ?thesis using assms by (simp add: ws_run_simps [of w "b0 # b1 # rest"] ws_step_def)
qed

lemma run_len16:
  assumes "ws_st w = SPayloadLen16" "\<not> ws_error w" "n \<le> 65535" "unat m = n"
  shows "ws_run w (of_nat (n div 256) # of_nat n # rest) =
    ws_run (after_length (ws_resize m (set_payload_length m w))) rest"
proof -
  have "((push_bit 8 (ucast (of_nat (n div 256) :: u8))) OR ucast (of_nat n :: u8) :: u64) = m"
    using assms(3,4) len16_ext [of n] by (simp add: word_unat_eq_iff unat_len16)
  then show ?thesis using assms(1,2)
    by (simp add: ws_run_simps [of w "_ # _ # rest"] ws_step_def ws_step_len16_def Let_def)
qed

lemma run_len64:
  assumes "ws_st w = SPayloadLen64" "\<not> ws_error w" "65535 < n" "n \<le> 16 * 1024 * 1024" "unat m = n"
  shows "ws_run w (map (\<lambda>i. of_nat (n div 256 ^ (7 - i))) [0..<8] @ rest) =
    ws_run (after_length (ws_resize m (set_payload_length m w))) rest"
proof -
  define xs where "xs = (map (\<lambda>i. of_nat (n div 256 ^ (7 - i))) [0..<8] :: bytes)"
  have xs: "length xs = 8" "xs @ rest \<noteq> []" by (simp_all add: xs_def upt_rec)
  have "be64 xs = m" using be64_ext [of n] assms(3-5) by (simp add: word_unat_eq_iff xs_def)
  moreover have "\<not> m > kMaxPayload" using assms(4,5) by (simp add: word_less_nat_alt unat_kMaxPayload)
  ultimately show ?thesis using assms(1,2) xs
    by (simp add: ws_run_simps [of w "xs @ rest"] ws_step_def ws_step_len64_def Let_def flip: xs_def)
qed

text \<open>Any frame a peer may send is read completely and processed once.\<close>

lemma run_frame:
  assumes w: "ws_st w = SHeader" "\<not> ws_error w" and ok: "wire_ok (Wire fin op key payload)"
  shows "\<exists>w'. processed w fin op payload w' \<and>
    ws_run w (wire_bytes (Wire fin op key payload) @ rest) = ws_run w' rest"
proof -
  let ?n = "length payload"
  define b0 where "b0 = (if fin then 0x80 else 0) OR op"
  define b1 where "b1 = (if key = None then 0 else 0x80) OR len7_of ?n"
  define body where "body = (case key of None \<Rightarrow> payload | Some k \<Rightarrow> k @ xor_mask k payload) @ rest"
  have bits: "b0 AND 0x0F = op" "(b0 AND 0x80 \<noteq> 0) = fin" "b1 AND 0x7F = len7_of ?n"
    "(b1 AND 0x80 \<noteq> 0) = (key \<noteq> None)"
    using op_bits [of op fin] ok len7_bits [of ?n] by (auto simp: b0_def b1_def)
  define w1 where "w1 = w\<lparr>ws_current := ws_frame_new\<lparr>fr_fin := fin, fr_opcode := op, fr_masked := (key \<noteq> None)\<rparr>\<rparr>"
  have key: "\<forall>k. key = Some k \<longrightarrow> length k = 4" and max: "?n \<le> 16 * 1024 * 1024" using ok by auto
  have small: "unat (of_nat ?n :: u64) = ?n"
    using max by (simp add: unat_of_nat take_bit_eq_mod)
  have proc: "processed w fin op payload v" if "processed (w1\<lparr>ws_st := s\<rparr>) fin op payload v" for s v
    using that unfolding processed_def w1_def by auto
  have bytes: "wire_bytes (Wire fin op key payload) @ rest = b0 # b1 # ext_length ?n @ body"
    by (simp add: b0_def b1_def body_def)
  consider (empty) "?n = 0" | (short) "0 < ?n" "?n < 126" | (mid) "126 \<le> ?n" "?n \<le> 65535" | (long) "65535 < ?n"
    by linarith
  then show ?thesis
  proof cases
    case empty
    then have e: "ext_length ?n = []" "len7_of ?n = 0" "payload = []" by (simp_all add: ext_length_def len7_of_def)
    show ?thesis
    proof (cases key)
      case None
      define v where "v = (set_payload_length 0 w1)\<lparr>ws_received := 0\<rparr>"
      have "ws_step_header w [b0, b1] = Some ((ws_ProcessFrame v)\<lparr>ws_st := SHeader\<rparr>, 2)"
        using bits e None by (simp add: ws_step_header_def Let_def w1_def v_def)
      moreover have "processed w fin op payload ((ws_ProcessFrame v)\<lparr>ws_st := SHeader\<rparr>)"
        by (rule processedI) (simp_all add: v_def w1_def set_payload_length_def ready_def ws_frame_new_def e)
      moreover have "ext_length ?n @ body = rest" using None e(1) by (simp add: body_def e(3))
      ultimately show ?thesis unfolding bytes using run_header [OF w] by auto
    next
      case (Some k)
      define v where "v = (set_payload_length 0 w1)\<lparr>ws_st := SMaskKey\<rparr>"
      define u where "u = ws_Unmask (ws_take_payload (v\<lparr>ws_current := (ws_current v)\<lparr>fr_masking_key := k\<rparr>\<rparr>))"
      have "ws_step_header w [b0, b1] = Some (v, 2)"
        using bits e Some by (simp add: ws_step_header_def Let_def w1_def v_def)
      then have h1: "ws_run w (b0 # b1 # body) = ws_run v (k @ rest)"
        using run_header [OF w] Some e(3) by (simp add: body_def xor_mask_def)
      have "k @ rest \<noteq> []" using key Some by auto
      moreover have "ws_st v = SMaskKey" "\<not> ws_error v" "fr_payload_length (ws_current v) = 0"
        using w(2) by (simp_all add: v_def w1_def set_payload_length_def)
      ultimately have "ws_run v (k @ rest) = ws_run ((ws_ProcessFrame u)\<lparr>ws_st := SHeader\<rparr>) rest"
        using key Some
        by (simp add: ws_run_simps [of v "k @ rest"] ws_step_def ws_step_mask_def Let_def u_def)
      with h1 have "ws_run w (b0 # b1 # body) = ws_run ((ws_ProcessFrame u)\<lparr>ws_st := SHeader\<rparr>) rest" by simp
      moreover have "processed w fin op payload ((ws_ProcessFrame u)\<lparr>ws_st := SHeader\<rparr>)"
        by (rule processedI) (simp_all add: u_def v_def w1_def ws_op_defs ready_def ws_frame_new_def xor_mask_def e)
      ultimately show ?thesis unfolding bytes e(1) by auto
    qed
  next
    case short
    then have e: "ext_length ?n = []" "len7_of ?n = of_nat ?n" by (simp_all add: ext_length_def len7_of_def)
    define m where "m = (ucast (len7_of ?n) :: u64)"
    have l7: "unat (len7_of ?n) = ?n" using short by (simp add: e unat_of_nat take_bit_eq_mod)
    then have m: "unat m = ?n" by (simp add: m_def unat_ucast8)
    have ne: "len7_of ?n \<noteq> 0" "len7_of ?n < 126"
      using l7 short by (auto simp: word_less_nat_alt word_unat_eq_iff)
    have "ws_step_header w [b0, b1] = Some (after_length (ws_resize m (set_payload_length m w1)), 2)"
      using bits ne by (simp add: ws_step_header_def Let_def w1_def m_def)
    then have "ws_run w (b0 # b1 # ext_length ?n @ body) =
        ws_run (after_length (ws_resize m (set_payload_length m w1))) body"
      using run_header [OF w] e(1) by simp
    moreover have "\<exists>w'. processed w1 fin op payload w' \<and>
        ws_run (after_length (ws_resize m (set_payload_length m w1))) body = ws_run w' rest"
      unfolding body_def by (rule run_body) (use w m short key in \<open>auto simp: w1_def\<close>)
    ultimately show ?thesis unfolding bytes using proc [of "ws_st w1"] by fastforce
  next
    case mid
    then have e: "ext_length ?n = [of_nat (?n div 256), of_nat ?n]" "len7_of ?n = 126"
      by (simp_all add: ext_length_def len7_of_def)
    define v where "v = w1\<lparr>ws_st := SPayloadLen16\<rparr>"
    have v: "ws_st v = SPayloadLen16" "\<not> ws_error v" using w by (simp_all add: v_def w1_def)
    have "ws_step_header w [b0, b1] = Some (v, 2)"
      using bits e by (simp add: ws_step_header_def Let_def w1_def v_def)
    then have "ws_run w (b0 # b1 # ext_length ?n @ body) =
        ws_run (after_length (ws_resize (of_nat ?n) (set_payload_length (of_nat ?n) v))) body"
      using run_header [OF w] run_len16 [OF v mid(2) small] e(1) by simp
    moreover have "\<exists>w'. processed v fin op payload w' \<and>
        ws_run (after_length (ws_resize (of_nat ?n) (set_payload_length (of_nat ?n) v))) body = ws_run w' rest"
      unfolding body_def by (rule run_body) (use v mid small key in \<open>auto simp: v_def w1_def\<close>)
    ultimately show ?thesis unfolding bytes v_def using proc by fastforce
  next
    case long
    then have e: "ext_length ?n = map (\<lambda>i. of_nat (?n div 256 ^ (7 - i))) [0..<8]" "len7_of ?n = 127"
      by (simp_all add: ext_length_def len7_of_def)
    define v where "v = w1\<lparr>ws_st := SPayloadLen64\<rparr>"
    have v: "ws_st v = SPayloadLen64" "\<not> ws_error v" using w by (simp_all add: v_def w1_def)
    have "ws_step_header w [b0, b1] = Some (v, 2)"
      using bits e(2) by (simp add: ws_step_header_def Let_def w1_def v_def)
    then have "ws_run w (b0 # b1 # ext_length ?n @ body) =
        ws_run (after_length (ws_resize (of_nat ?n) (set_payload_length (of_nat ?n) v))) body"
      using run_header [OF w] run_len64 [OF v long max small] e(1) by simp
    moreover have "\<exists>w'. processed v fin op payload w' \<and>
        ws_run (after_length (ws_resize (of_nat ?n) (set_payload_length (of_nat ?n) v))) body = ws_run w' rest"
      unfolding body_def by (rule run_body) (use v long small key in \<open>auto simp: v_def w1_def\<close>)
    ultimately show ?thesis unfolding bytes v_def using proc by fastforce
  qed
qed

definition ws_frag :: "ws_parser \<Rightarrow> (u8 \<times> bytes) option" where
  "ws_frag w = (if ws_in_fragment w then Some (ws_frag_opcode w, ws_frag_buffer w) else None)"

lemma processed_effect:
  assumes "processed w fin op payload w'" and "\<not> ws_error w"
  shows "ws_st w' = SHeader"
    "ws_log w @ ws_deliver (ws_frag w) (Wire fin op key payload # fs) =
     (if ws_error w' then ws_log w' else ws_log w' @ ws_deliver (ws_frag w') fs)"
proof -
  obtain cur n st where cur: "ready fin op payload cur"
    and w': "w' = (ws_ProcessFrame (w\<lparr>ws_current := cur, ws_received := n, ws_st := st\<rparr>))\<lparr>ws_st := SHeader\<rparr>"
    using assms(1) by (auto simp: processed_def)
  show "ws_st w' = SHeader" by (simp add: w')
  show "ws_log w @ ws_deliver (ws_frag w) (Wire fin op key payload # fs) =
     (if ws_error w' then ws_log w' else ws_log w' @ ws_deliver (ws_frag w') fs)"
    using cur assms(2) unfolding w' ws_ProcessFrame_def Let_def
    by (auto simp: ready_def ws_frag_def ws_emit_def ws_take_payload_def ws_SetError_def)
qed

lemma run_frames:
  "ws_st w = SHeader \<Longrightarrow> \<not> ws_error w \<Longrightarrow> \<forall>f \<in> set fs. wire_ok f \<Longrightarrow>
   ws_run w (concat (map wire_bytes fs)) = (w', r) \<Longrightarrow>
   ws_log w' = ws_log w @ ws_deliver (ws_frag w) fs \<and> (\<not> ws_error w' \<longrightarrow> r = [] \<and> ws_st w' = SHeader)"
proof (induction fs arbitrary: w)
  case Nil
  then show ?case by (simp add: ws_run_simps)
next
  case (Cons f fs)
  obtain fin op key payload where f: "f = Wire fin op key payload" by (cases f)
  obtain v where v: "processed w fin op payload v"
    "ws_run w (wire_bytes f @ concat (map wire_bytes fs)) = ws_run v (concat (map wire_bytes fs))"
  proof -
    have "wire_ok (Wire fin op key payload)" using Cons.prems(3) f by simp
    from run_frame [OF Cons.prems(1,2) this] show thesis using that f by blast
  qed
  note eff = processed_effect [OF v(1) Cons.prems(2)]
  show ?case
  proof (cases "ws_error v")
    case True
    then have "ws_run v (concat (map wire_bytes fs)) = (v, concat (map wire_bytes fs))"
      by (simp add: ws_run_simps)
    then show ?thesis using eff(2) True v(2) Cons.prems(4) f by auto
  next
    case False
    then show ?thesis using Cons.IH [OF eff(1) False] eff(2) [of key fs] Cons.prems(3,4) v(2) f by auto
  qed
qed

lemma feed_frames:
  assumes "\<forall>f \<in> set fs. wire_ok f" and "concat ds = concat (map wire_bytes fs)"
  shows "ws_log (feed_all ds ws_parser_new) = ws_deliver None fs"
proof -
  obtain w r where run: "ws_run ws_parser_new (concat ds) = (w, r)" by fastforce
  have new: "ws_st ws_parser_new = SHeader" "\<not> ws_error ws_parser_new" "ws_frag ws_parser_new = None"
    "ws_log ws_parser_new = []" by (simp_all add: ws_parser_new_def ws_frag_def)
  have "ws_log w = ws_log ws_parser_new @ ws_deliver (ws_frag ws_parser_new) fs"
    using run_frames [OF new(1,2) assms(1) run [unfolded assms(2)]] by blast
  then show ?thesis using feed_all_new(1) [OF run] by (simp only: new append_Nil)
qed

section \<open>Properties\<close>

text \<open>C3: how the transport cuts the byte stream into reads is invisible: feeding the pieces one by
  one makes the same callbacks as feeding the whole input at once, and ends in the error state
  exactly if that does; when it does not, the two end in the same state.\<close>

theorem ws_chunking_invisible:
  "ws_log (feed_all ds ws_parser_new) = ws_log (fst (ws_Feed (concat ds) ws_parser_new)) \<and>
   ws_error (feed_all ds ws_parser_new) = ws_error (fst (ws_Feed (concat ds) ws_parser_new)) \<and>
   (ws_error (feed_all ds ws_parser_new) \<or> feed_all ds ws_parser_new = fst (ws_Feed (concat ds) ws_parser_new))"
proof -
  obtain w r where run: "ws_run ws_parser_new (concat ds) = (w, r)" by fastforce
  then have "ws_run ws_parser_new (concat [concat ds]) = (w, r)" by simp
  from feed_all_new [OF run] feed_all_new [OF this] show ?thesis by auto
qed

text \<open>C1: for every sequence of frames a peer may legally send (masked or not, fragmented or not,
  of every payload size the parser admits), cut into reads in any way, the handler is called
  with exactly the messages those frames stand for, in order.\<close>

theorem ws_decodes_frames:
  assumes "\<forall>f \<in> set fs. wire_ok f" and "concat ds = concat (map wire_bytes fs)"
  shows "ws_log (feed_all ds ws_parser_new) = ws_deliver None fs"
  using feed_frames [OF assms] .

theorem ws_decodes_frames_witness:
  "ws_log (feed_all [[0x81, 0x82, 1], [2, 3, 4, 0x49], [0x6B]] ws_parser_new) = [OnFrame kText [0x48, 0x69]]"
proof -
  have "concat [[0x81, 0x82, 1], [2, 3, 4, 0x49], [0x6B]] =
      concat (map wire_bytes [Wire True kText (Some [1, 2, 3, 4]) [0x48, 0x69]])"
    by code_simp
  from ws_decodes_frames [OF _ this] show ?thesis by simp
qed

text \<open>A message sent in pieces: the first frame carries the opcode, the others are
  continuations, and control frames may come before each of them.\<close>

fun continuations :: "(wire_frame list \<times> bytes option \<times> bytes) list \<Rightarrow> wire_frame list" where
  "continuations [] = []"
| "continuations ((ctl, key, piece) # rest) =
     ctl @ Wire (rest = []) kContinuation key piece # continuations rest"

definition fragmented ::
  "u8 \<Rightarrow> bytes option \<Rightarrow> bytes \<Rightarrow> (wire_frame list \<times> bytes option \<times> bytes) list \<Rightarrow> wire_frame list" where
  "fragmented op key piece rest = Wire (rest = []) op key piece # continuations rest"

fun control :: "wire_frame \<Rightarrow> bool" where
  "control (Wire fin op key payload) = (op = kPing \<or> op = kPong)"

fun wire_event :: "wire_frame \<Rightarrow> ws_event" where
  "wire_event (Wire fin op key payload) = OnFrame op payload"

lemma deliver_control:
  "list_all control ctl \<Longrightarrow> ws_deliver frag (ctl @ fs) = map wire_event ctl @ ws_deliver frag fs"
proof (induction ctl)
  case (Cons f ctl)
  then show ?case by (cases f) auto
qed simp

lemma deliver_continuations:
  "rest \<noteq> [] \<Longrightarrow> list_all (\<lambda>(ctl, _). list_all control ctl) rest \<Longrightarrow>
   ws_deliver (Some (op, sofar)) (continuations rest) =
   concat (map (\<lambda>(ctl, _). map wire_event ctl) rest) @
   [OnFrame op (sofar @ concat (map (\<lambda>(_, _, piece). piece) rest))]"
proof (induction rest arbitrary: sofar rule: continuations.induct)
  case (2 ctl key piece rest)
  then show ?case by (cases "rest = []") (auto simp: deliver_control)
qed simp

text \<open>A text or binary message that a peer splits over any number of frames, with pings and
  pongs between them, reaches the handler once and whole, under the opcode of its first
  frame; the control frames are delivered in their place, ahead of it.\<close>

theorem ws_reassembles_message:
  assumes "op = kText \<or> op = kBinary"
    and "\<forall>f \<in> set (fragmented op key piece rest). wire_ok f"
    and "list_all (\<lambda>(ctl, _). list_all control ctl) rest"
    and "concat ds = concat (map wire_bytes (fragmented op key piece rest))"
  shows "ws_log (feed_all ds ws_parser_new) =
    concat (map (\<lambda>(ctl, _). map wire_event ctl) rest) @
    [OnFrame op (piece @ concat (map (\<lambda>(_, _, p). p) rest))]"
proof -
  have "ws_log (feed_all ds ws_parser_new) = ws_deliver None (fragmented op key piece rest)"
    by (rule feed_frames [OF assms(2,4)])
  also have "\<dots> = concat (map (\<lambda>(ctl, _). map wire_event ctl) rest) @
      [OnFrame op (piece @ concat (map (\<lambda>(_, _, p). p) rest))]"
  proof -
    have "\<not> op \<ge> kClose" "op \<noteq> kContinuation" using assms(1) by (auto simp: word_le_nat_alt)
    then show ?thesis
      using deliver_continuations [OF _ assms(3)] by (cases "rest = []") (simp_all add: fragmented_def)
  qed
  finally show ?thesis .
qed

theorem ws_reassembles_message_witness:
  "ws_log (feed_all [[0x01, 0x01, 7, 0x89], [0x00, 0x80, 0x01], [8]] ws_parser_new) =
   [OnFrame kPing [], OnFrame kText [7, 8]]"
proof -
  have bytes: "concat [[0x01, 0x01, 7, 0x89], [0x00, 0x80, 0x01], [8 :: byte]] = concat (map wire_bytes
      (fragmented kText None [7] [([Wire True kPing None []], None, [8])]))" by code_simp
  show ?thesis
    using ws_reassembles_message [OF _ _ _ bytes] by (simp add: fragmented_def)
qed

text \<open>C26: whatever bytes arrive, a parser inside a payload has reserved at most 16 MiB for the
  current frame, and a parser that is not in its error state keeps at most seven unparsed bytes
  between calls of \<^verbatim>\<open>Feed\<close>. (The buffer that collects the fragments of a message has no limit.)\<close>

theorem ws_bounded_memory:
  "(ws_st (feed_all ds ws_parser_new) = SPayload \<longrightarrow>
      length (fr_payload (ws_current (feed_all ds ws_parser_new))) \<le> 16 * 1024 * 1024) \<and>
   (\<not> ws_error (feed_all ds ws_parser_new) \<longrightarrow> length (ws_buffer (feed_all ds ws_parser_new)) < 8)"
proof -
  obtain w r where run: "ws_run ws_parser_new (concat ds) = (w, r)" by fastforce
  have inv: "ws_inv w" using ws_run_append [OF ws_inv_new run] by blast
  have "length r < 8" if err: "\<not> ws_error w"
  proof (cases "r = []")
    case False
    then show ?thesis using ws_run_stuck [OF run] err ws_step_None by blast
  qed simp
  then show ?thesis using feed_all_new [OF run] inv
    by (auto simp: ws_inv_def word_le_nat_alt unat_kMaxPayload)
qed

theorem ws_bounded_memory_witness:
  "length (ws_buffer (feed_all [[0x82], [0x7F, 0, 0, 0, 0]] ws_parser_new)) < 8"
proof -
  have "\<not> ws_error (feed_all [[0x82], [0x7F, 0, 0, 0, 0]] ws_parser_new)" by code_simp
  then show ?thesis using ws_bounded_memory [of "[[0x82], [0x7F, 0, 0, 0, 0]]"] by blast
qed

end
