(* ===== verification/Ws_Builder.thy ===== *)
theory Ws_Builder
  imports Ws_Parser Send_Buffer
begin

text \<open>
  The two functions that build WebSocket frames for sending: \<^verbatim>\<open>HttpSession::BuildWsFrame\<close>
  (\<^verbatim>\<open>src/web/HttpSession.cpp\<close>) and \<^verbatim>\<open>BuildWsTextFrame\<close> (\<^verbatim>\<open>src/game/WsFrameBuilder.cpp\<close>), over the
  buffer pool, and the round trip through the frame parser.
\<close>

definition ws_header_size :: "nat \<Rightarrow> nat" where
  "ws_header_size n = (if n \<ge> 126 \<and> n \<le> 65535 then 4 else if n > 65535 then 10 else 2)"

text \<open>The bytes written at \<^verbatim>\<open>p[0]\<close>, \<^verbatim>\<open>p[1]\<close>, \<dots> for a payload of \<^verbatim>\<open>n\<close> bytes.\<close>

definition ws_header :: "u8 \<Rightarrow> nat \<Rightarrow> bytes" where
  "ws_header b0 n =
     b0 #
     (if n < 126 then [of_nat n]
      else if n \<le> 65535 then [126, of_nat ((drop_bit 8 n) AND 0xFF), of_nat (n AND 0xFF)]
      else 127 # map (\<lambda>i. of_nat ((drop_bit (56 - 8 * i) n) AND 0xFF)) [0..<8])"

definition BuildWsFrame :: "u8 \<Rightarrow> bytes \<Rightarrow> buffer_pool \<Rightarrow> send_buffer option \<times> buffer_pool" where
  "BuildWsFrame opcode payload p = build_buffer (ws_header (0x80 OR opcode) (length payload) @ payload) p"

definition BuildWsTextFrame :: "buffer_pool \<Rightarrow> bytes \<Rightarrow> send_buffer option \<times> buffer_pool" where
  "BuildWsTextFrame p txt = build_buffer (ws_header 0x81 (length txt) @ txt) p"

lemma length_ws_header: "length (ws_header b0 n) = ws_header_size n"
  by (simp add: ws_header_def ws_header_size_def)

lemma of_nat_and_255: "(of_nat (n AND 0xFF) :: u8) = of_nat n"
proof -
  have "n AND 0xFF = n mod 256"
    using take_bit_eq_mask [of 8 n] by (simp add: take_bit_eq_mod mask_eq_exp_minus_1)
  then show ?thesis by (simp add: word_unat_eq_iff unat_of_nat take_bit_eq_mod)
qed

lemma ws_header_wire:
  "ws_header (0x80 OR op) (length payload) @ payload = wire_bytes (Wire True op None payload)"
proof -
  have "map (\<lambda>i. of_nat ((drop_bit (56 - 8 * i) n) AND 0xFF)) [0..<8] =
      (map (\<lambda>i. of_nat (n div 256 ^ (7 - i))) [0..<8] :: bytes)" for n :: nat
    unfolding of_nat_and_255 by (simp add: upt_rec drop_bit_eq_div)
  then show ?thesis
    unfolding ws_header_def of_nat_and_255
    by (simp add: len7_of_def ext_length_def drop_bit_eq_div)
qed

text \<open>A sent frame, read back by a parser in whatever pieces it arrives.\<close>

lemma built_frame_decodes:
  assumes "op < 16" "op \<noteq> kContinuation" "length payload \<le> 16 * 1024 * 1024"
    and "concat ds = ws_header (0x80 OR op) (length payload) @ payload"
  shows "ws_log (feed_all ds ws_parser_new) = [OnFrame op payload]"
proof -
  have "ws_log (feed_all ds ws_parser_new) = ws_deliver None [Wire True op None payload]"
    by (rule feed_frames) (use assms in \<open>simp_all add: ws_header_wire\<close>)
  then show ?thesis using assms(2) by simp
qed

text \<open>The two builders agree on every text and every state of the pool, failures included.\<close>

lemma ws_builders_agree: "BuildWsTextFrame p txt = BuildWsFrame kText txt p"
  by (simp add: BuildWsTextFrame_def BuildWsFrame_def)

section \<open>Properties\<close>

text \<open>C2: a frame built for sending, read by a frame parser from whatever pieces the network makes
  of it, yields the opcode and payload it was built from, once. This covers every data and
  control opcode and every payload size up to the parser's limit.\<close>

theorem ws_frame_roundtrip:
  assumes "pool_reach csize maxc (p, live, rel)" and "BuildWsFrame op payload p = (Some sb, p')"
    and "op < 16" and "op \<noteq> kContinuation" and "length payload \<le> 16 * 1024 * 1024"
    and "length payload + 10 + unat (chunk_size p) < 2 ^ 32" and "concat ds = sb_Data p' sb"
  shows "ws_log (feed_all ds ws_parser_new) = [OnFrame op payload]"
proof -
  let ?xs = "ws_header (0x80 OR op) (length payload) @ payload"
  have len: "0 < length ?xs" "length ?xs + unat (chunk_size p) < 2 ^ 32"
    using assms(6) length_ws_header [of "0x80 OR op" "length payload"]
    by (auto simp: ws_header_size_def)
  have "pool_inv p live" using pool_reach_inv [OF assms(1)] by simp
  then have "sb_Data p' sb = ?xs"
    using build_buffer_ok(2) [OF _ len] assms(2) by (simp add: BuildWsFrame_def)
  with assms(7) show ?thesis using built_frame_decodes [OF assms(3-5)] by simp
qed

theorem ws_frame_roundtrip_witness:
  "\<exists>sb p'. BuildWsFrame kPing [1, 2] (buffer_pool_new 64 4) = (Some sb, p') \<and>
     ws_log (feed_all [sb_Data p' sb] ws_parser_new) = [OnFrame kPing [1, 2]]"
proof -
  have "fst (BuildWsFrame kPing [1, 2] (buffer_pool_new 64 4)) \<noteq> None" by code_simp
  then obtain sb p' where b: "BuildWsFrame kPing [1, 2] (buffer_pool_new 64 4) = (Some sb, p')"
    by (cases "BuildWsFrame kPing [1, 2] (buffer_pool_new 64 4)") auto
  have "chunk_size (buffer_pool_new 64 4) = 64" by (simp add: buffer_pool_new_def)
  then show ?thesis
    using b ws_frame_roundtrip [OF pool_reach.start b, of "[sb_Data p' sb]"] by simp
qed

end
