(* ===== verification/Text_Lib.thy ===== *)
theory Text_Lib
  imports Prelude "HOL-Library.Char_ord"
begin

text \<open>
  The parts of \<^verbatim>\<open>std::string\<close> and \<^verbatim>\<open>std::string_view\<close> that the web and game layers use, on
  HOL strings: \<^verbatim>\<open>find\<close>, \<^verbatim>\<open>substr\<close>, \<^verbatim>\<open>starts_with\<close>, \<^verbatim>\<open>std::to_string\<close>, \<^verbatim>\<open>std::from_chars\<close>, ASCII
  case folding, and the passage between characters and the bytes on the wire.
\<close>

section \<open>Characters and bytes\<close>

definition bytes_of :: "string \<Rightarrow> bytes" where
  "bytes_of s = map (\<lambda>c. of_nat (of_char c)) s"

definition string_of :: "bytes \<Rightarrow> string" where
  "string_of bs = map (\<lambda>b. char_of (unat b)) bs"

lemma string_of_bytes_of [simp]: "string_of (bytes_of s) = s"
proof -
  have "char_of (unat (of_nat (of_char c) :: u8)) = c" for c
    by (simp add: unat_of_nat take_bit_eq_mod)
  then show ?thesis by (simp add: string_of_def bytes_of_def comp_def)
qed

lemma length_bytes_of [simp]: "length (bytes_of s) = length s"
  by (simp add: bytes_of_def)

section \<open>Searching\<close>

text \<open>\<^verbatim>\<open>s.find(c)\<close>; \<^verbatim>\<open>npos\<close> is \<^term>\<open>None\<close>.\<close>

fun find_char :: "char \<Rightarrow> string \<Rightarrow> nat option" where
  "find_char c [] = None"
| "find_char c (x # xs) = (if x = c then Some 0 else map_option Suc (find_char c xs))"

text \<open>\<^verbatim>\<open>s.find(c, start)\<close>.\<close>

definition find_char_from :: "char \<Rightarrow> nat \<Rightarrow> string \<Rightarrow> nat option" where
  "find_char_from c start s = map_option ((+) start) (find_char c (drop start s))"

text \<open>\<^verbatim>\<open>s.find(t)\<close> for a string \<^verbatim>\<open>t\<close>.\<close>

fun find_sub :: "string \<Rightarrow> string \<Rightarrow> nat option" where
  "find_sub t [] = (if t = [] then Some 0 else None)"
| "find_sub t (x # xs) =
     (if take (length t) (x # xs) = t then Some 0 else map_option Suc (find_sub t xs))"

definition find_sub_from :: "string \<Rightarrow> nat \<Rightarrow> string \<Rightarrow> nat option" where
  "find_sub_from t start s =
     (if start > length s then None else map_option ((+) start) (find_sub t (drop start s)))"

definition substr :: "nat \<Rightarrow> nat \<Rightarrow> string \<Rightarrow> string" where
  "substr pos n s = take n (drop pos s)"

definition starts_with :: "string \<Rightarrow> string \<Rightarrow> bool" where
  "starts_with s t = (take (length t) s = t)"

definition ends_with :: "string \<Rightarrow> string \<Rightarrow> bool" where
  "ends_with s t = (length t \<le> length s \<and> drop (length s - length t) s = t)"

lemma find_char_None [find_simps]: "find_char c s = None \<longleftrightarrow> c \<notin> set s"
  by (induction s) auto

lemma find_char_Some:
  "find_char c s = Some i \<longleftrightarrow> i < length s \<and> s ! i = c \<and> c \<notin> set (take i s)"
proof (induction s arbitrary: i)
  case (Cons x s)
  then show ?case by (cases i) auto
qed simp

lemma find_char_append:
  "c \<notin> set s \<Longrightarrow> find_char c (s @ t) = map_option ((+) (length s)) (find_char c t)"
proof (induction s)
  case (Cons x s)
  then show ?case by (auto simp: option.map_comp comp_def)
qed (cases "find_char c t", simp_all)

lemma find_char_here [find_simps]: "c \<notin> set s \<Longrightarrow> find_char c (s @ c # t) = Some (length s)"
  by (simp add: find_char_append)

lemma find_sub_missing_char: "c \<in> set t \<Longrightarrow> c \<notin> set s \<Longrightarrow> find_sub t s = None"
proof (induction s)
  case (Cons x s)
  then show ?case by (auto dest!: arg_cong [where f = set] in_set_takeD)
qed auto

lemma find_sub_Some_take: "find_sub t s = Some i \<Longrightarrow> take (length t) (drop i s) = t"
proof (induction s arbitrary: i)
  case (Cons x s)
  then show ?case by (auto split: if_splits)
qed (auto split: if_splits)

lemma take_eq_length: "take (length t) s = t \<Longrightarrow> length t \<le> length s"
  using length_take [of "length t" s] by simp

lemma find_sub_bound: "find_sub t s = Some i \<Longrightarrow> i + length t \<le> length s"
proof (induction s arbitrary: i)
  case (Cons x s)
  show ?case
  proof (cases "take (length t) (x # s) = t")
    case True
    then show ?thesis using Cons.prems take_eq_length [OF True] by simp
  next
    case False
    then obtain j where "find_sub t s = Some j" "i = Suc j" using Cons.prems by auto
    then show ?thesis using Cons.IH by fastforce
  qed
qed (auto split: if_splits)

text \<open>An occurrence in a prefix of a text is the first one of the text as well.\<close>

lemma find_sub_prefix: "find_sub t s = Some i \<Longrightarrow> find_sub t (s @ u) = Some i"
proof (induction s arbitrary: i)
  case (Cons x s)
  have longer: "take (length t) ((x # s) @ u) = take (length t) (x # s)" if "length t \<le> length (x # s)"
    using that by (simp only: take_append) simp
  show ?case
  proof (cases "take (length t) (x # s) = t")
    case True
    then show ?thesis using longer [OF take_eq_length [OF True]] Cons.prems by simp
  next
    case False
    then obtain j where j: "find_sub t s = Some j" "i = Suc j" using Cons.prems by auto
    have "length t \<le> length (x # s)" using find_sub_bound [OF j(1)] by simp
    then show ?thesis using longer False Cons.IH [OF j(1)] j(2) by simp
  qed
qed (cases u; auto split: if_splits)

text \<open>A text without the separator lies within one part.\<close>

lemma take_across:
  assumes "c \<notin> set t" and "take (length t) (s @ c # u) = t"
  shows "take (length t) s = t"
proof (cases "length t \<le> length s")
  case True
  then show ?thesis using assms(2) by simp
next
  case False
  then have "take (length t) (s @ c # u) ! length s = c" by (simp add: nth_append del: take_append)
  then have "t ! length s = c" using assms(2) by simp
  then show ?thesis using assms(1) False by (metis linorder_not_le nth_mem)
qed

lemma find_sub_part:
  assumes "t \<noteq> []" and "c \<notin> set t" and "find_sub t s = None"
  shows "find_sub t (s @ c # u) = map_option ((+) (Suc (length s))) (find_sub t u)"
  using assms(3)
proof (induction s)
  case Nil
  have "take (length t) (c # u) \<noteq> t" using assms(1,2) by (cases t) auto
  then show ?case by (simp add: option.map_comp comp_def)
next
  case (Cons x s)
  then have no: "take (length t) (x # s) \<noteq> t" "find_sub t s = None" by (auto split: if_splits)
  then have "take (length t) ((x # s) @ c # u) \<noteq> t" using take_across [OF assms(2)] by blast
  then show ?case using Cons.IH [OF no(2)] by (simp add: option.map_comp comp_def)
qed

lemma starts_with_append [simp]: "starts_with (s @ t) s"
  by (simp add: starts_with_def)

lemma starts_with_iff: "starts_with s t \<longleftrightarrow> (\<exists>u. s = t @ u)"
  unfolding starts_with_def by (metis append_eq_conv_conj append_take_drop_id)

section \<open>Case folding\<close>

definition ToLower :: "char \<Rightarrow> char" where
  "ToLower c = (if of_char c \<ge> (65 :: nat) \<and> of_char c \<le> (90 :: nat) then char_of (of_char c + (32 :: nat)) else c)"

section \<open>Numbers\<close>

definition digit_char :: "nat \<Rightarrow> char" where
  "digit_char d = char_of (48 + d)"

definition digit_val :: "char \<Rightarrow> nat option" where
  "digit_val c = (let n = of_char c :: nat in if 48 \<le> n \<and> n \<le> 57 then Some (n - 48) else None)"

text \<open>\<^verbatim>\<open>std::to_string\<close> on a non-negative number.\<close>

fun show_nat :: "nat \<Rightarrow> string" where
  "show_nat n = (if n < 10 then [digit_char n] else show_nat (n div 10) @ [digit_char (n mod 10)])"

declare show_nat.simps [simp del]

text \<open>The leading decimal digits of a text, as \<^verbatim>\<open>std::from_chars\<close> reads them: the number and the
  rest. It fails on a text without a leading digit.\<close>

fun read_digits :: "nat \<Rightarrow> string \<Rightarrow> nat \<times> string" where
  "read_digits acc [] = (acc, [])"
| "read_digits acc (c # cs) =
     (case digit_val c of None \<Rightarrow> (acc, c # cs) | Some d \<Rightarrow> read_digits (acc * 10 + d) cs)"

lemma digit_val_char [simp]: "d < 10 \<Longrightarrow> digit_val (digit_char d) = Some d"
  by (simp add: digit_val_def digit_char_def)

lemma show_nat_neq_Nil [simp]: "show_nat n \<noteq> []"
  by (subst show_nat.simps) simp

lemma read_digits_append:
  "list_all (\<lambda>c. digit_val c \<noteq> None) xs \<Longrightarrow> read_digits acc (xs @ ys) = read_digits (fst (read_digits acc xs)) ys"
  by (induction xs arbitrary: acc) (auto split: option.splits)

lemma show_nat_digits: "list_all (\<lambda>c. digit_val c \<noteq> None) (show_nat n)"
proof (induction n rule: show_nat.induct)
  case (1 n)
  then show ?case by (subst show_nat.simps) auto
qed

lemma read_show_nat: "read_digits 0 (show_nat n) = (n, [])"
proof (induction n rule: show_nat.induct)
  case (1 n)
  then show ?case
    by (subst show_nat.simps) (auto simp: read_digits_append [OF show_nat_digits])
qed

lemma read_show_nat_append:
  assumes "rest = [] \<or> digit_val (hd rest) = None"
  shows "read_digits 0 (show_nat n @ rest) = (n, rest)"
  using assms by (cases rest) (auto simp: read_digits_append [OF show_nat_digits] read_show_nat)

lemma show_nat_chars: "c \<in> set (show_nat n) \<Longrightarrow> digit_val c \<noteq> None"
  using show_nat_digits [of n] by (auto simp: list_all_iff)

text \<open>\<^verbatim>\<open>std::from_chars\<close> into a 64-bit unsigned integer: \<^term>\<open>None\<close> where it reports an error and
  leaves the target alone.\<close>

definition from_chars_u64 :: "string \<Rightarrow> u64 option" where
  "from_chars_u64 s =
     (if s = [] \<or> digit_val (hd s) = None then None
      else let n = fst (read_digits 0 s) in if n < 2 ^ 64 then Some (of_nat n) else None)"

lemma from_chars_show: "n < 2 ^ 64 \<Longrightarrow> from_chars_u64 (show_nat n) = Some (of_nat n)"
  using show_nat_chars [of "hd (show_nat n)" n] by (auto simp: from_chars_u64_def read_show_nat)

end
