(* ===== verification/Http_Message.thy ===== *)
theory Http_Message
  imports Text_Lib Send_Buffer
begin

text \<open>
  HTTP methods, status codes, requests and responses (\<^verbatim>\<open>HttpMethod.h\<close>, \<^verbatim>\<open>HttpStatus.h\<close>,
  \<^verbatim>\<open>HttpRequest.h\<close>, \<^verbatim>\<open>HttpResponse.h\<close>, \<^verbatim>\<open>src/web/HttpResponse.cpp\<close>). The text of the
  \<^verbatim>\<open>Date\<close> header, which comes from the system clock, is an argument of \<^verbatim>\<open>Build\<close>.
\<close>

section \<open>Methods and status codes\<close>

datatype http_method = KGet | KHead | KPost | KPut | KDelete | KOptions | KPatch | KUnknown

instantiation http_method :: enum
begin

definition enum_http_method :: "http_method list" where
  "enum_http_method = [KGet, KHead, KPost, KPut, KDelete, KOptions, KPatch, KUnknown]"

definition enum_all_http_method :: "(http_method \<Rightarrow> bool) \<Rightarrow> bool" where
  "enum_all_http_method P = list_all P enum_class.enum"

definition enum_ex_http_method :: "(http_method \<Rightarrow> bool) \<Rightarrow> bool" where
  "enum_ex_http_method P = list_ex P enum_class.enum"

instance
proof
  have set: "set (enum_class.enum :: http_method list) = UNIV"
  proof (rule UNIV_eq_I [symmetric])
    show "m \<in> set enum_class.enum" for m :: http_method
      by (cases m) (simp_all add: enum_http_method_def)
  qed
  show "UNIV = set (enum_class.enum :: http_method list)" by (simp add: set)
  show "distinct (enum_class.enum :: http_method list)" by (simp add: enum_http_method_def)
  show "enum_class.enum_all P = Ball UNIV P" for P :: "http_method \<Rightarrow> bool"
    by (simp add: enum_all_http_method_def list_all_iff set)
  show "enum_class.enum_ex P = Bex UNIV P" for P :: "http_method \<Rightarrow> bool"
    by (simp add: enum_ex_http_method_def list_ex_iff set)
qed

end

definition HttpMethodFromLlhttp :: "int \<Rightarrow> http_method" where
  "HttpMethodFromLlhttp m =
     (if m = 0 then KDelete else if m = 1 then KGet else if m = 2 then KHead
      else if m = 3 then KPost else if m = 4 then KPut else if m = 6 then KOptions
      else if m = 28 then KPatch else KUnknown)"

fun HttpMethodToString :: "http_method \<Rightarrow> string" where
  "HttpMethodToString KGet = ''GET''"
| "HttpMethodToString KHead = ''HEAD''"
| "HttpMethodToString KPost = ''POST''"
| "HttpMethodToString KPut = ''PUT''"
| "HttpMethodToString KDelete = ''DELETE''"
| "HttpMethodToString KOptions = ''OPTIONS''"
| "HttpMethodToString KPatch = ''PATCH''"
| "HttpMethodToString KUnknown = ''UNKNOWN''"

datatype http_status = KOk | KCreated | KNoContent | KMovedPermanently | KFound | KNotModified
  | KBadRequest | KUnauthorized | KForbidden | KHttpNotFound | KMethodNotAllowed | KRequestTimeout
  | KPayloadTooLarge | KUriTooLong | KInternalServerError | KNotImplemented | KBadGateway
  | KServiceUnavailable | KOtherStatus u16

fun status_code :: "http_status \<Rightarrow> nat" where
  "status_code KOk = 200"
| "status_code KCreated = 201"
| "status_code KNoContent = 204"
| "status_code KMovedPermanently = 301"
| "status_code KFound = 302"
| "status_code KNotModified = 304"
| "status_code KBadRequest = 400"
| "status_code KUnauthorized = 401"
| "status_code KForbidden = 403"
| "status_code KHttpNotFound = 404"
| "status_code KMethodNotAllowed = 405"
| "status_code KRequestTimeout = 408"
| "status_code KPayloadTooLarge = 413"
| "status_code KUriTooLong = 414"
| "status_code KInternalServerError = 500"
| "status_code KNotImplemented = 501"
| "status_code KBadGateway = 502"
| "status_code KServiceUnavailable = 503"
| "status_code (KOtherStatus c) = unat c"

fun HttpStatusToString :: "http_status \<Rightarrow> string" where
  "HttpStatusToString KOk = ''OK''"
| "HttpStatusToString KCreated = ''Created''"
| "HttpStatusToString KNoContent = ''No Content''"
| "HttpStatusToString KMovedPermanently = ''Moved Permanently''"
| "HttpStatusToString KFound = ''Found''"
| "HttpStatusToString KNotModified = ''Not Modified''"
| "HttpStatusToString KBadRequest = ''Bad Request''"
| "HttpStatusToString KUnauthorized = ''Unauthorized''"
| "HttpStatusToString KForbidden = ''Forbidden''"
| "HttpStatusToString KHttpNotFound = ''Not Found''"
| "HttpStatusToString KMethodNotAllowed = ''Method Not Allowed''"
| "HttpStatusToString KRequestTimeout = ''Request Timeout''"
| "HttpStatusToString KPayloadTooLarge = ''Payload Too Large''"
| "HttpStatusToString KUriTooLong = ''URI Too Long''"
| "HttpStatusToString KInternalServerError = ''Internal Server Error''"
| "HttpStatusToString KNotImplemented = ''Not Implemented''"
| "HttpStatusToString KBadGateway = ''Bad Gateway''"
| "HttpStatusToString KServiceUnavailable = ''Service Unavailable''"
| "HttpStatusToString (KOtherStatus c) = ''Unknown''"

text \<open>\<^verbatim>\<open>static_cast<HttpStatus>(n)\<close>: the conversion to the 16-bit underlying type; a value that is no
  enumerator is \<^term>\<open>KOtherStatus\<close>.\<close>

definition enumerators :: "http_status list" where
  "enumerators = [KOk, KCreated, KNoContent, KMovedPermanently, KFound, KNotModified, KBadRequest, KUnauthorized,
     KForbidden, KHttpNotFound, KMethodNotAllowed, KRequestTimeout, KPayloadTooLarge, KUriTooLong,
     KInternalServerError, KNotImplemented, KBadGateway, KServiceUnavailable]"

definition cast_status :: "int \<Rightarrow> http_status" where
  "cast_status n =
     (let w = of_int n :: u16 in
      case find (\<lambda>st. status_code st = unat w) enumerators of Some st \<Rightarrow> st | None \<Rightarrow> KOtherStatus w)"

lemma status_code_cast [simp]:
  assumes "0 \<le> n" and "n < 2 ^ 16"
  shows "int (status_code (cast_status n)) = n"
proof -
  have "int (unat (of_int n :: u16)) = n" using assms by (simp add: unsigned_of_int take_bit_int_eq_self)
  then show ?thesis by (auto simp: cast_status_def Let_def find_Some_iff split: option.splits)
qed

section \<open>Requests\<close>

text \<open>
  A route parameter is a view into the request path; \<^term>\<open>None\<close> stands for a view whose extent
  is undefined (see the wildcard capture of the route tree).
\<close>

record http_request =
  rq_method :: http_method
  rq_path :: string
  rq_query :: string
  rq_body :: string
  rq_keep_alive :: bool
  rq_user_id :: string
  rq_headers :: "(string \<times> string) list"
  rq_params :: "(string \<times> string option) list"
  rq_query_parsed :: bool
  rq_query_params :: "(string \<times> string) list"

definition http_request_new :: http_request where
  "http_request_new = \<lparr>rq_method = KUnknown, rq_path = [], rq_query = [], rq_body = [],
     rq_keep_alive = True, rq_user_id = [], rq_headers = [], rq_params = [],
     rq_query_parsed = False, rq_query_params = []\<rparr>"

definition CaseInsensitiveEqual :: "string \<Rightarrow> string \<Rightarrow> bool" where
  "CaseInsensitiveEqual a b = (length a = length b \<and> list_all2 (\<lambda>x y. ToLower x = ToLower y) a b)"

fun lookup_header :: "string \<Rightarrow> (string \<times> string) list \<Rightarrow> string option" where
  "lookup_header name [] = None"
| "lookup_header name ((k, v) # hs) =
     (if CaseInsensitiveEqual k name then Some v else lookup_header name hs)"

definition GetHeader :: "string \<Rightarrow> http_request \<Rightarrow> string" where
  "GetHeader name req = (case lookup_header name (rq_headers req) of None \<Rightarrow> [] | Some v \<Rightarrow> v)"

definition HasHeader :: "string \<Rightarrow> http_request \<Rightarrow> bool" where
  "HasHeader name req = (lookup_header name (rq_headers req) \<noteq> None)"

definition ContentLength :: "http_request \<Rightarrow> u64" where
  "ContentLength req =
     (let val = GetHeader ''Content-Length'' req in
      if val = [] then 0 else case from_chars_u64 val of None \<Rightarrow> 0 | Some n \<Rightarrow> n)"

definition rq_ContentType :: "http_request \<Rightarrow> string" where
  "rq_ContentType req = GetHeader ''Content-Type'' req"

definition AddHeader :: "string \<Rightarrow> string \<Rightarrow> http_request \<Rightarrow> http_request" where
  "AddHeader name v req = req\<lparr>rq_headers := rq_headers req @ [(name, v)]\<rparr>"

fun lookup_param :: "string \<Rightarrow> (string \<times> 'a) list \<Rightarrow> 'a option" where
  "lookup_param name [] = None"
| "lookup_param name ((k, v) # ps) = (if k = name then Some v else lookup_param name ps)"

definition Param :: "string \<Rightarrow> http_request \<Rightarrow> string option" where
  "Param name req = (case lookup_param name (rq_params req) of None \<Rightarrow> Some [] | Some v \<Rightarrow> v)"

definition HasParam :: "string \<Rightarrow> http_request \<Rightarrow> bool" where
  "HasParam name req = (lookup_param name (rq_params req) \<noteq> None)"

definition SetParams :: "(string \<times> string option) list \<Rightarrow> http_request \<Rightarrow> http_request" where
  "SetParams ps req = req\<lparr>rq_params := ps\<rparr>"

definition ClearParams :: "http_request \<Rightarrow> http_request" where
  "ClearParams req = req\<lparr>rq_params := []\<rparr>"

definition rq_Clear :: "http_request \<Rightarrow> http_request" where
  "rq_Clear req = http_request_new"

definition query_entry :: "string \<Rightarrow> string \<times> string" where
  "query_entry pair =
     (case find_char (CHR ''='') pair of
        Some eq \<Rightarrow> (take eq pair, drop (eq + 1) pair)
      | None \<Rightarrow> (pair, []))"

function query_loop :: "string \<Rightarrow> (string \<times> string) list" where
  "query_loop q =
     (if q = [] then []
      else case find_char (CHR ''&'') q of
             None \<Rightarrow> [query_entry q]
           | Some amp \<Rightarrow> query_entry (take amp q) # query_loop (drop (amp + 1) q))"
  by pat_completeness auto
termination by (relation "measure length") auto

declare query_loop.simps [simp del]

definition ParseQueryParams :: "http_request \<Rightarrow> http_request" where
  "ParseQueryParams req =
     (if rq_query req = [] then req\<lparr>rq_query_parsed := True\<rparr>
      else req\<lparr>rq_query_parsed := True, rq_query_params := rq_query_params req @ query_loop (rq_query req)\<rparr>)"

definition QueryParam :: "string \<Rightarrow> http_request \<Rightarrow> string \<times> http_request" where
  "QueryParam name req =
     (let r = if rq_query_parsed req then req else ParseQueryParams req in
      (case lookup_param name (rq_query_params r) of None \<Rightarrow> [] | Some v \<Rightarrow> v, r))"

section \<open>Responses\<close>

record http_response =
  rs_status :: http_status
  rs_headers :: "(string \<times> string) list"
  rs_content_type :: string
  rs_body :: string
  rs_keep_alive :: bool
  rs_sent :: bool
  rs_bound :: bool

definition http_response_new :: "bool \<Rightarrow> http_response" where
  "http_response_new bound = \<lparr>rs_status = KOk, rs_headers = [], rs_content_type = [], rs_body = [],
     rs_keep_alive = True, rs_sent = False, rs_bound = bound\<rparr>"

definition Status :: "http_status \<Rightarrow> http_response \<Rightarrow> http_response" where
  "Status st r = r\<lparr>rs_status := st\<rparr>"

definition Header :: "string \<Rightarrow> string \<Rightarrow> http_response \<Rightarrow> http_response" where
  "Header name v r = r\<lparr>rs_headers := rs_headers r @ [(name, v)]\<rparr>"

definition ContentType :: "string \<Rightarrow> http_response \<Rightarrow> http_response" where
  "ContentType t r = r\<lparr>rs_content_type := t\<rparr>"

definition Body :: "string \<Rightarrow> http_response \<Rightarrow> http_response" where
  "Body b r = r\<lparr>rs_body := b\<rparr>"

definition Json :: "string \<Rightarrow> http_response \<Rightarrow> http_response" where
  "Json b r = r\<lparr>rs_content_type := ''application/json'', rs_body := b\<rparr>"

definition KeepAlive :: "bool \<Rightarrow> http_response \<Rightarrow> http_response" where
  "KeepAlive k r = r\<lparr>rs_keep_alive := k\<rparr>"

definition MarkSent :: "http_response \<Rightarrow> http_response" where
  "MarkSent r = r\<lparr>rs_sent := True\<rparr>"

definition CRLF :: string where
  "CRLF = [CHR 0x0D, CHR 0x0A]"

definition header_line :: "string \<times> string \<Rightarrow> string" where
  "header_line h = fst h @ '': '' @ snd h @ CRLF"

definition response_headers :: "string \<Rightarrow> http_response \<Rightarrow> (string \<times> string) list" where
  "response_headers date r =
     [(''Server'', ''serverweb''), (''Date'', date)] @
     (if rs_content_type r \<noteq> [] then [(''Content-Type'', rs_content_type r)] else []) @
     [(''Content-Length'', show_nat (length (rs_body r))),
      (''Connection'', if rs_keep_alive r then ''keep-alive'' else ''close'')] @
     rs_headers r"

definition serialize :: "string \<Rightarrow> http_response \<Rightarrow> string" where
  "serialize date r =
     ''HTTP/1.1 '' @ show_nat (status_code (rs_status r)) @ '' '' @ HttpStatusToString (rs_status r) @ CRLF @
     concat (map header_line (response_headers date r)) @ CRLF @ rs_body r"

definition Build :: "string \<Rightarrow> http_response \<Rightarrow> buffer_pool \<Rightarrow> send_buffer option \<times> buffer_pool" where
  "Build date r p = build_buffer (bytes_of (serialize date r)) p"

text \<open>\<^verbatim>\<open>Send\<close> returns the buffer it passes to the session, if it passes one.\<close>

definition rs_Send :: "string \<Rightarrow> http_response \<Rightarrow> buffer_pool \<Rightarrow> send_buffer option \<times> http_response \<times> buffer_pool" where
  "rs_Send date r p =
     (if rs_sent r then (None, r, p)
      else let r' = MarkSent r in
        if \<not> rs_bound r then (None, r', p)
        else case Build date r' p of (sb, p') \<Rightarrow> (sb, r', p'))"

definition NoContent :: "string \<Rightarrow> bool \<Rightarrow> buffer_pool \<Rightarrow> send_buffer option \<times> buffer_pool" where
  "NoContent date keep p = Build date (KeepAlive keep (Status KNoContent (http_response_new False))) p"

section \<open>Query strings\<close>

text \<open>The query string of a form submission.\<close>

fun query_text :: "(string \<times> string) list \<Rightarrow> string" where
  "query_text [] = []"
| "query_text [(k, v)] = k @ ''='' @ v"
| "query_text ((k, v) # ps) = k @ ''='' @ v @ ''&'' @ query_text ps"

definition query_ok :: "(string \<times> string) list \<Rightarrow> bool" where
  "query_ok ps = list_all (\<lambda>(k, v). CHR ''='' \<notin> set k \<and> CHR ''&'' \<notin> set k \<and> CHR ''&'' \<notin> set v) ps"

lemma query_entry_pair: "CHR ''='' \<notin> set k \<Longrightarrow> query_entry (k @ CHR ''='' # v) = (k, v)"
  by (simp add: query_entry_def find_char_here)

lemma query_loop_text: "query_ok ps \<Longrightarrow> query_loop (query_text ps) = ps"
proof (induction ps rule: query_text.induct)
  case (2 k v)
  then have "find_char (CHR ''&'') (k @ ''='' @ v) = None" by (auto simp: find_char_None query_ok_def)
  then show ?case using 2 by (simp add: query_loop.simps query_entry_pair query_ok_def)
next
  case (3 k v q ps)
  let ?kv = "k @ ''='' @ v" and ?rest = "query_text (q # ps)"
  have amp: "find_char (CHR ''&'') (?kv @ CHR ''&'' # ?rest) = Some (length ?kv)"
    using 3(2) by (intro find_char_here) (auto simp: query_ok_def)
  have "query_loop (query_text ((k, v) # q # ps)) = query_loop (?kv @ CHR ''&'' # ?rest)" by simp
  also have "\<dots> = query_entry ?kv # query_loop ?rest"
    by (subst query_loop.simps) (simp only: amp, simp)
  finally show ?case using 3 by (simp add: query_entry_pair query_ok_def)
qed (simp add: query_loop.simps)

text \<open>What a client encodes as a query string is what \<^verbatim>\<open>QueryParam\<close> reads back: for every name
  the first value given to it, and the empty text for a name that is absent; a second
  lookup uses the parameters parsed by the first and agrees with it.\<close>

theorem query_param_roundtrip:
  assumes "query_ok ps" and "rq_query req = query_text ps" and "\<not> rq_query_parsed req"
    and "rq_query_params req = []"
  shows "\<exists>r. QueryParam name req = (case lookup_param name ps of None \<Rightarrow> [] | Some v \<Rightarrow> v, r) \<and>
    QueryParam name2 r = (case lookup_param name2 ps of None \<Rightarrow> [] | Some v \<Rightarrow> v, r)"
proof -
  have "rq_query_params (ParseQueryParams req) = ps" "rq_query_parsed (ParseQueryParams req)"
    using assms query_loop_text [OF assms(1)]
    by (auto simp: ParseQueryParams_def query_loop.simps split: if_splits)
  then show ?thesis using assms(3) by (simp add: QueryParam_def Let_def)
qed

theorem query_param_roundtrip_witness:
  "fst (QueryParam ''b'' (http_request_new\<lparr>rq_query := ''a=1&b=x=y''\<rparr>)) = ''x=y''"
proof -
  have "query_ok [(''a'', ''1''), (''b'', ''x=y'')]"
    "rq_query (http_request_new\<lparr>rq_query := ''a=1&b=x=y''\<rparr>) = query_text [(''a'', ''1''), (''b'', ''x=y'')]"
    "\<not> rq_query_parsed (http_request_new\<lparr>rq_query := ''a=1&b=x=y''\<rparr>)"
    "rq_query_params (http_request_new\<lparr>rq_query := ''a=1&b=x=y''\<rparr>) = []"
    by (simp_all add: query_ok_def http_request_new_def)
  from query_param_roundtrip [OF this, of "''b''" "''b''"] show ?thesis by auto
qed

end
