(* ===== verification/Radix_Tree.thy ===== *)
theory Radix_Tree
  imports Http_Message
begin

text \<open>
  The route tree (\<^verbatim>\<open>src/web/RadixTree.cpp\<close>). Nodes are the source's; a request's segments are
  views into its path, with the offset of their first byte, or no offset for the empty view
  \<^verbatim>\<open>SplitPathView\<close> appends after a trailing slash. The theory relates the tree to a table of
  route shapes and \<^verbatim>\<open>Match\<close> to a search of that table in priority order.
\<close>

section \<open>Nodes\<close>

datatype 'h rnode = RNode
  (prefix: string)
  (children: "'h rnode list")
  (param_child: "'h rnode option")
  (param_name: string)
  (wildcard_child: "'h rnode option")
  (wildcard_name: string)
  (handlers: "http_method \<Rightarrow> 'h option")

definition rnode_new :: "string \<Rightarrow> 'h rnode" where
  "rnode_new p = RNode p [] None [] None [] (\<lambda>_. None)"

definition HasAnyHandler :: "'h rnode \<Rightarrow> bool" where
  "HasAnyHandler n = list_ex (\<lambda>m. handlers n m \<noteq> None) enum_class.enum"

fun set_handler :: "http_method \<Rightarrow> 'h \<Rightarrow> 'h rnode \<Rightarrow> 'h rnode" where
  "set_handler m h (RNode p cs pc pn wc wn hs) = RNode p cs pc pn wc wn (hs(m := Some h))"

section \<open>Splitting paths\<close>

text \<open>The loop both \<^verbatim>\<open>SplitPath\<close> and \<^verbatim>\<open>SplitPathView\<close> run: segments with their offsets.\<close>

function split_loop :: "string \<Rightarrow> nat \<Rightarrow> (nat \<times> string) list" where
  "split_loop path start =
     (if start < length path then
        (case find_char_from (CHR ''/'') start path of
           None \<Rightarrow> [(start, drop start path)]
         | Some pos \<Rightarrow>
             (if pos > start then [(start, substr start (pos - start) path)] else []) @
             split_loop path (pos + 1))
      else [])"
  by pat_completeness auto
termination
  by (relation "measure (\<lambda>(path, start). length path - start)")
     (auto simp: find_char_from_def)

declare split_loop.simps [simp del]

definition split_start :: "string \<Rightarrow> nat" where
  "split_start path = (if path \<noteq> [] \<and> hd path = CHR ''/'' then 1 else 0)"

definition SplitPath :: "string \<Rightarrow> string list" where
  "SplitPath path = map snd (split_loop path (split_start path))"

type_synonym seg_view = "nat option \<times> string"

definition SplitPathView :: "string \<Rightarrow> seg_view list" where
  "SplitPathView path =
     map (\<lambda>(i, s). (Some i, s)) (split_loop path (split_start path)) @
     (if length path > 1 \<and> last path = CHR ''/'' then [(None, [])] else [])"

section \<open>Insertion\<close>

text \<open>Run \<^verbatim>\<open>f\<close> on the first child with the given prefix, or append a fresh child for it.\<close>

fun update_child :: "string \<Rightarrow> ('h rnode \<Rightarrow> 'h rnode) \<Rightarrow> 'h rnode list \<Rightarrow> 'h rnode list" where
  "update_child seg f [] = [f (rnode_new seg)]"
| "update_child seg f (c # cs) = (if prefix c = seg then f c # cs else c # update_child seg f cs)"

fun InsertSegments :: "'h rnode \<Rightarrow> string list \<Rightarrow> http_method \<Rightarrow> 'h \<Rightarrow> 'h rnode" where
  "InsertSegments node [] m h = set_handler m h node"
| "InsertSegments (RNode p cs pc pn wc wn hs) (seg # segs) m h =
     (if length seg > 1 \<and> hd seg = CHR ''*'' then
        (case wc of
           None \<Rightarrow> RNode p cs pc pn (Some (set_handler m h (rnode_new []))) (tl seg) hs
         | Some w \<Rightarrow> RNode p cs pc pn (Some (set_handler m h w)) wn hs)
      else if length seg > 1 \<and> hd seg = CHR '':'' then
        (case pc of
           None \<Rightarrow> RNode p cs (Some (InsertSegments (rnode_new []) segs m h)) (tl seg) wc wn hs
         | Some c \<Rightarrow> RNode p cs (Some (InsertSegments c segs m h)) pn wc wn hs)
      else RNode p (update_child seg (\<lambda>c. InsertSegments c segs m h) cs) pc pn wc wn hs)"

definition Insert :: "http_method \<Rightarrow> string \<Rightarrow> 'h \<Rightarrow> 'h rnode \<Rightarrow> 'h rnode" where
  "Insert m path h root =
     (if path = ''/'' then set_handler m h root else InsertSegments root (SplitPath path) m h)"

section \<open>Matching\<close>

record 'h match_result =
  mr_handler :: "'h option"
  mr_params :: "(string \<times> string option) list"
  mr_path_exists :: bool

definition match_result_new :: "'h match_result" where
  "match_result_new = \<lparr>mr_handler = None, mr_params = [], mr_path_exists = False\<rparr>"

text \<open>
  The span from the first byte of one segment to the last byte of another. Subtracting pointers is
  defined when both point into the path or both are null; otherwise the extent of the view is
  undefined and the value is \<^term>\<open>None\<close>.
\<close>

definition wildcard_value :: "string \<Rightarrow> seg_view \<Rightarrow> seg_view \<Rightarrow> string option" where
  "wildcard_value path s1 s2 =
     (case (fst s1, fst s2) of
        (Some i, Some j) \<Rightarrow> Some (substr i (j + length (snd s2) - i) path)
      | (None, None) \<Rightarrow> Some []
      | _ \<Rightarrow> None)"

definition record_match :: "'h rnode \<Rightarrow> http_method \<Rightarrow> (string \<times> string option) list \<Rightarrow>
    'h match_result \<Rightarrow> 'h match_result" where
  "record_match node m params r =
     (case handlers node m of
        Some h \<Rightarrow> r\<lparr>mr_handler := Some h, mr_params := params, mr_path_exists := True\<rparr>
      | None \<Rightarrow> if HasAnyHandler node then r\<lparr>mr_path_exists := True\<rparr> else r)"

fun MatchNode :: "string \<Rightarrow> 'h rnode \<Rightarrow> seg_view list \<Rightarrow> http_method \<Rightarrow> 'h match_result \<Rightarrow>
    (string \<times> string option) list \<Rightarrow> 'h match_result \<times> (string \<times> string option) list" where
  "MatchNode path node [] m r params = (record_match node m params r, params)"
| "MatchNode path node (seg # segs) m r params =
     (if mr_handler r \<noteq> None then (r, params)
      else
        let (r1, ps1) =
              (case find (\<lambda>c. prefix c = snd seg) (children node) of
                 None \<Rightarrow> (r, params)
               | Some c \<Rightarrow> MatchNode path c segs m r params) in
        if mr_handler r1 \<noteq> None then (r1, ps1)
        else
          let (r2, ps2) =
                (case param_child node of
                   None \<Rightarrow> (r1, ps1)
                 | Some c \<Rightarrow>
                     let (r', ps') = MatchNode path c segs m r1 (ps1 @ [(param_name node, Some (snd seg))]) in
                     if mr_handler r' \<noteq> None then (r', ps') else (r', butlast ps')) in
          if mr_handler r2 \<noteq> None then (r2, ps2)
          else
            (case wildcard_child node of
               None \<Rightarrow> (r2, ps2)
             | Some w \<Rightarrow>
                 (case handlers w m of
                    Some h \<Rightarrow>
                      let ps3 = ps2 @ [(wildcard_name node, wildcard_value path seg (last (seg # segs)))] in
                      (r2\<lparr>mr_handler := Some h, mr_params := ps3, mr_path_exists := True\<rparr>, ps3)
                  | None \<Rightarrow> (if HasAnyHandler w then r2\<lparr>mr_path_exists := True\<rparr> else r2, ps2))))"

definition Match :: "'h rnode \<Rightarrow> http_method \<Rightarrow> string \<Rightarrow> 'h match_result" where
  "Match root m path =
     (if path = ''/'' then
        (case handlers root m of
           Some h \<Rightarrow> match_result_new\<lparr>mr_handler := Some h, mr_path_exists := True\<rparr>
         | None \<Rightarrow> if HasAnyHandler root then match_result_new\<lparr>mr_path_exists := True\<rparr> else match_result_new)
      else fst (MatchNode path root (SplitPathView path) m match_result_new []))"

section \<open>The tree as a table of route shapes\<close>

text \<open>What a registered pattern means once parameter names are forgotten; a wildcard ends it.\<close>

datatype shape_seg = SStatic string | SParam | SWild

fun shape_of :: "string list \<Rightarrow> shape_seg list" where
  "shape_of [] = []"
| "shape_of (seg # segs) =
     (if length seg > 1 \<and> hd seg = CHR ''*'' then [SWild]
      else if length seg > 1 \<and> hd seg = CHR '':'' then SParam # shape_of segs
      else SStatic seg # shape_of segs)"

fun handler_at :: "'h rnode \<Rightarrow> shape_seg list \<Rightarrow> http_method \<Rightarrow> 'h option" where
  "handler_at n [] m = handlers n m"
| "handler_at n (SStatic s # sh) m =
     (case find (\<lambda>c. prefix c = s) (children n) of None \<Rightarrow> None | Some c \<Rightarrow> handler_at c sh m)"
| "handler_at n (SParam # sh) m =
     (case param_child n of None \<Rightarrow> None | Some c \<Rightarrow> handler_at c sh m)"
| "handler_at n (SWild # sh) m =
     (case wildcard_child n of None \<Rightarrow> None | Some w \<Rightarrow> if sh = [] then handlers w m else None)"

lemma handler_at_new [simp]: "handler_at (rnode_new p :: 'h rnode) sh m = None"
  by (cases "(rnode_new p :: 'h rnode, sh, m)" rule: handler_at.cases) (auto simp: rnode_new_def)

lemma prefix_set_handler [simp]: "prefix (set_handler m h n) = prefix n"
  by (cases n) simp

lemma handlers_set_handler [simp]: "handlers (set_handler m h n) = (handlers n)(m := Some h)"
  by (cases n) simp

lemma children_set_handler [simp]:
  "children (set_handler m h n) = children n" "param_child (set_handler m h n) = param_child n"
  "wildcard_child (set_handler m h n) = wildcard_child n"
  by (cases n; simp)+

lemma prefix_InsertSegments [simp]: "prefix (InsertSegments n segs m h) = prefix n"
  by (cases n; cases segs) (auto split: option.splits)

lemma find_update_child:
  assumes "\<And>c. prefix (f c) = prefix c"
  shows "find (\<lambda>c. prefix c = s) (update_child seg f cs) =
    (if s = seg then Some (f (case find (\<lambda>c. prefix c = seg) cs of None \<Rightarrow> rnode_new seg | Some c \<Rightarrow> c))
     else find (\<lambda>c. prefix c = s) cs)"
  using assms by (induction cs) (auto simp: rnode_new_def)

text \<open>Insertion is an update of the table at one shape and method.\<close>

lemma handler_at_InsertSegments:
  "handler_at (InsertSegments n segs m h) sh m' =
   (if sh = shape_of segs \<and> m' = m then Some h else handler_at n sh m')"
proof (induction segs arbitrary: n sh m')
  case Nil
  show ?case by (cases "(n, sh, m')" rule: handler_at.cases) auto
next
  case (Cons seg segs)
  obtain p cs pc pn wc wn hs where n: "n = RNode p cs pc pn wc wn hs" by (cases n)
  consider (wild) "length seg > 1 \<and> hd seg = CHR ''*''"
    | (param) "length seg > 1 \<and> hd seg = CHR '':''"
    | (static) "\<not> (length seg > 1 \<and> hd seg = CHR ''*'')" "\<not> (length seg > 1 \<and> hd seg = CHR '':'')"
    by blast
  then show ?case
  proof cases
    case wild
    then show ?thesis
      by (cases "(n, sh, m')" rule: handler_at.cases)
         (auto simp: n rnode_new_def split: option.splits)
  next
    case param
    then have nw: "hd seg \<noteq> CHR ''*''" by auto
    show ?thesis
      using param nw by (cases "(n, sh, m')" rule: handler_at.cases) (auto simp: n Cons split: option.splits)
  next
    case static
    then show ?thesis
      by (cases "(n, sh, m')" rule: handler_at.cases)
         (auto simp: n Cons find_update_child split: option.splits)
  qed
qed

lemma SplitPath_root [simp]: "SplitPath ''/'' = []"
  by (simp add: SplitPath_def split_start_def split_loop.simps)

lemma Insert_eq: "Insert m path h root = InsertSegments root (SplitPath path) m h"
  by (simp add: Insert_def)

section \<open>Matching as a search of the table\<close>

text \<open>The shapes a request path can match, in the order \<^verbatim>\<open>MatchNode\<close> prefers them.\<close>

fun candidates :: "string list \<Rightarrow> shape_seg list list" where
  "candidates [] = [[]]"
| "candidates (s # ss) =
     map ((#) (SStatic s)) (candidates ss) @ map ((#) SParam) (candidates ss) @ [[SWild]]"

fun first_hit :: "('a \<Rightarrow> 'b option) \<Rightarrow> 'a list \<Rightarrow> ('a \<times> 'b) option" where
  "first_hit f [] = None"
| "first_hit f (x # xs) = (case f x of None \<Rightarrow> first_hit f xs | Some y \<Rightarrow> Some (x, y))"

text \<open>What the matched shape captures from the path.\<close>

fun captures :: "string \<Rightarrow> 'h rnode \<Rightarrow> shape_seg list \<Rightarrow> seg_view list \<Rightarrow> (string \<times> string option) list" where
  "captures path n (SStatic s # sh) (seg # segs) =
     (case find (\<lambda>c. prefix c = s) (children n) of None \<Rightarrow> [] | Some c \<Rightarrow> captures path c sh segs)"
| "captures path n (SParam # sh) (seg # segs) =
     (param_name n, Some (snd seg)) #
     (case param_child n of None \<Rightarrow> [] | Some c \<Rightarrow> captures path c sh segs)"
| "captures path n (SWild # sh) (seg # segs) =
     [(wildcard_name n, wildcard_value path seg (last (seg # segs)))]"
| "captures path n _ _ = []"

lemma first_hit_append:
  "first_hit f (xs @ ys) = (case first_hit f xs of None \<Rightarrow> first_hit f ys | Some z \<Rightarrow> Some z)"
  by (induction xs) (auto split: option.splits)

lemma first_hit_map: "first_hit f (map g xs) = map_option (\<lambda>(x, y). (g x, y)) (first_hit (\<lambda>x. f (g x)) xs)"
  by (induction xs) (auto split: option.splits)

lemma first_hit_never [simp]: "first_hit (\<lambda>x. None) xs = None"
  by (induction xs) auto

lemma first_hit_None: "first_hit f xs = None \<longleftrightarrow> (\<forall>x \<in> set xs. f x = None)"
  by (induction xs) (auto split: option.splits)

lemma first_hit_Some: "first_hit f xs = Some (x, y) \<Longrightarrow> x \<in> set xs \<and> f x = Some y"
  by (induction xs) (auto split: option.splits)

lemma HasAnyHandler_iff: "HasAnyHandler n \<longleftrightarrow> (\<exists>m. handlers n m \<noteq> None)"
  by (simp add: HasAnyHandler_def list_ex_iff enum_UNIV)

definition any_registered :: "'h rnode \<Rightarrow> shape_seg list list \<Rightarrow> bool" where
  "any_registered n shs = (\<exists>sh \<in> set shs. \<exists>m. handler_at n sh m \<noteq> None)"

lemma any_registered_append [simp]:
  "any_registered n (xs @ ys) = (any_registered n xs \<or> any_registered n ys)"
  by (auto simp: any_registered_def)

text \<open>The outcome of a search below one node, from a result without a handler.\<close>

definition search_result :: "string \<Rightarrow> 'h rnode \<Rightarrow> shape_seg list list \<Rightarrow> seg_view list \<Rightarrow> http_method \<Rightarrow>
    'h match_result \<Rightarrow> (string \<times> string option) list \<Rightarrow>
    'h match_result \<times> (string \<times> string option) list" where
  "search_result path n shs segs m r params =
     (case first_hit (\<lambda>sh. handler_at n sh m) shs of
        Some (sh, h) \<Rightarrow>
          (r\<lparr>mr_handler := Some h, mr_params := params @ captures path n sh segs, mr_path_exists := True\<rparr>,
           params @ captures path n sh segs)
      | None \<Rightarrow> (r\<lparr>mr_path_exists := mr_path_exists r \<or> any_registered n shs\<rparr>, params))"

lemma search_static:
  assumes "find (\<lambda>c. prefix c = snd seg) (children n) = Some c"
  shows "search_result path n (map ((#) (SStatic (snd seg))) shs) (seg # segs) m r params =
    search_result path c shs segs m r params"
  using assms by (auto simp: search_result_def first_hit_map any_registered_def split: option.splits)

lemma search_static_none:
  assumes "find (\<lambda>c. prefix c = snd seg) (children n) = None"
  shows "search_result path n (map ((#) (SStatic (snd seg))) shs) (seg # segs) m r params = (r, params)"
  using assms by (auto simp: search_result_def first_hit_map first_hit_None any_registered_def split: option.splits)

lemma search_append:
  assumes "mr_handler r = None"
  shows "search_result path n (A @ B) segs m r params =
    (let (r1, ps1) = search_result path n A segs m r params in
     if mr_handler r1 \<noteq> None then (r1, ps1) else search_result path n B segs m r1 ps1)"
  using assms by (auto simp: search_result_def first_hit_append split: option.splits)

lemma search_param:
  assumes "mr_handler r = None"
  shows "search_result path n (map ((#) SParam) shs) (seg # segs) m r params =
    (case param_child n of
       None \<Rightarrow> (r, params)
     | Some c \<Rightarrow>
         let (r', ps') = search_result path c shs segs m r (params @ [(param_name n, Some (snd seg))]) in
         if mr_handler r' \<noteq> None then (r', ps') else (r', butlast ps'))"
  using assms by (auto simp: search_result_def first_hit_map any_registered_def split: option.splits)

lemma search_wild:
  "search_result path n [[SWild]] (seg # segs) m r params =
   (case wildcard_child n of
      None \<Rightarrow> (r, params)
    | Some w \<Rightarrow>
        (case handlers w m of
           Some h \<Rightarrow>
             let ps3 = params @ [(wildcard_name n, wildcard_value path seg (last (seg # segs)))] in
             (r\<lparr>mr_handler := Some h, mr_params := ps3, mr_path_exists := True\<rparr>, ps3)
         | None \<Rightarrow> (if HasAnyHandler w then r\<lparr>mr_path_exists := True\<rparr> else r, params)))"
  by (auto simp: search_result_def any_registered_def HasAnyHandler_iff Let_def split: option.splits)

lemma MatchNode_search:
  "mr_handler r = None \<Longrightarrow>
   MatchNode path n segs m r params = search_result path n (candidates (map snd segs)) segs m r params"
proof (induction segs arbitrary: n r params)
  case Nil
  then show ?case
    by (auto simp: record_match_def search_result_def any_registered_def HasAnyHandler_iff split: option.splits)
next
  case (Cons seg segs)
  let ?shs = "candidates (map snd segs)"
  have static: "(case find (\<lambda>c. prefix c = snd seg) (children n) of None \<Rightarrow> (r, params)
      | Some c \<Rightarrow> MatchNode path c segs m r params) =
      search_result path n (map ((#) (SStatic (snd seg))) ?shs) (seg # segs) m r params"
    using Cons by (auto simp: search_static search_static_none split: option.split)
  have param: "(case param_child n of None \<Rightarrow> (r1, ps1)
      | Some c \<Rightarrow> let (r', ps') = MatchNode path c segs m r1 (ps1 @ [(param_name n, Some (snd seg))]) in
          if mr_handler r' \<noteq> None then (r', ps') else (r', butlast ps')) =
      search_result path n (map ((#) SParam) ?shs) (seg # segs) m r1 ps1"
    if "mr_handler r1 = None" for r1 :: "'a match_result" and ps1
    using that Cons.IH by (simp add: search_param split: option.split)
  show ?case
    using Cons.prems
    by (simp add: search_append static param search_wild split: prod.split)
qed

lemma SplitPathView_root: "SplitPathView ''/'' = []"
  by (simp add: SplitPathView_def split_start_def split_loop.simps)

lemma Match_search:
  "Match root m path =
   fst (search_result path root (candidates (map snd (SplitPathView path))) (SplitPathView path) m
     match_result_new [])"
proof (cases "path = ''/''")
  case True
  then show ?thesis
    by (auto simp: Match_def SplitPathView_root search_result_def match_result_new_def
        any_registered_def HasAnyHandler_iff split: option.splits)
next
  case False
  then show ?thesis by (simp add: Match_def MatchNode_search match_result_new_def)
qed

section \<open>Route tables\<close>

text \<open>Registering a list of routes, oldest first, and the table that list stands for.\<close>

type_synonym 'h route = "http_method \<times> string \<times> 'h"

definition tree_of :: "'h route list \<Rightarrow> 'h rnode" where
  "tree_of routes = fold (\<lambda>(m, path, h) t. Insert m path h t) routes (rnode_new [])"

definition route_handler :: "'h route list \<Rightarrow> shape_seg list \<Rightarrow> http_method \<Rightarrow> 'h option" where
  "route_handler routes sh m =
     map_option (\<lambda>(_, _, h). h) (find (\<lambda>(m', path, _). m' = m \<and> shape_of (SplitPath path) = sh) (rev routes))"

lemma handler_at_tree_of: "handler_at (tree_of routes) sh m = route_handler routes sh m"
proof (induction routes rule: rev_induct)
  case Nil
  show ?case by (simp add: tree_of_def route_handler_def)
next
  case (snoc r routes)
  obtain m' path h where r: "r = (m', path, h)" by (cases r)
  have "tree_of (routes @ [r]) = Insert m' path h (tree_of routes)" by (simp add: tree_of_def r)
  then show ?case using snoc
    by (auto simp: Insert_eq handler_at_InsertSegments route_handler_def r)
qed

lemma match_table_both:
  "mr_handler (Match (tree_of routes) m path) =
     map_option snd (first_hit (\<lambda>sh. route_handler routes sh m) (candidates (map snd (SplitPathView path)))) \<and>
   mr_path_exists (Match (tree_of routes) m path) =
     (\<exists>sh \<in> set (candidates (map snd (SplitPathView path))). \<exists>m'. route_handler routes sh m' \<noteq> None)"
proof (cases "first_hit (\<lambda>sh. route_handler routes sh m) (candidates (map snd (SplitPathView path)))")
  case None
  then show ?thesis
    by (simp add: Match_search search_result_def handler_at_tree_of any_registered_def match_result_new_def)
next
  case (Some z)
  obtain sh h where z: "z = (sh, h)" by (cases z)
  then have "sh \<in> set (candidates (map snd (SplitPathView path)))" "route_handler routes sh m = Some h"
    using first_hit_Some [of _ _ sh h] Some by auto
  then show ?thesis using Some z
    by (auto simp: Match_search search_result_def handler_at_tree_of match_result_new_def)
qed

lemma match_table:
  "mr_handler (Match (tree_of routes) m path) =
     map_option snd (first_hit (\<lambda>sh. route_handler routes sh m) (candidates (map snd (SplitPathView path))))"
  "mr_path_exists (Match (tree_of routes) m path) =
     (\<exists>sh \<in> set (candidates (map snd (SplitPathView path))). \<exists>m'. route_handler routes sh m' \<noteq> None)"
  using match_table_both by blast+

section \<open>Properties\<close>

text \<open>C10: routing is table lookup by priority. For any routes registered in any order, a request is
  answered by the handler of the first shape, static segments before parameters before a
  wildcard and decided from the left, that has a route for its method; the last registration
  of a shape counts. The path counts as known (405 rather than 404) exactly when some
  matching shape has a route for some method.\<close>

theorem match_is_table_search:
  "mr_handler (Match (tree_of routes) m path) =
     map_option snd (first_hit (\<lambda>sh. route_handler routes sh m) (candidates (map snd (SplitPathView path)))) \<and>
   mr_path_exists (Match (tree_of routes) m path) =
     (\<exists>sh \<in> set (candidates (map snd (SplitPathView path))). \<exists>m'. route_handler routes sh m' \<noteq> None)"
  by (rule match_table_both)

text \<open>The parameter values a matched shape takes from a path: a parameter its segment, a wildcard
  the path from its first segment to the end.\<close>

fun capture_values :: "string \<Rightarrow> shape_seg list \<Rightarrow> seg_view list \<Rightarrow> string option list" where
  "capture_values path (SStatic s # sh) (seg # segs) = capture_values path sh segs"
| "capture_values path (SParam # sh) (seg # segs) = Some (snd seg) # capture_values path sh segs"
| "capture_values path (SWild # sh) (seg # segs) = [Some (drop (the (fst seg)) path)]"
| "capture_values path _ _ = []"

lemma split_loop_last:
  "path \<noteq> [] \<Longrightarrow> last path \<noteq> CHR ''/'' \<Longrightarrow> start < length path \<Longrightarrow>
   split_loop path start \<noteq> [] \<and>
   fst (last (split_loop path start)) + length (snd (last (split_loop path start))) = length path"
proof (induction path start rule: split_loop.induct)
  case (1 path start)
  show ?case
  proof (cases "find_char_from (CHR ''/'') start path")
    case None
    then show ?thesis using 1(4) by (simp add: split_loop.simps)
  next
    case (Some pos)
    then have pos: "pos < length path" "path ! pos = CHR ''/''"
      by (auto simp: find_char_from_def find_char_Some)
    have "pos \<noteq> length path - 1" using pos(2) 1(2,3) by (auto simp: last_conv_nth)
    then have "pos + 1 < length path" using pos(1) by linarith
    with 1(1) [OF 1(4) Some] 1(2-4) Some show ?thesis by (subst (1 2 3) split_loop.simps) auto
  qed
qed

lemma view_wildcard:
  assumes "path \<noteq> []" "last path \<noteq> CHR ''/''" "SplitPathView path = pre @ seg # segs"
  shows "wildcard_value path seg (last (seg # segs)) = Some (drop (the (fst seg)) path)"
proof -
  let ?l = "split_loop path (split_start path)"
  have view: "SplitPathView path = map (\<lambda>(i, s). (Some i, s)) ?l" using assms(2) by (simp add: SplitPathView_def)
  have start: "split_start path < length path"
    using assms(1,2) by (cases path) (auto simp: split_start_def)
  obtain j s where l: "last ?l = (j, s)" by fastforce
  have "?l \<noteq> []" "j + length s = length path" using split_loop_last [OF assms(1,2) start] l by auto
  moreover have "last (seg # segs) = last (SplitPathView path)" using assms(3) by simp
  ultimately have "last (seg # segs) = (Some j, s)" using view l by (simp add: last_map)
  moreover have "seg \<in> set (SplitPathView path)" using assms(3) by simp
  then obtain i t where "seg = (Some i, t)" using view by auto
  ultimately show ?thesis using \<open>j + length s = length path\<close>
    by (simp add: wildcard_value_def substr_def)
qed

lemma captures_values:
  assumes "path \<noteq> []" "last path \<noteq> CHR ''/''"
  shows "SplitPathView path = pre @ segs \<Longrightarrow> handler_at n sh m \<noteq> None \<Longrightarrow> sh \<in> set (candidates (map snd segs)) \<Longrightarrow>
    map snd (captures path n sh segs) = capture_values path sh segs"
proof (induction segs arbitrary: n sh pre)
  case (Cons seg segs)
  show ?case
  proof (cases sh)
    case (Cons s sh')
    have next_pre: "SplitPathView path = (pre @ [seg]) @ segs" using Cons.prems(1) by simp
    show ?thesis
      using Cons.prems(2,3) Cons.IH [OF next_pre] view_wildcard [OF assms Cons.prems(1)] Cons
      by (cases s) (auto split: option.splits)
  qed simp
qed simp

text \<open>C28: a matched route is handed the right parameter values: each \<^verbatim>\<open>:param\<close> the segment in its
  place, a \<^verbatim>\<open>*wildcard\<close> the untouched remainder of the path. This holds for every path that
  does not end in a slash.\<close>

theorem match_params:
  assumes "mr_handler (Match root m path) = Some h" and "path \<noteq> []" and "last path \<noteq> CHR ''/''"
  shows "\<exists>sh \<in> set (candidates (map snd (SplitPathView path))). handler_at root sh m = Some h \<and>
    map snd (mr_params (Match root m path)) = capture_values path sh (SplitPathView path)"
proof -
  let ?segs = "SplitPathView path"
  obtain sh where hit: "first_hit (\<lambda>sh. handler_at root sh m) (candidates (map snd ?segs)) = Some (sh, h)"
    using assms(1) by (auto simp: Match_search search_result_def match_result_new_def split: option.splits)
  note sh = first_hit_Some [OF hit]
  have "mr_params (Match root m path) = captures path root sh ?segs"
    using hit by (simp add: Match_search search_result_def)
  then show ?thesis using sh captures_values [OF assms(2,3), of "[]" ?segs root sh m] by auto
qed

theorem match_params_witness:
  "map snd (mr_params (Match (tree_of [(KGet, ''/u/:id/*f'', ''h'')]) KGet ''/u/42/a/b.txt'')) =
   [Some ''42'', Some ''a/b.txt'']"
proof -
  let ?root = "tree_of [(KGet, ''/u/:id/*f'', ''h'')]" and ?path = "''/u/42/a/b.txt''"
  have views: "SplitPathView ?path = [(Some 1, ''u''), (Some 3, ''42''), (Some 6, ''a''), (Some 8, ''b.txt'')]"
    by code_simp
  have "mr_handler (Match ?root KGet ?path) = Some ''h''" by code_simp
  from match_params [OF this]
  obtain sh where sh: "sh \<in> set (candidates (map snd (SplitPathView ?path)))"
    "handler_at ?root sh KGet = Some ''h''"
    "map snd (mr_params (Match ?root KGet ?path)) = capture_values ?path sh (SplitPathView ?path)"
    by auto
  have "route_handler [(KGet, ''/u/:id/*f'', ''h'')] sh KGet \<noteq> None"
    using sh(2) by (simp flip: handler_at_tree_of)
  then have "sh = shape_of (SplitPath ''/u/:id/*f'')" by (auto simp: route_handler_def split: if_splits)
  also have "\<dots> = [SStatic ''u'', SParam, SWild]" by code_simp
  finally show ?thesis using sh(3) by (simp add: views)
qed

section \<open>Trailing slashes\<close>

lemma split_loop_slash:
  "start \<le> length path \<Longrightarrow> split_loop (path @ ''/'') start = split_loop path start"
proof (induction path start rule: split_loop.induct)
  case (1 path start)
  show ?case
  proof (cases "start = length path")
    case True
    have "find_char_from (CHR ''/'') start (path @ ''/'') = Some start"
      using True by (simp add: find_char_from_def)
    then show ?thesis using True
      by (simp add: split_loop.simps [of "path @ ''/''" "length path"] split_loop.simps [of path "length path"]
          split_loop.simps [of "path @ ''/''" "Suc (length path)"])
  next
    case False
    then have lt: "start < length path" using 1(2) by simp
    have app: "drop start (path @ ''/'') = drop start path @ ''/''" using lt by simp
    show ?thesis
    proof (cases "find_char_from (CHR ''/'') start path")
      case None
      then have "CHR ''/'' \<notin> set (drop start path)" by (simp add: find_char_from_def find_char_None)
      then have "find_char_from (CHR ''/'') start (path @ ''/'') = Some (length path)"
        unfolding find_char_from_def app using lt by (simp add: find_char_here)
      then show ?thesis using None lt
        by (simp add: split_loop.simps [of "path @ ''/''" start] split_loop.simps [of path start]
            split_loop.simps [of "path @ ''/''" "Suc (length path)"] substr_def)
    next
      case (Some pos)
      have "find_char c (xs @ ys) = Some i" if "find_char c xs = Some i" for c xs ys i
        using that by (induction xs arbitrary: i) (auto split: if_splits)
      then have same: "find_char_from (CHR ''/'') start (path @ ''/'') = Some pos"
        using Some unfolding find_char_from_def app by auto
      have pos: "pos < length path" using Some by (auto simp: find_char_from_def find_char_Some)
      then have "split_loop (path @ ''/'') (pos + 1) = split_loop path (pos + 1)"
        by (intro 1(1) [OF lt Some]) simp
      then show ?thesis using Some same lt pos
        by (simp add: split_loop.simps [of "path @ ''/''" start] split_loop.simps [of path start] substr_def)
    qed
  qed
qed

lemma SplitPath_slash: "SplitPath (path @ ''/'') = SplitPath path"
proof (cases "path = []")
  case True
  then show ?thesis by (simp add: SplitPath_def split_start_def split_loop.simps)
next
  case False
  then have "split_start (path @ ''/'') = split_start path" "split_start path \<le> length path"
    by (auto simp: split_start_def Suc_le_eq)
  then show ?thesis by (simp add: SplitPath_def split_loop_slash)
qed

lemma candidate_length: "sh \<in> set (candidates ss) \<Longrightarrow> length sh = length ss \<or> SWild \<in> set sh"
proof (induction ss arbitrary: sh)
  case (Cons s ss)
  from Cons.prems show ?case by (auto dest: Cons.IH)
qed simp

definition static_path :: "string \<Rightarrow> bool" where
  "static_path path = list_all (\<lambda>seg. hd seg \<noteq> CHR ''*'' \<and> hd seg \<noteq> CHR '':'') (SplitPath path)"

lemma shape_of_static:
  "list_all (\<lambda>seg. hd seg \<noteq> CHR ''*'' \<and> hd seg \<noteq> CHR '':'') segs \<Longrightarrow> shape_of segs = map SStatic segs"
  by (induction segs) auto

text \<open>The trailing slash counts on one side only. Registering \<^verbatim>\<open>p/\<close> is registering \<^verbatim>\<open>p\<close>, yet a
  request for \<^verbatim>\<open>p/\<close> is split into one segment more than \<^verbatim>\<open>p\<close>: a static route registered with a
  trailing slash answers \<^verbatim>\<open>p\<close> and is never found under its own path.\<close>

theorem trailing_slash_unreachable:
  assumes "p \<noteq> []" and "static_path p"
  shows "Insert m (p @ ''/'') h t = Insert m p h t \<and>
         mr_handler (Match (tree_of [(m, p @ ''/'', h)]) m (p @ ''/'')) = None"
proof -
  let ?path = "p @ ''/''"
  have "length (SplitPathView ?path) = length (SplitPath ?path) + 1"
    using assms(1) by (cases p) (auto simp: SplitPathView_def SplitPath_def)
  then have len: "length (map snd (SplitPathView ?path)) = length (SplitPath p) + 1"
    by (simp add: SplitPath_slash)
  have shape: "shape_of (SplitPath ?path) = map SStatic (SplitPath p)"
    using assms(2) by (simp add: SplitPath_slash static_path_def shape_of_static)
  have "route_handler [(m, ?path, h)] sh m = None" if "sh \<in> set (candidates (map snd (SplitPathView ?path)))" for sh
    using candidate_length [OF that] len by (auto simp: route_handler_def shape)
  then have "first_hit (\<lambda>sh. handler_at (tree_of [(m, ?path, h)]) sh m) (candidates (map snd (SplitPathView ?path))) = None"
    unfolding handler_at_tree_of by (simp add: first_hit_None)
  then have "mr_handler (Match (tree_of [(m, ?path, h)]) m ?path) = None"
    by (simp add: Match_search search_result_def match_result_new_def)
  then show ?thesis by (simp add: Insert_eq SplitPath_slash)
qed

theorem trailing_slash_unreachable_witness:
  "mr_handler (Match (tree_of [(KGet, ''/users'' @ ''/'', ''h'')]) KGet (''/users'' @ ''/'')) = None"
proof -
  have "static_path ''/users''" by code_simp
  then show ?thesis using trailing_slash_unreachable [of "''/users''" KGet "''h''"] by blast
qed

text \<open>A wildcard route asked for a directory (a path with a trailing slash) computes the length
  of its capture from a null pointer: the captured value is undefined.\<close>

theorem wildcard_trailing_slash_undefined:
  "mr_params (Match (tree_of [(KGet, ''/static/*f'', h)]) KGet ''/static/css/'') = [(''f'', None)]"
proof -
  have "SplitPathView ''/static/css/'' = [(Some 1, ''static''), (Some 8, ''css''), (None, [])]" by code_simp
  moreover have "SplitPath ''/static/*f'' = [''static'', ''*f'']" by code_simp
  ultimately show ?thesis
    by (simp add: Match_def tree_of_def Insert_eq rnode_new_def match_result_new_def wildcard_value_def
        Let_def)
qed

end
