(* ===== verification/Routing.thy ===== *)
theory Routing
  imports Radix_Tree
begin

text \<open>
  The router, its middleware pipeline and route groups (\<^verbatim>\<open>src/web/Router.cpp\<close>,
  \<^verbatim>\<open>Middleware.cpp\<close>, \<^verbatim>\<open>RouteGroup.cpp\<close>). A handler is any function on the request context;
  its result says whether it threw. What it does to session state beyond the context is
  carried by the type parameter.
\<close>

section \<open>Request context\<close>

datatype exn = StdException string | UnknownException

record 's request_ctx =
  cx_request :: http_request
  cx_response :: http_response
  cx_pool :: buffer_pool
  cx_outbox :: "send_buffer list"
  cx_session :: 's

type_synonym 's action = "'s request_ctx \<Rightarrow> (exn + unit) \<times> 's request_ctx"
type_synonym 's middleware = "'s request_ctx \<Rightarrow> 's action \<Rightarrow> (exn + unit) \<times> 's request_ctx"

text \<open>\<^verbatim>\<open>ctx.response.Send()\<close>: the buffer, if one is built, goes to the session.\<close>

definition cx_emit :: "send_buffer option \<Rightarrow> 's request_ctx \<Rightarrow> 's request_ctx" where
  "cx_emit sb ctx = (case sb of None \<Rightarrow> ctx | Some b \<Rightarrow> ctx\<lparr>cx_outbox := cx_outbox ctx @ [b]\<rparr>)"

definition response_send :: "string \<Rightarrow> 's request_ctx \<Rightarrow> 's request_ctx" where
  "response_send date ctx =
     (case rs_Send date (cx_response ctx) (cx_pool ctx) of
        (sb, r, p) \<Rightarrow> cx_emit sb (ctx\<lparr>cx_response := r, cx_pool := p\<rparr>))"

definition Defer :: "'s request_ctx \<Rightarrow> 's request_ctx" where
  "Defer ctx = ctx\<lparr>cx_response := MarkSent (cx_response ctx)\<rparr>"

definition SendJson :: "string \<Rightarrow> string \<Rightarrow> http_status \<Rightarrow> 's request_ctx \<Rightarrow> 's request_ctx" where
  "SendJson date body st ctx =
     (case Build date (KeepAlive (rs_keep_alive (cx_response ctx))
             (Json body (Status st (http_response_new False)))) (cx_pool ctx) of
        (sb, p) \<Rightarrow> cx_emit sb (ctx\<lparr>cx_pool := p\<rparr>))"

definition SendError :: "string \<Rightarrow> http_status \<Rightarrow> string \<Rightarrow> 's request_ctx \<Rightarrow> 's request_ctx" where
  "SendError date st message ctx =
     (case Build date (KeepAlive False
             (Json ([CHR 0x7B, CHR 0x22] @ ''error'' @ [CHR 0x22, CHR 0x3A, CHR 0x22] @ message @ [CHR 0x22, CHR 0x7D])
               (Status st (http_response_new False)))) (cx_pool ctx) of
        (sb, p) \<Rightarrow> cx_emit sb (ctx\<lparr>cx_pool := p\<rparr>))"

definition send_plain :: "string \<Rightarrow> http_status \<Rightarrow> string \<Rightarrow> 's request_ctx \<Rightarrow> 's request_ctx" where
  "send_plain date st body ctx =
     response_send date (ctx\<lparr>cx_response := Body body (ContentType ''text/plain'' (Status st (cx_response ctx)))\<rparr>)"

section \<open>Router\<close>

definition Route :: "http_method \<Rightarrow> string \<Rightarrow> 's action \<Rightarrow> 's action rnode \<Rightarrow> 's action rnode" where
  "Route m path h t = Insert m path h t"

definition Dispatch :: "string \<Rightarrow> 's action rnode \<Rightarrow> 's request_ctx \<Rightarrow> 's request_ctx" where
  "Dispatch date tree ctx =
     (let result = Match tree (rq_method (cx_request ctx)) (rq_path (cx_request ctx)) in
      case mr_handler result of
        Some h \<Rightarrow>
          let ctx1 = ctx\<lparr>cx_request := SetParams (mr_params result) (cx_request ctx)\<rparr>;
              ctx2 = (case h ctx1 of
                        (Inr _, c) \<Rightarrow> c
                      | (Inl _, c) \<Rightarrow>
                          if \<not> rs_sent (cx_response c)
                          then send_plain date KInternalServerError ''Internal Server Error'' c else c)
          in ctx2\<lparr>cx_request := ClearParams (cx_request ctx2)\<rparr>
      | None \<Rightarrow>
          if mr_path_exists result then send_plain date KMethodNotAllowed ''Method Not Allowed'' ctx
          else send_plain date KHttpNotFound ''Not Found'' ctx)"

section \<open>Middleware pipeline\<close>

text \<open>The chain is built from the last middleware to the first, each wrapping the one built so far.\<close>

definition pipeline_Execute :: "'s middleware list \<Rightarrow> 's action \<Rightarrow> 's action" where
  "pipeline_Execute mws final = fold (\<lambda>mw next ctx. mw ctx next) (rev mws) final"

record 's route_group =
  rg_prefix :: string
  rg_global :: "'s middleware list"
  rg_group :: "'s middleware list"

definition WrapWithMiddleware :: "'s route_group \<Rightarrow> 's action \<Rightarrow> 's action" where
  "WrapWithMiddleware g h =
     (if rg_global g = [] \<and> rg_group g = [] then h
      else pipeline_Execute (rg_global g @ rg_group g) h)"

definition Group :: "string \<Rightarrow> 's route_group \<Rightarrow> 's route_group" where
  "Group sub g = \<lparr>rg_prefix = rg_prefix g @ sub, rg_global = rg_global g @ rg_group g, rg_group = []\<rparr>"

definition group_Use :: "'s middleware \<Rightarrow> 's route_group \<Rightarrow> 's route_group" where
  "group_Use mw g = g\<lparr>rg_group := rg_group g @ [mw]\<rparr>"

definition AddRoute :: "http_method \<Rightarrow> string \<Rightarrow> 's action \<Rightarrow> 's route_group \<Rightarrow> 's action rnode \<Rightarrow> 's action rnode" where
  "AddRoute m path h g t = Route m (rg_prefix g @ path) (WrapWithMiddleware g h) t"

definition group_Get :: "string \<Rightarrow> 's action \<Rightarrow> 's route_group \<Rightarrow> 's action rnode \<Rightarrow> 's action rnode" where
  "group_Get path h g t = AddRoute KGet path h g t"

definition group_Post :: "string \<Rightarrow> 's action \<Rightarrow> 's route_group \<Rightarrow> 's action rnode \<Rightarrow> 's action rnode" where
  "group_Post path h g t = AddRoute KPost path h g t"

definition group_Put :: "string \<Rightarrow> 's action \<Rightarrow> 's route_group \<Rightarrow> 's action rnode \<Rightarrow> 's action rnode" where
  "group_Put path h g t = AddRoute KPut path h g t"

definition group_Delete :: "string \<Rightarrow> 's action \<Rightarrow> 's route_group \<Rightarrow> 's action rnode \<Rightarrow> 's action rnode" where
  "group_Delete path h g t = AddRoute KDelete path h g t"

definition group_Patch :: "string \<Rightarrow> 's action \<Rightarrow> 's route_group \<Rightarrow> 's action rnode \<Rightarrow> 's action rnode" where
  "group_Patch path h g t = AddRoute KPatch path h g t"

lemma Execute_Nil [simp]: "pipeline_Execute [] f = f"
  by (simp add: pipeline_Execute_def)

lemma Execute_Cons [simp]: "pipeline_Execute (mw # mws) f = (\<lambda>ctx. mw ctx (pipeline_Execute mws f))"
  by (simp add: pipeline_Execute_def)

lemma Execute_append: "pipeline_Execute (as @ bs) f = pipeline_Execute as (pipeline_Execute bs f)"
  by (induction as) simp_all

lemma WrapWithMiddleware_eq: "WrapWithMiddleware g h = pipeline_Execute (rg_global g @ rg_group g) h"
  by (simp add: WrapWithMiddleware_def)

section \<open>Properties\<close>

lemma response_send_sent [simp]:
  "rs_sent (cx_response (response_send date ctx))"
  "rs_status (cx_response (response_send date ctx)) = rs_status (cx_response ctx)"
  by (auto simp: response_send_def rs_Send_def cx_emit_def Let_def MarkSent_def split: prod.splits option.splits)

text \<open>C29: every dispatch is settled. A request whose path and method are registered runs the handler
  with the captured parameters, which are gone afterwards; if the handler throws before having
  answered, the answer is 500. A registered path with another method gets 405, any other path
  404; in each of these cases the response is marked sent.\<close>

theorem dispatch_outcome:
  fixes ctx :: "'s request_ctx" and routes :: "'s action route list"
  shows "let m = rq_method (cx_request ctx); path = rq_path (cx_request ctx);
      shapes = candidates (map snd (SplitPathView path)); out = Dispatch date (tree_of routes) ctx in
    case first_hit (\<lambda>sh. route_handler routes sh m) shapes of
      Some (sh, h) \<Rightarrow>
        rq_params (cx_request out) = [] \<and>
        (case h (ctx\<lparr>cx_request := SetParams (mr_params (Match (tree_of routes) m path)) (cx_request ctx)\<rparr>) of
           (Inr _, c) \<Rightarrow> cx_response out = cx_response c \<and> cx_outbox out = cx_outbox c
         | (Inl _, c) \<Rightarrow> rs_sent (cx_response out) \<and>
             (if rs_sent (cx_response c) then cx_outbox out = cx_outbox c
              else rs_status (cx_response out) = KInternalServerError))
    | None \<Rightarrow>
        rs_sent (cx_response out) \<and>
        rs_status (cx_response out) =
          (if \<exists>sh \<in> set shapes. \<exists>m'. route_handler routes sh m' \<noteq> None then KMethodNotAllowed else KHttpNotFound)"
proof -
  define m path where "m = rq_method (cx_request ctx)" and "path = rq_path (cx_request ctx)"
  define shapes where "shapes = candidates (map snd (SplitPathView path))"
  have hd: "mr_handler (Match (tree_of routes) m path) = map_option snd (first_hit (\<lambda>sh. route_handler routes sh m) shapes)"
    and ex: "mr_path_exists (Match (tree_of routes) m path) = (\<exists>sh \<in> set shapes. \<exists>m'. route_handler routes sh m' \<noteq> None)"
    unfolding shapes_def by (rule match_table)+
  have sp: "rs_status (cx_response (send_plain date st b c)) = st" "rs_sent (cx_response (send_plain date st b c))"
    for st b and c :: "'s request_ctx"
    by (simp_all add: send_plain_def Body_def ContentType_def Status_def)
  note defs = m_def [symmetric] path_def [symmetric] shapes_def [symmetric]
  show ?thesis
  proof (cases "first_hit (\<lambda>sh. route_handler routes sh m) shapes")
    case None
    then show ?thesis using hd ex sp unfolding Let_def defs by (simp add: Dispatch_def Let_def defs)
  next
    case (Some z)
    then show ?thesis using hd sp unfolding Let_def defs
      by (cases z) (auto simp: Dispatch_def Let_def ClearParams_def defs split: prod.splits sum.splits)
  qed
qed

text \<open>Middleware runs outside in: a route of a nested group sees first the middlewares inherited
  from the enclosing groups, in the order they were added, then the group's own, then the
  handler; registering through the nested group is registering, under the joined prefix, the
  handler wrapped by the inner group and then by the outer one.\<close>

theorem nested_group_order:
  "AddRoute m path h (fold group_Use inner (Group sub g)) t =
   AddRoute m (sub @ path) (pipeline_Execute inner h) g t"
proof -
  have "fold group_Use inner g0 = g0\<lparr>rg_group := rg_group g0 @ inner\<rparr>" for g0 :: "'a route_group"
    by (induction inner arbitrary: g0) (simp_all add: group_Use_def)
  then show ?thesis
    by (simp add: AddRoute_def WrapWithMiddleware_eq Group_def Execute_append)
qed

end
