(* ===== verification/Send_Queue.thy ===== *)
theory Send_Queue
  imports Prelude
begin

text \<open>
  The queue between the threads that send and the ring that transmits
  (\<^verbatim>\<open>include/servercore/buffer/SendQueue.h\<close>). Each operation is atomic under the queue's mutex.
\<close>

record 'a send_queue =
  sq_pending :: "'a list"
  sq_registered :: bool
  sq_max_pending :: u32

record push_result =
  needs_register :: bool
  overflowed :: bool

definition send_queue_new :: "u32 \<Rightarrow> 'a send_queue" where
  "send_queue_new m = \<lparr>sq_pending = [], sq_registered = False, sq_max_pending = m\<rparr>"

definition sq_Push :: "'a \<Rightarrow> 'a send_queue \<Rightarrow> push_result \<times> 'a send_queue" where
  "sq_Push b q =
     (if length (sq_pending q) \<ge> unat (sq_max_pending q)
      then (\<lparr>needs_register = False, overflowed = True\<rparr>, q)
      else (\<lparr>needs_register = \<not> sq_registered q, overflowed = False\<rparr>,
            q\<lparr>sq_pending := sq_pending q @ [b], sq_registered := True\<rparr>))"

definition sq_Drain :: "'a send_queue \<Rightarrow> 'a list \<times> 'a send_queue" where
  "sq_Drain q = (sq_pending q, q\<lparr>sq_pending := []\<rparr>)"

definition sq_MarkSent :: "'a send_queue \<Rightarrow> 'a send_queue" where
  "sq_MarkSent q = (if sq_pending q = [] then q\<lparr>sq_registered := False\<rparr> else q)"

text \<open>Nothing waits in the queue without a send cycle that will drain it.\<close>

definition sq_inv :: "'a send_queue \<Rightarrow> bool" where
  "sq_inv q = ((sq_pending q \<noteq> [] \<longrightarrow> sq_registered q) \<and> length (sq_pending q) \<le> unat (sq_max_pending q))"

lemma sq_inv_new [simp]: "sq_inv (send_queue_new m)"
  by (simp add: sq_inv_def send_queue_new_def)

lemma sq_inv_Push: "sq_inv q \<Longrightarrow> sq_inv (snd (sq_Push b q))"
  by (auto simp: sq_inv_def sq_Push_def)

lemma sq_inv_Drain: "sq_inv q \<Longrightarrow> sq_inv (snd (sq_Drain q))"
  by (simp add: sq_inv_def sq_Drain_def)

lemma sq_inv_MarkSent: "sq_inv q \<Longrightarrow> sq_inv (sq_MarkSent q)"
  by (auto simp: sq_inv_def sq_MarkSent_def)

end
