(* ===== verification/Session_IO.thy ===== *)
theory Session_IO
  imports Send_Queue
begin

text \<open>
  The life of a connection (\<^verbatim>\<open>src/io/Session.cpp\<close>, \<^verbatim>\<open>include/servercore/io/Session.h\<close>). The ring
  enters through two things the kernel decides: whether a submission entry is free, and which
  completions arrive. Outcomes of \<^verbatim>\<open>GetSqe\<close> are part of the state, as the list of answers the
  next calls will get; operations the kernel still owes a completion for are counted in the
  \<^verbatim>\<open>armed\<close> fields, next to the session's own \<^verbatim>\<open>pending_io_\<close>. What the subclass does in
  \<^verbatim>\<open>OnRecv\<close> and \<^verbatim>\<open>OnConnected\<close> is an arbitrary list of calls of the session's own interface.
\<close>

section \<open>State\<close>

datatype session_event = EvConnected | EvReceived | EvOverflow | EvDisconnected

datatype 'b session_act = ActSend 'b | ActDisconnect

datatype io_error = KConnectionRefused | KDisconnected | KTimeout | KSendFailed | KMalformedPacket
  | KBindFailed | KListenFailed

record 'b session =
  ss_queue :: "'b send_queue"
  ss_disconnecting :: bool
  ss_pending_io :: int
  ss_self_ref :: bool
  ss_in_flight :: "'b list"
  ss_log :: "session_event list"
  ss_returned :: "u16 list"
  ss_accepted :: "'b list"
  ss_submitted :: "'b list"
  ss_sqes :: "bool list"
  ss_disc_sqe :: bool
  ss_armed_recv :: nat
  ss_armed_send :: nat
  ss_armed_disc :: nat

definition session_new :: "bool list \<Rightarrow> bool \<Rightarrow> u32 \<Rightarrow> 'b session" where
  "session_new sqes disc maxp =
     \<lparr>ss_queue = send_queue_new maxp, ss_disconnecting = False, ss_pending_io = 0, ss_self_ref = False,
      ss_in_flight = [], ss_log = [], ss_returned = [], ss_accepted = [], ss_submitted = [],
      ss_sqes = sqes, ss_disc_sqe = disc, ss_armed_recv = 0, ss_armed_send = 0, ss_armed_disc = 0\<rparr>"

text \<open>\<^verbatim>\<open>io_uring_get_sqe\<close>: the next answer; once the given answers are used up, entries are free.\<close>

definition get_sqe :: "'b session \<Rightarrow> bool \<times> 'b session" where
  "get_sqe s = (case ss_sqes s of [] \<Rightarrow> (True, s) | b # bs \<Rightarrow> (b, s\<lparr>ss_sqes := bs\<rparr>))"

section \<open>Operations\<close>

definition TryRelease :: "'b session \<Rightarrow> 'b session" where
  "TryRelease s =
     (if ss_pending_io s > 0 then s
      else s\<lparr>ss_log := ss_log s @ [EvDisconnected], ss_self_ref := False\<rparr>)"

definition ReleaseOwnership :: "'b session \<Rightarrow> 'b session" where
  "ReleaseOwnership s = s\<lparr>ss_self_ref := False\<rparr>"

definition Disconnect :: "'b session \<Rightarrow> 'b session" where
  "Disconnect s =
     (if ss_disconnecting s then s
      else
        let s1 = s\<lparr>ss_disconnecting := True\<rparr> in
        if \<not> ss_disc_sqe s then TryRelease (s1\<lparr>ss_pending_io := 0\<rparr>)
        else snd (get_sqe (s1\<lparr>ss_armed_disc := ss_armed_disc s + 1, ss_pending_io := ss_pending_io s + 1\<rparr>)))"

definition RegisterRecv :: "'b session \<Rightarrow> 'b session" where
  "RegisterRecv s =
     (if ss_disconnecting s then s
      else
        (case get_sqe (s\<lparr>ss_pending_io := ss_pending_io s + 1\<rparr>) of
           (False, s1) \<Rightarrow> Disconnect (s1\<lparr>ss_pending_io := ss_pending_io s1 - 1\<rparr>)
         | (True, s1) \<Rightarrow> s1\<lparr>ss_armed_recv := ss_armed_recv s1 + 1\<rparr>))"

definition SendBatch :: "'b list \<Rightarrow> 'b session \<Rightarrow> 'b session" where
  "SendBatch bufs s =
     (if ss_disconnecting s \<or> bufs = [] then s
      else
        (case get_sqe (s\<lparr>ss_in_flight := bufs, ss_pending_io := ss_pending_io s + 1\<rparr>) of
           (False, s1) \<Rightarrow> Disconnect (s1\<lparr>ss_pending_io := ss_pending_io s1 - 1, ss_in_flight := []\<rparr>)
         | (True, s1) \<Rightarrow> s1\<lparr>ss_armed_send := ss_armed_send s1 + 1, ss_submitted := ss_submitted s1 @ bufs\<rparr>))"

definition RegisterSend :: "'b session \<Rightarrow> 'b session" where
  "RegisterSend s =
     (if ss_disconnecting s then s
      else case sq_Drain (ss_queue s) of
             (bufs, q) \<Rightarrow> SendBatch bufs (s\<lparr>ss_queue := q\<rparr>))"

definition Send :: "'b \<Rightarrow> 'b session \<Rightarrow> (io_error + unit) \<times> 'b session" where
  "Send b s =
     (if ss_disconnecting s then (Inl KDisconnected, s)
      else
        (case sq_Push b (ss_queue s) of
           (res, q) \<Rightarrow>
             let s1 = s\<lparr>ss_queue := q\<rparr> in
             if overflowed res
             then (Inl KSendFailed, Disconnect (s1\<lparr>ss_log := ss_log s1 @ [EvOverflow]\<rparr>))
             else
               let s2 = s1\<lparr>ss_accepted := ss_accepted s1 @ [b]\<rparr> in
               (Inr (), if needs_register res then RegisterSend s2 else s2)))"

fun run_act :: "'b session_act \<Rightarrow> 'b session \<Rightarrow> 'b session" where
  "run_act (ActSend b) s = snd (Send b s)"
| "run_act ActDisconnect s = Disconnect s"

definition Start :: "'b session_act list \<Rightarrow> 'b session \<Rightarrow> 'b session" where
  "Start acts s =
     RegisterRecv (fold run_act acts (s\<lparr>ss_self_ref := True, ss_log := ss_log s @ [EvConnected]\<rparr>))"

definition ENOBUFS :: int where
  "ENOBUFS = 105"

definition OnRecv_cqe :: "'b session_act list \<Rightarrow> int \<Rightarrow> bool \<Rightarrow> u16 option \<Rightarrow> 'b session \<Rightarrow> 'b session" where
  "OnRecv_cqe acts res f_more buf s =
     (let s1 = (if \<not> f_more then s\<lparr>ss_pending_io := ss_pending_io s - 1\<rparr> else s);
          s2 = (case buf of
                  None \<Rightarrow> s1
                | Some buf_id \<Rightarrow>
                    let s' = (if res > 0 \<and> \<not> ss_disconnecting s1
                              then fold run_act acts (s1\<lparr>ss_log := ss_log s1 @ [EvReceived]\<rparr>) else s1)
                    in s'\<lparr>ss_returned := ss_returned s' @ [buf_id]\<rparr>)
      in
      if ss_disconnecting s2 then TryRelease s2
      else if res = 0 then Disconnect s2
      else if res = - ENOBUFS then RegisterRecv s2
      else if res < 0 then Disconnect s2
      else if \<not> f_more then RegisterRecv s2
      else s2)"

definition OnSend_cqe :: "int \<Rightarrow> 'b session \<Rightarrow> 'b session" where
  "OnSend_cqe res s =
     (let s1 = s\<lparr>ss_in_flight := [], ss_pending_io := ss_pending_io s - 1\<rparr> in
      if ss_disconnecting s1 then TryRelease s1
      else if res < 0 then Disconnect s1
      else
        (case sq_Drain (sq_MarkSent (ss_queue s1)) of
           (pending, q) \<Rightarrow>
             let s2 = s1\<lparr>ss_queue := q\<rparr> in
             if pending \<noteq> [] then SendBatch pending s2 else s2))"

definition OnDisconnect_cqe :: "int \<Rightarrow> 'b session \<Rightarrow> 'b session" where
  "OnDisconnect_cqe res s = TryRelease (s\<lparr>ss_pending_io := ss_pending_io s - 1\<rparr>)"

section \<open>Runs\<close>

text \<open>
  Calls of the interface, and completions of operations the kernel owes. The kernel ends a
  multishot receive (no \<^verbatim>\<open>F_MORE\<close>) whenever it reports an error or end of file. Whether the
  submission of the shutdown finds an entry is one flag per run: \<^verbatim>\<open>Disconnect\<close> returns at once
  when \<^verbatim>\<open>disconnecting_\<close> is set, so a session submits its shutdown at most once.
\<close>

inductive session_step :: "'b session \<Rightarrow> 'b session \<Rightarrow> bool" where
  call: "ss_self_ref s \<Longrightarrow> session_step s (run_act act s)"
| recv: "0 < ss_armed_recv s \<Longrightarrow> (res \<le> 0 \<longrightarrow> \<not> f_more) \<Longrightarrow>
    session_step s (OnRecv_cqe acts res f_more buf
      (s\<lparr>ss_armed_recv := (if f_more then ss_armed_recv s else ss_armed_recv s - 1)\<rparr>))"
| sent: "0 < ss_armed_send s \<Longrightarrow>
    session_step s (OnSend_cqe res (s\<lparr>ss_armed_send := ss_armed_send s - 1\<rparr>))"
| disconnected: "0 < ss_armed_disc s \<Longrightarrow>
    session_step s (OnDisconnect_cqe res (s\<lparr>ss_armed_disc := ss_armed_disc s - 1\<rparr>))"

inductive session_reach :: "bool list \<Rightarrow> bool \<Rightarrow> u32 \<Rightarrow> 'b session \<Rightarrow> bool" for sqes disc maxp where
  start: "session_reach sqes disc maxp (Start acts (session_new sqes disc maxp))"
| step: "session_reach sqes disc maxp s \<Longrightarrow> session_step s s' \<Longrightarrow> session_reach sqes disc maxp s'"

section \<open>Invariant\<close>

definition released :: "'b session \<Rightarrow> nat" where
  "released s = length (filter (\<lambda>e. e = EvDisconnected) (ss_log s))"

text \<open>
  \<^verbatim>\<open>pending_io_\<close> counts what the kernel owes; at most one receive, one send and one shutdown are
  outstanding; a released session is owed nothing and was released once; while the session is
  open, a send is outstanding exactly when the queue says so, and every accepted buffer is
  either submitted or still queued.
\<close>

definition io_inv :: "'b session \<Rightarrow> bool" where
  "io_inv s =
     (ss_disc_sqe s \<and>
      ss_pending_io s = int (ss_armed_recv s + ss_armed_send s + ss_armed_disc s) \<and>
      ss_armed_recv s \<le> 1 \<and> ss_armed_send s \<le> 1 \<and>
      ss_armed_disc s \<le> (if ss_disconnecting s then 1 else 0) \<and>
      (if ss_self_ref s then released s = 0
       else released s = 1 \<and> ss_disconnecting s \<and> ss_pending_io s = 0) \<and>
      (ss_in_flight s \<noteq> [] \<longleftrightarrow> ss_armed_send s = 1) \<and>
      sq_inv (ss_queue s) \<and>
      (ss_disconnecting s \<or>
        (sq_registered (ss_queue s) \<longleftrightarrow> ss_armed_send s = 1) \<and>
        ss_accepted s = ss_submitted s @ sq_pending (ss_queue s)) \<and>
      prefix (ss_submitted s) (ss_accepted s))"

definition session_inv :: "'b session \<Rightarrow> bool" where
  "session_inv s = (io_inv s \<and> (ss_disconnecting s \<and> ss_self_ref s \<longrightarrow> ss_pending_io s > 0))"

lemma get_sqe_cases:
  obtains b x where "get_sqe s = (b, s\<lparr>ss_sqes := x\<rparr>)"
proof (cases "ss_sqes s")
  case Nil
  then have "get_sqe s = (True, s\<lparr>ss_sqes := []\<rparr>)" by (simp add: get_sqe_def)
  then show thesis by (rule that)
next
  case (Cons b x)
  then have "get_sqe s = (b, s\<lparr>ss_sqes := x\<rparr>)" by (simp add: get_sqe_def)
  then show thesis by (rule that)
qed

lemma io_inv_sqes [simp]: "io_inv (s\<lparr>ss_sqes := x\<rparr>) = io_inv s"
  by (simp add: io_inv_def released_def)

lemma session_inv_sqes [simp]: "session_inv (s\<lparr>ss_sqes := x\<rparr>) = session_inv s"
  by (simp add: session_inv_def)

lemma TryRelease_inv:
  assumes "io_inv s" "ss_disconnecting s" "ss_self_ref s"
  shows "session_inv (TryRelease s)"
  using assms by (auto simp: TryRelease_def session_inv_def io_inv_def released_def)

text \<open>A disconnect that gets its submission entry leaves one more operation outstanding.\<close>

lemma Disconnect_open:
  assumes "ss_disc_sqe s" "\<not> ss_disconnecting s"
  obtains y where "Disconnect s = s\<lparr>ss_disconnecting := True, ss_armed_disc := ss_armed_disc s + 1,
    ss_pending_io := ss_pending_io s + 1, ss_sqes := y\<rparr>"
proof -
  define s1 where "s1 = s\<lparr>ss_disconnecting := True, ss_armed_disc := ss_armed_disc s + 1,
    ss_pending_io := ss_pending_io s + 1\<rparr>"
  obtain b y where "get_sqe s1 = (b, s1\<lparr>ss_sqes := y\<rparr>)" by (rule get_sqe_cases)
  then have "Disconnect s = s1\<lparr>ss_sqes := y\<rparr>" using assms by (simp add: Disconnect_def Let_def s1_def)
  then show thesis using that by (simp add: s1_def)
qed

lemma Disconnect_inv:
  assumes "io_inv s" "ss_self_ref s" "\<not> ss_disconnecting s"
  shows "session_inv (Disconnect s) \<and> ss_self_ref (Disconnect s)"
proof -
  have "ss_disc_sqe s" using assms(1) by (simp add: io_inv_def)
  then obtain y where "Disconnect s = s\<lparr>ss_disconnecting := True, ss_armed_disc := ss_armed_disc s + 1,
      ss_pending_io := ss_pending_io s + 1, ss_sqes := y\<rparr>" using assms(3) by (rule Disconnect_open)
  then show ?thesis using assms by (simp add: session_inv_def io_inv_def released_def)
qed

lemma RegisterRecv_inv:
  assumes "io_inv s" "ss_self_ref s" "\<not> ss_disconnecting s" "ss_armed_recv s = 0"
  shows "session_inv (RegisterRecv s) \<and> ss_self_ref (RegisterRecv s)"
proof -
  define s1 where "s1 = s\<lparr>ss_pending_io := ss_pending_io s + 1\<rparr>"
  obtain b x where g: "get_sqe s1 = (b, s1\<lparr>ss_sqes := x\<rparr>)" by (rule get_sqe_cases)
  show ?thesis
  proof (cases b)
    case True
    then have "RegisterRecv s = s1\<lparr>ss_sqes := x, ss_armed_recv := ss_armed_recv s1 + 1\<rparr>"
      using assms(3) g by (simp add: RegisterRecv_def s1_def)
    then show ?thesis using assms by (simp add: s1_def session_inv_def io_inv_def released_def)
  next
    case False
    then have "RegisterRecv s = Disconnect (s\<lparr>ss_sqes := x\<rparr>)"
      using assms(3) g by (simp add: RegisterRecv_def s1_def)
    then show ?thesis using Disconnect_inv [of "s\<lparr>ss_sqes := x\<rparr>"] assms by simp
  qed
qed

text \<open>The state in which \<^verbatim>\<open>SendBatch\<close> is called: the queue has just been drained.\<close>

definition drained :: "'b list \<Rightarrow> 'b session \<Rightarrow> bool" where
  "drained bufs s =
     (ss_disc_sqe s \<and> ss_pending_io s = int (ss_armed_recv s) \<and> ss_armed_recv s \<le> 1 \<and>
      ss_armed_send s = 0 \<and> ss_armed_disc s = 0 \<and> ss_self_ref s \<and> \<not> ss_disconnecting s \<and>
      released s = 0 \<and> ss_in_flight s = [] \<and> sq_inv (ss_queue s) \<and> sq_registered (ss_queue s) \<and>
      sq_pending (ss_queue s) = [] \<and> ss_accepted s = ss_submitted s @ bufs)"

lemma SendBatch_inv:
  assumes "drained bufs s" "bufs \<noteq> []"
  shows "session_inv (SendBatch bufs s) \<and> ss_self_ref (SendBatch bufs s)"
proof -
  define s1 where "s1 = s\<lparr>ss_in_flight := bufs, ss_pending_io := ss_pending_io s + 1\<rparr>"
  obtain b x where g: "get_sqe s1 = (b, s1\<lparr>ss_sqes := x\<rparr>)" by (rule get_sqe_cases)
  show ?thesis
  proof (cases b)
    case True
    then have "SendBatch bufs s = s1\<lparr>ss_sqes := x, ss_armed_send := ss_armed_send s1 + 1,
        ss_submitted := ss_submitted s1 @ bufs\<rparr>"
      using assms g by (simp add: SendBatch_def s1_def drained_def)
    then show ?thesis using assms by (simp add: s1_def session_inv_def io_inv_def released_def drained_def)
  next
    case False
    define s2 where "s2 = s\<lparr>ss_sqes := x, ss_pending_io := ss_pending_io s, ss_in_flight := []\<rparr>"
    have "\<not> ss_disconnecting s" using assms by (simp add: drained_def)
    then have "SendBatch bufs s = Disconnect s2"
      using assms(2) False g by (simp add: SendBatch_def s1_def s2_def)
    moreover have "ss_disc_sqe s2" "\<not> ss_disconnecting s2" "ss_self_ref s2"
      using assms by (simp_all add: s2_def drained_def)
    moreover obtain y where "Disconnect s2 = s2\<lparr>ss_disconnecting := True, ss_armed_disc := ss_armed_disc s2 + 1,
        ss_pending_io := ss_pending_io s2 + 1, ss_sqes := y\<rparr>"
      using calculation by (metis Disconnect_open)
    ultimately show ?thesis using assms
      by (simp add: session_inv_def io_inv_def released_def drained_def s2_def)
  qed
qed

lemma session_invD: "session_inv s \<Longrightarrow> io_inv s"
  by (simp add: session_inv_def)

lemma Send_inv:
  assumes inv: "session_inv s" and self: "ss_self_ref s"
  shows "session_inv (snd (Send b s)) \<and> ss_self_ref (snd (Send b s))"
proof (cases "ss_disconnecting s")
  case True
  then show ?thesis using assms by (simp add: Send_def)
next
  case False
  note io = session_invD [OF inv]
  show ?thesis
  proof (cases "length (sq_pending (ss_queue s)) \<ge> unat (sq_max_pending (ss_queue s))")
    case True
    define s1 where "s1 = s\<lparr>ss_log := ss_log s @ [EvOverflow]\<rparr>"
    have "snd (Send b s) = Disconnect s1"
      using True False by (simp add: Send_def sq_Push_def s1_def)
    moreover have "io_inv s1" using io by (auto simp: s1_def io_inv_def released_def split: if_splits)
    ultimately show ?thesis using Disconnect_inv [of s1] False self by (simp add: s1_def)
  next
    case room: False
    define q where "q = (ss_queue s)\<lparr>sq_pending := sq_pending (ss_queue s) @ [b], sq_registered := True\<rparr>"
    define s2 where "s2 = s\<lparr>ss_queue := q, ss_accepted := ss_accepted s @ [b]\<rparr>"
    have push: "sq_Push b (ss_queue s) =
        (\<lparr>needs_register = \<not> sq_registered (ss_queue s), overflowed = False\<rparr>, q)"
      using room by (simp add: sq_Push_def q_def)
    have qi: "sq_inv q" using io room by (auto simp: io_inv_def sq_inv_def q_def)
    have snd: "snd (Send b s) = (if \<not> sq_registered (ss_queue s) then RegisterSend s2 else s2)"
      using False push by (simp add: Send_def Let_def s2_def)
    show ?thesis
    proof (cases "sq_registered (ss_queue s)")
      case True
      then show ?thesis using snd io False self qi
        by (simp add: s2_def session_inv_def io_inv_def released_def q_def) 
    next
      case reg: False
      define s3 where "s3 = s2\<lparr>ss_queue := q\<lparr>sq_pending := []\<rparr>\<rparr>"
      have "sq_pending (ss_queue s) = []" using io reg by (auto simp: io_inv_def sq_inv_def)
      then have bufs: "sq_pending q = [b]" by (simp add: q_def)
      have "RegisterSend s2 = SendBatch [b] s3"
        using False bufs by (simp add: RegisterSend_def s2_def sq_Drain_def s3_def)
      moreover have "drained [b] s3"
        using io False self reg qi bufs \<open>sq_pending (ss_queue s) = []\<close>
        by (auto simp: drained_def s3_def s2_def io_inv_def released_def sq_inv_def q_def)
      ultimately show ?thesis using snd reg SendBatch_inv [of "[b]" s3] by simp
    qed
  qed
qed

lemma run_act_inv:
  assumes "session_inv s" "ss_self_ref s"
  shows "session_inv (run_act act s) \<and> ss_self_ref (run_act act s)"
proof (cases act)
  case (ActSend b)
  then show ?thesis using Send_inv [OF assms] by simp
next
  case ActDisconnect
  then show ?thesis
    using Disconnect_inv [of s] assms session_invD [OF assms(1)] by (cases "ss_disconnecting s") (simp_all add: Disconnect_def)
qed

lemma run_acts_inv:
  "session_inv s \<Longrightarrow> ss_self_ref s \<Longrightarrow>
   session_inv (fold run_act acts s) \<and> ss_self_ref (fold run_act acts s)"
  by (induction acts arbitrary: s) (simp_all add: run_act_inv)

lemma armed_recv_Disconnect [simp]: "ss_armed_recv (Disconnect s) = ss_armed_recv s"
  by (auto simp: Disconnect_def TryRelease_def get_sqe_def Let_def split: list.splits)

lemma armed_recv_SendBatch [simp]: "ss_armed_recv (SendBatch bufs s) = ss_armed_recv s"
  by (auto simp: SendBatch_def get_sqe_def split: list.splits prod.splits bool.splits)

lemma armed_recv_run_act [simp]: "ss_armed_recv (run_act act s) = ss_armed_recv s"
  by (cases act) (auto simp: Send_def RegisterSend_def Let_def split: prod.splits)

lemma armed_recv_run_acts [simp]: "ss_armed_recv (fold run_act acts s) = ss_armed_recv s"
  by (induction acts arbitrary: s) simp_all

lemma Start_inv: "session_inv (Start acts (session_new sqes True maxp))"
proof -
  define s where "s = (session_new sqes True maxp :: 'a session)\<lparr>ss_self_ref := True, ss_log := [EvConnected]\<rparr>"
  have "session_inv s" "ss_self_ref s" "ss_armed_recv s = 0"
    by (auto simp: s_def session_new_def session_inv_def io_inv_def released_def send_queue_new_def sq_inv_def)
  note run = run_acts_inv [OF this(1,2), of acts] armed_recv_run_acts [of acts s]
  have start: "Start acts (session_new sqes True maxp) = RegisterRecv (fold run_act acts s)"
    by (simp add: Start_def s_def session_new_def)
  show ?thesis
  proof (cases "ss_disconnecting (fold run_act acts s)")
    case True
    then show ?thesis using run by (simp add: start RegisterRecv_def)
  next
    case False
    moreover have "io_inv (fold run_act acts s)" using run(1) session_invD by blast
    ultimately show ?thesis
      using RegisterRecv_inv [of "fold run_act acts s"] run \<open>ss_armed_recv s = 0\<close> by (simp add: start)
  qed
qed

lemma io_inv_log: "io_inv s \<Longrightarrow> io_inv (s\<lparr>ss_log := ss_log s @ [EvReceived]\<rparr>)"
  by (auto simp: io_inv_def released_def split: if_splits)

lemma io_inv_returned [simp]: "io_inv (s\<lparr>ss_returned := x\<rparr>) = io_inv s"
  by (simp add: io_inv_def released_def)

lemma OnRecv_inv:
  assumes inv: "session_inv s" and armed: "0 < ss_armed_recv s" and kernel: "res \<le> 0 \<longrightarrow> \<not> f_more"
  shows "session_inv (OnRecv_cqe acts res f_more buf
    (s\<lparr>ss_armed_recv := (if f_more then ss_armed_recv s else ss_armed_recv s - 1)\<rparr>))"
proof -
  define n where "n = (if f_more then ss_armed_recv s else ss_armed_recv s - 1)"
  define s1 where "s1 = s\<lparr>ss_armed_recv := n,
    ss_pending_io := (if f_more then ss_pending_io s else ss_pending_io s - 1)\<rparr>"
  note io = session_invD [OF inv]
  have self: "ss_self_ref s"
    using io armed by (auto simp: io_inv_def split: if_splits)
  have io1: "io_inv s1" "ss_self_ref s1"
    using io armed self by (auto simp: s1_def n_def io_inv_def released_def)
  define s2 where "s2 = (case buf of None \<Rightarrow> s1
    | Some buf_id \<Rightarrow>
        let s' = (if res > 0 \<and> \<not> ss_disconnecting s1
                  then fold run_act acts (s1\<lparr>ss_log := ss_log s1 @ [EvReceived]\<rparr>) else s1)
        in s'\<lparr>ss_returned := ss_returned s' @ [buf_id]\<rparr>)"
  have open_acts: "session_inv (fold run_act acts (s1\<lparr>ss_log := ss_log s1 @ [EvReceived]\<rparr>)) \<and>
      ss_self_ref (fold run_act acts (s1\<lparr>ss_log := ss_log s1 @ [EvReceived]\<rparr>))" if "\<not> ss_disconnecting s1"
    using that io1 io_inv_log [OF io1(1)] by (intro run_acts_inv) (auto simp: session_inv_def)
  have s2: "io_inv s2 \<and> ss_self_ref s2 \<and> ss_armed_recv s2 = n"
    using io1 open_acts by (auto simp: s2_def Let_def session_inv_def s1_def split: option.split)
  have eq: "OnRecv_cqe acts res f_more buf (s\<lparr>ss_armed_recv := n\<rparr>) =
      (if ss_disconnecting s2 then TryRelease s2
       else if res = 0 then Disconnect s2
       else if res = - ENOBUFS then RegisterRecv s2
       else if res < 0 then Disconnect s2
       else if \<not> f_more then RegisterRecv s2 else s2)"
  proof -
    have "(if \<not> f_more then (s\<lparr>ss_armed_recv := n\<rparr>)\<lparr>ss_pending_io := ss_pending_io (s\<lparr>ss_armed_recv := n\<rparr>) - 1\<rparr>
        else s\<lparr>ss_armed_recv := n\<rparr>) = s1" by (simp add: s1_def)
    then show ?thesis by (simp only: OnRecv_cqe_def Let_def s2_def)
  qed
  have n0: "n = 0" if "\<not> f_more" using io armed that by (auto simp: n_def io_inv_def)
  have "- ENOBUFS \<le> 0" by (simp add: ENOBUFS_def)
  then show ?thesis
    unfolding n_def [symmetric] eq
    using s2 kernel n0 TryRelease_inv [of s2] Disconnect_inv [of s2] RegisterRecv_inv [of s2]
    by (auto simp: session_inv_def [of s2])
qed

lemma OnSend_inv:
  assumes inv: "session_inv s" and armed: "0 < ss_armed_send s"
  shows "session_inv (OnSend_cqe res (s\<lparr>ss_armed_send := ss_armed_send s - 1\<rparr>))"
proof -
  define s1 where "s1 = s\<lparr>ss_armed_send := 0, ss_in_flight := [], ss_pending_io := ss_pending_io s - 1\<rparr>"
  note io = session_invD [OF inv]
  have one: "ss_armed_send s = 1" using io armed by (auto simp: io_inv_def)
  have self: "ss_self_ref s" using io armed by (auto simp: io_inv_def split: if_splits)
  have reg: "sq_registered (ss_queue s)" "ss_accepted s = ss_submitted s @ sq_pending (ss_queue s)"
    if "\<not> ss_disconnecting s" using io one that by (auto simp: io_inv_def)
  define q where "q = (sq_MarkSent (ss_queue s))\<lparr>sq_pending := []\<rparr>"
  have eq: "OnSend_cqe res (s\<lparr>ss_armed_send := ss_armed_send s - 1\<rparr>) =
      (if ss_disconnecting s1 then TryRelease s1
       else if res < 0 then Disconnect s1
       else if sq_pending (ss_queue s) \<noteq> [] then SendBatch (sq_pending (ss_queue s)) (s1\<lparr>ss_queue := q\<rparr>)
       else s1\<lparr>ss_queue := q\<rparr>)"
    using one by (simp add: OnSend_cqe_def Let_def s1_def q_def sq_Drain_def sq_MarkSent_def)
  show ?thesis
  proof (cases "ss_disconnecting s")
    case True
    then have "io_inv s1" "ss_disconnecting s1" "ss_self_ref s1"
      using io one self by (auto simp: s1_def io_inv_def released_def)
    then show ?thesis using TryRelease_inv [of s1] unfolding eq by simp
  next
    case False
    have disc: "session_inv (Disconnect s1)"
    proof -
      have "ss_disc_sqe s1" "\<not> ss_disconnecting s1" using io False by (simp_all add: s1_def io_inv_def)
      then obtain y where "Disconnect s1 = s1\<lparr>ss_disconnecting := True, ss_armed_disc := ss_armed_disc s1 + 1,
          ss_pending_io := ss_pending_io s1 + 1, ss_sqes := y\<rparr>" by (rule Disconnect_open)
      then show ?thesis using io one self False
        by (auto simp: s1_def session_inv_def io_inv_def released_def)
    qed
    have batch: "drained (sq_pending (ss_queue s)) (s1\<lparr>ss_queue := q\<rparr>)" if "sq_pending (ss_queue s) \<noteq> []"
      using that io one self False reg
      by (auto simp: drained_def s1_def q_def sq_MarkSent_def io_inv_def released_def sq_inv_def)
    have idle: "session_inv (s1\<lparr>ss_queue := q\<rparr>)" if "sq_pending (ss_queue s) = []"
      using that io one self False reg
      by (auto simp: session_inv_def s1_def q_def sq_MarkSent_def io_inv_def released_def sq_inv_def)
    have "\<not> ss_disconnecting s1" using False by (simp add: s1_def)
    then show ?thesis unfolding eq using disc SendBatch_inv [OF batch] idle by simp
  qed
qed

lemma OnDisconnect_inv:
  assumes inv: "session_inv s" and armed: "0 < ss_armed_disc s"
  shows "session_inv (OnDisconnect_cqe res (s\<lparr>ss_armed_disc := ss_armed_disc s - 1\<rparr>))"
proof -
  define s1 where "s1 = s\<lparr>ss_armed_disc := ss_armed_disc s - 1, ss_pending_io := ss_pending_io s - 1\<rparr>"
  have "io_inv s1" "ss_disconnecting s1" "ss_self_ref s1"
    using session_invD [OF inv] armed by (auto simp: s1_def io_inv_def released_def split: if_splits)
  then have "session_inv (TryRelease s1)" by (rule TryRelease_inv)
  moreover have "OnDisconnect_cqe res (s\<lparr>ss_armed_disc := ss_armed_disc s - 1\<rparr>) = TryRelease s1"
    by (simp add: OnDisconnect_cqe_def s1_def)
  ultimately show ?thesis by simp
qed

lemma session_step_inv: "session_step s s' \<Longrightarrow> session_inv s \<Longrightarrow> session_inv s'"
proof (induction rule: session_step.induct)
  case (call s act)
  then show ?case using run_act_inv by blast
next
  case (recv s res f_more acts buf)
  then show ?case by (intro OnRecv_inv)
next
  case (sent s res)
  then show ?case by (intro OnSend_inv)
next
  case (disconnected s res)
  then show ?case by (intro OnDisconnect_inv)
qed

lemma session_reach_inv: "session_reach sqes True maxp s \<Longrightarrow> session_inv s"
proof (induction rule: session_reach.induct)
  case (start acts)
  show ?case by (rule Start_inv)
next
  case (step s s')
  then show ?case using session_step_inv by blast
qed

lemma returned_const [simp]:
  "ss_returned (TryRelease s) = ss_returned s" "ss_returned (Disconnect s) = ss_returned s"
  "ss_returned (RegisterRecv s) = ss_returned s" "ss_returned (SendBatch bufs s) = ss_returned s"
proof -
  show rel: "ss_returned (TryRelease s) = ss_returned s" for s :: "'b session" by (simp add: TryRelease_def)
  show disc: "ss_returned (Disconnect s) = ss_returned s" for s :: "'b session"
    by (auto simp: Disconnect_def rel get_sqe_def Let_def split: list.splits)
  show "ss_returned (RegisterRecv s) = ss_returned s"
    by (auto simp: RegisterRecv_def disc get_sqe_def split: list.splits prod.splits bool.splits)
  show "ss_returned (SendBatch bufs s) = ss_returned s"
    by (auto simp: SendBatch_def disc get_sqe_def split: list.splits prod.splits bool.splits)
qed

lemma returned_run_acts [simp]: "ss_returned (fold run_act acts s) = ss_returned s"
proof (induction acts arbitrary: s)
  case (Cons act acts)
  have "ss_returned (run_act act s) = ss_returned s"
    by (cases act) (auto simp: Send_def RegisterSend_def Let_def split: prod.splits)
  then show ?case using Cons by simp
qed simp

section \<open>Properties\<close>

text \<open>C12: a session is destroyed once, and only when the kernel owes it nothing. In every reachable
  state the disconnect callback has run at most once, exactly when the session no longer owns
  itself; from then on no receive, send or shutdown is outstanding; and a disconnecting
  session lives exactly as long as some completion is still due. This assumes that the shutdown
  gets a submission entry; those for receives and sends may run out at any time.\<close>

theorem session_release_safe:
  assumes "session_reach sqes True maxp s"
  shows "released s = (if ss_self_ref s then 0 else 1) \<and>
    (ss_self_ref s \<or> ss_armed_recv s = 0 \<and> ss_armed_send s = 0 \<and> ss_armed_disc s = 0) \<and>
    (if ss_disconnecting s
     then ss_self_ref s = (0 < ss_armed_recv s + ss_armed_send s + ss_armed_disc s) else ss_self_ref s)"
  using session_reach_inv [OF assms] by (auto simp: session_inv_def io_inv_def split: if_splits)

theorem session_release_safe_witness:
  "released (OnDisconnect_cqe 0 ((OnRecv_cqe [] 0 False None
      ((Disconnect (Start [] (session_new [] True 4 :: nat session)))\<lparr>ss_armed_recv := 0\<rparr>))\<lparr>ss_armed_disc := 0\<rparr>)) = 1"
proof -
  define s0 where "s0 = Start [] (session_new [] True 4 :: nat session)"
  define s1 where "s1 = run_act ActDisconnect s0"
  define s2 where "s2 = OnRecv_cqe [] 0 False None (s1\<lparr>ss_armed_recv := (if False then ss_armed_recv s1 else ss_armed_recv s1 - 1)\<rparr>)"
  define s3 where "s3 = OnDisconnect_cqe 0 (s2\<lparr>ss_armed_disc := ss_armed_disc s2 - 1\<rparr>)"
  have armed: "ss_self_ref s0" "ss_armed_recv s1 = 1" "ss_armed_disc s2 = 1"
    unfolding s2_def s1_def s0_def by code_simp+
  have "session_reach [] True 4 s1"
    unfolding s1_def s0_def by (rule session_reach.step [OF session_reach.start session_step.call])
      (use armed in \<open>simp add: s0_def\<close>)
  then have "session_reach [] True 4 s2"
    unfolding s2_def by (rule session_reach.step [OF _ session_step.recv]) (use armed in simp_all)
  then have "session_reach [] True 4 s3"
    unfolding s3_def by (rule session_reach.step [OF _ session_step.disconnected]) (use armed in simp_all)
  moreover have "\<not> ss_self_ref s3" unfolding s3_def s2_def s1_def s0_def by code_simp
  ultimately have "released s3 = 1" using session_release_safe by fastforce
  then show ?thesis using armed by (simp add: s3_def s2_def s1_def s0_def)
qed

text \<open>C14: buffers leave in the order they were accepted, none is sent twice, and while the session is
  open none is lost: what has been submitted, followed by what is queued, is what \<^verbatim>\<open>Send\<close>
  accepted. Sends never overlap: the buffers in flight are kept exactly while one send is
  outstanding. This assumes that the shutdown gets a submission entry.\<close>

theorem session_send_order:
  assumes "session_reach sqes True maxp s"
  shows "prefix (ss_submitted s) (ss_accepted s) \<and>
    (ss_disconnecting s \<or> ss_accepted s = ss_submitted s @ sq_pending (ss_queue s)) \<and>
    ss_armed_send s \<le> 1 \<and> (ss_in_flight s = []) = (ss_armed_send s = 0) \<and>
    length (sq_pending (ss_queue s)) \<le> unat (sq_max_pending (ss_queue s))"
  using session_reach_inv [OF assms] by (auto simp: session_inv_def io_inv_def sq_inv_def)

theorem session_send_order_witness:
  "ss_submitted (OnSend_cqe 3 ((fold run_act [ActSend (7 :: nat), ActSend 8, ActSend 9]
      (Start [] (session_new [] True 4)))\<lparr>ss_armed_send := 0\<rparr>)) = [7, 8, 9]"
proof -
  define s0 where "s0 = Start [] (session_new [] True 4 :: nat session)"
  define s1 where "s1 = run_act (ActSend 9) (run_act (ActSend 8) (run_act (ActSend 7) s0))"
  define s2 where "s2 = OnSend_cqe 3 (s1\<lparr>ss_armed_send := ss_armed_send s1 - 1\<rparr>)"
  have self: "ss_self_ref s0" "ss_self_ref (run_act (ActSend 7) s0)"
    "ss_self_ref (run_act (ActSend 8) (run_act (ActSend 7) s0))" "ss_armed_send s1 = 1"
    unfolding s1_def s0_def by code_simp+
  have "session_reach [] True 4 s0" unfolding s0_def by (rule session_reach.start)
  from session_reach.step [OF session_reach.step [OF session_reach.step [OF this
      session_step.call [OF self(1)]] session_step.call [OF self(2)]] session_step.call [OF self(3)]]
  have "session_reach [] True 4 s1" unfolding s1_def .
  then have "session_reach [] True 4 s2"
    unfolding s2_def by (rule session_reach.step [OF _ session_step.sent]) (use self in simp)
  moreover have "\<not> ss_disconnecting s2" "ss_accepted s2 = [7, 8, 9]" "sq_pending (ss_queue s2) = []"
    unfolding s2_def s1_def s0_def by code_simp+
  ultimately have "ss_submitted s2 = [7, 8, 9]" using session_send_order by fastforce
  then show ?thesis using self by (simp add: s2_def s1_def s0_def)
qed

text \<open>A buffer the kernel borrowed from the provided-buffer ring goes back exactly once per
  completion, whatever the subclass did with the data and also while disconnecting.\<close>

theorem provided_buffer_returned:
  "ss_returned (OnRecv_cqe acts res f_more buf s) =
   ss_returned s @ (case buf of None \<Rightarrow> [] | Some buf_id \<Rightarrow> [buf_id])"
  unfolding OnRecv_cqe_def Let_def by (auto split: option.split)


end
