(* ===== verification/Job_System.thy ===== *)
theory Job_System
  imports Prelude "HOL-Library.Multiset"
begin

text \<open>
  Serialized job queues and the timer that feeds them (\<^verbatim>\<open>src/job/JobQueue.cpp\<close>,
  \<^verbatim>\<open>GlobalQueue.cpp\<close>, \<^verbatim>\<open>JobTimer.cpp\<close>). Any number of threads push to one queue and any number of
  reactors execute it; a step of the model is one atomic action of one thread: an atomic
  read-modify-write of \<^verbatim>\<open>job_count_\<close>, a critical section of the queue's or the global queue's
  mutex, or one job. Threads between two such actions are kept as the list of pushes or
  executions in progress.
\<close>

section \<open>State\<close>

text \<open>Where an \<^verbatim>\<open>Execute\<close> stands: before taking a batch; with a batch of which the given jobs are
  left and \<^verbatim>\<open>n\<close> were run; about to return the rest to the queue; about to subtract; holding
  the remaining count.\<close>

datatype 'j exec = XStart | XRun "'j list" nat | XBack "'j list" nat | XCount nat | XDecide int

record 'j job_state =
  jq_count :: int
  jq_jobs :: "'j list"
  gq_entries :: nat
  jq_adding :: "('j \<times> bool) list"
  jq_registering :: nat
  jq_execs :: "'j exec list"
  jq_executed :: "'j list"
  jq_stored :: "'j list"

definition job_state_new :: "'j job_state" where
  "job_state_new = \<lparr>jq_count = 0, jq_jobs = [], gq_entries = 0, jq_adding = [], jq_registering = 0,
     jq_execs = [], jq_executed = [], jq_stored = []\<rparr>"

section \<open>Steps\<close>

text \<open>
  \<^verbatim>\<open>Push\<close> is \<^verbatim>\<open>add\<close> (the counter, remembering whether it was zero), \<^verbatim>\<open>store\<close> (the vector) and, if
  it was zero, \<^verbatim>\<open>register\<close> (the global queue). \<^verbatim>\<open>Execute\<close> starts when a reactor pops the queue from
  the global queue; whether the deadline has passed is decided by the clock.
\<close>

inductive job_step :: "'j job_state \<Rightarrow> 'j job_state \<Rightarrow> bool" where
  add: "job_step s (s\<lparr>jq_count := jq_count s + 1, jq_adding := jq_adding s @ [(j, jq_count s = 0)]\<rparr>)"
| store: "jq_adding s = as @ (j, first) # bs \<Longrightarrow>
    job_step s (s\<lparr>jq_adding := as @ bs, jq_jobs := jq_jobs s @ [j], jq_stored := jq_stored s @ [j],
      jq_registering := jq_registering s + (if first then 1 else 0)\<rparr>)"
| register: "0 < jq_registering s \<Longrightarrow>
    job_step s (s\<lparr>jq_registering := jq_registering s - 1, gq_entries := gq_entries s + 1\<rparr>)"
| pop: "0 < gq_entries s \<Longrightarrow>
    job_step s (s\<lparr>gq_entries := gq_entries s - 1, jq_execs := jq_execs s @ [XStart]\<rparr>)"
| batch: "jq_execs s = as @ XStart # bs \<Longrightarrow>
    job_step s (s\<lparr>jq_execs := as @ XRun (jq_jobs s) 0 # bs, jq_jobs := []\<rparr>)"
| run: "jq_execs s = as @ XRun (j # rest) n # bs \<Longrightarrow>
    job_step s (s\<lparr>jq_execs := as @ (if late \<and> rest \<noteq> [] then XBack rest (n + 1) else XRun rest (n + 1)) # bs,
      jq_executed := jq_executed s @ [j]\<rparr>)"
| finish: "jq_execs s = as @ XRun [] n # bs \<Longrightarrow> job_step s (s\<lparr>jq_execs := as @ XCount n # bs\<rparr>)"
| put_back: "jq_execs s = as @ XBack rest n # bs \<Longrightarrow>
    job_step s (s\<lparr>jq_execs := as @ XCount n # bs, jq_jobs := rest @ jq_jobs s\<rparr>)"
| subtract: "jq_execs s = as @ XCount n # bs \<Longrightarrow>
    job_step s (s\<lparr>jq_count := jq_count s - int n, jq_execs := as @ XDecide (jq_count s - int n) # bs\<rparr>)"
| ended: "jq_execs s = as @ XDecide r # bs \<Longrightarrow> r \<le> 0 \<Longrightarrow> job_step s (s\<lparr>jq_execs := as @ bs\<rparr>)"
| yield: "jq_execs s = as @ XDecide r # bs \<Longrightarrow> 0 < r \<Longrightarrow>
    job_step s (s\<lparr>jq_execs := as @ bs, gq_entries := gq_entries s + 1\<rparr>)"
| again: "jq_execs s = as @ XDecide r # bs \<Longrightarrow> 0 < r \<Longrightarrow> job_step s (s\<lparr>jq_execs := as @ XStart # bs\<rparr>)"

inductive job_reach :: "'j job_state \<Rightarrow> bool" where
  init: "job_reach job_state_new"
| step: "job_reach s \<Longrightarrow> job_step s s' \<Longrightarrow> job_reach s'"

section \<open>Invariant\<close>

text \<open>Whether an execution is entitled to the queue, what it still owes the counter, and the jobs
  it has taken but not run.\<close>

fun holds :: "'j exec \<Rightarrow> nat" where
  "holds (XDecide r) = (if 0 < r then 1 else 0)"
| "holds _ = 1"

fun owed :: "'j exec \<Rightarrow> int" where
  "owed (XRun rest n) = int (length rest + n)"
| "owed (XBack rest n) = int (length rest + n)"
| "owed (XCount n) = int n"
| "owed _ = 0"

fun rest_of :: "'j exec \<Rightarrow> 'j list" where
  "rest_of (XRun rest n) = rest"
| "rest_of (XBack rest n) = rest"
| "rest_of _ = []"

text \<open>The right to execute: an entry of the global queue, an execution in progress, or a push that
  will register the queue.\<close>

definition tokens :: "'j job_state \<Rightarrow> nat" where
  "tokens s = sum_list (map holds (jq_execs s)) + gq_entries s + jq_registering s +
     length (filter snd (jq_adding s))"

definition job_inv :: "'j job_state \<Rightarrow> bool" where
  "job_inv s =
     (tokens s = (if 0 < jq_count s then 1 else 0) \<and>
      jq_count s = int (length (jq_jobs s)) + int (length (jq_adding s)) + sum_list (map owed (jq_execs s)) \<and>
      jq_executed s @ concat (map rest_of (jq_execs s)) @ jq_jobs s = jq_stored s)"

lemma owed_nonneg: "0 \<le> sum_list (map owed xs)"
proof -
  have "0 \<le> owed x" for x :: "'j exec" by (cases x) auto
  then have "\<And>y. y \<in> set (map owed xs) \<Longrightarrow> 0 \<le> y" by auto
  then show ?thesis by (rule sum_list_nonneg)
qed

lemma count_nonneg: "job_inv s \<Longrightarrow> 0 \<le> jq_count s"
  using owed_nonneg [of "jq_execs s"] by (simp add: job_inv_def)

text \<open>At most one execution holds the queue, and executions that do not have nothing in hand.\<close>

lemma holder_alone:
  assumes "job_inv s" and "jq_execs s = as @ e # bs" and "holds e = 1"
  shows "concat (map rest_of as) = []" "concat (map rest_of bs) = []" "tokens s = 1" "0 < jq_count s"
    "sum_list (map holds as) + sum_list (map holds bs) + gq_entries s + jq_registering s +
     length (filter snd (jq_adding s)) = 0" "sum_list (map owed as) + sum_list (map owed bs) = 0"
proof -
  have "1 \<le> tokens s" using assms(2,3) by (simp add: tokens_def)
  then show t: "tokens s = 1" and "0 < jq_count s" using assms(1) by (auto simp: job_inv_def split: if_splits)
  then show z: "sum_list (map holds as) + sum_list (map holds bs) + gq_entries s + jq_registering s +
     length (filter snd (jq_adding s)) = 0" using assms(2,3) by (simp add: tokens_def)
  have idle: "sum_list (map holds xs) = 0 \<Longrightarrow> concat (map rest_of xs) = [] \<and> sum_list (map owed xs) = 0"
    for xs :: "'a exec list"
  proof (induction xs)
    case (Cons x xs)
    then show ?case by (cases x) (auto split: if_splits)
  qed simp
  show "concat (map rest_of as) = []" "concat (map rest_of bs) = []"
    "sum_list (map owed as) + sum_list (map owed bs) = 0"
    using idle [of as] idle [of bs] z by simp_all
qed

lemma job_step_inv: "job_step s s' \<Longrightarrow> job_inv s \<Longrightarrow> job_inv s'"
proof (induction rule: job_step.induct)
  case (add s j)
  then show ?case using count_nonneg [OF add] by (auto simp: job_inv_def tokens_def split: if_splits)
next
  case (store s as j first bs)
  then show ?case by (auto simp: job_inv_def tokens_def split: if_splits)
next
  case (register s)
  then show ?case by (simp add: job_inv_def tokens_def)
next
  case (pop s)
  then show ?case by (simp add: job_inv_def tokens_def)
next
  case (batch s as bs)
  note h = holder_alone [OF batch(2,1)]
  show ?case using batch h by (simp add: job_inv_def tokens_def del: concat_eq_Nil_conv)
next
  case (run s as j rest n bs late)
  note h = holder_alone [OF run(2,1)]
  show ?case using run h by (simp add: job_inv_def tokens_def del: concat_eq_Nil_conv)
next
  case (finish s as n bs)
  then show ?case by (simp add: job_inv_def tokens_def)
next
  case (put_back s as rest n bs)
  note h = holder_alone [OF put_back(2,1)]
  show ?case using put_back h by (simp add: job_inv_def tokens_def del: concat_eq_Nil_conv)
next
  case (subtract s as n bs)
  note h = holder_alone [OF subtract(2,1)]
  show ?case using subtract h by (simp add: job_inv_def tokens_def del: concat_eq_Nil_conv)
next
  case (ended s as r bs)
  then show ?case by (simp add: job_inv_def tokens_def)
next
  case (yield s as r bs)
  then show ?case by (simp add: job_inv_def tokens_def)
next
  case (again s as r bs)
  then show ?case by (simp add: job_inv_def tokens_def)
qed

lemma job_reach_inv: "job_reach s \<Longrightarrow> job_inv s"
proof (induction rule: job_reach.induct)
  case init
  show ?case by (simp add: job_inv_def tokens_def job_state_new_def)
next
  case (step s s')
  then show ?case using job_step_inv by blast
qed

section \<open>Properties of the job queue\<close>

definition executing :: "'j job_state \<Rightarrow> nat" where
  "executing s = length (filter (\<lambda>e. holds e = 1) (jq_execs s))"

lemma holds_sum: "sum_list (map holds xs) = length (filter (\<lambda>e. holds e = 1) xs)"
proof (induction xs)
  case (Cons x xs)
  then show ?case by (cases x) auto
qed simp

lemma job_trace_reach: "job_step\<^sup>*\<^sup>* job_state_new s \<Longrightarrow> job_reach s"
  by (induction rule: rtranclp_induct) (auto intro: job_reach.intros)

text \<open>The jobs \<^verbatim>\<open>a\<close> and \<^verbatim>\<open>b\<close> pushed, the queue popped, \<^verbatim>\<open>a\<close> run past the deadline.\<close>

definition job_example :: "string job_state" where
  "job_example = \<lparr>jq_count = 2, jq_jobs = [], gq_entries = 0, jq_adding = [], jq_registering = 0,
     jq_execs = [XBack [''b''] 1], jq_executed = [''a''], jq_stored = [''a'', ''b'']\<rparr>"

lemma job_example_reach: "job_reach job_example"
proof -
  let ?s = "\<lambda>c js g ad r ex d st. \<lparr>jq_count = c, jq_jobs = js, gq_entries = g, jq_adding = ad,
    jq_registering = r, jq_execs = ex, jq_executed = d, jq_stored = st\<rparr>"
  have "job_reach (?s 0 [] 0 [] 0 [] [] [])" using job_reach.init by (simp add: job_state_new_def)
  then have "job_reach (?s 1 [] 0 [(''a'', True)] 0 [] [] [])"
    using job_step.add [of "?s 0 [] 0 [] 0 [] [] []" "''a''"] by (auto intro: job_reach.step)
  then have "job_reach (?s 1 [''a''] 0 [] 1 [] [] [''a''])"
    using job_step.store [of "?s 1 [] 0 [(''a'', True)] 0 [] [] []" "[]" "''a''" True "[]"]
    by (auto intro: job_reach.step)
  then have "job_reach (?s 2 [''a''] 0 [(''b'', False)] 1 [] [] [''a''])"
    using job_step.add [of "?s 1 [''a''] 0 [] 1 [] [] [''a'']" "''b''"] by (auto intro: job_reach.step)
  then have "job_reach (?s 2 [''a'', ''b''] 0 [] 1 [] [] [''a'', ''b''])"
    using job_step.store [of "?s 2 [''a''] 0 [(''b'', False)] 1 [] [] [''a'']" "[]" "''b''" False "[]"]
    by (auto intro: job_reach.step)
  then have "job_reach (?s 2 [''a'', ''b''] 1 [] 0 [] [] [''a'', ''b''])"
    using job_step.register [of "?s 2 [''a'', ''b''] 0 [] 1 [] [] [''a'', ''b'']"] by (auto intro: job_reach.step)
  then have "job_reach (?s 2 [''a'', ''b''] 0 [] 0 [XStart] [] [''a'', ''b''])"
    using job_step.pop [of "?s 2 [''a'', ''b''] 1 [] 0 [] [] [''a'', ''b'']"] by (auto intro: job_reach.step)
  then have "job_reach (?s 2 [] 0 [] 0 [XRun [''a'', ''b''] 0] [] [''a'', ''b''])"
    using job_step.batch [of "?s 2 [''a'', ''b''] 0 [] 0 [XStart] [] [''a'', ''b'']" "[]" "[]"]
    by (auto intro: job_reach.step)
  then have "job_reach (?s 2 [] 0 [] 0 [XBack [''b''] 1] [''a''] [''a'', ''b''])"
    using job_step.run [of "?s 2 [] 0 [] 0 [XRun [''a'', ''b''] 0] [] [''a'', ''b'']" "[]" "''a''" "[''b'']" 0 "[]" True]
    by (auto intro: job_reach.step)
  then show ?thesis by (simp add: job_example_def)
qed

text \<open>No thread is in the middle of a push or an execution and the queue is not registered.\<close>

definition idle :: "'j job_state \<Rightarrow> bool" where
  "idle s = (jq_execs s = [] \<and> gq_entries s = 0 \<and> jq_adding s = [] \<and> jq_registering s = 0)"

lemma idle_done: "job_inv s \<Longrightarrow> idle s \<Longrightarrow> jq_executed s = jq_stored s \<and> jq_count s = 0"
  by (auto simp: job_inv_def idle_def tokens_def split: if_splits)

text \<open>How far the work in progress is from done: pushes to finish, registrations to make, jobs to run,
  and the phases of the executions.\<close>

fun phase :: "'j exec \<Rightarrow> nat" where
  "phase (XBack rest n) = 7"
| "phase (XRun rest n) = (if rest = [] then 6 else 2)"
| "phase (XCount n) = 5"
| "phase (XDecide r) = 4"
| "phase XStart = 3"

definition todo :: "'j job_state \<Rightarrow> nat" where
  "todo s = length (jq_jobs s) + length (concat (map rest_of (jq_execs s)))"

definition phases :: "'j job_state \<Rightarrow> nat" where
  "phases s = sum_list (map phase (jq_execs s)) + 4 * gq_entries s"

abbreviation job_measure :: "('j job_state \<times> 'j job_state) set" where
  "job_measure \<equiv> measures [\<lambda>s. length (jq_adding s), jq_registering, todo, phases]"

lemma todo_left:
  assumes "job_inv s" and "jq_adding s = []" and "jq_execs s = XStart # es"
  shows "jq_jobs s \<noteq> []"
proof -
  have e: "jq_execs s = [] @ XStart # es" "holds XStart = 1" using assms(3) by simp_all
  have "0 < jq_count s" "sum_list (map owed es) = 0"
    using holder_alone(4,6) [OF assms(1) e] by simp_all
  moreover have "jq_count s = int (length (jq_jobs s)) + sum_list (map owed es)"
    using assms by (simp add: job_inv_def)
  ultimately show ?thesis by auto
qed

lemma progressI:
  "job_step s t \<Longrightarrow> (t, s) \<in> job_measure \<Longrightarrow> jq_stored t @ map fst (jq_adding t) = jq_stored s @ map fst (jq_adding s) \<Longrightarrow>
   \<exists>s'. job_step s s' \<and> (s', s) \<in> job_measure \<and>
    jq_stored s' @ map fst (jq_adding s') = jq_stored s @ map fst (jq_adding s)"
  by blast

lemma exec_progress:
  assumes "job_inv s" and "jq_adding s = []" and "jq_registering s = 0" and ex: "jq_execs s = e # es"
  shows "\<exists>s'. job_step s s' \<and> (s', s) \<in> job_measure \<and>
    jq_stored s' @ map fst (jq_adding s') = jq_stored s @ map fst (jq_adding s)"
proof (cases e)
  case XStart
  have "jq_jobs s \<noteq> []" using todo_left [OF assms(1,2)] ex XStart by simp
  then show ?thesis using assms(2) XStart ex
      by (intro progressI [OF job_step.batch [of s "[]" es]]) (auto simp: todo_def phases_def)
next
  case (XRun rest n)
  then show ?thesis
  proof (cases rest)
    case Nil
    then show ?thesis using assms(2) XRun ex
      by (intro progressI [OF job_step.finish [of s "[]" n es]]) (auto simp: todo_def phases_def)
  next
    case (Cons j js)
    then show ?thesis using assms(2) XRun ex
      by (intro progressI [OF job_step.run [of s "[]" j js n es False]]) (auto simp: todo_def phases_def)
  qed
next
  case (XBack rest n)
  then show ?thesis using assms(2) ex
      by (intro progressI [OF job_step.put_back [of s "[]" rest n es]]) (auto simp: todo_def phases_def)
next
  case (XCount n)
  then show ?thesis using assms(2) ex
      by (intro progressI [OF job_step.subtract [of s "[]" n es]]) (auto simp: todo_def phases_def)
next
  case (XDecide r)
  show ?thesis
  proof (cases "r \<le> 0")
    case True
    then show ?thesis using assms(2) XDecide ex
      by (intro progressI [OF job_step.ended [of s "[]" r es]]) (auto simp: todo_def phases_def)
  next
    case False
    then show ?thesis using assms(2) XDecide ex
      by (intro progressI [OF job_step.again [of s "[]" r es]]) (auto simp: todo_def phases_def)
  qed
qed

lemma job_progress:
  assumes "job_inv s" and "\<not> idle s"
  shows "\<exists>s'. job_step s s' \<and> (s', s) \<in> job_measure \<and>
    jq_stored s' @ map fst (jq_adding s') = jq_stored s @ map fst (jq_adding s)"
proof (cases "jq_adding s")
  case (Cons a as)
  obtain j f where "a = (j, f)" by (cases a)
  then show ?thesis using Cons
      by (intro progressI [OF job_step.store [of s "[]" j f as]]) (auto simp: todo_def phases_def)
next
  case Nil
  consider "0 < jq_registering s" | e es where "jq_registering s = 0" "jq_execs s = e # es"
    | "jq_registering s = 0" "jq_execs s = []" "0 < gq_entries s"
    using assms(2) Nil by (cases "jq_execs s") (auto simp: idle_def)
  then show ?thesis
  proof cases
    case 1
    then show ?thesis using Nil
      by (intro progressI [OF job_step.register [of s]]) (auto simp: todo_def phases_def)
  next
    case 2
    then show ?thesis using exec_progress [OF assms(1) Nil] Nil by blast
  next
    case 3
    then show ?thesis using Nil
      by (intro progressI [OF job_step.pop [of s]]) (auto simp: todo_def phases_def)
  qed
qed

lemma job_drain:
  "job_inv s \<Longrightarrow> \<exists>s'. job_step\<^sup>*\<^sup>* s s' \<and> idle s' \<and> job_inv s' \<and>
     jq_stored s' = jq_stored s @ map fst (jq_adding s)"
proof (induction s rule: wf_induct [OF wf_measures [of "[\<lambda>s. length (jq_adding s), jq_registering, todo, phases]"]])
  case (1 s)
  show ?case
  proof (cases "idle s")
    case True
    then show ?thesis using 1(2) by (intro exI [of _ s]) (auto simp: idle_def)
  next
    case False
    obtain t where t: "job_step s t" "(t, s) \<in> job_measure"
      "jq_stored t @ map fst (jq_adding t) = jq_stored s @ map fst (jq_adding s)"
      using job_progress [OF 1(2) False] by blast
    obtain u where u: "job_step\<^sup>*\<^sup>* t u" "idle u" "job_inv u" "jq_stored u = jq_stored t @ map fst (jq_adding t)"
      using 1(1) t(2) job_step_inv [OF t(1) 1(2)] by blast
    then show ?thesis using t converse_rtranclp_into_rtranclp [OF t(1) u(1)] by auto
  qed
qed

text \<open>C16: Whatever the interleaving of pushes and executions, at most one thread is executing the
  queue, it stands at most once in the global queue and not at all while executing, and whenever a job
  is waiting the right to execute it exists exactly once: it is being executed, is in the global queue,
  or a push in progress is about to register it. No wake-up is lost and none is duplicated.\<close>

theorem job_queue_serialized:
  assumes "job_reach s"
  shows "executing s + gq_entries s \<le> 1 \<and> (jq_jobs s \<noteq> [] \<longrightarrow>
    executing s + gq_entries s + jq_registering s + length (filter snd (jq_adding s)) = 1)"
proof (intro conjI impI)
  have inv: "job_inv s" by (rule job_reach_inv [OF assms])
  have t: "tokens s = executing s + gq_entries s + jq_registering s + length (filter snd (jq_adding s))"
    by (simp add: tokens_def executing_def holds_sum)
  show "executing s + gq_entries s \<le> 1" using inv t by (auto simp: job_inv_def split: if_splits)
  assume "jq_jobs s \<noteq> []"
  then have "0 < jq_count s" using inv owed_nonneg [of "jq_execs s"] by (simp add: job_inv_def add_pos_nonneg)
  then show "executing s + gq_entries s + jq_registering s + length (filter snd (jq_adding s)) = 1"
    using inv t by (simp add: job_inv_def)
qed

theorem job_queue_serialized_witness:
  "job_reach job_example \<and> executing job_example + gq_entries job_example \<le> 1"
  using job_queue_serialized [OF job_example_reach] job_example_reach by blast

text \<open>C17: Jobs run in the order in which they were stored and each at most once, also across deadlines
  that put unexecuted jobs back and pushes that arrive meanwhile: the jobs executed, those in hand of
  the running execution and those waiting are together the stored sequence. When no thread is active,
  every stored job has run and the counter is zero.\<close>

theorem job_queue_fifo:
  assumes "job_reach s"
  shows "jq_executed s @ concat (map rest_of (jq_execs s)) @ jq_jobs s = jq_stored s \<and>
    (idle s \<longrightarrow> jq_executed s = jq_stored s \<and> jq_count s = 0)"
proof (intro conjI)
  have inv: "job_inv s" by (rule job_reach_inv [OF assms])
  then show "jq_executed s @ concat (map rest_of (jq_execs s)) @ jq_jobs s = jq_stored s"
    by (simp add: job_inv_def)
  show "idle s \<longrightarrow> jq_executed s = jq_stored s \<and> jq_count s = 0"
    using inv idle_done by blast
qed

theorem job_queue_fifo_witness:
  "jq_executed job_example @ concat (map rest_of (jq_execs job_example)) @ jq_jobs job_example =
   jq_stored job_example \<and> jq_stored job_example = [''a'', ''b'']"
  using job_queue_fifo [OF job_example_reach] by (simp add: job_example_def)

text \<open>C30: The queue never wedges: from every reachable state, whatever threads are in the middle of,
  the pushes begun and the reactors can bring the queue to rest with every job pushed so far executed
  in order.\<close>

theorem job_queue_drains:
  assumes "job_reach s"
  shows "\<exists>s'. job_step\<^sup>*\<^sup>* s s' \<and> idle s' \<and> jq_executed s' = jq_stored s @ map fst (jq_adding s)"
  using job_drain [OF job_reach_inv [OF assms]] idle_done by metis

theorem job_queue_drains_witness:
  "\<exists>s'. job_step\<^sup>*\<^sup>* job_example s' \<and> idle s' \<and> jq_executed s' = [''a'', ''b'']"
  using job_queue_drains [OF job_example_reach] by (simp add: job_example_def)

section \<open>The global queue and the timer\<close>

definition gq_Push :: "'q list \<Rightarrow> 'q \<Rightarrow> 'q list" where
  "gq_Push queue jq = queue @ [jq]"

fun gq_TryPop :: "'q list \<Rightarrow> 'q option \<times> 'q list" where
  "gq_TryPop [] = (None, [])"
| "gq_TryPop (jq # queue) = (Some jq, queue)"

record ('q, 'j) reserved_job =
  execute_at :: int
  rj_target :: 'q
  rj_job :: 'j

text \<open>\<^verbatim>\<open>Reserve\<close> with the clock read; \<^verbatim>\<open>std::priority_queue\<close> promises only which element \<^verbatim>\<open>top\<close> may be,
  not its order among equal times: \<^verbatim>\<open>pick\<close> is the position of \<^verbatim>\<open>top\<close>, any function with
  \<^verbatim>\<open>is_top pick\<close>. \<^verbatim>\<open>alive\<close> tells whether \<^verbatim>\<open>target.lock()\<close> succeeds; the result is the list of
  \<^verbatim>\<open>JobQueue::Push\<close> calls and what is left in the timer.\<close>

definition Reserve :: "int \<Rightarrow> int \<Rightarrow> 'q \<Rightarrow> 'j \<Rightarrow> ('q, 'j) reserved_job list \<Rightarrow> ('q, 'j) reserved_job list" where
  "Reserve now delay target job queue =
     \<lparr>execute_at = now + delay, rj_target = target, rj_job = job\<rparr> # queue"

function DistributeExpired :: "(('q, 'j) reserved_job list \<Rightarrow> nat) \<Rightarrow> ('q \<Rightarrow> bool) \<Rightarrow> int \<Rightarrow>
    ('q, 'j) reserved_job list \<Rightarrow> ('q, 'j) reserved_job list \<times> ('q, 'j) reserved_job list" where
  "DistributeExpired pick alive now queue =
     (if pick queue < length queue \<and> execute_at (queue ! pick queue) \<le> now
      then let rj = queue ! pick queue;
               (pushed, left) = DistributeExpired pick alive now
                 (take (pick queue) queue @ drop (Suc (pick queue)) queue)
           in (if alive (rj_target rj) then rj # pushed else pushed, left)
      else ([], queue))"
  by pat_completeness auto
termination by (relation "measure (\<lambda>(_, _, _, queue). length queue)") auto

declare DistributeExpired.simps [simp del]

definition is_top :: "(('q, 'j) reserved_job list \<Rightarrow> nat) \<Rightarrow> bool" where
  "is_top pick = (\<forall>queue. queue \<noteq> [] \<longrightarrow> pick queue < length queue \<and>
     (\<forall>rj \<in> set queue. execute_at (queue ! pick queue) \<le> execute_at rj))"

lemma remove_nth_mset: "i < length xs \<Longrightarrow> mset xs = add_mset (xs ! i) (mset (take i xs @ drop (Suc i) xs))"
  by (subst id_take_nth_drop [of i xs]) simp_all

lemma remove_nth_subset: "set (take i xs @ drop (Suc i) xs) \<subseteq> set xs"
  by (auto dest: in_set_takeD in_set_dropD)

lemma is_topD:
  "is_top pick \<Longrightarrow> queue \<noteq> [] \<Longrightarrow> pick queue < length queue"
  "is_top pick \<Longrightarrow> queue \<noteq> [] \<Longrightarrow> rj \<in> set queue \<Longrightarrow> execute_at (queue ! pick queue) \<le> execute_at rj"
  by (auto simp: is_top_def)

lemma distribute_msets:
  "is_top pick \<Longrightarrow>
   mset (fst (DistributeExpired pick alive now queue)) =
     filter_mset (\<lambda>rj. execute_at rj \<le> now \<and> alive (rj_target rj)) (mset queue) \<and>
   mset (snd (DistributeExpired pick alive now queue)) = filter_mset (\<lambda>rj. now < execute_at rj) (mset queue)"
proof (induction pick alive now queue rule: DistributeExpired.induct)
  case (1 pick alive now queue)
  show ?case
  proof (cases "pick queue < length queue \<and> execute_at (queue ! pick queue) \<le> now")
    case True
    then show ?thesis
      using 1 remove_nth_mset [of "pick queue" queue]
      by (subst (1 2) DistributeExpired.simps) (auto simp: Let_def split: prod.splits)
  next
    case False
    then have "\<forall>rj \<in> set queue. now < execute_at rj"
      using is_topD [OF 1(2), of queue] by (cases "queue = []") fastforce+
    then have "filter_mset (\<lambda>rj. now < execute_at rj) (mset queue) = mset queue"
      "filter_mset (\<lambda>rj. execute_at rj \<le> now \<and> alive (rj_target rj)) (mset queue) = {#}"
      by (auto simp: filter_mset_eq_conv)
    then show ?thesis using False by (subst (1 2) DistributeExpired.simps) auto
  qed
qed

lemma distribute_sorted:
  "is_top pick \<Longrightarrow> sorted (map execute_at (fst (DistributeExpired pick alive now queue)))"
proof (induction pick alive now queue rule: DistributeExpired.induct)
  case (1 pick alive now queue)
  let ?rest = "take (pick queue) queue @ drop (Suc (pick queue)) queue"
  show ?case
  proof (cases "pick queue < length queue \<and> execute_at (queue ! pick queue) \<le> now")
    case True
    then have ne: "queue \<noteq> []" by auto
    have "set (fst (DistributeExpired pick alive now ?rest)) \<subseteq> set ?rest"
      using arg_cong [OF distribute_msets [OF 1(2), of alive now ?rest, THEN conjunct1], of set_mset]
      by (simp only: set_mset_mset set_mset_filter) blast
    then have "\<forall>rj \<in> set (fst (DistributeExpired pick alive now ?rest)). execute_at (queue ! pick queue) \<le> execute_at rj"
      using is_topD(2) [OF 1(2) ne] remove_nth_subset [of "pick queue" queue] by blast
    moreover have "sorted (map execute_at (fst (DistributeExpired pick alive now ?rest)))"
      using 1(1) [OF True refl] 1(2) by simp
    ultimately show ?thesis using True
      by (subst DistributeExpired.simps) (simp add: Let_def split_beta)
  next
    case False
    then have "DistributeExpired pick alive now queue = ([], queue)"
      by (subst DistributeExpired.simps) (simp only: if_False)
    then show ?thesis by simp
  qed
qed

text \<open>One pass of the timer pushes exactly the jobs whose time has come and whose queue is still
  alive, each once and in order of their times, and keeps exactly the jobs that are not yet due.\<close>

theorem timer_distributes_due:
  assumes "is_top pick" and "DistributeExpired pick alive now queue = (pushed, left)"
  shows "mset pushed = {# rj \<in># mset queue. execute_at rj \<le> now \<and> alive (rj_target rj) #} \<and>
    sorted (map execute_at pushed) \<and> mset left = {# rj \<in># mset queue. now < execute_at rj #}"
  using distribute_msets [OF assms(1), of alive now queue] distribute_sorted [OF assms(1), of alive now queue] assms(2)
  by simp

text \<open>A possible \<^verbatim>\<open>top\<close>: the first earliest job.\<close>

fun first_min :: "('q, 'j) reserved_job list \<Rightarrow> nat" where
  "first_min [] = 0"
| "first_min [rj] = 0"
| "first_min (rj # rjs) = (if execute_at rj \<le> execute_at (rjs ! first_min rjs) then 0 else Suc (first_min rjs))"

lemma first_min_top: "is_top (first_min :: ('q, 'j) reserved_job list \<Rightarrow> nat)"
proof -
  have "queue \<noteq> [] \<Longrightarrow> first_min queue < length queue \<and>
    (\<forall>rj \<in> set queue. execute_at (queue ! first_min queue) \<le> execute_at rj)" for queue :: "('q, 'j) reserved_job list"
    by (induction queue rule: first_min.induct) (auto dest: order_trans)
  then show ?thesis unfolding is_top_def by blast
qed

definition timer_example :: "(nat, string) reserved_job list" where
  "timer_example = Reserve 0 30 1 ''c'' (Reserve 0 10 2 ''b'' (Reserve 0 5 1 ''a'' (Reserve 0 9 1 ''d'' [])))"

theorem timer_distributes_due_witness:
  "map rj_job (fst (DistributeExpired first_min (\<lambda>q. q = 1) 10 timer_example)) = [''a'', ''d''] \<and>
   mset (snd (DistributeExpired first_min (\<lambda>q. q = 1) 10 timer_example)) =
     {# rj \<in># mset timer_example. 10 < execute_at rj #}"
  using timer_distributes_due [OF first_min_top, of "\<lambda>q. q = 1" 10 timer_example]
  by (simp add: timer_example_def Reserve_def DistributeExpired.simps Let_def split_beta)

end
