(* ===== verification/Mpsc_Queue.thy ===== *)
theory Mpsc_Queue
  imports Prelude
begin

text \<open>
  The lock-free multi-producer single-consumer queue (\<^verbatim>\<open>include/servercore/MpscQueue.h\<close>). A step is
  one access to a shared location by one thread: the exchange or the linking store of a producer's
  \<^verbatim>\<open>PushNode\<close>, or the next access of the consumer's \<^verbatim>\<open>TryPop\<close>. Accesses interleave in any order on
  one memory; the reorderings that the acquire and release annotations permit beyond that are not
  modelled.
\<close>

section \<open>State\<close>

text \<open>Addresses: the member \<^verbatim>\<open>stub_\<close>, or a heap node.\<close>

datatype node = Stub | Node nat

text \<open>Where the consumer stands in \<^verbatim>\<open>TryPop\<close>: outside; about to load \<^verbatim>\<open>next\<close> again after skipping
  the stub; about to load \<^verbatim>\<open>produce_end_\<close>; about to clear \<^verbatim>\<open>stub_.next\<close>; about to exchange; about to
  link the stub behind the given node; about to load \<^verbatim>\<open>next\<close> a last time.\<close>

datatype consumer_pc = CIdle | CNext node | CCheck node | CReset node | CXchg node | CLink node node | CReload node

text \<open>The pending list holds, for each producer between its exchange and its store, the pair of
  \<^verbatim>\<open>prev\<close> and its node. A heap node has a value as long as it is allocated. The last three fields
  record the history: the nodes from \<^verbatim>\<open>consume_end_\<close> on in exchange order, the items pushed (in
  exchange order) and the items handed out.\<close>

record 'a mpsc =
  nxt :: "node \<Rightarrow> node option"
  val :: "nat \<Rightarrow> 'a option"
  fresh :: nat
  consume_end :: node
  produce_end :: node
  pending :: "(node \<times> node) list"
  cpc :: consumer_pc
  chain :: "node list"
  pushed :: "'a list"
  popped :: "'a list"

definition mpsc_new :: "'a mpsc" where
  "mpsc_new = \<lparr>nxt = (\<lambda>_. None), val = (\<lambda>_. None), fresh = 0, consume_end = Stub, produce_end = Stub,
     pending = [], cpc = CIdle, chain = [Stub], pushed = [], popped = []\<rparr>"

section \<open>Steps\<close>

text \<open>A producer allocates its node and exchanges it into \<^verbatim>\<open>produce_end_\<close>.\<close>

definition push_xchg :: "'a \<Rightarrow> 'a mpsc \<Rightarrow> 'a mpsc" where
  "push_xchg item s =
     (let node = Node (fresh s)
      in s\<lparr>val := (val s)(fresh s := Some item), nxt := (nxt s)(node := None), fresh := fresh s + 1,
           produce_end := node, pending := pending s @ [(produce_end s, node)],
           chain := chain s @ [node], pushed := pushed s @ [item]\<rparr>)"

text \<open>A producer's linking store; producers store in any order.\<close>

definition push_link :: "node \<times> node \<Rightarrow> 'a mpsc \<Rightarrow> 'a mpsc" where
  "push_link p s = s\<lparr>nxt := (nxt s)(fst p := Some (snd p)), pending := removeAll p (pending s)\<rparr>"

text \<open>\<^verbatim>\<open>out = node->value; delete node; return true\<close>.\<close>

definition pop_node :: "node \<Rightarrow> node \<Rightarrow> 'a mpsc \<Rightarrow> 'a mpsc" where
  "pop_node node next s =
     (case node of
        Stub \<Rightarrow> s\<lparr>consume_end := next, chain := tl (chain s), cpc := CIdle\<rparr>
      | Node i \<Rightarrow> s\<lparr>consume_end := next, chain := tl (chain s), cpc := CIdle,
           popped := popped s @ (case val s i of None \<Rightarrow> [] | Some v \<Rightarrow> [v]), val := (val s)(i := None)\<rparr>)"

definition consumer_step :: "'a mpsc \<Rightarrow> 'a mpsc" where
  "consumer_step s =
     (case cpc s of
        CIdle \<Rightarrow>
          (let node = consume_end s
           in if node = Stub
              then (case nxt s node of
                      None \<Rightarrow> s
                    | Some next \<Rightarrow> s\<lparr>consume_end := next, chain := tl (chain s), cpc := CNext next\<rparr>)
              else (case nxt s node of
                      Some next \<Rightarrow> pop_node node next s
                    | None \<Rightarrow> s\<lparr>cpc := CCheck node\<rparr>))
      | CNext node \<Rightarrow>
          (case nxt s node of
             Some next \<Rightarrow> pop_node node next s
           | None \<Rightarrow> s\<lparr>cpc := CCheck node\<rparr>)
      | CCheck node \<Rightarrow> s\<lparr>cpc := (if node \<noteq> produce_end s then CIdle else CReset node)\<rparr>
      | CReset node \<Rightarrow> s\<lparr>nxt := (nxt s)(Stub := None), cpc := CXchg node\<rparr>
      | CXchg node \<Rightarrow> s\<lparr>produce_end := Stub, chain := chain s @ [Stub], cpc := CLink node (produce_end s)\<rparr>
      | CLink node prev \<Rightarrow> s\<lparr>nxt := (nxt s)(prev := Some Stub), cpc := CReload node\<rparr>
      | CReload node \<Rightarrow>
          (case nxt s node of
             Some next \<Rightarrow> pop_node node next s
           | None \<Rightarrow> s\<lparr>cpc := CIdle\<rparr>))"

inductive mpsc_reach :: "'a mpsc \<Rightarrow> bool" where
  init: "mpsc_reach mpsc_new"
| xchg: "mpsc_reach s \<Longrightarrow> mpsc_reach (push_xchg item s)"
| link: "mpsc_reach s \<Longrightarrow> p \<in> set (pending s) \<Longrightarrow> mpsc_reach (push_link p s)"
| consume: "mpsc_reach s \<Longrightarrow> mpsc_reach (consumer_step s)"

section \<open>Chains\<close>

text \<open>A chain is linked in order, except at the pairs whose linking store is outstanding.\<close>

fun linked :: "(node \<Rightarrow> node option) \<Rightarrow> (node \<times> node) set \<Rightarrow> node list \<Rightarrow> bool" where
  "linked n P [] = False"
| "linked n P [x] = (n x = None)"
| "linked n P (x # y # r) = ((if (x, y) \<in> P then n x = None else n x = Some y) \<and> linked n P (y # r))"

fun adjacent :: "node list \<Rightarrow> (node \<times> node) set" where
  "adjacent (x # y # r) = insert (x, y) (adjacent (y # r))"
| "adjacent _ = {}"

lemma adjacent_in: "(a, b) \<in> adjacent ch \<Longrightarrow> a \<in> set ch \<and> b \<in> set ch"
  by (induction ch rule: adjacent.induct) auto

lemma adjacent_snoc: "ch \<noteq> [] \<Longrightarrow> adjacent (ch @ [y]) = insert (last ch, y) (adjacent ch)"
  by (induction ch rule: adjacent.induct) auto

lemma adjacent_tl: "distinct (x # ch) \<Longrightarrow> (a, b) \<in> adjacent (x # ch) \<Longrightarrow> a \<noteq> x \<Longrightarrow> (a, b) \<in> adjacent ch"
  by (cases ch) auto

lemma linked_cong: "\<lbrakk>linked n P ch; \<And>x. x \<in> set ch \<Longrightarrow> n' x = n x; \<And>a b. (a, b) \<in> adjacent ch \<Longrightarrow> (a, b) \<in> P' \<longleftrightarrow> (a, b) \<in> P\<rbrakk> \<Longrightarrow>
  linked n' P' ch"
proof (induction n P ch rule: linked.induct)
  case (3 n P x y r)
  have l: "linked n P (y # r)" and e: "if (x, y) \<in> P then n x = None else n x = Some y" using 3(2) by simp_all
  have "linked n' P' (y # r)" by (rule 3(1) [OF l]) (use 3(3,4) in auto)
  moreover have "n' x = n x" "(x, y) \<in> P' \<longleftrightarrow> (x, y) \<in> P" using 3(3,4) by auto
  ultimately show ?case using e by simp
qed auto

lemma linked_snoc:
  "\<lbrakk>linked n P ch; y \<notin> set ch\<rbrakk> \<Longrightarrow> linked (n(y := None)) (insert (last ch, y) P) (ch @ [y])"
proof (induction n P ch rule: linked.induct)
  case (3 n P x z r)
  then show ?case by (cases "(x, z) \<in> P") (auto split: if_splits)
qed auto

lemma linked_last: "linked n P ch \<Longrightarrow> n (last ch) = None"
  by (induction n P ch rule: linked.induct) auto

lemma linked_store:
  "\<lbrakk>linked n P ch; distinct ch; (a, b) \<in> adjacent ch; (a, b) \<in> P\<rbrakk> \<Longrightarrow>
   linked (n(a := Some b)) (P - {(a, b)}) ch"
proof (induction n P ch rule: linked.induct)
  case (3 n P x y r)
  show ?case
  proof (cases "a = x")
    case True
    then have b: "b = y" using 3(3,4) adjacent_in [of a b "y # r"] by auto
    have "linked (n(x := Some y)) (P - {(x, y)}) (y # r)"
      by (rule linked_cong [of n P]) (use 3(2,3) adjacent_in [of x y "y # r"] in \<open>auto split: if_splits\<close>)
    then show ?thesis using True b by (simp del: fun_upd_apply add: fun_upd_same)
  next
    case False
    then have "linked (n(a := Some b)) (P - {(a, b)}) (y # r)" using 3 by (simp del: fun_upd_apply)
    then show ?thesis using 3(2) False by (simp del: fun_upd_apply add: fun_upd_other)
  qed
qed auto

lemma linked_next:
  assumes "linked n P (x # r)" and "n x = Some y"
  shows "\<exists>r'. r = y # r' \<and> (x, y) \<notin> P \<and> linked n P r"
  using assms by (cases r) (auto split: if_splits)

lemma advance_pending:
  assumes "distinct (x # y # r)" and "P \<subseteq> adjacent (x # y # r)" and "(x, y) \<notin> P"
  shows "P \<subseteq> adjacent (y # r)"
proof
  fix p assume p: "p \<in> P"
  obtain a b where ab: "p = (a, b)" by (cases p)
  have "a \<noteq> x" using p ab assms adjacent_in [of a b "y # r"] by auto
  then show "p \<in> adjacent (y # r)" using p ab assms(2) by auto
qed

section \<open>Invariant\<close>

definition unlinked :: "'a mpsc \<Rightarrow> (node \<times> node) set" where
  "unlinked s = set (pending s) \<union> (case cpc s of CLink node prev \<Rightarrow> {(prev, Stub)} | _ \<Rightarrow> {})"

fun item_of :: "(nat \<Rightarrow> 'a option) \<Rightarrow> node \<Rightarrow> 'a list" where
  "item_of v Stub = []"
| "item_of v (Node i) = (case v i of None \<Rightarrow> [] | Some x \<Rightarrow> [x])"

definition items :: "'a mpsc \<Rightarrow> 'a list" where
  "items s = concat (map (item_of (val s)) (chain s))"

definition pc_ok :: "'a mpsc \<Rightarrow> bool" where
  "pc_ok s =
     (case cpc s of
        CIdle \<Rightarrow> True
      | CNext node \<Rightarrow> node = consume_end s \<and> node \<noteq> Stub \<and> Stub \<notin> set (chain s)
      | CCheck node \<Rightarrow> node = consume_end s \<and> node \<noteq> Stub
      | CReset node \<Rightarrow> node = consume_end s \<and> node \<noteq> Stub \<and> Stub \<notin> set (chain s)
      | CXchg node \<Rightarrow> node = consume_end s \<and> node \<noteq> Stub \<and> Stub \<notin> set (chain s) \<and> nxt s Stub = None
      | CLink node prev \<Rightarrow> node = consume_end s \<and> node \<noteq> Stub
      | CReload node \<Rightarrow> node = consume_end s \<and> node \<noteq> Stub)"

definition mpsc_inv :: "'a mpsc \<Rightarrow> bool" where
  "mpsc_inv s =
     (chain s \<noteq> [] \<and> hd (chain s) = consume_end s \<and> last (chain s) = produce_end s \<and> distinct (chain s) \<and>
      linked (nxt s) (unlinked s) (chain s) \<and> unlinked s \<subseteq> adjacent (chain s) \<and>
      (\<forall>p \<in> set (pending s). snd p \<noteq> Stub) \<and>
      (\<forall>i. Node i \<in> set (chain s) \<longrightarrow> i < fresh s \<and> val s i \<noteq> None) \<and>
      popped s @ items s = pushed s \<and> pc_ok s)"

lemma mpsc_invD:
  assumes "mpsc_inv s"
  shows "chain s \<noteq> []" "hd (chain s) = consume_end s" "last (chain s) = produce_end s" "distinct (chain s)"
    "linked (nxt s) (unlinked s) (chain s)" "unlinked s \<subseteq> adjacent (chain s)"
    "\<And>p. p \<in> set (pending s) \<Longrightarrow> snd p \<noteq> Stub" "\<And>i. Node i \<in> set (chain s) \<Longrightarrow> i < fresh s"
    "\<And>i. Node i \<in> set (chain s) \<Longrightarrow> val s i \<noteq> None" "popped s @ items s = pushed s" "pc_ok s"
  using assms by (auto simp: mpsc_inv_def)

lemma item_cong: "(\<And>i. Node i \<in> set ch \<Longrightarrow> v' i = v i) \<Longrightarrow> map (item_of v') ch = map (item_of v) ch"
proof (induction ch)
  case (Cons x ch)
  then show ?case by (cases x) auto
qed simp

lemma push_xchg_inv:
  assumes inv: "mpsc_inv s"
  shows "mpsc_inv (push_xchg item s)"
proof -
  note I = mpsc_invD [OF inv]
  let ?n = "Node (fresh s)" and ?s = "push_xchg item s"
  have new: "?n \<notin> set (chain s)" using I(8) by auto
  have u: "unlinked ?s = insert (last (chain s), ?n) (unlinked s)"
    using I(3) by (auto simp: unlinked_def push_xchg_def Let_def)
  have "linked (nxt ?s) (unlinked ?s) (chain ?s)"
    using linked_snoc [OF I(5) new] unfolding u by (simp add: push_xchg_def Let_def)
  moreover have "unlinked ?s \<subseteq> adjacent (chain ?s)"
    using I(6) adjacent_snoc [OF I(1), of ?n] unfolding u by (auto simp: push_xchg_def Let_def)
  moreover have "items ?s = items s @ [item]"
  proof -
    have "map (item_of ((val s)(fresh s := Some item))) (chain s) = map (item_of (val s)) (chain s)"
      using I(8) by (intro item_cong) auto
    then have "concat (map (item_of ((val s)(fresh s := Some item))) (chain s)) = items s"
      unfolding items_def by (rule arg_cong)
    then show ?thesis by (simp add: items_def push_xchg_def Let_def)
  qed
  moreover have "pc_ok ?s" using I(11) by (auto simp: pc_ok_def push_xchg_def Let_def split: consumer_pc.splits)
  ultimately show ?thesis
    using I(1,2,4,7-10) new by (auto simp: mpsc_inv_def push_xchg_def Let_def less_Suc_eq)
qed

lemma push_link_inv:
  assumes inv: "mpsc_inv s" and p: "p \<in> set (pending s)"
  shows "mpsc_inv (push_link p s)"
proof -
  note I = mpsc_invD [OF inv]
  let ?s = "push_link p s"
  obtain a b where ab: "p = (a, b)" by (cases p)
  have un: "(a, b) \<in> unlinked s" using p ab by (simp add: unlinked_def)
  have u: "unlinked ?s = unlinked s - {(a, b)}"
    using I(7) [OF p] ab by (auto simp: unlinked_def push_link_def split: consumer_pc.splits)
  have adj: "(a, b) \<in> adjacent (chain s)" using I(6) un by blast
  have "linked (nxt ?s) (unlinked ?s) (chain ?s)"
    using linked_store [OF I(5,4) adj un] unfolding u by (simp add: push_link_def ab)
  moreover have "unlinked ?s \<subseteq> adjacent (chain ?s)" using I(6) unfolding u by (auto simp: push_link_def)
  moreover have "items ?s = items s" by (simp add: items_def push_link_def)
  moreover have "pc_ok ?s" using I(11) adjacent_in [OF adj]
    by (auto simp: pc_ok_def push_link_def ab split: consumer_pc.splits)
  ultimately show ?thesis using I(1-4,7-10) by (auto simp: mpsc_inv_def push_link_def)
qed

text \<open>The consumer takes a node whose \<^verbatim>\<open>next\<close> is set.\<close>

lemma advance_chain:
  assumes inv: "mpsc_inv s" and e: "nxt s (consume_end s) = Some nx"
  shows "\<exists>r. chain s = consume_end s # nx # r \<and> linked (nxt s) (unlinked s) (nx # r) \<and>
    unlinked s \<subseteq> adjacent (nx # r)"
proof -
  note I = mpsc_invD [OF inv]
  obtain ch where ch: "chain s = consume_end s # ch" using I(1,2) by (cases "chain s") auto
  obtain r where r: "ch = nx # r" "(consume_end s, nx) \<notin> unlinked s" "linked (nxt s) (unlinked s) ch"
    using linked_next [of "nxt s" "unlinked s" "consume_end s" ch nx] I(5) e unfolding ch by blast
  then show ?thesis using advance_pending [of "consume_end s" nx r "unlinked s"] I(4,6) ch by auto
qed

lemma pop_node_inv:
  assumes inv: "mpsc_inv s" and e: "nxt s (consume_end s) = Some nx" and st: "consume_end s = Node i"
    and pc: "\<And>n m. cpc s \<noteq> CLink n m"
  shows "mpsc_inv (pop_node (consume_end s) nx s)" "items s = the (val s i) # items (pop_node (consume_end s) nx s)"
    "popped (pop_node (consume_end s) nx s) = popped s @ [the (val s i)]"
proof -
  note I = mpsc_invD [OF inv]
  let ?s = "pop_node (consume_end s) nx s"
  obtain r where r: "chain s = Node i # nx # r" "linked (nxt s) (unlinked s) (nx # r)"
    "unlinked s \<subseteq> adjacent (nx # r)" using advance_chain [OF inv e] st by auto
  obtain v where v: "val s i = Some v" using I(9) [of i] r(1) by auto
  have s: "nxt ?s = nxt s" "chain ?s = nx # r" "cpc ?s = CIdle" "pending ?s = pending s" "consume_end ?s = nx"
    "produce_end ?s = produce_end s" "val ?s = (val s)(i := None)" "popped ?s = popped s @ [v]" "pushed ?s = pushed s"
    "fresh ?s = fresh s" using r(1) v by (simp_all add: pop_node_def st)
  have u: "unlinked ?s = unlinked s" using pc by (auto simp: unlinked_def s split: consumer_pc.splits)
  have it: "map (item_of ((val s)(i := None))) (nx # r) = map (item_of (val s)) (nx # r)"
    by (rule item_cong) (use I(4) r(1) in auto)
  show items: "items s = the (val s i) # items ?s" unfolding items_def s r(1) it by (simp add: v)
  show "popped ?s = popped s @ [the (val s i)]" using s v by simp
  have "last (nx # r) = produce_end s" using I(3) r(1) by simp
  moreover have "Node j \<in> set (nx # r) \<Longrightarrow> j < fresh s \<and> ((val s)(i := None)) j \<noteq> None" for j
    using I(4,8,9) r(1) by auto
  ultimately show "mpsc_inv ?s"
    unfolding mpsc_inv_def s u using I(4,7,10) items v r by (auto simp: pc_ok_def s)
qed

text \<open>Steps of the consumer that touch only its program counter.\<close>

lemma pc_only_inv:
  assumes "mpsc_inv s" and "unlinked (s\<lparr>cpc := pc\<rparr>) = unlinked s" and "pc_ok (s\<lparr>cpc := pc\<rparr>)"
  shows "mpsc_inv (s\<lparr>cpc := pc\<rparr>)"
  using assms unfolding mpsc_inv_def by (simp add: items_def)

lemma skip_stub_inv:
  assumes inv: "mpsc_inv s" and pc: "cpc s = CIdle" and st: "consume_end s = Stub" and e: "nxt s Stub = Some nx"
  shows "mpsc_inv (s\<lparr>consume_end := nx, chain := tl (chain s), cpc := CNext nx\<rparr>)"
proof -
  note I = mpsc_invD [OF inv]
  let ?s = "s\<lparr>consume_end := nx, chain := tl (chain s), cpc := CNext nx\<rparr>"
  obtain r where r: "chain s = Stub # nx # r" "linked (nxt s) (unlinked s) (nx # r)"
    "unlinked s \<subseteq> adjacent (nx # r)" using advance_chain [OF inv] st e by auto
  have u: "unlinked ?s = unlinked s" by (simp add: unlinked_def pc)
  have "items ?s = items s" by (simp add: items_def r(1))
  moreover have "pc_ok ?s" using I(4) r(1) by (auto simp: pc_ok_def)
  ultimately show ?thesis unfolding mpsc_inv_def u using I(3,4,7-10) r by simp
qed

lemma reset_inv:
  assumes inv: "mpsc_inv s" and pc: "cpc s = CReset n"
  shows "mpsc_inv (s\<lparr>nxt := (nxt s)(Stub := None), cpc := CXchg n\<rparr>)"
proof -
  note I = mpsc_invD [OF inv]
  let ?s = "s\<lparr>nxt := (nxt s)(Stub := None), cpc := CXchg n\<rparr>"
  have st: "Stub \<notin> set (chain s)" "n = consume_end s" "n \<noteq> Stub" using I(11) pc by (auto simp: pc_ok_def)
  have u: "unlinked ?s = unlinked s" by (simp add: unlinked_def pc)
  have "linked ((nxt s)(Stub := None)) (unlinked s) (chain s)"
    by (rule linked_cong [OF I(5)]) (use st(1) in auto)
  moreover have "items ?s = items s" by (simp add: items_def)
  moreover have "pc_ok ?s" using st by (auto simp: pc_ok_def)
  ultimately show ?thesis unfolding mpsc_inv_def u using I(1-4,6-10) by simp
qed

lemma stub_xchg_inv:
  assumes inv: "mpsc_inv s" and pc: "cpc s = CXchg n"
  shows "mpsc_inv (s\<lparr>produce_end := Stub, chain := chain s @ [Stub], cpc := CLink n (produce_end s)\<rparr>)"
proof -
  note I = mpsc_invD [OF inv]
  let ?s = "s\<lparr>produce_end := Stub, chain := chain s @ [Stub], cpc := CLink n (produce_end s)\<rparr>"
  have st: "Stub \<notin> set (chain s)" "nxt s Stub = None" "n = consume_end s" "n \<noteq> Stub"
    using I(11) pc by (auto simp: pc_ok_def)
  have u: "unlinked ?s = insert (last (chain s), Stub) (unlinked s)" using I(3) by (auto simp: unlinked_def pc)
  have "(nxt s)(Stub := None) = nxt s" using st(2) by (simp add: fun_upd_idem)
  then have "linked (nxt s) (unlinked ?s) (chain s @ [Stub])" using linked_snoc [OF I(5) st(1)] unfolding u by simp
  moreover have "unlinked ?s \<subseteq> adjacent (chain s @ [Stub])"
    using I(6) adjacent_snoc [OF I(1), of Stub] unfolding u by auto
  moreover have "items ?s = items s" by (simp add: items_def)
  moreover have "pc_ok ?s" using st by (auto simp: pc_ok_def)
  ultimately show ?thesis unfolding mpsc_inv_def using I(1,2,4,7-10) st(1) by simp
qed

lemma stub_link_inv:
  assumes inv: "mpsc_inv s" and pc: "cpc s = CLink n prev"
  shows "mpsc_inv (s\<lparr>nxt := (nxt s)(prev := Some Stub), cpc := CReload n\<rparr>)"
proof -
  note I = mpsc_invD [OF inv]
  let ?s = "s\<lparr>nxt := (nxt s)(prev := Some Stub), cpc := CReload n\<rparr>"
  have st: "n = consume_end s" "n \<noteq> Stub" using I(11) pc by (auto simp: pc_ok_def)
  have un: "(prev, Stub) \<in> unlinked s" by (simp add: unlinked_def pc)
  then have adj: "(prev, Stub) \<in> adjacent (chain s)" using I(6) by blast
  have "(prev, Stub) \<notin> set (pending s)" using I(7) by fastforce
  then have u: "unlinked ?s = unlinked s - {(prev, Stub)}" by (auto simp: unlinked_def pc)
  have "linked (nxt ?s) (unlinked ?s) (chain ?s)" using linked_store [OF I(5,4) adj un] unfolding u by simp
  moreover have "unlinked ?s \<subseteq> adjacent (chain ?s)" using I(6) unfolding u by auto
  moreover have "items ?s = items s" by (simp add: items_def)
  moreover have "pc_ok ?s" using st by (auto simp: pc_ok_def)
  ultimately show ?thesis unfolding mpsc_inv_def using I(1-4,7-10) by simp
qed

lemma load_next_inv:
  assumes inv: "mpsc_inv s" and st: "consume_end s = Node i" and pc: "\<And>n m. cpc s \<noteq> CLink n m"
    and miss: "pc \<in> {CIdle, CCheck (consume_end s)}"
  shows "mpsc_inv (case nxt s (consume_end s) of Some nx \<Rightarrow> pop_node (consume_end s) nx s | None \<Rightarrow> s\<lparr>cpc := pc\<rparr>)"
proof (cases "nxt s (consume_end s)")
  case None
  have "mpsc_inv (s\<lparr>cpc := pc\<rparr>)"
    by (rule pc_only_inv [OF inv])
       (use pc miss st in \<open>auto simp: unlinked_def pc_ok_def split: consumer_pc.splits\<close>)
  then show ?thesis using None by simp
next
  case (Some nx)
  then show ?thesis using pop_node_inv(1) [OF inv Some st pc] by simp
qed

lemma consumer_step_inv:
  assumes inv: "mpsc_inv s"
  shows "mpsc_inv (consumer_step s)"
proof -
  note I = mpsc_invD [OF inv]
  show ?thesis
  proof (cases "cpc s")
    case CIdle
    show ?thesis
    proof (cases "consume_end s")
      case Stub
      then show ?thesis using inv CIdle skip_stub_inv [OF inv CIdle Stub]
        by (auto simp: consumer_step_def Let_def split: option.splits)
    next
      case (Node i)
      then have "consume_end s \<noteq> Stub" by simp
      then show ?thesis using load_next_inv [OF inv Node, of "CCheck (consume_end s)"] CIdle
        by (simp add: consumer_step_def Let_def)
    qed
  next
    case (CNext n)
    then obtain i where n: "n = consume_end s" "consume_end s = Node i"
      using I(11) by (cases n) (auto simp: pc_ok_def)
    show ?thesis using load_next_inv [OF inv n(2), of "CCheck (consume_end s)"] CNext n(1)
      by (simp add: consumer_step_def)
  next
    case (CCheck n)
    then have n: "n = consume_end s" "n \<noteq> Stub" using I(11) by (auto simp: pc_ok_def)
    have "Stub \<notin> set (chain s)" if "n = produce_end s"
    proof -
      have "chain s = [n]" using I(1-4) n that
        by (cases "chain s") (auto split: if_splits dest: last_in_set)
      then show ?thesis using n by simp
    qed
    then have "mpsc_inv (s\<lparr>cpc := (if n \<noteq> produce_end s then CIdle else CReset n)\<rparr>)"
      using n CCheck by (intro pc_only_inv [OF inv]) (auto simp: unlinked_def pc_ok_def)
    then show ?thesis using CCheck by (simp add: consumer_step_def)
  next
    case (CReset n)
    then show ?thesis using reset_inv [OF inv CReset] by (simp add: consumer_step_def)
  next
    case (CXchg n)
    then show ?thesis using stub_xchg_inv [OF inv CXchg] by (simp add: consumer_step_def)
  next
    case (CLink n m)
    then show ?thesis using stub_link_inv [OF inv CLink] by (simp add: consumer_step_def)
  next
    case (CReload n)
    then obtain i where n: "n = consume_end s" "consume_end s = Node i"
      using I(11) by (cases n) (auto simp: pc_ok_def)
    show ?thesis using load_next_inv [OF inv n(2), of CIdle] CReload n(1) by (simp add: consumer_step_def)
  qed
qed

lemma mpsc_reach_inv: "mpsc_reach s \<Longrightarrow> mpsc_inv s"
proof (induction rule: mpsc_reach.induct)
  case init
  show ?case by (simp add: mpsc_inv_def mpsc_new_def unlinked_def items_def pc_ok_def)
qed (simp_all add: push_xchg_inv push_link_inv consumer_step_inv)

section \<open>The consumer alone\<close>

text \<open>With no push in progress one \<^verbatim>\<open>TryPop\<close> hands out the oldest item.\<close>

lemma pop_next:
  assumes inv: "mpsc_inv s" and st: "consume_end s = Node i" and e: "nxt s (Node i) = Some nx"
    and pc: "cpc s \<in> {CIdle, CNext (Node i)}"
  shows "\<exists>v. items s = v # items (consumer_step s) \<and> popped (consumer_step s) = popped s @ [v] \<and>
    cpc (consumer_step s) = CIdle \<and> pending (consumer_step s) = pending s"
proof -
  have e': "nxt s (consume_end s) = Some nx" using e st by simp
  have npc: "\<And>n m. cpc s \<noteq> CLink n m" using pc by auto
  have "consumer_step s = pop_node (consume_end s) nx s"
    using pc e st by (auto simp: consumer_step_def Let_def)
  moreover have "cpc (pop_node (consume_end s) nx s) = CIdle" "pending (pop_node (consume_end s) nx s) = pending s"
    by (simp_all add: pop_node_def st)
  ultimately show ?thesis using pop_node_inv(2,3) [OF inv e' st npc] by metis
qed

lemma pop_last:
  assumes inv: "mpsc_inv s" and st: "chain s = [Node i]" and pc: "cpc s \<in> {CIdle, CNext (Node i)}"
  shows "\<exists>v. let t = (consumer_step ^^ 6) s in items s = v # items t \<and> popped t = popped s @ [v] \<and>
    cpc t = CIdle \<and> pending t = pending s"
proof -
  note I = mpsc_invD [OF inv]
  obtain v where v: "val s i = Some v" using I(9) [of i] st by auto
  have ends: "consume_end s = Node i" "produce_end s = Node i" using I(2,3) st by simp_all
  have e: "nxt s (Node i) = None" using linked_last [OF I(5)] st by simp
  have six: "(6::nat) = Suc (Suc (Suc (Suc (Suc (Suc 0)))))" by simp
  have c: "consumer_step s = s\<lparr>cpc := CCheck (Node i)\<rparr>" using pc ends e by (auto simp: consumer_step_def)
  have "(consumer_step ^^ 6) s = s\<lparr>nxt := (nxt s)(Stub := None, Node i := Some Stub), produce_end := Stub,
      consume_end := Stub, chain := [Stub], cpc := CIdle, popped := popped s @ [v], val := (val s)(i := None)\<rparr>"
    unfolding six funpow_Suc_right comp_def c
    by (simp add: consumer_step_def pop_node_def ends v st Let_def)
  then show ?thesis by (simp add: items_def st v)
qed

lemma quiet_next:
  assumes "mpsc_inv s" and "pending s = []" and "cpc s \<in> {CIdle, CNext (consume_end s)}"
    and "chain s = x # y # r"
  shows "nxt s x = Some y"
proof -
  have "unlinked s = {}" using assms(2,3) by (auto simp: unlinked_def)
  then show ?thesis using mpsc_invD(5) [OF assms(1)] assms(4) by simp
qed

lemma pop_node_first:
  assumes inv: "mpsc_inv s" and q: "pending s = []" and st: "consume_end s = Node i"
    and pc: "cpc s \<in> {CIdle, CNext (Node i)}"
  shows "\<exists>k v. let t = (consumer_step ^^ k) s in items s = v # items t \<and> popped t = popped s @ [v] \<and>
    cpc t = CIdle \<and> pending t = []"
proof -
  note I = mpsc_invD [OF inv]
  obtain ch where ch: "chain s = Node i # ch" using I(1,2) st by (cases "chain s") auto
  show ?thesis
  proof (cases ch)
    case Nil
    then show ?thesis using pop_last [OF inv _ pc] ch q by (metis (no_types, lifting))
  next
    case (Cons y r)
    then have e: "nxt s (Node i) = Some y" using quiet_next [OF inv q] pc st ch by simp
    obtain v where v: "items s = v # items (consumer_step s) \<and> popped (consumer_step s) = popped s @ [v] \<and>
      cpc (consumer_step s) = CIdle \<and> pending (consumer_step s) = pending s"
      using pop_next [OF inv st e pc] by blast
    show ?thesis by (rule exI [of _ 1], rule exI [of _ v]) (use v q in simp)
  qed
qed

lemma quiet_pop:
  assumes inv: "mpsc_inv s" and q: "pending s = []" and pc: "cpc s = CIdle" and it: "items s \<noteq> []"
  shows "\<exists>k v. let t = (consumer_step ^^ k) s in items s = v # items t \<and> popped t = popped s @ [v] \<and>
    cpc t = CIdle \<and> pending t = []"
proof (cases "consume_end s")
  case (Node i)
  then show ?thesis using pop_node_first [OF inv q Node] pc by simp
next
  case Stub
  note I = mpsc_invD [OF inv]
  obtain ch where ch: "chain s = Stub # ch" using I(1,2) Stub by (cases "chain s") auto
  obtain y r where y: "ch = y # r" using it ch by (cases ch) (auto simp: items_def)
  have e: "nxt s Stub = Some y" using quiet_next [OF inv q _ ch [unfolded y]] pc by simp
  let ?s = "consumer_step s"
  have s: "?s = s\<lparr>consume_end := y, chain := tl (chain s), cpc := CNext y\<rparr>"
    using pc Stub e by (simp add: consumer_step_def)
  obtain i where i: "y = Node i" using I(4) ch y by (cases y) auto
  obtain k v where k: "let t = (consumer_step ^^ k) ?s in items ?s = v # items t \<and> popped t = popped ?s @ [v] \<and>
    cpc t = CIdle \<and> pending t = []"
    using pop_node_first [OF consumer_step_inv [OF inv], of i] q i by (auto simp: s)
  have "items ?s = items s" "popped ?s = popped s" by (simp_all add: s items_def ch y)
  then show ?thesis using k
    by (intro exI [of _ "Suc k"] exI [of _ v]) (simp add: funpow_Suc_right del: funpow.simps)
qed

lemma consumer_steps_inv: "mpsc_inv s \<Longrightarrow> mpsc_inv ((consumer_step ^^ k) s)"
  by (induction k) (simp_all add: consumer_step_inv)

lemma consumer_step_pushed: "pushed ((consumer_step ^^ k) s) = pushed s"
  by (induction k) (simp_all add: consumer_step_def pop_node_def Let_def split: consumer_pc.splits option.splits node.splits)

lemma quiet_drain:
  "mpsc_inv s \<Longrightarrow> pending s = [] \<Longrightarrow> cpc s = CIdle \<Longrightarrow>
   \<exists>k. popped ((consumer_step ^^ k) s) = popped s @ items s \<and> items ((consumer_step ^^ k) s) = []"
proof (induction "items s" arbitrary: s)
  case Nil
  then show ?case by (intro exI [of _ 0]) simp
next
  case (Cons a as)
  obtain k v where k: "let t = (consumer_step ^^ k) s in items s = v # items t \<and> popped t = popped s @ [v] \<and>
    cpc t = CIdle \<and> pending t = []"
    using quiet_pop [of s] Cons(2-5) by (metis list.distinct(1))
  let ?t = "(consumer_step ^^ k) s"
  have t: "items s = v # items ?t" "popped ?t = popped s @ [v]" "cpc ?t = CIdle" "pending ?t = []"
    using k by (simp_all add: Let_def)
  have "as = items ?t" using Cons(2) t(1) by simp
  then obtain m where m: "popped ((consumer_step ^^ m) ?t) = popped ?t @ items ?t" "items ((consumer_step ^^ m) ?t) = []"
    using Cons(1) [of ?t] consumer_steps_inv [OF Cons(3)] t(3,4) by blast
  then show ?case using t by (intro exI [of _ "m + k"]) (simp add: funpow_add)
qed

section \<open>Properties\<close>

text \<open>C18: Under every interleaving the items handed out are a prefix of the items pushed, in the order
  of the producers' exchanges: none is lost, duplicated or reordered, also while the stub is recycled.
  Once no push is in progress and the consumer is between calls, draining hands out everything that
  was pushed.\<close>

theorem mpsc_fifo:
  assumes "mpsc_reach s"
  shows "(\<exists>waiting. popped s @ waiting = pushed s) \<and>
    (pending s = [] \<and> cpc s = CIdle \<longrightarrow> (\<exists>k. popped ((consumer_step ^^ k) s) = pushed s))"
proof -
  have inv: "mpsc_inv s" by (rule mpsc_reach_inv [OF assms])
  then have "popped s @ items s = pushed s" by (rule mpsc_invD(10))
  then show ?thesis using quiet_drain [OF inv] by metis
qed

text \<open>Two producers exchange in one order and link in the other.\<close>

definition mpsc_example :: "nat mpsc" where
  "mpsc_example = push_link (Stub, Node 0) (push_link (Node 0, Node 1) (push_xchg 8 (push_xchg 7 mpsc_new)))"

lemma mpsc_example_reach: "mpsc_reach mpsc_example"
  unfolding mpsc_example_def
  by (rule mpsc_reach.link, rule mpsc_reach.link, rule mpsc_reach.xchg, rule mpsc_reach.xchg, rule mpsc_reach.init)
     (simp_all add: push_xchg_def push_link_def mpsc_new_def Let_def)

theorem mpsc_fifo_witness: "\<exists>k. popped ((consumer_step ^^ k) mpsc_example) = [7, 8]"
proof -
  have "pending mpsc_example = [] \<and> cpc mpsc_example = CIdle" "pushed mpsc_example = [7, 8]"
    by (simp_all add: mpsc_example_def push_xchg_def push_link_def mpsc_new_def Let_def)
  then show ?thesis using mpsc_fifo [OF mpsc_example_reach] by simp
qed

text \<open>The nodes the next accesses dereference: those of the outstanding linking stores, and the
  consumer's.\<close>

definition allocated :: "'a mpsc \<Rightarrow> node \<Rightarrow> bool" where
  "allocated s x = (case x of Stub \<Rightarrow> True | Node i \<Rightarrow> val s i \<noteq> None)"

definition consumer_target :: "'a mpsc \<Rightarrow> node" where
  "consumer_target s =
     (case cpc s of CIdle \<Rightarrow> consume_end s | CNext n \<Rightarrow> n | CCheck n \<Rightarrow> n | CReset n \<Rightarrow> Stub
      | CXchg n \<Rightarrow> Stub | CLink n prev \<Rightarrow> prev | CReload n \<Rightarrow> n)"

text \<open>C32: No thread ever touches a freed node: the predecessor into which a producer is about to store
  its link is still allocated although the consumer frees nodes concurrently, and so is every node the
  consumer is about to read or write.\<close>

theorem mpsc_memory_safe:
  assumes "mpsc_reach s"
  shows "(\<forall>(prev, node) \<in> set (pending s). allocated s prev \<and> allocated s node) \<and> allocated s (consumer_target s)"
proof -
  note I = mpsc_invD [OF mpsc_reach_inv [OF assms]]
  have al: "x \<in> set (chain s) \<Longrightarrow> allocated s x" for x
    using I(9) by (cases x) (auto simp: allocated_def)
  have "(a, b) \<in> unlinked s \<Longrightarrow> allocated s a \<and> allocated s b" for a b
    using I(6) adjacent_in al by blast
  moreover have "allocated s (consume_end s)" using I(1,2) al by (metis hd_in_set)
  ultimately show ?thesis using I(11)
    by (auto simp: unlinked_def consumer_target_def pc_ok_def allocated_def split: consumer_pc.splits)
qed

theorem mpsc_memory_safe_witness:
  "allocated (push_xchg 8 mpsc_example) (Node 1) \<and> pending (push_xchg 8 mpsc_example) = [(Node 1, Node 2)]"
proof -
  have p: "pending (push_xchg 8 mpsc_example) = [(Node 1, Node 2)]"
    by (simp add: mpsc_example_def push_xchg_def push_link_def mpsc_new_def Let_def numeral_2_eq_2)
  then show ?thesis using mpsc_memory_safe [OF mpsc_reach.xchg [OF mpsc_example_reach, of 8]] by simp
qed

end
