(* ===== verification/Ring_Buffer.thy ===== *)
theory Ring_Buffer
  imports Prelude
begin

text \<open>
  The provided-buffer ring of a reactor (\<^verbatim>\<open>src/ring/RingBuffer.cpp\<close>, \<^verbatim>\<open>include/servercore/ring/RingBuffer.h\<close>,
  \<^verbatim>\<open>MmapGuard.h\<close>). One mapping holds the kernel's descriptor array followed by the buffers; addresses
  are 64-bit words. The kernel decides whether the mapping and the registration succeed and receives
  buffers through \<^verbatim>\<open>io_uring_buf_ring_add\<close> and \<^verbatim>\<open>io_uring_buf_ring_advance\<close>; these calls are recorded.
\<close>

unbundle bit_operations_syntax

datatype ring_error = KSetupFailed | KSubmissionFailed | KBufferRegistrationFailed

record ring_buffer_config =
  buf_count :: u32
  buf_size :: u32
  group_id :: u16

definition ring_buffer_config_default :: ring_buffer_config where
  "ring_buffer_config_default = \<lparr>buf_count = 1024, buf_size = 8192, group_id = 1\<rparr>"

text \<open>\<^verbatim>\<open>MAP_FAILED\<close> is \<^verbatim>\<open>None\<close>; a guard that owns nothing is \<^verbatim>\<open>None\<close> as well. \<^verbatim>\<open>Reset\<close> returns the region
  to unmap.\<close>

type_synonym mmap_guard = "(u64 \<times> u64) option"

definition MmapGuard :: "u64 option \<Rightarrow> u64 \<Rightarrow> mmap_guard" where
  "MmapGuard p len = (case p of None \<Rightarrow> None | Some a \<Rightarrow> if a = 0 then None else Some (a, len))"

definition mmap_Valid :: "mmap_guard \<Rightarrow> bool" where
  "mmap_Valid g = (g \<noteq> None)"

definition mmap_Reset :: "mmap_guard \<Rightarrow> (u64 \<times> u64) list \<times> mmap_guard" where
  "mmap_Reset g = (case g of None \<Rightarrow> ([], None) | Some r \<Rightarrow> ([r], None))"

text \<open>Move assignment from another guard: the old region is unmapped, the source left empty.\<close>

definition mmap_move :: "mmap_guard \<Rightarrow> mmap_guard \<Rightarrow> (u64 \<times> u64) list \<times> mmap_guard \<times> mmap_guard" where
  "mmap_move g other = (case mmap_Reset g of (unmapped, _) \<Rightarrow> (unmapped, other, None))"

datatype buf_call = BufAdd u64 u32 u16 u32 nat | BufAdvance int

record ring_buffer =
  rb_cfg :: ring_buffer_config
  rb_mmap :: mmap_guard
  rb_shift :: nat
  rb_data_base :: u64
  rb_available :: u32
  rb_calls :: "buf_call list"

definition is_power_of_two :: "u32 \<Rightarrow> bool" where
  "is_power_of_two v = (0 < v \<and> v AND (v - 1) = 0)"

text \<open>\<^verbatim>\<open>std::bit_width\<close>: the number of significant bits.\<close>

fun bit_width :: "nat \<Rightarrow> nat" where
  "bit_width n = (if n = 0 then 0 else Suc (bit_width (n div 2)))"

declare bit_width.simps [simp del]

definition log2u :: "u32 \<Rightarrow> nat" where
  "log2u v = bit_width (unat v) - 1"

definition sizeof_io_uring_buf :: u64 where
  "sizeof_io_uring_buf = 16"

definition meta_size :: "ring_buffer_config \<Rightarrow> u64" where
  "meta_size cfg = sizeof_io_uring_buf * ucast (buf_count cfg)"

definition mapping_size :: "ring_buffer_config \<Rightarrow> u64" where
  "mapping_size cfg = meta_size cfg + ucast (buf_size cfg) * ucast (buf_count cfg)"

definition buf_addr :: "ring_buffer \<Rightarrow> u16 \<Rightarrow> u64" where
  "buf_addr rb buf_id = rb_data_base rb + push_bit (rb_shift rb) (ucast buf_id)"

text \<open>\<^verbatim>\<open>io_uring_buf_ring_mask\<close> is the number of entries less one. The loop counts in 16 bits, up to the
  count cut to 16 bits.\<close>

definition buf_mask :: "ring_buffer_config \<Rightarrow> u32" where
  "buf_mask cfg = buf_count cfg - 1"

definition initial_adds :: "ring_buffer_config \<Rightarrow> u64 \<Rightarrow> nat \<Rightarrow> buf_call list" where
  "initial_adds cfg data_base shift =
     map (\<lambda>i. BufAdd (data_base + push_bit shift (of_nat i)) (buf_size cfg) (of_nat i) (buf_mask cfg) i)
       [0..<unat (ucast (buf_count cfg) :: u16)]"

text \<open>\<^verbatim>\<open>mmap\<close> and \<^verbatim>\<open>register_ok\<close> are the kernel's answers.\<close>

definition rb_Create :: "bool \<Rightarrow> u64 option \<Rightarrow> bool \<Rightarrow> ring_buffer_config \<Rightarrow> ring_error + ring_buffer" where
  "rb_Create ring mmap register_ok cfg =
     (if \<not> ring then Inl KBufferRegistrationFailed
      else if \<not> is_power_of_two (buf_count cfg) \<or> \<not> is_power_of_two (buf_size cfg)
      then Inl KBufferRegistrationFailed
      else
        case MmapGuard mmap (mapping_size cfg) of
          None \<Rightarrow> Inl KBufferRegistrationFailed
        | Some (base, len) \<Rightarrow>
            if \<not> register_ok then Inl KBufferRegistrationFailed
            else
              let shift = log2u (buf_size cfg); data_base = base + meta_size cfg
              in Inr \<lparr>rb_cfg = cfg, rb_mmap = Some (base, len), rb_shift = shift, rb_data_base = data_base,
                      rb_available = buf_count cfg,
                      rb_calls = initial_adds cfg data_base shift @ [BufAdvance (uint (buf_count cfg))]\<rparr>)"

text \<open>A view is an address and a length; an invalid id gives the empty span.\<close>

definition View :: "ring_buffer \<Rightarrow> u16 \<Rightarrow> u32 \<Rightarrow> (u64 \<times> u32) option" where
  "View rb buf_id len =
     (if buf_count (rb_cfg rb) \<le> ucast buf_id then None
      else Some (buf_addr rb buf_id, min len (buf_size (rb_cfg rb))))"

definition Return :: "u16 \<Rightarrow> ring_buffer \<Rightarrow> ring_buffer" where
  "Return buf_id rb =
     (if buf_count (rb_cfg rb) \<le> ucast buf_id then rb
      else rb\<lparr>rb_calls := rb_calls rb @
                [BufAdd (buf_addr rb buf_id) (buf_size (rb_cfg rb)) buf_id (buf_mask (rb_cfg rb)) 0, BufAdvance 1],
              rb_available := rb_available rb + 1\<rparr>)"

section \<open>Powers of two\<close>

lemma and_dec_nat: "0 < n \<Longrightarrow> n AND (n - 1) = (0 :: nat) \<Longrightarrow> \<exists>k. n = 2 ^ k"
proof (induction n rule: less_induct)
  case (less n)
  show ?case
  proof (cases "even n")
    case True
    then obtain m where m: "n = 2 * m" by blast
    then have pos: "0 < m" using less(2) by simp
    obtain p where p: "m = Suc p" using pos by (cases m) auto
    have "2 * Suc p AND (2 * p + 1) = 2 * (Suc p AND p)" by (subst and_rec) simp
    then have "m AND (m - 1) = 0" using less(3) m p by simp
    then obtain k where "m = 2 ^ k" using less(1) [of m] m pos by auto
    then have "n = 2 ^ Suc k" using m by simp
    then show ?thesis by blast
  next
    case False
    then obtain m where m: "n = 2 * m + 1" by (metis oddE)
    have d: "n - 1 = 2 * m" using m by simp
    have "n AND (n - 1) = 2 * m" unfolding d m by (subst and_rec) simp
    then have "n = 2 ^ 0" using less(3) m by simp
    then show ?thesis by blast
  qed
qed

lemma is_power_of_twoD: "is_power_of_two v \<Longrightarrow> \<exists>k < 32. unat v = 2 ^ k"
proof -
  assume p: "is_power_of_two v"
  then have pos: "0 < unat v" by (simp add: is_power_of_two_def word_less_nat_alt)
  have "unat (v - 1) = unat v - 1" using pos by (simp add: unat_sub_le word_le_nat_alt)
  then have "unat v AND (unat v - 1) = unat (v AND (v - 1))" by (simp add: unsigned_and_eq)
  also have "\<dots> = 0" using p by (simp add: is_power_of_two_def)
  finally obtain k where k: "unat v = 2 ^ k" using and_dec_nat [OF pos] by blast
  then have "(2 :: nat) ^ k < 2 ^ 32" using unat_lt32 [of v] by simp
  then have "k < 32" by (rule power_less_imp_less_exp [rotated]) simp
  then show ?thesis using k by blast
qed

lemma bit_width_power: "bit_width (2 ^ k) = Suc k"
proof (induction k)
  case 0
  show ?case by (simp add: bit_width.simps)
next
  case (Suc k)
  then show ?case by (subst bit_width.simps) simp
qed

lemma log2u_power: "unat v = 2 ^ k \<Longrightarrow> log2u v = k"
  by (simp add: log2u_def bit_width_power)

section \<open>Layout\<close>

lemma unat_mult64: "unat (x :: u64) * unat y < 2 ^ 64 \<Longrightarrow> unat (x * y) = unat x * unat y"
  using unat_mult_lem [of x y] by simp

lemma unat_add64: "unat (x :: u64) + unat y < 2 ^ 64 \<Longrightarrow> unat (x + y) = unat x + unat y"
  using unat_add_lem [of x y] by simp

lemma unat_ucast32_64: "unat (ucast (v :: u32) :: u64) = unat v"
  by (rule unat_ucast_up) simp

lemma unat_ucast16_64: "unat (ucast (v :: u16) :: u64) = unat v"
  by (rule unat_ucast_up) simp

lemma unat_ucast16_32: "unat (ucast (v :: u16) :: u32) = unat v"
  by (rule unat_ucast_up) simp

lemma power_of_two_le: "is_power_of_two v \<Longrightarrow> unat v \<le> 2 ^ 31"
proof -
  assume "is_power_of_two v"
  then obtain k where k: "k < 32" "unat v = 2 ^ k" using is_power_of_twoD by blast
  then have "(2 :: nat) ^ k \<le> 2 ^ 31" by (intro power_increasing) simp_all
  then show ?thesis using k by simp
qed

lemma unat_meta_size: "unat (meta_size cfg) = 16 * unat (buf_count cfg)"
  using unat_lt32 [of "buf_count cfg"]
  by (simp add: meta_size_def sizeof_io_uring_buf_def unat_mult64 unat_ucast32_64)

lemma unat_mapping_size:
  assumes "is_power_of_two (buf_count cfg)" and "is_power_of_two (buf_size cfg)"
  shows "unat (mapping_size cfg) = 16 * unat (buf_count cfg) + unat (buf_size cfg) * unat (buf_count cfg)"
proof -
  have c: "unat (buf_count cfg) \<le> 2 ^ 31" and z: "unat (buf_size cfg) \<le> 2 ^ 31"
    using assms power_of_two_le by auto
  have m: "unat (buf_size cfg) * unat (buf_count cfg) \<le> 2 ^ 31 * 2 ^ 31" by (rule mult_le_mono [OF z c])
  then have "unat (ucast (buf_size cfg) * ucast (buf_count cfg) :: u64) = unat (buf_size cfg) * unat (buf_count cfg)"
    by (simp add: unat_mult64 unat_ucast32_64)
  then show ?thesis unfolding mapping_size_def using m c by (subst unat_add64) (simp_all add: unat_meta_size)
qed

text \<open>What a successful \<^verbatim>\<open>Create\<close> establishes.\<close>

lemma rb_CreateD:
  assumes "rb_Create r (Some base) ok cfg = Inr rb"
  shows "is_power_of_two (buf_count cfg)" "is_power_of_two (buf_size cfg)" "rb_cfg rb = cfg"
    "rb_shift rb = log2u (buf_size cfg)" "rb_data_base rb = base + meta_size cfg" "base \<noteq> 0"
    "rb_calls rb = initial_adds cfg (base + meta_size cfg) (log2u (buf_size cfg)) @ [BufAdvance (uint (buf_count cfg))]"
  using assms by (auto simp: rb_Create_def MmapGuard_def Let_def split: if_splits option.splits)

lemma buffer_end:
  assumes "(i :: nat) < c"
  shows "i * z + z \<le> z * c"
proof -
  have "(i + 1) * z \<le> c * z" using assms by (intro mult_le_mono1) simp
  then show ?thesis by (simp add: algebra_simps)
qed

lemma unat_buf_addr:
  assumes c: "rb_Create r (Some base) ok cfg = Inr rb" and fits: "unat base + unat (mapping_size cfg) \<le> 2 ^ 64"
    and i: "unat i < unat (buf_count cfg)"
  shows "unat (buf_addr rb i) = unat base + 16 * unat (buf_count cfg) + unat i * unat (buf_size cfg)"
proof -
  note C = rb_CreateD [OF c]
  obtain k where k: "k < 32" "unat (buf_size cfg) = 2 ^ k" using is_power_of_twoD [OF C(2)] by blast
  have total: "unat base + (16 * unat (buf_count cfg) + unat (buf_size cfg) * unat (buf_count cfg)) \<le> 2 ^ 64"
    using fits unfolding unat_mapping_size [OF C(1,2)] .
  have pos: "0 < unat (buf_size cfg)" using k by simp
  have e: "unat i * unat (buf_size cfg) + unat (buf_size cfg) \<le> unat (buf_size cfg) * unat (buf_count cfg)"
    using buffer_end [OF i] .
  have "unat (base + meta_size cfg) = unat base + 16 * unat (buf_count cfg)"
    using total e pos by (subst unat_add64) (simp_all add: unat_meta_size)
  moreover have "unat (push_bit k (ucast i) :: u64) = unat i * unat (buf_size cfg)"
  proof -
    have lt: "unat i * 2 ^ k < 2 ^ 64" unfolding k(2) [symmetric] using total e pos by linarith
    have "unat ((2 :: u64) ^ k) = 2 ^ k" using k(1) by (simp add: unat_two_power)
    then have "unat (ucast i * 2 ^ k :: u64) = unat (ucast i :: u64) * 2 ^ k"
      using lt by (subst unat_mult64) (simp_all add: unat_ucast16_64)
    then show ?thesis using k(2) by (simp add: push_bit_eq_mult unat_ucast16_64)
  qed
  ultimately show ?thesis unfolding buf_addr_def C(4,5) log2u_power [OF k(2)] using total e pos
    by (subst unat_add64) simp_all
qed

text \<open>Whatever configuration \<^verbatim>\<open>Create\<close> accepts, each view handed out lies inside the data part of the
  mapping and is no longer than a buffer, views of different buffers never overlap, and returning a buffer
  gives the kernel exactly the memory its view shows. (The mapping returned by the kernel does not
  wrap around the address space.)\<close>

theorem ring_buffer_views:
  assumes "rb_Create r (Some base) ok cfg = Inr rb" and "unat base + unat (mapping_size cfg) \<le> 2 ^ 64"
    and "View rb i l = Some (a, n)"
  shows "unat base + unat (meta_size cfg) \<le> unat a \<and> unat a + unat n \<le> unat base + unat (mapping_size cfg) \<and>
    n \<le> buf_size cfg \<and>
    (\<forall>j m b k. i \<noteq> j \<and> View rb j m = Some (b, k) \<longrightarrow> unat a + unat n \<le> unat b \<or> unat b + unat k \<le> unat a) \<and>
    rb_calls (Return i rb) = rb_calls rb @ [BufAdd a (buf_size cfg) i (buf_mask cfg) 0, BufAdvance 1]"
proof -
  note C = rb_CreateD [OF assms(1)]
  let ?z = "unat (buf_size cfg)"
  have v: "unat j < unat (buf_count cfg) \<and> b = buf_addr rb j \<and> unat k \<le> ?z \<and> k \<le> buf_size cfg"
    if "View rb j m = Some (b, k)" for j m b k
    using that C(3) by (auto simp: View_def word_le_nat_alt unat_ucast16_32 min_def split: if_splits)
  note i = v [OF assms(3)]
  have ai: "unat a = unat base + 16 * unat (buf_count cfg) + unat i * ?z"
    using unat_buf_addr [OF assms(1,2)] i by blast
  have "unat i * ?z + ?z \<le> ?z * unat (buf_count cfg)" using buffer_end i by blast
  then have "unat a + unat n \<le> unat base + unat (mapping_size cfg)"
    using ai i unfolding unat_mapping_size [OF C(1,2)] by linarith
  moreover have "unat a + unat n \<le> unat b \<or> unat b + unat k \<le> unat a"
    if ne: "i \<noteq> j" and vj: "View rb j m = Some (b, k)" for j m b k
  proof -
    note j = v [OF vj]
    have bj: "unat b = unat base + 16 * unat (buf_count cfg) + unat j * ?z"
      using unat_buf_addr [OF assms(1,2)] j by blast
    have "unat i \<noteq> unat j" using ne by (simp add: word_unat_eq_iff)
    then have "unat i * ?z + ?z \<le> ?z * unat j \<or> unat j * ?z + ?z \<le> ?z * unat i"
      using buffer_end [of "unat i" "unat j"] buffer_end [of "unat j" "unat i"] by (cases "unat i" "unat j" rule: linorder_cases) auto
    then show ?thesis using ai bj i j by (auto simp: mult.commute)
  qed
  moreover have "rb_calls (Return i rb) = rb_calls rb @ [BufAdd a (buf_size cfg) i (buf_mask cfg) 0, BufAdvance 1]"
    using i C(3) by (simp add: Return_def word_le_nat_alt unat_ucast16_32)
  ultimately show ?thesis using ai i by (auto simp: unat_meta_size)
qed

definition ring_buffer_example :: "ring_error + ring_buffer" where
  "ring_buffer_example = rb_Create True (Some 4096) True \<lparr>buf_count = 4, buf_size = 256, group_id = 1\<rparr>"

theorem ring_buffer_views_witness:
  "\<exists>rb. ring_buffer_example = Inr rb \<and> View rb 2 100 = Some (4672, 100) \<and> View rb 3 900 = Some (4928, 256) \<and>
     unat (4672 :: u64) + unat (100 :: u32) \<le> 4096 + unat (mapping_size (rb_cfg rb))"
proof -
  let ?cfg = "\<lparr>buf_count = 4, buf_size = 256, group_id = 1\<rparr>"
  obtain rb where rb: "rb_Create True (Some 4096) True ?cfg = Inr rb"
    by (simp add: rb_Create_def is_power_of_two_def MmapGuard_def Let_def)
  have sh: "log2u 256 = 8" using log2u_power [of 256 8] by simp
  have views: "View rb 2 100 = Some (4672, 100)" "View rb 3 900 = Some (4928, 256)"
    using rb_CreateD [OF rb] by (simp_all add: View_def buf_addr_def sh meta_size_def sizeof_io_uring_buf_def push_bit_eq_mult min_def)
  have fits: "unat (4096 :: u64) + unat (mapping_size ?cfg) \<le> 2 ^ 64"
    by (simp add: mapping_size_def meta_size_def sizeof_io_uring_buf_def)
  show ?thesis using ring_buffer_views [OF rb fits views(1)] rb views rb_CreateD(3) [OF rb]
    by (auto simp: ring_buffer_example_def)
qed

end
