(* ===== verification/Io_Ring.thy ===== *)
theory Io_Ring
  imports Ring_Buffer "HOL-Library.Multiset"
begin

text \<open>
  The reactor's ring (\<^verbatim>\<open>src/ring/IoRing.cpp\<close>, \<^verbatim>\<open>include/servercore/ring/IoRing.h\<close>, \<^verbatim>\<open>RingEvent.h\<close>,
  \<^verbatim>\<open>EventHandler.h\<close>): preparing submissions, dispatching completions to the owners of events, and handing
  tasks from one ring's thread to another. Pointers are 64-bit words; a heap maps the addresses of task
  objects and of events to their contents. The kernel appears as the environment: it decides when a
  message between rings is delivered and which completions arrive.
\<close>

section \<open>Events\<close>

datatype event_type = KAccept | KRecv | KSend | KConnect | KDisconnect | KCancel | KPoll

text \<open>\<^verbatim>\<open>ev_owner\<close> is what \<^verbatim>\<open>owner_.lock()\<close> yields: nothing once the owner is destroyed.\<close>

record 'o io_event =
  ev_type :: event_type
  ev_owner :: "'o option"
  ev_buffer_id :: u16
  ev_requested_bytes :: u64

definition io_event_new :: "event_type \<Rightarrow> 'o io_event" where
  "io_event_new ty = \<lparr>ev_type = ty, ev_owner = None, ev_buffer_id = 0, ev_requested_bytes = 0\<rparr>"

definition ev_Init :: "'o io_event \<Rightarrow> 'o io_event" where
  "ev_Init ev =
     (case ev_type ev of
        KRecv \<Rightarrow> ev\<lparr>ev_owner := None, ev_buffer_id := 0\<rparr>
      | KSend \<Rightarrow> ev\<lparr>ev_owner := None, ev_requested_bytes := 0\<rparr>
      | _ \<Rightarrow> ev\<lparr>ev_owner := None\<rparr>)"

definition SetOwner :: "'o \<Rightarrow> 'o io_event \<Rightarrow> 'o io_event" where
  "SetOwner o' ev = ev\<lparr>ev_owner := Some o'\<rparr>"

definition SetBufferId :: "u16 \<Rightarrow> 'o io_event \<Rightarrow> 'o io_event" where
  "SetBufferId i ev = ev\<lparr>ev_buffer_id := i\<rparr>"

definition SetRequestedBytes :: "u64 \<Rightarrow> 'o io_event \<Rightarrow> 'o io_event" where
  "SetRequestedBytes n ev = ev\<lparr>ev_requested_bytes := n\<rparr>"

text \<open>The virtual calls an owner can receive; only accept and receive see the flags.\<close>

datatype handler_call = OnAccept u64 int u32 | OnRecv u64 int u32 | OnSend u64 int | OnConnect u64 int
  | OnDisconnect u64 int | OnPoll u64 int

fun handler_Dispatch :: "event_type \<Rightarrow> u64 \<Rightarrow> int \<Rightarrow> u32 \<Rightarrow> handler_call option" where
  "handler_Dispatch KAccept ev result flags = Some (OnAccept ev result flags)"
| "handler_Dispatch KRecv ev result flags = Some (OnRecv ev result flags)"
| "handler_Dispatch KSend ev result flags = Some (OnSend ev result)"
| "handler_Dispatch KConnect ev result flags = Some (OnConnect ev result)"
| "handler_Dispatch KDisconnect ev result flags = Some (OnDisconnect ev result)"
| "handler_Dispatch KPoll ev result flags = Some (OnPoll ev result)"
| "handler_Dispatch KCancel ev result flags = None"

section \<open>State\<close>

datatype sqe_op = OpRecv | OpRecvMultishot | OpSendMsg u64 u32 | OpAcceptMultishot | OpShutdown
  | OpCancel u64 | OpConnect u64 u32 | OpPollAdd u32 | OpPollRemove u64 | OpMsgRing nat u64

text \<open>What the code writes into a submission entry. \<^const>\<open>None\<close> as its data says that it writes none: the
  entry keeps whatever the slot of the queue held.\<close>

record sqe =
  sqe_op :: sqe_op
  sqe_fd :: int
  sqe_buf_group :: "u16 option"
  sqe_skip_success :: bool
  sqe_data :: "u64 option"

record cqe =
  cqe_data :: u64
  cqe_res :: int
  cqe_flags :: u32

text \<open>A ring with its submission and completion queues. \<^verbatim>\<open>rg_running\<close> are the tasks
  \<^verbatim>\<open>ProcessPostedTasks\<close> has taken and not yet run; \<^verbatim>\<open>rg_inflight\<close> the messages submitted to this ring
  that the kernel has not delivered. The last two fields are the history: tasks accepted for and run on
  this ring.\<close>

record 't io_ring =
  rg_open :: bool
  rg_depth :: nat
  rg_group :: u16
  rg_sq :: "sqe list"
  rg_cq :: "cqe list"
  rg_posted :: "'t list"
  rg_running :: "'t list"
  rg_inflight :: "u64 list"
  rg_ran :: "'t list"
  rg_accepted :: "'t list"

definition io_ring_new :: "nat \<Rightarrow> u16 \<Rightarrow> 't io_ring" where
  "io_ring_new depth gid = \<lparr>rg_open = True, rg_depth = depth, rg_group = gid, rg_sq = [], rg_cq = [],
     rg_posted = [], rg_running = [], rg_inflight = [], rg_ran = [], rg_accepted = []\<rparr>"

datatype 'o ring_call = Handled 'o handler_call | FreedTask u64 | FreedEvent u64

text \<open>Besides the calls made, the log shows accesses to a destroyed task or event.\<close>

record ('t, 'o) ring_sys =
  sy_ring :: "nat \<Rightarrow> 't io_ring"
  sy_heap :: "u64 \<rightharpoonup> 't"
  sy_events :: "u64 \<rightharpoonup> 'o io_event"
  sy_log :: "(nat \<times> 'o ring_call) list"

definition upd_ring :: "nat \<Rightarrow> ('t io_ring \<Rightarrow> 't io_ring) \<Rightarrow> ('t, 'o) ring_sys \<Rightarrow> ('t, 'o) ring_sys" where
  "upd_ring r f s = s\<lparr>sy_ring := (sy_ring s)(r := f (sy_ring s r))\<rparr>"

section \<open>Creation\<close>

record ring_config =
  queue_depth :: nat
  buf_ring :: ring_buffer_config
  single_issuer :: bool
  sqpoll :: bool
  sq_thread_idle :: u32
  sq_thread_cpu :: int

definition ring_config_default :: ring_config where
  "ring_config_default = \<lparr>queue_depth = 2048, buf_ring = ring_buffer_config_default, single_issuer = False,
     sqpoll = False, sq_thread_idle = 1000, sq_thread_cpu = -1\<rparr>"

record ring_params =
  p_single_issuer :: bool
  p_sqpoll :: bool
  p_sq_aff :: bool
  p_idle :: u32
  p_cpu :: u32

definition EPERM :: int where
  "EPERM = 1"

definition ring_params_of :: "ring_config \<Rightarrow> ring_params" where
  "ring_params_of cfg =
     \<lparr>p_single_issuer = single_issuer cfg, p_sqpoll = sqpoll cfg,
      p_sq_aff = (sqpoll cfg \<and> 0 \<le> sq_thread_cpu cfg),
      p_idle = (if sqpoll cfg then sq_thread_idle cfg else 0),
      p_cpu = (if sqpoll cfg \<and> 0 \<le> sq_thread_cpu cfg then word_of_int (sq_thread_cpu cfg) else 0)\<rparr>"

text \<open>\<^verbatim>\<open>init\<close> is \<^verbatim>\<open>io_uring_queue_init_params\<close> as a function of the parameters; without permission for the
  polling thread the setup is retried without it. The result says with which parameters the ring runs and
  whether its descriptor was registered.\<close>

definition ring_Create ::
  "bool \<Rightarrow> (ring_params \<Rightarrow> int) \<Rightarrow> u64 option \<Rightarrow> bool \<Rightarrow> ring_config \<Rightarrow>
   ring_error + ('t io_ring \<times> ring_buffer \<times> ring_params \<times> bool)" where
  "ring_Create alloc_ok init mmap register_ok cfg =
     (if \<not> alloc_ok then Inl KSetupFailed
      else
        let params = ring_params_of cfg;
            ret = init params;
            fallback = params\<lparr>p_sqpoll := False, p_sq_aff := False, p_idle := 0, p_cpu := 0\<rparr>;
            (ret', params') =
              (if ret < 0 \<and> sqpoll cfg \<and> ret = - EPERM then (init fallback, fallback) else (ret, params))
        in if ret' < 0 then Inl KSetupFailed
           else
             case rb_Create True mmap register_ok (buf_ring cfg) of
               Inl e \<Rightarrow> Inl KBufferRegistrationFailed
             | Inr br \<Rightarrow>
                 Inr (io_ring_new (queue_depth cfg) (group_id (buf_ring cfg)), br, params',
                      sqpoll cfg \<and> p_sqpoll params'))"

section \<open>Submissions\<close>

text \<open>\<^verbatim>\<open>GetSqe\<close> fails when the submission queue is full; otherwise the entry is filled in.\<close>

definition push_sqe :: "sqe \<Rightarrow> 't io_ring \<Rightarrow> bool \<times> 't io_ring" where
  "push_sqe e r = (if rg_depth r \<le> length (rg_sq r) then (False, r) else (True, r\<lparr>rg_sq := rg_sq r @ [e]\<rparr>))"

definition PrepRecv :: "u64 \<Rightarrow> int \<Rightarrow> 't io_ring \<Rightarrow> bool \<times> 't io_ring" where
  "PrepRecv ev fd r = push_sqe \<lparr>sqe_op = OpRecv, sqe_fd = fd, sqe_buf_group = Some (rg_group r),
     sqe_skip_success = False, sqe_data = Some ev\<rparr> r"

definition PrepRecvMultishot :: "u64 \<Rightarrow> int \<Rightarrow> 't io_ring \<Rightarrow> bool \<times> 't io_ring" where
  "PrepRecvMultishot ev fd r = push_sqe \<lparr>sqe_op = OpRecvMultishot, sqe_fd = fd, sqe_buf_group = Some (rg_group r),
     sqe_skip_success = False, sqe_data = Some ev\<rparr> r"

text \<open>\<^verbatim>\<open>iov\<close> are the lengths of the message's parts; their sum is remembered in the event.\<close>

definition PrepSendMsg :: "u64 \<Rightarrow> 'o io_event \<Rightarrow> int \<Rightarrow> u64 \<Rightarrow> u64 list \<Rightarrow> u32 \<Rightarrow> 't io_ring \<Rightarrow>
    bool \<times> 'o io_event \<times> 't io_ring" where
  "PrepSendMsg evp ev fd msg iov flags r =
     (case push_sqe \<lparr>sqe_op = OpSendMsg msg flags, sqe_fd = fd, sqe_buf_group = None,
             sqe_skip_success = False, sqe_data = Some evp\<rparr> r of
        (False, r') \<Rightarrow> (False, ev, r')
      | (True, r') \<Rightarrow> (True, SetRequestedBytes (sum_list iov) ev, r'))"

definition PrepAcceptMultishot :: "u64 \<Rightarrow> int \<Rightarrow> 't io_ring \<Rightarrow> bool \<times> 't io_ring" where
  "PrepAcceptMultishot ev fd r = push_sqe \<lparr>sqe_op = OpAcceptMultishot, sqe_fd = fd, sqe_buf_group = None,
     sqe_skip_success = False, sqe_data = Some ev\<rparr> r"

definition PrepDisconnect :: "u64 \<Rightarrow> int \<Rightarrow> 't io_ring \<Rightarrow> bool \<times> 't io_ring" where
  "PrepDisconnect ev fd r = push_sqe \<lparr>sqe_op = OpShutdown, sqe_fd = fd, sqe_buf_group = None,
     sqe_skip_success = False, sqe_data = Some ev\<rparr> r"

definition PrepCancel :: "u64 \<Rightarrow> 't io_ring \<Rightarrow> bool \<times> 't io_ring" where
  "PrepCancel target_ev r = push_sqe \<lparr>sqe_op = OpCancel target_ev, sqe_fd = -1, sqe_buf_group = None,
     sqe_skip_success = False, sqe_data = Some 0\<rparr> r"

definition PrepConnect :: "u64 \<Rightarrow> int \<Rightarrow> u64 \<Rightarrow> u32 \<Rightarrow> 't io_ring \<Rightarrow> bool \<times> 't io_ring" where
  "PrepConnect ev fd addr len r = push_sqe \<lparr>sqe_op = OpConnect addr len, sqe_fd = fd, sqe_buf_group = None,
     sqe_skip_success = False, sqe_data = Some ev\<rparr> r"

definition PrepPollAdd :: "u64 \<Rightarrow> int \<Rightarrow> u32 \<Rightarrow> 't io_ring \<Rightarrow> bool \<times> 't io_ring" where
  "PrepPollAdd ev fd poll_mask r = push_sqe \<lparr>sqe_op = OpPollAdd poll_mask, sqe_fd = fd, sqe_buf_group = None,
     sqe_skip_success = False, sqe_data = Some ev\<rparr> r"

definition PrepPollRemove :: "u64 \<Rightarrow> 't io_ring \<Rightarrow> bool \<times> 't io_ring" where
  "PrepPollRemove ev r = push_sqe \<lparr>sqe_op = OpPollRemove ev, sqe_fd = -1, sqe_buf_group = None,
     sqe_skip_success = False, sqe_data = Some 0\<rparr> r"

section \<open>Tasks between rings\<close>

text \<open>\<^verbatim>\<open>Submit\<close>: the kernel takes the entries; a message to another ring is on its way.\<close>

definition take_msg :: "sqe \<Rightarrow> ('t, 'o) ring_sys \<Rightarrow> ('t, 'o) ring_sys" where
  "take_msg e s =
     (case sqe_op e of
        OpMsgRing r d \<Rightarrow> upd_ring r (\<lambda>x. x\<lparr>rg_inflight := rg_inflight x @ [d]\<rparr>) s
      | _ \<Rightarrow> s)"

definition Submit :: "nat \<Rightarrow> ('t, 'o) ring_sys \<Rightarrow> ('t, 'o) ring_sys" where
  "Submit r s = fold take_msg (rg_sq (sy_ring s r)) (upd_ring r (\<lambda>x. x\<lparr>rg_sq := []\<rparr>) s)"

definition Post :: "nat \<Rightarrow> 't \<Rightarrow> ('t, 'o) ring_sys \<Rightarrow> ('t, 'o) ring_sys" where
  "Post r task s = upd_ring r (\<lambda>x. x\<lparr>rg_posted := rg_posted x @ [task], rg_accepted := rg_accepted x @ [task]\<rparr>) s"

text \<open>The message entry of \<^verbatim>\<open>RunOnRing\<close>: \<^verbatim>\<open>user_data\<close> is not set. Its own completion is suppressed on success.\<close>

definition msg_ring :: "nat \<Rightarrow> u64 \<Rightarrow> sqe" where
  "msg_ring target tagged = \<lparr>sqe_op = OpMsgRing target tagged, sqe_fd = int target, sqe_buf_group = None,
     sqe_skip_success = True, sqe_data = None\<rparr>"

text \<open>\<^verbatim>\<open>current\<close> is the calling thread's own ring; \<^verbatim>\<open>alloc\<close> the address the allocator returns for the task
  object, if any; \<^verbatim>\<open>submit_ok\<close> whether \<^verbatim>\<open>io_uring_submit\<close> succeeds.\<close>

definition RunOnRing :: "nat option \<Rightarrow> u64 option \<Rightarrow> bool \<Rightarrow> nat \<Rightarrow> 't \<Rightarrow> ('t, 'o) ring_sys \<Rightarrow>
    bool \<times> ('t, 'o) ring_sys" where
  "RunOnRing current alloc submit_ok target task s =
     (if \<not> rg_open (sy_ring s target) then (False, s)
      else if current = Some target
      then (True, upd_ring target (\<lambda>x. x\<lparr>rg_ran := rg_ran x @ [task], rg_accepted := rg_accepted x @ [task]\<rparr>) s)
      else
        case current of
          None \<Rightarrow> (True, Post target task s)
        | Some c \<Rightarrow>
            if \<not> rg_open (sy_ring s c) then (True, Post target task s)
            else
              case alloc of
                None \<Rightarrow> (False, s)
              | Some p \<Rightarrow>
                  let tagged = p OR 1 in
                  case push_sqe (msg_ring target tagged) (sy_ring s c) of
                    (False, _) \<Rightarrow> (False, s)
                  | (True, src) \<Rightarrow>
                      let s1 = upd_ring c (\<lambda>_. src) s in
                      if submit_ok
                      then (True, upd_ring target (\<lambda>x. x\<lparr>rg_accepted := rg_accepted x @ [task]\<rparr>)
                                    (Submit c (s1\<lparr>sy_heap := (sy_heap s1)(p := Some task)\<rparr>)))
                      else (False, s1\<lparr>sy_heap := (sy_heap s1)(p := None)\<rparr>))"

text \<open>\<^verbatim>\<open>ProcessPostedTasks\<close>: take the batch, then run its tasks one by one.\<close>

definition take_posted :: "nat \<Rightarrow> ('t, 'o) ring_sys \<Rightarrow> ('t, 'o) ring_sys" where
  "take_posted r s = upd_ring r (\<lambda>x. x\<lparr>rg_running := rg_posted x, rg_posted := []\<rparr>) s"

definition run_posted :: "nat \<Rightarrow> ('t, 'o) ring_sys \<Rightarrow> ('t, 'o) ring_sys" where
  "run_posted r s =
     (case rg_running (sy_ring s r) of
        [] \<Rightarrow> s
      | t # ts \<Rightarrow> upd_ring r (\<lambda>x. x\<lparr>rg_running := ts, rg_ran := rg_ran x @ [t]\<rparr>) s)"

section \<open>Dispatch\<close>

text \<open>One completion: a tagged task is run and deleted, an event goes to its owner if that is alive, a null
  pointer is ignored.\<close>

definition dispatch_cqe :: "nat \<Rightarrow> cqe \<Rightarrow> ('t, 'o) ring_sys \<Rightarrow> ('t, 'o) ring_sys" where
  "dispatch_cqe r c s =
     (let data = cqe_data c in
      if data AND 1 \<noteq> 0
      then
        let p = data AND NOT 1 in
        case sy_heap s p of
          None \<Rightarrow> s\<lparr>sy_log := sy_log s @ [(r, FreedTask p)]\<rparr>
        | Some task \<Rightarrow>
            upd_ring r (\<lambda>x. x\<lparr>rg_ran := rg_ran x @ [task]\<rparr>) (s\<lparr>sy_heap := (sy_heap s)(p := None)\<rparr>)
      else if data \<noteq> 0
      then
        case sy_events s data of
          None \<Rightarrow> s\<lparr>sy_log := sy_log s @ [(r, FreedEvent data)]\<rparr>
        | Some ev \<Rightarrow>
            (case (ev_owner ev, handler_Dispatch (ev_type ev) data (cqe_res c) (cqe_flags c)) of
               (Some o', Some call) \<Rightarrow> s\<lparr>sy_log := sy_log s @ [(r, Handled o' call)]\<rparr>
             | _ \<Rightarrow> s)
      else s)"

definition ETIME :: int where
  "ETIME = 62"

definition EINTR :: int where
  "EINTR = 4"

text \<open>\<^verbatim>\<open>Dispatch\<close> with the result of the wait and the number of completions seen ready.\<close>

definition ring_Dispatch :: "int \<Rightarrow> nat \<Rightarrow> nat \<Rightarrow> ('t, 'o) ring_sys \<Rightarrow> bool \<times> ('t, 'o) ring_sys" where
  "ring_Dispatch ret ready r s =
     (if ret < 0 then (ret = - ETIME \<or> ret = - EINTR, s)
      else
        let batch = take ready (rg_cq (sy_ring s r))
        in (True, fold (dispatch_cqe r) batch
                    (upd_ring r (\<lambda>x. x\<lparr>rg_cq := drop (length batch) (rg_cq x)\<rparr>) s)))"

section \<open>Interleavings\<close>

definition tagged :: "u64 \<Rightarrow> bool" where
  "tagged d = (d AND 1 \<noteq> 0)"

definition untag :: "u64 \<Rightarrow> u64" where
  "untag d = d AND NOT 1"

definition is_msg :: "sqe \<Rightarrow> bool" where
  "is_msg e = (case sqe_op e of OpMsgRing _ _ \<Rightarrow> True | _ \<Rightarrow> False)"

text \<open>What the allocator promises: the address of a task object is not in use and aligned.\<close>

definition alloc_ok :: "(u64 \<rightharpoonup> 't) \<Rightarrow> u64 option \<Rightarrow> bool" where
  "alloc_ok h p = (case p of None \<Rightarrow> True | Some a \<Rightarrow> h a = None \<and> \<not> tagged a)"

text \<open>Steps of any thread on any ring, and of the kernel. \<^verbatim>\<open>failing\<close> says whether \<^verbatim>\<open>io_uring_submit\<close> may fail.
  Completions other than messages carry the address of an event (aligned) or null.\<close>

inductive ring_step :: "bool \<Rightarrow> ('t, 'o) ring_sys \<Rightarrow> ('t, 'o) ring_sys \<Rightarrow> bool" for failing where
  run_on: "alloc_ok (sy_heap s) p \<Longrightarrow> ok \<or> failing \<Longrightarrow>
    ring_step failing s (snd (RunOnRing cur p ok target task s))"
| post: "ring_step failing s (Post r task s)"
| submit: "ring_step failing s (Submit r s)"
| prep: "\<not> is_msg e \<Longrightarrow> ring_step failing s (upd_ring r (\<lambda>x. snd (push_sqe e x)) s)"
| deliver: "rg_inflight (sy_ring s r) = d # ds \<Longrightarrow>
    ring_step failing s (upd_ring r (\<lambda>x. x\<lparr>rg_inflight := ds,
      rg_cq := rg_cq x @ [\<lparr>cqe_data = d, cqe_res = 0, cqe_flags = 0\<rparr>]\<rparr>) s)"
| complete: "\<not> tagged (cqe_data c) \<Longrightarrow> ring_step failing s (upd_ring r (\<lambda>x. x\<lparr>rg_cq := rg_cq x @ [c]\<rparr>) s)"
| dispatch: "rg_cq (sy_ring s r) = c # cs \<Longrightarrow>
    ring_step failing s (dispatch_cqe r c (upd_ring r (\<lambda>x. x\<lparr>rg_cq := cs\<rparr>) s))"
| take_batch: "rg_running (sy_ring s r) = [] \<Longrightarrow> ring_step failing s (take_posted r s)"
| run_batch: "ring_step failing s (run_posted r s)"
| events: "ring_step failing s (s\<lparr>sy_events := evs\<rparr>)"

definition ring_sys_new :: "nat \<Rightarrow> ('t, 'o) ring_sys" where
  "ring_sys_new depth = \<lparr>sy_ring = (\<lambda>_. io_ring_new depth 1), sy_heap = (\<lambda>_. None), sy_events = (\<lambda>_. None), sy_log = []\<rparr>"

inductive ring_reach :: "bool \<Rightarrow> nat \<Rightarrow> ('t, 'o) ring_sys \<Rightarrow> bool" for failing depth where
  init: "ring_reach failing depth (ring_sys_new depth)"
| step: "ring_reach failing depth s \<Longrightarrow> ring_step failing s s' \<Longrightarrow> ring_reach failing depth s'"

section \<open>Invariant\<close>

definition pend :: "'t io_ring \<Rightarrow> u64 list" where
  "pend x = map untag (filter tagged (map cqe_data (rg_cq x)) @ rg_inflight x)"

definition ring_ok :: "(u64 \<rightharpoonup> 't) \<Rightarrow> 't io_ring \<Rightarrow> bool" where
  "ring_ok h x =
     ((\<forall>e \<in> set (rg_sq x). \<not> is_msg e) \<and> (\<forall>d \<in> set (rg_inflight x). tagged d) \<and>
      distinct (pend x) \<and> (\<forall>p \<in> set (pend x). h p \<noteq> None) \<and>
      mset (rg_accepted x) = mset (rg_ran x) + mset (rg_running x) + mset (rg_posted x) +
        mset (map (\<lambda>p. the (h p)) (pend x)))"

definition ring_inv :: "('t, 'o) ring_sys \<Rightarrow> bool" where
  "ring_inv s =
     ((\<forall>r. ring_ok (sy_heap s) (sy_ring s r)) \<and>
      (\<forall>r r'. r \<noteq> r' \<longrightarrow> set (pend (sy_ring s r)) \<inter> set (pend (sy_ring s r')) = {}) \<and>
      (\<forall>r p. (r, FreedTask p) \<notin> set (sy_log s)))"

lemma tag_roundtrip: "\<not> tagged p \<Longrightarrow> tagged (p OR 1) \<and> untag (p OR 1) = p"
proof
  assume p: "\<not> tagged p"
  have "bit ((p OR 1) AND 1) 0" by (simp add: bit_simps)
  then show "tagged (p OR 1)" unfolding tagged_def by fastforce
  have b0: "\<not> bit p 0"
  proof
    assume "bit p 0"
    then have "bit (p AND 1) 0" by (simp add: bit_simps)
    then show False using p by (simp add: tagged_def)
  qed
  show "untag (p OR 1) = p"
    unfolding untag_def by (rule bit_eqI) (use b0 in \<open>auto simp: bit_simps intro: gr0I\<close>)
qed

lemma upd_ring_simps [simp]:
  "sy_heap (upd_ring r f s) = sy_heap s" "sy_log (upd_ring r f s) = sy_log s"
  "sy_events (upd_ring r f s) = sy_events s"
  "sy_ring (upd_ring r f s) r' = (if r' = r then f (sy_ring s r) else sy_ring s r')"
  by (simp_all add: upd_ring_def)

text \<open>Changing one ring without touching its pending tasks.\<close>

lemma upd_ring_inv:
  assumes "ring_inv s" and "ring_ok (sy_heap s) (f (sy_ring s r))" and "pend (f (sy_ring s r)) = pend (sy_ring s r)"
  shows "ring_inv (upd_ring r f s)"
  using assms unfolding ring_inv_def by (simp split: if_splits)

lemma ring_ok_heap:
  assumes "ring_ok h x" and "p \<notin> set (pend x)"
  shows "ring_ok (h(p := v)) x"
proof -
  have eq: "map (\<lambda>q. the ((h(p := v)) q)) (pend x) = map (\<lambda>q. the (h q)) (pend x)" using assms(2) by auto
  show ?thesis using assms unfolding ring_ok_def eq by auto
qed

lemma take_msg_skip: "\<not> is_msg e \<Longrightarrow> take_msg e s = s"
  by (auto simp: take_msg_def is_msg_def split: sqe_op.splits)

lemma take_msgs_skip: "\<forall>e \<in> set es. \<not> is_msg e \<Longrightarrow> fold take_msg es s = s"
  by (induction es) (auto simp: take_msg_skip)

lemma ring_invD:
  assumes "ring_inv s"
  shows "ring_ok (sy_heap s) (sy_ring s r)"
    "r \<noteq> r' \<Longrightarrow> set (pend (sy_ring s r)) \<inter> set (pend (sy_ring s r')) = {}"
    "(r, FreedTask p) \<notin> set (sy_log s)"
  using assms unfolding ring_inv_def by blast+

lemma ring_okD:
  assumes "ring_ok h x"
  shows "\<And>e. e \<in> set (rg_sq x) \<Longrightarrow> \<not> is_msg e" "\<And>d. d \<in> set (rg_inflight x) \<Longrightarrow> tagged d" "distinct (pend x)"
    "\<And>p. p \<in> set (pend x) \<Longrightarrow> h p \<noteq> None"
  using assms unfolding ring_ok_def by blast+

lemma Post_inv: "ring_inv s \<Longrightarrow> ring_inv (Post r task s)"
  unfolding Post_def
  by (rule upd_ring_inv) (use ring_invD(1) [of s r] in \<open>auto simp: ring_ok_def pend_def\<close>)

lemma Submit_skip: "ring_ok h (sy_ring s r) \<Longrightarrow> Submit r s = upd_ring r (\<lambda>x. x\<lparr>rg_sq := []\<rparr>) s"
  unfolding Submit_def by (rule take_msgs_skip) (simp add: ring_ok_def)

lemma Submit_inv: "ring_inv s \<Longrightarrow> ring_inv (Submit r s)"
  using ring_invD(1) [of s r]
  by (subst Submit_skip, assumption) (rule upd_ring_inv, auto simp: ring_ok_def pend_def)

lemma Submit_msg:
  assumes "ring_ok h (sy_ring s c)"
  shows "Submit c (upd_ring c (\<lambda>x. x\<lparr>rg_sq := rg_sq x @ [msg_ring r d]\<rparr>) s) =
    upd_ring r (\<lambda>x. x\<lparr>rg_inflight := rg_inflight x @ [d]\<rparr>) (upd_ring c (\<lambda>x. x\<lparr>rg_sq := []\<rparr>) s)"
proof -
  have "fold take_msg (rg_sq (sy_ring s c)) t = t" for t :: "('a, 'b) ring_sys"
    by (rule take_msgs_skip) (use ring_okD(1) [OF assms] in blast)
  then show ?thesis by (simp add: Submit_def take_msg_def msg_ring_def upd_ring_def)
qed

lemma prep_inv: "ring_inv s \<Longrightarrow> \<not> is_msg e \<Longrightarrow> ring_inv (upd_ring r (\<lambda>x. snd (push_sqe e x)) s)"
  by (rule upd_ring_inv) (use ring_invD(1) [of s r] in \<open>auto simp: ring_ok_def pend_def push_sqe_def\<close>)

text \<open>Adding a fresh task object to the messages for a ring.\<close>

lemma ring_ok_add:
  assumes "ring_ok h x" and "h p = None" and "\<not> tagged p"
  shows "ring_ok (h(p := Some task))
    (x\<lparr>rg_inflight := rg_inflight x @ [p OR 1], rg_accepted := rg_accepted x @ [task]\<rparr>)"
proof -
  let ?x = "x\<lparr>rg_inflight := rg_inflight x @ [p OR 1], rg_accepted := rg_accepted x @ [task]\<rparr>"
  have t: "tagged (p OR 1)" "untag (p OR 1) = p" using tag_roundtrip [OF assms(3)] by simp_all
  have pend: "pend ?x = pend x @ [p]" by (simp add: pend_def t)
  have new: "p \<notin> set (pend x)" using ring_okD(4) [OF assms(1)] assms(2) by blast
  then have eq: "map (\<lambda>q. the ((h(p := Some task)) q)) (pend x) = map (\<lambda>q. the (h q)) (pend x)" by auto
  have "mset (rg_accepted x) = mset (rg_ran x) + mset (rg_running x) + mset (rg_posted x) +
      mset (map (\<lambda>q. the ((h(p := Some task)) q)) (pend x))" unfolding eq using assms(1) by (simp add: ring_ok_def)
  then show ?thesis using assms(1) new t unfolding ring_ok_def pend by (auto simp del: mset_map)
qed

lemma run_msg_inv:
  assumes inv: "ring_inv s" and h: "sy_heap s p = None" "\<not> tagged p" and ne: "c \<noteq> r"
  shows "ring_inv (upd_ring r (\<lambda>x. x\<lparr>rg_accepted := rg_accepted x @ [task]\<rparr>)
    (upd_ring r (\<lambda>x. x\<lparr>rg_inflight := rg_inflight x @ [p OR 1]\<rparr>)
      (upd_ring c (\<lambda>x. x\<lparr>rg_sq := []\<rparr>) (s\<lparr>sy_heap := (sy_heap s)(p := Some task)\<rparr>))))"
    (is "ring_inv ?s")
proof -
  have fresh: "p \<notin> set (pend (sy_ring s q))" for q using ring_okD(4) [OF ring_invD(1) [OF inv]] h(1) by blast
  let ?h = "(sy_heap s)(p := Some task)"
  have t: "untag (p OR 1) = p" using tag_roundtrip [OF h(2)] by simp
  have "ring_ok ?h (sy_ring ?s q)" for q
  proof -
    have "q = r \<Longrightarrow> ?thesis" using ring_ok_add [OF ring_invD(1) [OF inv] h] ne by simp
    moreover have "q = c \<Longrightarrow> ?thesis"
      using ring_ok_heap [OF ring_invD(1) [OF inv, of c] fresh] ne by (simp add: ring_ok_def pend_def)
    moreover have "q \<noteq> r \<Longrightarrow> q \<noteq> c \<Longrightarrow> ?thesis" using ring_ok_heap [OF ring_invD(1) [OF inv, of q] fresh] by simp
    ultimately show ?thesis by blast
  qed
  moreover have "pend (sy_ring ?s q) = (if q = r then pend (sy_ring s r) @ [p] else pend (sy_ring s q))" for q
    using ne t by (simp add: pend_def)
  ultimately show ?thesis using ring_invD(2,3) [OF inv] fresh unfolding ring_inv_def by simp
qed

lemma heap_upd_ring: "(upd_ring r f s)\<lparr>sy_heap := h\<rparr> = upd_ring r f (s\<lparr>sy_heap := h\<rparr>)"
  by (simp add: upd_ring_def)

lemma RunOnRing_inv:
  assumes inv: "ring_inv s" and al: "alloc_ok (sy_heap s) p"
  shows "ring_inv (snd (RunOnRing cur p True r task s))"
proof -
  have direct: "ring_inv (upd_ring r (\<lambda>x. x\<lparr>rg_ran := rg_ran x @ [task], rg_accepted := rg_accepted x @ [task]\<rparr>) s)"
    by (rule upd_ring_inv [OF inv]) (use ring_invD(1) [OF inv, of r] in \<open>auto simp: ring_ok_def pend_def\<close>)
  have msg: "ring_inv (upd_ring r (\<lambda>x. x\<lparr>rg_accepted := rg_accepted x @ [task]\<rparr>)
      (Submit c ((upd_ring c (\<lambda>_. (sy_ring s c)\<lparr>rg_sq := rg_sq (sy_ring s c) @ [msg_ring r (a OR 1)]\<rparr>) s)
        \<lparr>sy_heap := (sy_heap s)(a := Some task)\<rparr>)))" if pa: "p = Some a" and ne: "c \<noteq> r" for a c
  proof -
    let ?s = "s\<lparr>sy_heap := (sy_heap s)(a := Some task)\<rparr>"
    have h: "sy_heap s a = None" "\<not> tagged a" using al pa by (simp_all add: alloc_ok_def)
    have "upd_ring c (\<lambda>_. (sy_ring s c)\<lparr>rg_sq := rg_sq (sy_ring s c) @ [msg_ring r (a OR 1)]\<rparr>) s =
      upd_ring c (\<lambda>x. x\<lparr>rg_sq := rg_sq x @ [msg_ring r (a OR 1)]\<rparr>) s" by (simp add: upd_ring_def)
    moreover have "ring_ok (sy_heap s) (sy_ring ?s c)" using ring_invD(1) [OF inv] by simp
    ultimately show ?thesis
      using run_msg_inv [OF inv h ne] Submit_msg [of "sy_heap s" ?s c r "a OR 1"] by (simp only: heap_upd_ring)
  qed
  show ?thesis
    using inv direct Post_inv [OF inv] msg
    by (auto simp: RunOnRing_def push_sqe_def Let_def split: option.splits)
qed

lemma deliver_inv:
  assumes inv: "ring_inv s" and d: "rg_inflight (sy_ring s r) = d # ds"
  shows "ring_inv (upd_ring r (\<lambda>x. x\<lparr>rg_inflight := ds, rg_cq := rg_cq x @ [\<lparr>cqe_data = d, cqe_res = 0, cqe_flags = 0\<rparr>]\<rparr>) s)"
proof -
  have t: "tagged d" using ring_okD(2) [OF ring_invD(1) [OF inv, of r]] d by simp
  then have p: "pend ((sy_ring s r)\<lparr>rg_inflight := ds, rg_cq := rg_cq (sy_ring s r) @ [\<lparr>cqe_data = d, cqe_res = 0, cqe_flags = 0\<rparr>]\<rparr>) =
    pend (sy_ring s r)" using d by (simp add: pend_def)
  show ?thesis
    by (rule upd_ring_inv [OF inv]) (use ring_invD(1) [OF inv, of r] d p in \<open>auto simp: ring_ok_def\<close>)
qed

lemma complete_inv: "ring_inv s \<Longrightarrow> \<not> tagged (cqe_data c) \<Longrightarrow> ring_inv (upd_ring r (\<lambda>x. x\<lparr>rg_cq := rg_cq x @ [c]\<rparr>) s)"
  by (rule upd_ring_inv) (use ring_invD(1) [of s r] in \<open>auto simp: ring_ok_def pend_def\<close>)

lemma log_inv:
  assumes "ring_inv s" and "\<And>r p. (r, FreedTask p) \<notin> set l"
  shows "ring_inv (s\<lparr>sy_log := sy_log s @ l\<rparr>)"
  using assms unfolding ring_inv_def by simp

lemma dispatch_event_inv:
  assumes inv: "ring_inv s" and cq: "rg_cq (sy_ring s r) = c # cs" and t: "\<not> tagged (cqe_data c)"
  shows "ring_inv (dispatch_cqe r c (upd_ring r (\<lambda>x. x\<lparr>rg_cq := cs\<rparr>) s))"
proof -
  have i: "ring_inv (upd_ring r (\<lambda>x. x\<lparr>rg_cq := cs\<rparr>) s)"
    by (rule upd_ring_inv [OF inv]) (use ring_invD(1) [OF inv, of r] cq t in \<open>auto simp: ring_ok_def pend_def\<close>)
  show ?thesis using i log_inv [OF i] t
    by (auto simp: dispatch_cqe_def tagged_def Let_def split: option.splits prod.splits)
qed

lemma dispatch_task_inv:
  assumes inv: "ring_inv s" and cq: "rg_cq (sy_ring s r) = c # cs" and t: "tagged (cqe_data c)"
  shows "ring_inv (dispatch_cqe r c (upd_ring r (\<lambda>x. x\<lparr>rg_cq := cs\<rparr>) s))"
proof -
  let ?p = "untag (cqe_data c)" and ?x = "(sy_ring s r)\<lparr>rg_cq := cs\<rparr>"
  have pend: "pend (sy_ring s r) = ?p # pend ?x" using cq t by (simp add: pend_def)
  note ok = ring_invD(1) [OF inv, of r]
  obtain task where task: "sy_heap s ?p = Some task" using ring_okD(4) [OF ok, of ?p] pend by auto
  let ?h = "(sy_heap s)(?p := None)" and ?y = "?x\<lparr>rg_ran := rg_ran ?x @ [task]\<rparr>"
  let ?s = "dispatch_cqe r c (upd_ring r (\<lambda>x. x\<lparr>rg_cq := cs\<rparr>) s)"
  have s: "?s = upd_ring r (\<lambda>_. ?y) (s\<lparr>sy_heap := ?h\<rparr>)"
    using t task by (simp add: dispatch_cqe_def tagged_def untag_def Let_def upd_ring_def)
  have notin: "?p \<notin> set (pend ?x)" using ring_okD(3) [OF ok] pend by simp
  have eq: "map (\<lambda>q. the (?h q)) (pend ?x) = map (\<lambda>q. the (sy_heap s q)) (pend ?x)" using notin by auto
  have y: "pend ?y = pend ?x" by (simp add: pend_def)
  have "mset (rg_accepted ?y) = mset (rg_ran ?y) + mset (rg_running ?y) + mset (rg_posted ?y) + mset (map (\<lambda>q. the (?h q)) (pend ?y))"
    unfolding y eq using ok pend task by (simp add: ring_ok_def)
  then have "ring_ok ?h ?y" using ok notin unfolding ring_ok_def y pend by (auto simp del: mset_map)
  moreover have "ring_ok ?h (sy_ring s q)" if "q \<noteq> r" for q
    by (rule ring_ok_heap [OF ring_invD(1) [OF inv]]) (use ring_invD(2) [OF inv that] pend in auto)
  moreover have "set (pend ?y) \<subseteq> set (pend (sy_ring s r))" using pend y by auto
  ultimately show ?thesis unfolding s using ring_invD(2,3) [OF inv] unfolding ring_inv_def by simp blast
qed

lemma batch_inv:
  "ring_inv s \<Longrightarrow> rg_running (sy_ring s r) = [] \<Longrightarrow> ring_inv (take_posted r s)"
  "ring_inv s \<Longrightarrow> ring_inv (run_posted r s)"
proof -
  show "ring_inv (take_posted r s)" if "ring_inv s" "rg_running (sy_ring s r) = []"
    unfolding take_posted_def
    by (rule upd_ring_inv) (use ring_invD(1) [of s r] that in \<open>auto simp: ring_ok_def pend_def\<close>)
  show "ring_inv (run_posted r s)" if inv: "ring_inv s"
  proof (cases "rg_running (sy_ring s r)")
    case Nil
    then show ?thesis using inv by (simp add: run_posted_def)
  next
    case (Cons t ts)
    have "ring_inv (upd_ring r (\<lambda>x. x\<lparr>rg_running := ts, rg_ran := rg_ran x @ [t]\<rparr>) s)"
      by (rule upd_ring_inv [OF inv]) (use ring_invD(1) [OF inv, of r] Cons in \<open>auto simp: ring_ok_def pend_def\<close>)
    then show ?thesis by (simp add: run_posted_def Cons)
  qed
qed

lemma ring_step_inv: "ring_step False s s' \<Longrightarrow> ring_inv s \<Longrightarrow> ring_inv s'"
proof (induction rule: ring_step.induct)
  case (run_on s p ok cur target task)
  then show ?case using RunOnRing_inv by fastforce
next
  case (dispatch s r c cs)
  then show ?case using dispatch_event_inv dispatch_task_inv by blast
next
  case (events s evs)
  then show ?case by (simp add: ring_inv_def)
qed (simp_all add: Post_inv Submit_inv prep_inv deliver_inv complete_inv batch_inv)

lemma ring_reach_inv: "ring_reach False depth s \<Longrightarrow> ring_inv s"
proof (induction rule: ring_reach.induct)
  case init
  show ?case by (simp add: ring_inv_def ring_sys_new_def ring_ok_def pend_def io_ring_new_def)
next
  case (step s s')
  then show ?case using ring_step_inv by blast
qed

section \<open>Properties\<close>

lemma Submit_accepted: "rg_accepted (sy_ring (Submit c s) r) = rg_accepted (sy_ring s r)"
proof -
  have "rg_accepted (sy_ring (fold take_msg es t) r) = rg_accepted (sy_ring t r)" for es and t :: "('a, 'b) ring_sys"
    by (induction es arbitrary: t) (simp_all add: take_msg_def split: sqe_op.splits)
  then show ?thesis by (simp add: Submit_def)
qed

lemma RunOnRing_accepts:
  "rg_accepted (sy_ring (snd (RunOnRing cur p ok r task s)) r) =
     rg_accepted (sy_ring s r) @ (if fst (RunOnRing cur p ok r task s) then [task] else [])"
  by (auto simp: RunOnRing_def Post_def push_sqe_def Let_def Submit_accepted split: option.splits)

text \<open>C31: Tasks handed to a ring run exactly once on that ring: \<^verbatim>\<open>RunOnRing\<close> accepts a task exactly when it
  returns true, in every reachable state what ran is contained in what was accepted, and once the ring has
  nothing posted, in flight or to dispatch, all of it has run. No deleted task is ever called. (Provided
  \<^verbatim>\<open>io_uring_submit\<close> does not fail.)\<close>

theorem ring_tasks_exactly_once:
  assumes "ring_reach False depth s"
  shows "mset (rg_ran (sy_ring s r)) \<subseteq># mset (rg_accepted (sy_ring s r)) \<and>
    (rg_running (sy_ring s r) = [] \<and> rg_posted (sy_ring s r) = [] \<and> rg_cq (sy_ring s r) = [] \<and>
       rg_inflight (sy_ring s r) = [] \<longrightarrow> mset (rg_ran (sy_ring s r)) = mset (rg_accepted (sy_ring s r))) \<and>
    rg_accepted (sy_ring (snd (RunOnRing cur p ok r task s)) r) =
      rg_accepted (sy_ring s r) @ (if fst (RunOnRing cur p ok r task s) then [task] else []) \<and>
    (q, FreedTask a) \<notin> set (sy_log s)"
proof -
  have inv: "ring_inv s" by (rule ring_reach_inv [OF assms])
  have "mset (rg_accepted (sy_ring s r)) = mset (rg_ran (sy_ring s r)) + mset (rg_running (sy_ring s r)) +
      mset (rg_posted (sy_ring s r)) + mset (map (\<lambda>p. the (sy_heap s p)) (pend (sy_ring s r)))"
    using ring_invD(1) [OF inv, of r] by (simp add: ring_ok_def)
  moreover have "rg_cq (sy_ring s r) = [] \<and> rg_inflight (sy_ring s r) = [] \<Longrightarrow> pend (sy_ring s r) = []"
    by (simp add: pend_def)
  ultimately show ?thesis using ring_invD(3) [OF inv] RunOnRing_accepts [of cur p ok r task s] by auto
qed

text \<open>Ring 0 sends a task to ring 1, which dispatches it.\<close>

definition sent_example :: "(string, nat) ring_sys" where
  "sent_example = snd (RunOnRing (Some 0) (Some 16) True 1 ''t'' (ring_sys_new 8))"

definition delivered_example :: "(string, nat) ring_sys" where
  "delivered_example = upd_ring 1 (\<lambda>x. x\<lparr>rg_inflight := [], rg_cq := rg_cq x @ [\<lparr>cqe_data = 17, cqe_res = 0, cqe_flags = 0\<rparr>]\<rparr>) sent_example"

lemma delivered_example_reach: "ring_reach False 8 delivered_example"
proof -
  have "ring_step False (ring_sys_new 8) sent_example"
    unfolding sent_example_def by (rule ring_step.run_on) (simp_all add: alloc_ok_def tagged_def ring_sys_new_def)
  then have "ring_reach False 8 sent_example" using ring_reach.init ring_reach.step by blast
  moreover have "rg_inflight (sy_ring sent_example 1) = 17 # []"
    by (simp add: sent_example_def RunOnRing_def ring_sys_new_def io_ring_new_def push_sqe_def Submit_def take_msg_def msg_ring_def Let_def)
  then have "ring_step False sent_example delivered_example"
    unfolding delivered_example_def by (rule ring_step.deliver)
  ultimately show ?thesis by (rule ring_reach.step)
qed

theorem ring_tasks_exactly_once_witness:
  "mset (rg_ran (sy_ring (dispatch_cqe 1 \<lparr>cqe_data = 17, cqe_res = 0, cqe_flags = 0\<rparr>
     (upd_ring 1 (\<lambda>x. x\<lparr>rg_cq := []\<rparr>) delivered_example)) 1)) = {# ''t'' #}"
proof -
  let ?s = "dispatch_cqe 1 \<lparr>cqe_data = 17, cqe_res = 0, cqe_flags = 0\<rparr> (upd_ring 1 (\<lambda>x. x\<lparr>rg_cq := []\<rparr>) delivered_example)"
  note defs = delivered_example_def sent_example_def RunOnRing_def ring_sys_new_def io_ring_new_def push_sqe_def
    Submit_def take_msg_def msg_ring_def Let_def dispatch_cqe_def
  have "rg_cq (sy_ring delivered_example 1) = \<lparr>cqe_data = 17, cqe_res = 0, cqe_flags = 0\<rparr> # []" by (simp add: defs)
  then have "ring_step False delivered_example ?s" by (rule ring_step.dispatch)
  then have r: "ring_reach False 8 ?s" using delivered_example_reach ring_reach.step by blast
  have "rg_running (sy_ring ?s 1) = [] \<and> rg_posted (sy_ring ?s 1) = [] \<and> rg_cq (sy_ring ?s 1) = [] \<and>
    rg_inflight (sy_ring ?s 1) = []" "rg_accepted (sy_ring ?s 1) = [''t'']" by (simp_all add: defs)
  then show ?thesis using ring_tasks_exactly_once [OF r, where r = 1] by simp
qed

text \<open>When \<^verbatim>\<open>io_uring_submit\<close> fails, \<^verbatim>\<open>RunOnRing\<close> reports failure and deletes the task, but the prepared
  entry stays in the submission queue: the next submit sends the dangling pointer, and the target ring
  calls the deleted task.\<close>

theorem failed_submit_use_after_free:
  "\<exists>s :: (string, nat) ring_sys. fst (RunOnRing (Some 0) (Some 16) False 1 ''t'' (ring_sys_new 8 :: (string, nat) ring_sys)) = False \<and>
     ring_reach True 8 s \<and> (1, FreedTask 16) \<in> set (sy_log s)"
proof -
  note defs = RunOnRing_def ring_sys_new_def io_ring_new_def push_sqe_def Submit_def take_msg_def msg_ring_def
    Let_def dispatch_cqe_def upd_ring_def
  let ?c = "\<lparr>cqe_data = 17, cqe_res = 0, cqe_flags = 0\<rparr>"
  define a :: "(string, nat) ring_sys" where "a = snd (RunOnRing (Some 0) (Some 16) False 1 ''t'' (ring_sys_new 8))"
  define b where "b = Submit 0 a"
  define c where "c = upd_ring 1 (\<lambda>x. x\<lparr>rg_inflight := [], rg_cq := rg_cq x @ [?c]\<rparr>) b"
  define d where "d = dispatch_cqe 1 ?c (upd_ring 1 (\<lambda>x. x\<lparr>rg_cq := []\<rparr>) c)"
  have "ring_step True (ring_sys_new 8) a" unfolding a_def
    by (rule ring_step.run_on) (simp_all add: alloc_ok_def tagged_def ring_sys_new_def)
  moreover have "ring_step True a b" unfolding b_def by (rule ring_step.submit)
  moreover have "rg_inflight (sy_ring b 1) = 17 # []" by (simp add: b_def a_def defs)
  then have "ring_step True b c" unfolding c_def by (rule ring_step.deliver)
  moreover have "rg_cq (sy_ring c 1) = ?c # []" by (simp add: c_def b_def a_def defs)
  then have "ring_step True c d" unfolding d_def by (rule ring_step.dispatch)
  ultimately have "ring_reach True 8 d" by (metis ring_reach.init ring_reach.step)
  moreover have "(1, FreedTask 16) \<in> set (sy_log d)" by (simp add: d_def c_def b_def a_def defs)
  moreover have "\<not> fst (RunOnRing (Some 0) (Some 16) False 1 ''t'' (ring_sys_new 8 :: (string, nat) ring_sys))" by (simp add: defs)
  ultimately show ?thesis by blast
qed

end
