(* ===== verification/Listener_IO.thy ===== *)
theory Listener_IO
  imports Io_Ring Session_IO
begin

text \<open>
  Accepting connections (\<^verbatim>\<open>src/io/Listener.cpp\<close>, \<^verbatim>\<open>include/servercore/io/Listener.h\<close>, \<^verbatim>\<open>SocketHandle.h\<close>).
  The answers of the socket calls are arguments; descriptors that the code closes are recorded.
\<close>

section \<open>Socket handles\<close>

text \<open>A handle is its descriptor, \<^verbatim>\<open>-1\<close> when it owns none. Operations return the descriptors closed.\<close>

type_synonym socket_handle = int

definition sh_Valid :: "socket_handle \<Rightarrow> bool" where
  "sh_Valid h = (0 \<le> h)"

definition sh_Release :: "socket_handle \<Rightarrow> int \<times> socket_handle" where
  "sh_Release h = (h, -1)"

definition sh_Reset :: "int \<Rightarrow> socket_handle \<Rightarrow> int list \<times> socket_handle" where
  "sh_Reset new_fd h = (if 0 \<le> h then [h] else [], new_fd)"

definition sh_move :: "socket_handle \<Rightarrow> socket_handle \<Rightarrow> int list \<times> socket_handle \<times> socket_handle" where
  "sh_move h other = (if 0 \<le> h then [h] else [], other, -1)"

section \<open>The listener\<close>

text \<open>\<^verbatim>\<open>socket_fd\<close>, \<^verbatim>\<open>bind_ok\<close> and \<^verbatim>\<open>listen_ok\<close> are the results of the calls; the second component lists
  the descriptors closed.\<close>

definition CreateListenSocket :: "int \<Rightarrow> bool \<Rightarrow> bool \<Rightarrow> int \<times> int list" where
  "CreateListenSocket socket_fd bind_ok listen_ok =
     (if socket_fd < 0 then (-1, [])
      else if \<not> bind_ok then (-1, [socket_fd])
      else if \<not> listen_ok then (-1, [socket_fd])
      else (socket_fd, []))"

text \<open>\<^verbatim>\<open>ls_count_fn\<close> is the session counter, if one was set; \<^verbatim>\<open>ls_accept_ev\<close> the address of the accept event.
  \<^verbatim>\<open>ls_sessions\<close> are the descriptors handed to sessions, \<^verbatim>\<open>ls_closed\<close> those closed.\<close>

record 't listener =
  ls_ring :: "'t io_ring"
  ls_fd :: socket_handle
  ls_accept_ev :: u64
  ls_owner_set :: bool
  ls_max_sessions :: u32
  ls_count_fn :: "(int list \<Rightarrow> nat) option"
  ls_sessions :: "int list"
  ls_closed :: "int list"

definition listener_new :: "'t io_ring \<Rightarrow> u64 \<Rightarrow> u32 \<Rightarrow> 't listener" where
  "listener_new ring ev max_sessions =
     \<lparr>ls_ring = ring, ls_fd = -1, ls_accept_ev = ev, ls_owner_set = False, ls_max_sessions = max_sessions,
      ls_count_fn = None, ls_sessions = [], ls_closed = []\<rparr>"

definition SetSessionCountFn :: "(int list \<Rightarrow> nat) \<Rightarrow> 't listener \<Rightarrow> 't listener" where
  "SetSessionCountFn fn l = l\<lparr>ls_count_fn := Some fn\<rparr>"

definition register_accept :: "'t listener \<Rightarrow> bool \<times> 't listener" where
  "register_accept l =
     (case PrepAcceptMultishot (ls_accept_ev l) (ls_fd l) (ls_ring l) of (b, r) \<Rightarrow> (b, l\<lparr>ls_ring := r\<rparr>))"

definition listener_Start :: "int \<Rightarrow> bool \<Rightarrow> bool \<Rightarrow> 't listener \<Rightarrow> (io_error + unit) \<times> 't listener" where
  "listener_Start socket_fd bind_ok listen_ok l =
     (case CreateListenSocket socket_fd bind_ok listen_ok of
        (fd, closed) \<Rightarrow>
          if fd < 0 then (Inl KBindFailed, l\<lparr>ls_closed := ls_closed l @ closed\<rparr>)
          else
            case sh_Reset fd (ls_fd l) of
              (old, h) \<Rightarrow>
                (case register_accept (l\<lparr>ls_fd := h, ls_owner_set := True, ls_closed := ls_closed l @ old\<rparr>) of
                   (False, l') \<Rightarrow> (Inl KListenFailed, l')
                 | (True, l') \<Rightarrow> (Inr (), l')))"

definition listener_Stop :: "'t listener \<Rightarrow> 't listener" where
  "listener_Stop l = (case sh_Reset (-1) (ls_fd l) of (old, h) \<Rightarrow> l\<lparr>ls_fd := h, ls_closed := ls_closed l @ old\<rparr>)"

text \<open>\<^verbatim>\<open>OnAccept(int)\<close>; \<^verbatim>\<open>factory\<close> says whether a session is made for the descriptor.\<close>

definition OnAccept_fd :: "(int \<Rightarrow> bool) \<Rightarrow> int \<Rightarrow> 't listener \<Rightarrow> 't listener" where
  "OnAccept_fd factory client_fd l =
     (if 0 < ls_max_sessions l \<and>
         (case ls_count_fn l of None \<Rightarrow> False | Some f \<Rightarrow> unat (ls_max_sessions l) \<le> f (ls_sessions l))
      then l\<lparr>ls_closed := ls_closed l @ [client_fd]\<rparr>
      else if factory client_fd then l\<lparr>ls_sessions := ls_sessions l @ [client_fd]\<rparr>
      else l\<lparr>ls_closed := ls_closed l @ [client_fd]\<rparr>)"

definition IORING_CQE_F_MORE :: u32 where
  "IORING_CQE_F_MORE = 2"

definition OnAccept_cqe :: "(int \<Rightarrow> bool) \<Rightarrow> int \<Rightarrow> u32 \<Rightarrow> 't listener \<Rightarrow> 't listener" where
  "OnAccept_cqe factory result flags l =
     (if result < 0
      then if sh_Valid (ls_fd l) then snd (register_accept l) else l
      else
        let l' = OnAccept_fd factory result l
        in if flags AND IORING_CQE_F_MORE = 0 \<and> sh_Valid (ls_fd l') then snd (register_accept l') else l')"

section \<open>Lemmas\<close>

definition accepts :: "(int \<Rightarrow> bool) \<Rightarrow> (int \<times> u32) list \<Rightarrow> 't listener \<Rightarrow> 't listener" where
  "accepts factory = fold (\<lambda>(result, flags). OnAccept_cqe factory result flags)"

lemma register_accept_keeps [simp]:
  "ls_sessions (snd (register_accept l)) = ls_sessions l" "ls_closed (snd (register_accept l)) = ls_closed l"
  "ls_max_sessions (snd (register_accept l)) = ls_max_sessions l" "ls_count_fn (snd (register_accept l)) = ls_count_fn l"
  "ls_fd (snd (register_accept l)) = ls_fd l"
  by (simp_all add: register_accept_def split_beta)

text \<open>Each accepted descriptor is owned by a session or closed, exactly once.\<close>

lemma accepts_conserve:
  "mset (ls_sessions (accepts factory cqes l)) + mset (ls_closed (accepts factory cqes l)) =
   mset (ls_sessions l) + mset (ls_closed l) + mset (filter (\<lambda>r. 0 \<le> r) (map fst cqes))"
proof (induction cqes arbitrary: l)
  case (Cons c cqes)
  obtain result flags where c: "c = (result, flags)" by (cases c)
  have "mset (ls_sessions (OnAccept_cqe factory result flags l)) + mset (ls_closed (OnAccept_cqe factory result flags l)) =
    mset (ls_sessions l) + mset (ls_closed l) + (if 0 \<le> result then {#result#} else {#})"
    by (simp add: OnAccept_cqe_def OnAccept_fd_def Let_def)
  then show ?case using Cons [of "OnAccept_cqe factory result flags l"] by (simp add: accepts_def c)
qed (simp add: accepts_def)

text \<open>With a counter of the open sessions, the limit is never exceeded.\<close>

lemma accepts_bounded:
  assumes "ls_count_fn l = Some length" and "0 < ls_max_sessions l"
    and "length (ls_sessions l) \<le> unat (ls_max_sessions l)"
  shows "length (ls_sessions (accepts factory cqes l)) \<le> unat (ls_max_sessions l)"
  using assms
proof (induction cqes arbitrary: l)
  case (Cons c cqes)
  obtain result flags where c: "c = (result, flags)" by (cases c)
  let ?l = "OnAccept_cqe factory result flags l"
  have "ls_count_fn ?l = ls_count_fn l" "ls_max_sessions ?l = ls_max_sessions l"
    by (simp_all add: OnAccept_cqe_def OnAccept_fd_def Let_def)
  moreover have "length (ls_sessions ?l) \<le> unat (ls_max_sessions l)"
    using Cons(2-4) by (simp add: OnAccept_cqe_def OnAccept_fd_def Let_def)
  ultimately show ?case using Cons(1) [of ?l] Cons(2,3) by (simp add: accepts_def c)
qed (simp add: accepts_def)

end
