(* ===== verification/Base64.thy ===== *)
theory Base64
  imports Text_Lib
begin

text \<open>
  The two base64 encoders and the decoder (\<^verbatim>\<open>src/web/auth/JwtCodec.cpp\<close>, \<^verbatim>\<open>src/web/ws/WsHandshake.cpp\<close>).
  The accumulator is the source's 32-bit word.
\<close>

unbundle bit_operations_syntax

section \<open>Encoding\<close>

definition b64_table :: string where
  "b64_table = ''ABCDEFGHIJKLMNOPQRSTUVWXYZabcdefghijklmnopqrstuvwxyz0123456789+/''"

text \<open>\<^verbatim>\<open>table[(n >> shift) & 0x3F]\<close>.\<close>

definition b64_char :: "u32 \<Rightarrow> nat \<Rightarrow> char" where
  "b64_char n shift = b64_table ! unat (drop_bit shift n AND 0x3F)"

text \<open>The word of a group: missing bytes count as zero.\<close>

definition b64_word :: "u8 \<Rightarrow> u8 option \<Rightarrow> u8 option \<Rightarrow> u32" where
  "b64_word a b c =
     (let n = push_bit 16 (ucast a);
          n = (case b of None \<Rightarrow> n | Some x \<Rightarrow> n OR push_bit 8 (ucast x))
      in case c of None \<Rightarrow> n | Some x \<Rightarrow> n OR ucast x)"

text \<open>The loop of \<^verbatim>\<open>Base64UrlEncode\<close>: groups of three bytes, the last one without padding.\<close>

fun b64_loop :: "bytes \<Rightarrow> string" where
  "b64_loop [] = []"
| "b64_loop [a] = (let n = b64_word a None None in [b64_char n 18, b64_char n 12])"
| "b64_loop [a, b] = (let n = b64_word a (Some b) None in [b64_char n 18, b64_char n 12, b64_char n 6])"
| "b64_loop (a # b # c # data) =
     (let n = b64_word a (Some b) (Some c)
      in b64_char n 18 # b64_char n 12 # b64_char n 6 # b64_char n 0 # b64_loop data)"

definition replace_char :: "char \<Rightarrow> char \<Rightarrow> string \<Rightarrow> string" where
  "replace_char old new s = map (\<lambda>c. if c = old then new else c) s"

definition Base64UrlEncode :: "bytes \<Rightarrow> string" where
  "Base64UrlEncode data = replace_char (CHR ''/'') (CHR ''_'') (replace_char (CHR ''+'') (CHR ''-'') (b64_loop data))"

text \<open>The loop of \<^verbatim>\<open>ComputeAcceptKey\<close>: standard alphabet, padded.\<close>

fun b64_std :: "bytes \<Rightarrow> string" where
  "b64_std [] = []"
| "b64_std [a] = (let n = b64_word a None None in [b64_char n 18, b64_char n 12, CHR ''='', CHR ''=''])"
| "b64_std [a, b] = (let n = b64_word a (Some b) None in [b64_char n 18, b64_char n 12, b64_char n 6, CHR ''=''])"
| "b64_std (a # b # c # data) =
     (let n = b64_word a (Some b) (Some c)
      in b64_char n 18 # b64_char n 12 # b64_char n 6 # b64_char n 0 # b64_std data)"

section \<open>Decoding\<close>

definition b64_dt :: "int list" where
  "b64_dt = [
     -1,-1,-1,-1,-1,-1,-1,-1,-1,-1,-1,-1,-1,-1,-1,-1,
     -1,-1,-1,-1,-1,-1,-1,-1,-1,-1,-1,-1,-1,-1,-1,-1,
     -1,-1,-1,-1,-1,-1,-1,-1,-1,-1,-1,62,-1,-1,-1,63,
     52,53,54,55,56,57,58,59,60,61,-1,-1,-1,-1,-1,-1,
     -1, 0, 1, 2, 3, 4, 5, 6, 7, 8, 9,10,11,12,13,14,
     15,16,17,18,19,20,21,22,23,24,25,-1,-1,-1,-1,-1,
     -1,26,27,28,29,30,31,32,33,34,35,36,37,38,39,40,
     41,42,43,44,45,46,47,48,49,50,51,-1,-1,-1,-1,-1]"

text \<open>One character of a group: padding is counted, an invalid character ends the decoding.\<close>

definition b64_digit :: "char \<Rightarrow> u32 \<times> nat \<Rightarrow> (u32 \<times> nat) option" where
  "b64_digit c np =
     (case np of (n, pad) \<Rightarrow>
        if c = CHR ''='' then Some (n, pad + 1)
        else if 128 \<le> (of_char c :: nat) \<or> b64_dt ! of_char c < 0 then None
        else Some (push_bit 6 n OR word_of_int (b64_dt ! of_char c), pad))"

fun b64_group :: "string \<Rightarrow> u32 \<times> nat \<Rightarrow> (u32 \<times> nat) option" where
  "b64_group [] np = Some np"
| "b64_group (c # cs) np = (case b64_digit c np of None \<Rightarrow> None | Some np' \<Rightarrow> b64_group cs np')"

definition b64_emit :: "u32 \<times> nat \<Rightarrow> bytes" where
  "b64_emit np =
     (case np of (n, pad) \<Rightarrow>
        let n = push_bit (pad * 6) n
        in [ucast (drop_bit 16 n AND 0xFF)] @ (if pad < 2 then [ucast (drop_bit 8 n AND 0xFF)] else []) @
           (if pad < 1 then [ucast (n AND 0xFF)] else []))"

fun b64_decode :: "string \<Rightarrow> bytes option" where
  "b64_decode (c0 # c1 # c2 # c3 # rest) =
     (case b64_group [c0, c1, c2, c3] (0, 0) of
        None \<Rightarrow> None
      | Some np \<Rightarrow> (case b64_decode rest of None \<Rightarrow> None | Some r \<Rightarrow> Some (b64_emit np @ r)))"
| "b64_decode _ = Some []"

text \<open>\<^verbatim>\<open>while (b64.size() % 4 != 0) b64.push_back('=')\<close>.\<close>

definition b64_pad :: "string \<Rightarrow> string" where
  "b64_pad s = s @ replicate ((4 - length s mod 4) mod 4) (CHR ''='')"

definition Base64UrlDecode :: "string \<Rightarrow> bytes" where
  "Base64UrlDecode encoded =
     (case b64_decode (b64_pad (replace_char (CHR ''_'') (CHR ''/'') (replace_char (CHR ''-'') (CHR ''+'') encoded))) of
        None \<Rightarrow> []
      | Some r \<Rightarrow> r)"

section \<open>Round trip\<close>

lemma b64_table_dt:
  "list_all (\<lambda>i. b64_table ! i \<noteq> CHR ''='' \<and> b64_table ! i \<noteq> CHR ''-'' \<and> b64_table ! i \<noteq> CHR ''_'' \<and>
     b64_table ! i \<noteq> CHR ''.'' \<and> (of_char (b64_table ! i) :: nat) < 128 \<and>
     b64_dt ! of_char (b64_table ! i) = int i) [0..<64]"
  by code_simp

lemma b64_table_nth:
  assumes "i < 64"
  shows "b64_table ! i \<noteq> CHR ''=''" "b64_table ! i \<noteq> CHR ''-''" "b64_table ! i \<noteq> CHR ''_''"
    "b64_table ! i \<noteq> CHR ''.''" "(of_char (b64_table ! i) :: nat) < 128" "b64_dt ! of_char (b64_table ! i) = int i"
  using b64_table_dt assms unfolding list_all_iff by auto

lemma sextet_lt: "unat (x AND 0x3F :: u32) < 64"
proof -
  have "x AND 0x3F = take_bit 6 x" by (simp add: take_bit_eq_mask mask_eq_exp_minus_1)
  then have "unat (x AND 0x3F) = take_bit 6 (unat x)" by (simp add: unsigned_take_bit_eq)
  then show ?thesis using take_bit_nat_less_exp [of 6 "unat x"] by simp
qed

lemma b64_char_digit:
  "b64_digit (b64_char n shift) (m, pad) = Some (push_bit 6 m OR take_bit 6 (drop_bit shift n), pad)"
proof -
  let ?x = "drop_bit shift n AND 0x3F"
  have t: "?x = take_bit 6 (drop_bit shift n)" by (simp add: take_bit_eq_mask mask_eq_exp_minus_1)
  note nth = b64_table_nth [OF sextet_lt [of "drop_bit shift n"]]
  have "word_of_int (int (unat ?x)) = ?x" by simp
  then show ?thesis using nth by (simp add: b64_digit_def b64_char_def t)
qed

lemma b64_char_neq [simp]:
  "b64_char n k \<noteq> CHR ''=''" "b64_char n k \<noteq> CHR ''-''" "b64_char n k \<noteq> CHR ''_''" "b64_char n k \<noteq> CHR ''.''"
  using b64_table_nth [OF sextet_lt [of "drop_bit k n"]] by (simp_all add: b64_char_def)

text \<open>Shifting a sextet back in restores the bits above it.\<close>

lemma sextet_join: "push_bit 6 (drop_bit (k + 6) n) OR take_bit 6 (drop_bit k n) = (drop_bit k n :: u32)"
proof -
  have "push_bit 6 (drop_bit 6 m) OR take_bit 6 m = m" for m :: u32
    by (rule bit_eqI) (auto simp: bit_simps)
  from this [of "drop_bit k n"] show ?thesis by (simp add: drop_bit_drop_bit add.commute)
qed

lemma byte_bit: "bit (x :: u8) k \<Longrightarrow> k < 8"
  using bit_imp_le_length [of x k] by simp

lemma word_top: "k \<ge> 24 \<Longrightarrow> \<not> bit (b64_word a b c) k"
  by (auto simp: b64_word_def bit_simps Let_def split: option.splits dest: byte_bit)

lemma first_sextet: "take_bit 6 (drop_bit 18 (b64_word a b c)) = drop_bit 18 (b64_word a b c)"
proof (rule bit_eqI)
  fix k
  show "bit (take_bit 6 (drop_bit 18 (b64_word a b c))) k = bit (drop_bit 18 (b64_word a b c)) k"
    using word_top [of "18 + k" a b c] by (cases "k < 6") (auto simp: bit_simps)
qed

lemma join18: "push_bit 6 (drop_bit 18 n) OR take_bit 6 (drop_bit 12 n) = (drop_bit 12 n :: u32)"
  using sextet_join [of 12 n] by simp

lemma join12: "push_bit 6 (drop_bit 12 n) OR take_bit 6 (drop_bit 6 n) = (drop_bit 6 n :: u32)"
  using sextet_join [of 6 n] by simp

lemma join6: "push_bit 6 (drop_bit 6 n) OR take_bit 6 n = (n :: u32)"
  using sextet_join [of 0 n] by simp

lemma group4:
  "b64_group [b64_char (b64_word a b c) 18, b64_char (b64_word a b c) 12, b64_char (b64_word a b c) 6, b64_char (b64_word a b c) 0] (0, 0) =
   Some (b64_word a b c, 0)"
  by (simp add: b64_char_digit first_sextet join18 join12 join6)

lemma group3:
  "b64_group [b64_char (b64_word a b c) 18, b64_char (b64_word a b c) 12, b64_char (b64_word a b c) 6, CHR ''=''] (0, 0) =
   Some (drop_bit 6 (b64_word a b c), 1)"
  by (simp add: b64_char_digit first_sextet join18 join12) (simp add: b64_digit_def)

lemma group2:
  "b64_group [b64_char (b64_word a b c) 18, b64_char (b64_word a b c) 12, CHR ''='', CHR ''=''] (0, 0) =
   Some (drop_bit 12 (b64_word a b c), 2)"
  by (simp add: b64_char_digit first_sextet join18) (simp add: b64_digit_def)

lemma byte_high [simp]: "\<not> bit (x :: u8) (8 + k)" "\<not> bit (x :: u8) (16 + k)"
  using byte_bit [of x "8 + k"] byte_bit [of x "16 + k"] by auto

lemma low_byte: "ucast ((x :: u32) AND 0xFF) = (ucast x :: u8)"
proof -
  have m: "(0xFF :: u32) = mask 8" by (simp add: mask_eq_exp_minus_1)
  show ?thesis unfolding m by (rule bit_eqI) (auto simp: bit_simps)
qed

lemma emit3: "b64_emit (b64_word a (Some b) (Some c), 0) = [a, b, c]"
proof -
  let ?n = "b64_word a (Some b) (Some c)"
  have "ucast (drop_bit 16 ?n) = a" "ucast (drop_bit 8 ?n) = b" "ucast ?n = c"
    by (rule bit_eqI, auto simp: b64_word_def bit_simps)+
  then show ?thesis by (simp add: b64_emit_def low_byte)
qed

lemma emit2: "b64_emit (drop_bit 6 (b64_word a (Some b) None), 1) = [a, b]"
proof -
  let ?n = "push_bit 6 (drop_bit 6 (b64_word a (Some b) None))"
  have "ucast (drop_bit 16 ?n) = a" "ucast (drop_bit 8 ?n) = b"
    by (rule bit_eqI, auto simp: b64_word_def bit_simps)+
  then show ?thesis by (simp add: b64_emit_def low_byte)
qed

lemma emit1: "b64_emit (drop_bit 12 (b64_word a None None), 2) = [a]"
proof -
  let ?n = "push_bit 12 (drop_bit 12 (b64_word a None None))"
  have "ucast (drop_bit 16 ?n) = a"
    by (rule bit_eqI) (auto simp: b64_word_def bit_simps)
  then show ?thesis by (simp add: b64_emit_def low_byte)
qed

lemma b64_std_decode: "b64_decode (b64_std data) = Some data"
  by (induction data rule: b64_std.induct)
     (simp_all add: Let_def group4 group3 group2 emit3 emit2 [unfolded One_nat_def] emit1 del: b64_group.simps)

lemma b64_pad_group: "b64_pad (c0 # c1 # c2 # c3 # s) = c0 # c1 # c2 # c3 # b64_pad s"
proof -
  have "length (c0 # c1 # c2 # c3 # s) mod 4 = length s mod 4" unfolding list.size by presburger
  then show ?thesis by (simp only: b64_pad_def append_Cons)
qed

lemma b64_pad_short: "b64_pad [] = []" "b64_pad [c0, c1] = [c0, c1, CHR ''='', CHR ''='']" "b64_pad [c0, c1, c2] = [c0, c1, c2, CHR ''='']"
  by (simp_all add: b64_pad_def numeral_2_eq_2)

lemma pad_loop: "b64_pad (b64_loop data) = b64_std data"
  by (induction data rule: b64_loop.induct) (simp_all add: b64_pad_group b64_pad_short Let_def)

lemma b64_loop_chars: "c \<in> set (b64_loop data) \<Longrightarrow> c \<noteq> CHR ''-'' \<and> c \<noteq> CHR ''_'' \<and> c \<noteq> CHR ''.'' \<and> c \<noteq> CHR ''=''"
  by (induction data rule: b64_loop.induct) (auto simp: Let_def)

lemma replace_back:
  "CHR ''-'' \<notin> set s \<Longrightarrow> CHR ''_'' \<notin> set s \<Longrightarrow>
   replace_char (CHR ''_'') (CHR ''/'') (replace_char (CHR ''-'') (CHR ''+'')
     (replace_char (CHR ''/'') (CHR ''_'') (replace_char (CHR ''+'') (CHR ''-'') s))) = s"
  unfolding replace_char_def map_map by (rule map_idI) auto

lemma Base64Url_roundtrip: "Base64UrlDecode (Base64UrlEncode data) = data"
proof -
  have "CHR ''-'' \<notin> set (b64_loop data)" "CHR ''_'' \<notin> set (b64_loop data)" using b64_loop_chars by blast+
  then show ?thesis
    by (simp add: Base64UrlDecode_def Base64UrlEncode_def replace_back pad_loop b64_std_decode)
qed

lemma Base64UrlEncode_no_dot: "CHR ''.'' \<notin> set (Base64UrlEncode data)"
  using b64_loop_chars [of "CHR ''.''" data] by (auto simp: Base64UrlEncode_def replace_char_def split: if_splits)

end
