(* ===== verification/Jwt_Codec.thy ===== *)
theory Jwt_Codec
  imports Base64
begin

text \<open>
  JSON web tokens (\<^verbatim>\<open>src/web/auth/JwtCodec.cpp\<close>). The JSON library and the keyed hash are parameters:
  \<^verbatim>\<open>dump\<close> prints a document, \<^verbatim>\<open>parse\<close> reads one, \<^verbatim>\<open>hmac\<close> is HMAC-SHA256 of a secret and a text.
\<close>

datatype web_error = WBadRequest | WUnauthorized | WNotFound | WMethodNotAllowed | WInternalError | WUpgradeRequired

text \<open>\<^verbatim>\<open>JInt\<close> is an integer literal the library keeps as one; \<^verbatim>\<open>JFloat\<close> is any other number, with what
  the conversion from \<^verbatim>\<open>double\<close> to \<^verbatim>\<open>int64_t\<close> makes of it.\<close>

datatype json = JObj "(string \<times> json) list" | JStr string | JInt int | JFloat u64 | JOther

text \<open>The two times are \<^verbatim>\<open>int64_t\<close>: 64-bit words, read by \<^const>\<open>sint\<close>.\<close>

record jwt_claims =
  sub :: string
  device_id :: string
  iat :: u64
  exp_at :: u64

definition jwt_claims_new :: jwt_claims where
  "jwt_claims_new = \<lparr>sub = [], device_id = [], iat = 0, exp_at = 0\<rparr>"

text \<open>\<^verbatim>\<open>Decode\<close> returns claims or an error; reading a field of the wrong type throws.\<close>

datatype 'a decoded = DOk 'a | DErr web_error | DThrow

definition Sign :: "(string \<Rightarrow> string \<Rightarrow> bytes) \<Rightarrow> string \<Rightarrow> string \<Rightarrow> string" where
  "Sign hmac secret data = Base64UrlEncode (hmac secret data)"

definition jwt_header :: "(string \<times> json) list" where
  "jwt_header = [(''alg'', JStr ''HS256''), (''typ'', JStr ''JWT'')]"

definition jwt_payload :: "jwt_claims \<Rightarrow> (string \<times> json) list" where
  "jwt_payload c =
     [(''sub'', JStr (sub c))] @ (if device_id c \<noteq> [] then [(''did'', JStr (device_id c))] else []) @
     [(''iat'', JInt (sint (iat c))), (''exp'', JInt (sint (exp_at c)))]"

definition jwt_Encode :: "(json \<Rightarrow> string) \<Rightarrow> (string \<Rightarrow> string \<Rightarrow> bytes) \<Rightarrow> string \<Rightarrow> jwt_claims \<Rightarrow> string" where
  "jwt_Encode dump hmac secret c =
     (let h = Base64UrlEncode (bytes_of (dump (JObj jwt_header)));
          p = Base64UrlEncode (bytes_of (dump (JObj (jwt_payload c))));
          header_payload = h @ ''.'' @ p
      in header_payload @ ''.'' @ Sign hmac secret header_payload)"

fun json_get :: "string \<Rightarrow> json \<Rightarrow> json option" where
  "json_get k (JObj fs) = map_of fs k"
| "json_get k _ = None"

text \<open>\<^verbatim>\<open>if (json.contains(k)) field = json[k].get<T>()\<close>.\<close>

definition read_str :: "string \<Rightarrow> json \<Rightarrow> string \<Rightarrow> string option" where
  "read_str k j dflt = (case json_get k j of None \<Rightarrow> Some dflt | Some (JStr s) \<Rightarrow> Some s | Some _ \<Rightarrow> None)"

definition read_int :: "string \<Rightarrow> json \<Rightarrow> u64 \<Rightarrow> u64 option" where
  "read_int k j dflt =
     (case json_get k j of
        None \<Rightarrow> Some dflt
      | Some (JInt i) \<Rightarrow> Some (word_of_int i)
      | Some (JFloat v) \<Rightarrow> Some v
      | Some _ \<Rightarrow> None)"

definition read_claims :: "json \<Rightarrow> jwt_claims option" where
  "read_claims j =
     (case (read_str ''sub'' j [], read_str ''did'' j [], read_int ''iat'' j 0, read_int ''exp'' j 0) of
        (Some s, Some d, Some i, Some e) \<Rightarrow> Some \<lparr>sub = s, device_id = d, iat = i, exp_at = e\<rparr>
      | _ \<Rightarrow> None)"

definition jwt_Decode :: "(string \<Rightarrow> json option) \<Rightarrow> (string \<Rightarrow> string \<Rightarrow> bytes) \<Rightarrow> string \<Rightarrow> int \<Rightarrow> string \<Rightarrow>
    jwt_claims decoded" where
  "jwt_Decode parse hmac secret now token =
     (case find_char (CHR ''.'') token of
        None \<Rightarrow> DErr WBadRequest
      | Some dot1 \<Rightarrow>
        (case find_char_from (CHR ''.'') (dot1 + 1) token of
           None \<Rightarrow> DErr WBadRequest
         | Some dot2 \<Rightarrow>
             if find_char_from (CHR ''.'') (dot2 + 1) token \<noteq> None then DErr WBadRequest
             else
               let header_payload = take dot2 token; signature = drop (dot2 + 1) token in
               if Sign hmac secret header_payload \<noteq> signature then DErr WUnauthorized
               else
                 let payload_bytes = Base64UrlDecode (substr (dot1 + 1) (dot2 - dot1 - 1) token) in
                 if payload_bytes = [] then DErr WBadRequest
                 else
                   case parse (string_of payload_bytes) of
                     None \<Rightarrow> DErr WBadRequest
                   | Some j \<Rightarrow>
                       (case read_claims j of
                          None \<Rightarrow> DThrow
                        | Some c \<Rightarrow> if 0 < sint (exp_at c) \<and> sint (exp_at c) < now then DErr WUnauthorized else DOk c)))"

section \<open>Lemmas\<close>

text \<open>Splitting a token with exactly two dots.\<close>

lemma dots:
  assumes "CHR ''.'' \<notin> set h" and "CHR ''.'' \<notin> set p" and "CHR ''.'' \<notin> set s"
  shows "find_char (CHR ''.'') (h @ CHR ''.'' # p @ CHR ''.'' # s) = Some (length h)"
    "find_char_from (CHR ''.'') (Suc (length h)) (h @ CHR ''.'' # p @ CHR ''.'' # s) = Some (Suc (length h + length p))"
    "find_char_from (CHR ''.'') (Suc (Suc (length h + length p))) (h @ CHR ''.'' # p @ CHR ''.'' # s) = None"
  using assms by (simp_all add: find_char_from_def find_simps)

lemma read_claims_cong:
  assumes "map_of gs = map_of fs"
  shows "read_claims (JObj gs) = read_claims (JObj fs)"
  using assms by (simp add: read_claims_def read_str_def read_int_def)

lemma read_claims_payload: "read_claims (JObj (jwt_payload c)) = Some c"
  by (cases c) (simp add: read_claims_def read_str_def read_int_def jwt_payload_def)

lemma jwt_Decode_Encode:
  assumes "dump (JObj (jwt_payload c)) \<noteq> []"
    and "parse (dump (JObj (jwt_payload c))) = Some (JObj gs)" and "map_of gs = map_of (jwt_payload c)"
  shows "jwt_Decode parse hmac secret now (jwt_Encode dump hmac secret c) =
    (if 0 < sint (exp_at c) \<and> sint (exp_at c) < now then DErr WUnauthorized else DOk c)"
proof -
  let ?h = "Base64UrlEncode (bytes_of (dump (JObj jwt_header)))"
  let ?p = "Base64UrlEncode (bytes_of (dump (JObj (jwt_payload c))))"
  let ?s = "Sign hmac secret (?h @ CHR ''.'' # ?p)"
  have tok: "jwt_Encode dump hmac secret c = ?h @ CHR ''.'' # ?p @ CHR ''.'' # ?s"
    by (simp add: jwt_Encode_def Let_def)
  have d: "find_char (CHR ''.'') (?h @ CHR ''.'' # ?p @ CHR ''.'' # ?s) = Some (length ?h)"
    "find_char_from (CHR ''.'') (Suc (length ?h)) (?h @ CHR ''.'' # ?p @ CHR ''.'' # ?s) = Some (Suc (length ?h + length ?p))"
    "find_char_from (CHR ''.'') (Suc (Suc (length ?h + length ?p))) (?h @ CHR ''.'' # ?p @ CHR ''.'' # ?s) = None"
    by (rule dots; simp add: Base64UrlEncode_no_dot Sign_def)+
  have ne: "bytes_of (dump (JObj (jwt_payload c))) \<noteq> []" using assms(1) by (simp add: bytes_of_def)
  have "read_claims (JObj gs) = Some c" using read_claims_cong [OF assms(3)] read_claims_payload by simp
  then show ?thesis unfolding tok
    by (simp add: jwt_Decode_def d Let_def substr_def Base64Url_roundtrip ne assms(2))
qed

text \<open>C33: Tokens round trip: decoding an issued token with the same secret yields its claims until they
  expire and reports unauthorized afterwards; a token whose expiry is zero never expires. (The JSON library
  reads back the fields of the payload it printed.)\<close>

theorem jwt_roundtrip:
  assumes "dump (JObj (jwt_payload c)) \<noteq> []"
    and "parse (dump (JObj (jwt_payload c))) = Some (JObj gs)" and "map_of gs = map_of (jwt_payload c)"
  shows "jwt_Decode parse hmac secret now (jwt_Encode dump hmac secret c) =
    (if 0 < sint (exp_at c) \<and> sint (exp_at c) < now then DErr WUnauthorized else DOk c)"
  by (rule jwt_Decode_Encode) (fact assms)+

definition example_claims :: jwt_claims where
  "example_claims = \<lparr>sub = ''u1'', device_id = [], iat = 100, exp_at = 1000\<rparr>"

theorem jwt_roundtrip_witness:
  "jwt_Decode (\<lambda>_. Some (JObj (jwt_payload example_claims))) (\<lambda>k t. bytes_of (k @ t)) ''secret'' 500
     (jwt_Encode (\<lambda>_. ''payload'') (\<lambda>k t. bytes_of (k @ t)) ''secret'' example_claims) = DOk example_claims"
proof -
  have "jwt_Decode (\<lambda>_. Some (JObj (jwt_payload example_claims))) (\<lambda>k t. bytes_of (k @ t)) ''secret'' 500
     (jwt_Encode (\<lambda>_. ''payload'') (\<lambda>k t. bytes_of (k @ t)) ''secret'' example_claims) =
    (if 0 < sint (exp_at example_claims) \<and> sint (exp_at example_claims) < 500 then DErr WUnauthorized else DOk example_claims)"
    by (rule jwt_roundtrip) simp_all
  then show ?thesis by (simp add: example_claims_def)
qed

lemma find_char_from_split:
  assumes "find_char_from c start s = Some i"
  shows "s = take i s @ c # drop (Suc i) s"
proof -
  obtain k where k: "find_char c (drop start s) = Some k" "i = start + k" using assms by (auto simp: find_char_from_def)
  then have "i < length s" "s ! i = c" using find_char_Some [of c "drop start s" k] by auto
  then show ?thesis using id_take_nth_drop [of i s] by simp
qed

text \<open>What \<^verbatim>\<open>Decode\<close> accepts carries the signature of the rest under the secret.\<close>

lemma jwt_Decode_signed:
  assumes "jwt_Decode parse hmac secret now token = DOk c"
  shows "\<exists>hp. token = hp @ CHR ''.'' # Sign hmac secret hp"
proof -
  obtain k dot2 where dot2: "find_char_from (CHR ''.'') k token = Some dot2"
    "Sign hmac secret (take dot2 token) = drop (Suc dot2) token"
    using assms by (auto simp: jwt_Decode_def Let_def split: option.splits if_splits)
  then show ?thesis using find_char_from_split [OF dot2(1)] by metis
qed

lemma jwt_Decode_current:
  assumes "jwt_Decode parse hmac secret now token = DOk c"
  shows "sint (exp_at c) \<le> 0 \<or> now \<le> sint (exp_at c)"
  using assms by (auto simp: jwt_Decode_def Let_def split: option.splits if_splits)

end
