(* ===== verification/Auth.thy ===== *)
theory Auth
  imports Jwt_Codec Routing
begin

text \<open>
  Authentication: the token service over the database (\<^verbatim>\<open>src/web/auth/AuthService.cpp\<close>) and the two
  middlewares that guard routes (\<^verbatim>\<open>src/web/middleware/Auth.cpp\<close>, \<^verbatim>\<open>CookieAuth.cpp\<close>). The database is a
  parameter: a function from a statement and its arguments to a result and the next database state.
  Continuation-passing callbacks are written in direct style.
\<close>

section \<open>Token service\<close>

record auth_config =
  jwt_secret :: string
  access_token_ttl :: int
  refresh_token_ttl :: int

record auth_token =
  access_token :: string
  refresh_token :: string
  expires_in :: int

text \<open>A result is \<^term>\<open>None\<close> when the statement failed, else its rows.\<close>

type_synonym pg_rows = "string list list option"
type_synonym 'db exec = "string \<Rightarrow> string list \<Rightarrow> 'db \<Rightarrow> pg_rows \<times> 'db"

definition hex_digit :: "nat \<Rightarrow> char" where
  "hex_digit d = ''0123456789abcdef'' ! d"

definition GenerateRefreshToken :: "bytes \<Rightarrow> string" where
  "GenerateRefreshToken buf = concat (map (\<lambda>b. [hex_digit (unat b div 16), hex_digit (unat b mod 16)]) buf)"

definition show_int :: "int \<Rightarrow> string" where
  "show_int i = (if i < 0 then CHR ''-'' # show_nat (nat (- i)) else show_nat (nat i))"

definition IssueTokens :: "(jwt_claims \<Rightarrow> string) \<Rightarrow> auth_config \<Rightarrow> int \<Rightarrow> bytes \<Rightarrow> string \<Rightarrow> string \<Rightarrow> auth_token" where
  "IssueTokens encode cfg now rand user_id dev =
     \<lparr>access_token = encode \<lparr>sub = user_id, device_id = dev, iat = word_of_int now, exp_at = word_of_int (now + access_token_ttl cfg)\<rparr>,
      refresh_token = GenerateRefreshToken rand, expires_in = access_token_ttl cfg\<rparr>"

definition sql_find_user :: string where
  "sql_find_user = ''SELECT id::text FROM users WHERE device_id = $1''"

definition sql_add_user :: string where
  "sql_add_user = ''INSERT INTO users (device_id) VALUES ($1) RETURNING id::text''"

definition sql_add_token :: string where
  "sql_add_token = ''INSERT INTO refresh_tokens (token, user_id, expires_at) VALUES ($1, $2::uuid, NOW() + INTERVAL '' @ [CHR 0x27] @ ''1 second'' @ [CHR 0x27] @ '' * $3)''"

definition sql_take_token :: string where
  "sql_take_token = ''DELETE FROM refresh_tokens WHERE token = $1 AND expires_at > NOW() RETURNING user_id::text''"

text \<open>\<^verbatim>\<open>result && result.RowCount() > 0\<close>: the first column of the first row.\<close>

fun first_cell :: "pg_rows \<Rightarrow> string option" where
  "first_cell (Some (row # rows)) = Some (case row of [] \<Rightarrow> [] | c # cs \<Rightarrow> c)"
| "first_cell _ = None"

definition store_token :: "'db exec \<Rightarrow> auth_config \<Rightarrow> auth_token \<Rightarrow> string \<Rightarrow> 'db \<Rightarrow> (web_error + auth_token) \<times> 'db" where
  "store_token exec cfg token user_id db =
     (case exec sql_add_token [refresh_token token, user_id, show_int (refresh_token_ttl cfg)] db of
        (_, db') \<Rightarrow> (Inr token, db'))"

definition LoginByDeviceId ::
  "'db exec \<Rightarrow> (jwt_claims \<Rightarrow> string) \<Rightarrow> auth_config \<Rightarrow> int \<Rightarrow> bytes \<Rightarrow> string \<Rightarrow> 'db \<Rightarrow> (web_error + auth_token) \<times> 'db" where
  "LoginByDeviceId exec encode cfg now rand did db =
     (case exec sql_find_user [did] db of
        (res, db1) \<Rightarrow>
          (case first_cell res of
             Some user_id \<Rightarrow> store_token exec cfg (IssueTokens encode cfg now rand user_id did) user_id db1
           | None \<Rightarrow>
               (case exec sql_add_user [did] db1 of
                  (res2, db2) \<Rightarrow>
                    (case first_cell res2 of
                       None \<Rightarrow> (Inl WInternalError, db2)
                     | Some user_id \<Rightarrow>
                         store_token exec cfg (IssueTokens encode cfg now rand user_id did) user_id db2))))"

definition RefreshToken ::
  "'db exec \<Rightarrow> (jwt_claims \<Rightarrow> string) \<Rightarrow> auth_config \<Rightarrow> int \<Rightarrow> bytes \<Rightarrow> string \<Rightarrow> 'db \<Rightarrow> (web_error + auth_token) \<times> 'db" where
  "RefreshToken exec encode cfg now rand rt db =
     (case exec sql_take_token [rt] db of
        (res, db1) \<Rightarrow>
          (case first_cell res of
             None \<Rightarrow> (Inl WUnauthorized, db1)
           | Some user_id \<Rightarrow> store_token exec cfg (IssueTokens encode cfg now rand user_id []) user_id db1))"

section \<open>Middlewares\<close>

definition json_error :: "string \<Rightarrow> string" where
  "json_error message = [CHR 0x7B, CHR 0x22] @ ''error'' @ [CHR 0x22, CHR 0x3A, CHR 0x22] @ message @ [CHR 0x22, CHR 0x7D]"

definition reject :: "string \<Rightarrow> string \<Rightarrow> 's request_ctx \<Rightarrow> (exn + unit) \<times> 's request_ctx" where
  "reject date message ctx =
     (Inr (), response_send date (ctx\<lparr>cx_response := Json (json_error message) (Status KUnauthorized (cx_response ctx))\<rparr>))"

definition IsExcluded :: "string list \<Rightarrow> string \<Rightarrow> bool" where
  "IsExcluded excl path = list_ex (\<lambda>p. starts_with path p) excl"

definition set_user :: "string \<Rightarrow> 's request_ctx \<Rightarrow> 's request_ctx" where
  "set_user u ctx = ctx\<lparr>cx_request := (cx_request ctx)\<lparr>rq_user_id := u\<rparr>\<rparr>"

text \<open>The tail both middlewares share; \<^verbatim>\<open>verify\<close> is the token check.\<close>

definition admit :: "string \<Rightarrow> (string \<Rightarrow> jwt_claims decoded) \<Rightarrow> string \<Rightarrow> 's middleware" where
  "admit date verify token ctx next =
     (case verify token of
        DThrow \<Rightarrow> (Inl (StdException ''type_error''), ctx)
      | DErr _ \<Rightarrow> reject date ''invalid or expired token'' ctx
      | DOk c \<Rightarrow> next (set_user (sub c) ctx))"

definition Auth_Process :: "string \<Rightarrow> (string \<Rightarrow> jwt_claims decoded) \<Rightarrow> string list \<Rightarrow> 's middleware" where
  "Auth_Process date verify excluded ctx next =
     (if IsExcluded excluded (rq_path (cx_request ctx)) then next ctx
      else
        let auth_header = GetHeader ''Authorization'' (cx_request ctx); bearer = ''Bearer '' in
        if auth_header = [] then reject date ''missing authorization header'' ctx
        else if length auth_header \<le> length bearer \<or> take (length bearer) auth_header \<noteq> bearer
        then reject date ''invalid authorization format'' ctx
        else admit date verify (drop (length bearer) auth_header) ctx next)"

text \<open>\<^verbatim>\<open>ExtractCookie\<close>: entries separated by semicolons; spaces before the name and between name and equals
  sign are dropped.\<close>

definition trim_end :: "string \<Rightarrow> string" where
  "trim_end s = rev (dropWhile (\<lambda>c. c = CHR '' '') (rev s))"

function ExtractCookie :: "string \<Rightarrow> string \<Rightarrow> string option" where
  "ExtractCookie name header =
     (if header = [] then None
      else
        let remaining = dropWhile (\<lambda>c. c = CHR '' '') header;
            semi = find_char (CHR '';'') remaining;
            pair = (case semi of None \<Rightarrow> remaining | Some i \<Rightarrow> take i remaining);
            hit = (case find_char (CHR ''='') pair of
                     None \<Rightarrow> None
                   | Some eq \<Rightarrow> if trim_end (take eq pair) = name then Some (drop (eq + 1) pair) else None)
        in case hit of
             Some v \<Rightarrow> Some v
           | None \<Rightarrow>
               (case semi of
                  None \<Rightarrow> None
                | Some i \<Rightarrow> ExtractCookie name (drop (i + 1) remaining)))"
  by pat_completeness auto
termination
proof (relation "measure (\<lambda>(_, h). length h)", goal_cases)
  case (2 name header remaining semi pair hit i)
  have "length remaining \<le> length header" using 2(2) by (simp add: length_dropWhile_le)
  moreover have "0 < length header" using 2(1) by simp
  ultimately show ?case by (simp del: length_greater_0_conv)
qed simp

declare ExtractCookie.simps [simp del]

record cookie_options =
  co_secret :: string
  cookie_name :: string
  exclude_paths :: "string list"

definition CookieAuth_Process :: "string \<Rightarrow> (string \<Rightarrow> jwt_claims decoded) \<Rightarrow> cookie_options \<Rightarrow> 's middleware" where
  "CookieAuth_Process date verify opts ctx next =
     (if IsExcluded (exclude_paths opts) (rq_path (cx_request ctx)) then next ctx
      else
        let cookie_header = GetHeader ''Cookie'' (cx_request ctx) in
        if cookie_header = [] then reject date ''not authenticated'' ctx
        else
          case ExtractCookie (cookie_name opts) cookie_header of
            None \<Rightarrow> reject date ''token cookie not found'' ctx
          | Some token \<Rightarrow> admit date verify token ctx next)"

section \<open>Properties\<close>

text \<open>What a guard does with a request that carries the tokens in \<^verbatim>\<open>carries\<close>: either one of them is signed
  with the secret and has not expired, and the handler, whichever it is, runs with the subject of that token
  as the authenticated user; or none of them decodes, and the answer does not depend on the handler.\<close>

definition token_guarded :: "(string \<Rightarrow> bool) \<Rightarrow> (string \<Rightarrow> json option) \<Rightarrow> (string \<Rightarrow> string \<Rightarrow> bytes) \<Rightarrow> string \<Rightarrow> int \<Rightarrow>
    's middleware \<Rightarrow> 's request_ctx \<Rightarrow> bool" where
  "token_guarded carries parse hmac secret now m ctx =
     ((\<exists>hp c. carries (hp @ CHR ''.'' # Sign hmac secret hp) \<and>
         jwt_Decode parse hmac secret now (hp @ CHR ''.'' # Sign hmac secret hp) = DOk c \<and>
         (sint (exp_at c) \<le> 0 \<or> now \<le> sint (exp_at c)) \<and> (\<forall>handler. m ctx handler = handler (set_user (sub c) ctx))) \<or>
      (\<forall>token c. carries token \<longrightarrow> jwt_Decode parse hmac secret now token \<noteq> DOk c) \<and>
      (\<forall>handler handler'. m ctx handler = m ctx handler'))"

lemma admit_guarded:
  assumes "\<And>n. m ctx n = admit date (jwt_Decode parse hmac secret now) token ctx n"
    and "\<And>t. carries t \<longleftrightarrow> t = token"
  shows "token_guarded carries parse hmac secret now m ctx"
proof (cases "jwt_Decode parse hmac secret now token")
  case (DOk c)
  obtain hp where "token = hp @ CHR ''.'' # Sign hmac secret hp" using jwt_Decode_signed [OF DOk] by blast
  moreover have "\<forall>n. m ctx n = n (set_user (sub c) ctx)" using assms(1) DOk by (simp add: admit_def)
  ultimately show ?thesis using DOk jwt_Decode_current [OF DOk] assms(2) unfolding token_guarded_def by blast
qed (use assms in \<open>simp_all add: token_guarded_def admit_def\<close>)

lemma rejected_guarded:
  assumes "\<And>n n'. m ctx n = m ctx n'" and "\<And>t. carries t \<Longrightarrow> t = []"
  shows "token_guarded carries parse hmac secret now m ctx"
proof -
  have "jwt_Decode parse hmac secret now [] \<noteq> DOk c" for c by (simp add: jwt_Decode_def)
  then show ?thesis using assms unfolding token_guarded_def by blast
qed

lemma Auth_guarded:
  assumes "\<not> IsExcluded excluded (rq_path (cx_request ctx))"
  shows "token_guarded (\<lambda>token. GetHeader ''Authorization'' (cx_request ctx) = ''Bearer '' @ token) parse hmac secret now
    (Auth_Process date (jwt_Decode parse hmac secret now) excluded) ctx"
proof -
  let ?h = "GetHeader ''Authorization'' (cx_request ctx)"
  show ?thesis
  proof (cases "?h = [] \<or> length ?h \<le> length ''Bearer '' \<or> take (length ''Bearer '') ?h \<noteq> ''Bearer ''")
    case True
    show ?thesis
      by (rule rejected_guarded) (use True assms in \<open>auto simp: Auth_Process_def Let_def\<close>)
  next
    case False
    then have "?h = ''Bearer '' @ drop (length ''Bearer '') ?h"
      using append_take_drop_id [of "length ''Bearer ''" ?h] by metis
    then have "?h = ''Bearer '' @ t \<longleftrightarrow> t = drop (length ''Bearer '') ?h" for t by (metis same_append_eq)
    then show ?thesis
      by (intro admit_guarded [where token = "drop (length ''Bearer '') ?h" and date = date])
         (use False assms in \<open>auto simp: Auth_Process_def Let_def\<close>)
  qed
qed

lemma CookieAuth_guarded:
  assumes "\<not> IsExcluded (exclude_paths opts) (rq_path (cx_request ctx))"
  shows "token_guarded (\<lambda>token. ExtractCookie (cookie_name opts) (GetHeader ''Cookie'' (cx_request ctx)) = Some token)
    parse hmac secret now (CookieAuth_Process date (jwt_Decode parse hmac secret now) opts) ctx"
proof (cases "ExtractCookie (cookie_name opts) (GetHeader ''Cookie'' (cx_request ctx))")
  case None
  then show ?thesis by (intro rejected_guarded) (use assms in \<open>auto simp: CookieAuth_Process_def Let_def\<close>)
next
  case (Some token)
  then have "GetHeader ''Cookie'' (cx_request ctx) \<noteq> []" by (auto simp: ExtractCookie.simps)
  then show ?thesis
    by (intro admit_guarded [where token = token and date = date])
       (use assms Some in \<open>auto simp: CookieAuth_Process_def Let_def\<close>)
qed

text \<open>C15: \<^verbatim>\<open>Auth\<close> and \<^verbatim>\<open>CookieAuth\<close> call the handler of an excluded prefix unconditionally. On every other path
  \<^verbatim>\<open>Auth\<close> looks at the bearer token of the \<^verbatim>\<open>Authorization\<close> header and \<^verbatim>\<open>CookieAuth\<close> at the configured cookie, and
  each calls the handler exactly if that token decodes: it is then signed with the server's secret, its expiry
  has not passed, and the handler sees its subject as the authenticated user. Otherwise the answer does not
  depend on the handler: it is not called.\<close>

theorem guards_require_signed_token:
  "(if IsExcluded excluded (rq_path (cx_request ctx))
    then \<forall>handler. Auth_Process date (jwt_Decode parse hmac secret now) excluded ctx handler = handler ctx
    else token_guarded (\<lambda>token. GetHeader ''Authorization'' (cx_request ctx) = ''Bearer '' @ token) parse hmac secret now
      (Auth_Process date (jwt_Decode parse hmac secret now) excluded) ctx) \<and>
   (if IsExcluded (exclude_paths opts) (rq_path (cx_request ctx))
    then \<forall>handler. CookieAuth_Process date (jwt_Decode parse hmac secret now) opts ctx handler = handler ctx
    else token_guarded (\<lambda>token. ExtractCookie (cookie_name opts) (GetHeader ''Cookie'' (cx_request ctx)) = Some token)
      parse hmac secret now (CookieAuth_Process date (jwt_Decode parse hmac secret now) opts) ctx)"
  using Auth_guarded [of excluded ctx parse hmac secret now date] CookieAuth_guarded [of opts ctx parse hmac secret now date]
  by (simp add: Auth_Process_def CookieAuth_Process_def)

text \<open>A request with the given authorization header, and an issued token.\<close>

definition auth_example :: "string \<Rightarrow> unit request_ctx" where
  "auth_example header =
     \<lparr>cx_request = http_request_new\<lparr>rq_path := ''/api'', rq_headers := [(''Authorization'', header)]\<rparr>,
      cx_response = http_response_new True, cx_pool = buffer_pool_new 4096 4, cx_outbox = [], cx_session = ()\<rparr>"

definition example_token :: string where
  "example_token = jwt_Encode (\<lambda>_. ''payload'') (\<lambda>k t. bytes_of (k @ t)) ''secret'' example_claims"

theorem guards_require_signed_token_witness:
  "\<forall>handler. Auth_Process [] (jwt_Decode (\<lambda>_. Some (JObj (jwt_payload example_claims))) (\<lambda>k t. bytes_of (k @ t)) ''secret'' 500)
     [''/login''] (auth_example (''Bearer '' @ example_token)) handler =
     handler (set_user ''u1'' (auth_example (''Bearer '' @ example_token)))"
proof -
  let ?p = "\<lambda>_. Some (JObj (jwt_payload example_claims))" and ?h = "\<lambda>k t. bytes_of (k @ t)"
  let ?ctx = "auth_example (''Bearer '' @ example_token)"
  have ne: "\<not> IsExcluded [''/login''] (rq_path (cx_request ?ctx))"
    by (simp add: IsExcluded_def auth_example_def starts_with_def)
  have hdr: "GetHeader ''Authorization'' (cx_request ?ctx) = ''Bearer '' @ example_token"
    by (simp add: auth_example_def GetHeader_def http_request_new_def CaseInsensitiveEqual_def)
  have "jwt_Decode ?p ?h ''secret'' 500 example_token =
      (if 0 < sint (exp_at example_claims) \<and> sint (exp_at example_claims) < 500 then DErr WUnauthorized else DOk example_claims)"
    unfolding example_token_def by (rule jwt_Decode_Encode) simp_all
  then have tok: "jwt_Decode ?p ?h ''secret'' 500 example_token = DOk example_claims" by (simp add: example_claims_def)
  have sub: "sub example_claims = ''u1''" by (simp add: example_claims_def)
  have "token_guarded (\<lambda>token. GetHeader ''Authorization'' (cx_request ?ctx) = ''Bearer '' @ token) ?p ?h ''secret'' 500
      (Auth_Process [] (jwt_Decode ?p ?h ''secret'' 500) [''/login'']) ?ctx"
    using guards_require_signed_token [of "[''/login'']" ?ctx "[]" ?p ?h "''secret''" 500] ne by simp
  then show ?thesis unfolding token_guarded_def hdr using tok sub by auto
qed

end
