(* ===== verification/Web_Middleware.thy ===== *)
theory Web_Middleware
  imports Auth
begin

text \<open>
  The cross-origin and static-file middlewares (\<^verbatim>\<open>src/web/middleware/Cors.cpp\<close>, \<^verbatim>\<open>StaticFiles.cpp\<close>). The file
  system is a parameter: a record of the queries the code makes.
\<close>

section \<open>Cross-origin requests\<close>

record cors_options =
  allowed_origins :: "string list"
  allowed_methods :: "string list"
  allowed_headers :: "string list"
  allow_credentials :: bool
  co_max_age :: u32

definition cors_options_default :: cors_options where
  "cors_options_default = \<lparr>allowed_origins = [''*''],
     allowed_methods = [''GET'', ''POST'', ''PUT'', ''DELETE'', ''PATCH'', ''OPTIONS''],
     allowed_headers = [''Content-Type'', ''Authorization''], allow_credentials = False, co_max_age = 86400\<rparr>"

fun JoinStrings :: "string list \<Rightarrow> string \<Rightarrow> string" where
  "JoinStrings [] sep = []"
| "JoinStrings [v] sep = v"
| "JoinStrings (v # w # vs) sep = v @ sep @ JoinStrings (w # vs) sep"

definition upd_response :: "(http_response \<Rightarrow> http_response) \<Rightarrow> 's request_ctx \<Rightarrow> 's request_ctx" where
  "upd_response f ctx = ctx\<lparr>cx_response := f (cx_response ctx)\<rparr>"

definition AddCorsHeaders :: "cors_options \<Rightarrow> 's request_ctx \<Rightarrow> 's request_ctx" where
  "AddCorsHeaders opts ctx =
     (let ctx1 =
            (if allowed_origins opts = [''*'']
             then upd_response (Header ''Access-Control-Allow-Origin'' ''*'') ctx
             else
               let origin = GetHeader ''Origin'' (cx_request ctx) in
               if list_ex (\<lambda>allowed. allowed = origin) (allowed_origins opts)
               then upd_response (\<lambda>r. Header ''Vary'' ''Origin'' (Header ''Access-Control-Allow-Origin'' origin r)) ctx
               else ctx);
          ctx2 = upd_response (\<lambda>r. Header ''Access-Control-Allow-Headers'' (JoinStrings (allowed_headers opts) '', '')
                   (Header ''Access-Control-Allow-Methods'' (JoinStrings (allowed_methods opts) '', '') r)) ctx1
      in if allow_credentials opts then upd_response (Header ''Access-Control-Allow-Credentials'' ''true'') ctx2
         else ctx2)"

definition Cors_Process :: "string \<Rightarrow> cors_options \<Rightarrow> 's middleware" where
  "Cors_Process date opts ctx next =
     (let ctx1 = AddCorsHeaders opts ctx in
      if rq_method (cx_request ctx1) = KOptions
      then (Inr (), response_send date (upd_response (\<lambda>r. Header ''Access-Control-Max-Age'' (show_nat (unat (co_max_age opts)))
              (Status KNoContent r)) ctx1))
      else next ctx1)"

section \<open>Static files\<close>

record static_options =
  so_root :: string
  so_prefix :: string
  enable_etag :: bool
  enable_last_modified :: bool
  so_max_age :: u32
  index_files :: "string list"
  max_file_size :: u64

text \<open>The file system: \<^verbatim>\<open>canonical\<close>, the kind of a path, \<^verbatim>\<open>stat\<close> (size and modification time), the content of
  a file, and the printed form of a modification time.\<close>

record file_system =
  fs_canonical :: "string \<Rightarrow> string option"
  fs_is_directory :: "string \<Rightarrow> bool"
  fs_is_regular :: "string \<Rightarrow> bool"
  fs_stat :: "string \<Rightarrow> (u64 \<times> int) option"
  fs_read :: "string \<Rightarrow> string option"
  fs_time :: "int \<Rightarrow> string"

text \<open>\<^verbatim>\<open>operator/\<close>: an absolute right-hand side replaces the left.\<close>

definition path_join :: "string \<Rightarrow> string \<Rightarrow> string" where
  "path_join p q =
     (if q \<noteq> [] \<and> hd q = CHR ''/'' then q
      else if p = [] \<or> last p = CHR ''/'' then p @ q
      else p @ ''/'' @ q)"

text \<open>\<^verbatim>\<open>path::extension\<close>: the part of the file name from its last dot; a leading dot does not count.\<close>

definition path_filename :: "string \<Rightarrow> string" where
  "path_filename p = rev (takeWhile (\<lambda>c. c \<noteq> CHR ''/'') (rev p))"

definition path_extension :: "string \<Rightarrow> string" where
  "path_extension p =
     (let f = path_filename p; suffix = rev (takeWhile (\<lambda>c. c \<noteq> CHR ''.'') (rev f)) in
      if f = ''.'' \<or> f = ''..'' \<or> length f \<le> length suffix + 1 then [] else CHR ''.'' # suffix)"

definition StaticFiles :: "file_system \<Rightarrow> static_options \<Rightarrow> string \<times> static_options" where
  "StaticFiles fs opts =
     (let root = (case fs_canonical fs (so_root opts) of Some c \<Rightarrow> c | None \<Rightarrow> so_root opts);
          p1 = (if so_prefix opts \<noteq> [] \<and> last (so_prefix opts) \<noteq> CHR ''/'' then so_prefix opts @ ''/'' else so_prefix opts);
          p2 = (if p1 = [] \<or> hd p1 \<noteq> CHR ''/'' then ''/'' @ p1 else p1)
      in (root, opts\<lparr>so_prefix := p2\<rparr>))"

definition MimeFromExtension :: "string \<Rightarrow> string" where
  "MimeFromExtension ext =
     (if ext = ''.html'' \<or> ext = ''.htm'' then ''text/html; charset=utf-8''
      else if ext = ''.css'' then ''text/css; charset=utf-8''
      else if ext = ''.js'' then ''application/javascript; charset=utf-8''
      else if ext = ''.json'' then ''application/json; charset=utf-8''
      else if ext = ''.xml'' then ''application/xml; charset=utf-8''
      else if ext = ''.txt'' then ''text/plain; charset=utf-8''
      else if ext = ''.csv'' then ''text/csv; charset=utf-8''
      else if ext = ''.png'' then ''image/png''
      else if ext = ''.jpg'' \<or> ext = ''.jpeg'' then ''image/jpeg''
      else if ext = ''.gif'' then ''image/gif''
      else if ext = ''.svg'' then ''image/svg+xml''
      else if ext = ''.ico'' then ''image/x-icon''
      else if ext = ''.webp'' then ''image/webp''
      else if ext = ''.avif'' then ''image/avif''
      else if ext = ''.bmp'' then ''image/bmp''
      else if ext = ''.woff'' then ''font/woff''
      else if ext = ''.woff2'' then ''font/woff2''
      else if ext = ''.ttf'' then ''font/ttf''
      else if ext = ''.otf'' then ''font/otf''
      else if ext = ''.eot'' then ''application/vnd.ms-fontobject''
      else if ext = ''.wasm'' then ''application/wasm''
      else if ext = ''.pdf'' then ''application/pdf''
      else if ext = ''.zip'' then ''application/zip''
      else if ext = ''.gz'' then ''application/gzip''
      else if ext = ''.mp4'' then ''video/mp4''
      else if ext = ''.webm'' then ''video/webm''
      else if ext = ''.mp3'' then ''audio/mpeg''
      else if ext = ''.ogg'' then ''audio/ogg''
      else if ext = ''.wav'' then ''audio/wav''
      else if ext = ''.map'' then ''application/json''
      else ''application/octet-stream'')"

definition GenerateETag :: "u64 \<Rightarrow> int \<Rightarrow> string" where
  "GenerateETag fsize mtime = ''W/'' @ [CHR 0x22] @ show_nat (unat fsize) @ ''-'' @ show_int mtime @ [CHR 0x22]"

fun first_index :: "file_system \<Rightarrow> string \<Rightarrow> string list \<Rightarrow> string option" where
  "first_index fs p [] = None"
| "first_index fs p (idx # idxs) =
     (if fs_is_regular fs (path_join p idx) then Some (path_join p idx) else first_index fs p idxs)"

text \<open>Answering with the file found at a canonical path inside the root.\<close>

definition serve_file :: "string \<Rightarrow> file_system \<Rightarrow> static_options \<Rightarrow> string \<Rightarrow> u64 \<Rightarrow> int \<Rightarrow> 's middleware" where
  "serve_file date fs opts resolved fsize mtime ctx next =
     (let etag = GenerateETag fsize mtime; if_none_match = GetHeader ''If-None-Match'' (cx_request ctx) in
      if enable_etag opts \<and> if_none_match \<noteq> [] \<and> if_none_match = etag
      then (Inr (), response_send date (upd_response (\<lambda>r. Header ''ETag'' etag (Status KNotModified r)) ctx))
      else
        let ctx1 = (if enable_etag opts then upd_response (Header ''ETag'' etag) ctx else ctx);
            ctx2 = (if enable_last_modified opts then upd_response (Header ''Last-Modified'' (fs_time fs mtime)) ctx1 else ctx1);
            ctx3 = upd_response (\<lambda>r. ContentType (MimeFromExtension (path_extension resolved))
                     (Header ''Cache-Control'' (''public, max-age='' @ show_nat (unat (so_max_age opts))) r)) ctx2
        in if rq_method (cx_request ctx3) = KHead
           then (Inr (), response_send date (upd_response (\<lambda>r. Header ''Content-Length'' (show_nat (unat fsize)) (Status KOk r)) ctx3))
           else
             case fs_read fs resolved of
               None \<Rightarrow> next ctx3
             | Some content \<Rightarrow>
                 let body = take (unat fsize) content @ replicate (unat fsize - length content) (CHR 0x00)
                 in (Inr (), response_send date (upd_response (\<lambda>r. Body body (Status KOk r)) ctx3)))"

definition StaticFiles_Process :: "string \<Rightarrow> file_system \<Rightarrow> string \<Rightarrow> static_options \<Rightarrow> 's middleware" where
  "StaticFiles_Process date fs root opts ctx next =
     (let path = rq_path (cx_request ctx) in
      if rq_method (cx_request ctx) \<noteq> KGet \<and> rq_method (cx_request ctx) \<noteq> KHead then next ctx
      else if take (length (so_prefix opts)) path \<noteq> so_prefix opts then next ctx
      else
        let fs_path = path_join root (drop (length (so_prefix opts)) path);
            target = (if fs_is_directory fs fs_path then first_index fs fs_path (index_files opts) else Some fs_path)
        in case target of
             None \<Rightarrow> next ctx
           | Some p \<Rightarrow>
             (case fs_canonical fs p of
                None \<Rightarrow> next ctx
              | Some resolved \<Rightarrow>
                  if take (length root) resolved \<noteq> root
                  then (Inr (), send_plain date KForbidden ''Forbidden'' ctx)
                  else if \<not> fs_is_regular fs resolved then next ctx
                  else
                    (case fs_stat fs resolved of
                       None \<Rightarrow> next ctx
                     | Some (fsize, mtime) \<Rightarrow>
                         if max_file_size opts < fsize
                         then (Inr (), send_plain date KPayloadTooLarge ''File Too Large'' ctx)
                         else serve_file date fs opts resolved fsize mtime ctx next)))"

section \<open>Properties\<close>

lemma response_send_response [simp]: "cx_response (response_send date ctx) = MarkSent (cx_response ctx)"
  by (simp add: response_send_def rs_Send_def cx_emit_def MarkSent_def Let_def split: prod.splits option.splits)

text \<open>The traversal check compares strings, not directories: whatever the file system, when a request
  resolves to a path that continues the string of the root but not as a path below it, such as a file of a
  sibling directory whose name extends the root's, that file is served as if it were below the root.\<close>

theorem static_files_escape_root:
  assumes "rq_method (cx_request ctx) = KGet" and "rq_path (cx_request ctx) = so_prefix opts @ rest"
    and "\<not> fs_is_directory fs (path_join root rest)" and "fs_canonical fs (path_join root rest) = Some (root @ x # ext)"
    and "x \<noteq> CHR ''/''" and "fs_is_regular fs (root @ x # ext)" and "fs_stat fs (root @ x # ext) = Some (fsize, mtime)"
    and "fsize \<le> max_file_size opts" and "fs_read fs (root @ x # ext) = Some content" and "length content = unat fsize"
    and "GetHeader ''If-None-Match'' (cx_request ctx) = []"
  shows "\<not> starts_with (root @ x # ext) (root @ ''/'') \<and>
    rs_sent (cx_response (snd (StaticFiles_Process date fs root opts ctx handler))) \<and>
    rs_status (cx_response (snd (StaticFiles_Process date fs root opts ctx handler))) = KOk \<and>
    rs_body (cx_response (snd (StaticFiles_Process date fs root opts ctx handler))) = content"
  using assms leD [OF assms(8)]
  by (simp add: StaticFiles_Process_def serve_file_def upd_response_def Header_def Status_def Body_def ContentType_def
      MarkSent_def starts_with_def Let_def)

text \<open>A document root with a sibling directory whose name extends it.\<close>

definition www_fs :: file_system where
  "www_fs = \<lparr>
     fs_canonical = (\<lambda>p. if p = ''/srv/www'' then Some p else if p = ''/srv/www/../www-private/key'' then Some ''/srv/www-private/key'' else None),
     fs_is_directory = (\<lambda>p. p = ''/srv/www'' \<or> p = ''/srv/www-private''),
     fs_is_regular = (\<lambda>p. p = ''/srv/www-private/key''),
     fs_stat = (\<lambda>p. if p = ''/srv/www-private/key'' then Some (3, 0) else None),
     fs_read = (\<lambda>p. if p = ''/srv/www-private/key'' then Some ''abc'' else None),
     fs_time = (\<lambda>_. ''Thu, 01 Jan 1970 00:00:00 GMT'')\<rparr>"

definition www_options :: static_options where
  "www_options = \<lparr>so_root = ''/srv/www'', so_prefix = ''/'', enable_etag = True, enable_last_modified = True,
     so_max_age = 3600, index_files = [''index.html''], max_file_size = 52428800\<rparr>"

definition www_request :: "string \<Rightarrow> unit request_ctx" where
  "www_request path = \<lparr>cx_request = http_request_new\<lparr>rq_method := KGet, rq_path := path\<rparr>,
     cx_response = http_response_new True, cx_pool = buffer_pool_new 4096 4, cx_outbox = [], cx_session = ()\<rparr>"

theorem static_files_escape_root_witness:
  "rs_body (cx_response (snd (StaticFiles_Process [] www_fs ''/srv/www'' www_options
     (www_request ''/../www-private/key'') (\<lambda>c. (Inr (), c))))) = ''abc''"
  using static_files_escape_root [of "www_request ''/../www-private/key''" www_options "''../www-private/key''" www_fs
      "''/srv/www''" "CHR ''-''" "''private/key''" 3 0 "''abc''" "[]" "\<lambda>c. (Inr (), c)"]
  by (simp add: www_options_def www_fs_def www_request_def path_join_def GetHeader_def http_request_new_def)

end
