(* ===== verification/Http_Parser.thy ===== *)
theory Http_Parser
  imports Http_Message
begin

text \<open>
  The request parser (\<^verbatim>\<open>src/web/HttpParser.cpp\<close>), a set of callbacks around the llhttp library. The library
  is a parameter \<^verbatim>\<open>execute\<close>: from its state and some input it makes a sequence of callbacks and returns how
  it stopped. It reports texts in pieces as they arrive.
\<close>

section \<open>The library's interface\<close>

datatype ll_event = EvMessageBegin | EvUrl string | EvUrlComplete | EvHeaderField string | EvHeaderFieldComplete
  | EvHeaderValue string | EvHeaderValueComplete | EvHeadersComplete int bool | EvBody string | EvMessageComplete

text \<open>\<^verbatim>\<open>HPE_OK\<close>, \<^verbatim>\<open>HPE_PAUSED\<close> or another error, with the position where it stopped.\<close>

datatype ll_status = LlOk | LlPaused nat | LlError nat

type_synonym 'p llhttp = "'p \<Rightarrow> string \<Rightarrow> 'p \<times> ll_event list \<times> ll_status"

section \<open>State and callbacks\<close>

record ('p, 's) http_parser =
  hp_ll :: 'p
  hp_request :: http_request
  hp_field :: string
  hp_value :: string
  hp_raw_url :: string
  hp_error :: bool
  hp_on_request :: "(http_request \<Rightarrow> 's \<Rightarrow> bool \<times> http_request \<times> 's) option"

definition http_parser_new :: "'p \<Rightarrow> ('p, 's) http_parser" where
  "http_parser_new ll = \<lparr>hp_ll = ll, hp_request = http_request_new, hp_field = [], hp_value = [], hp_raw_url = [],
     hp_error = False, hp_on_request = None\<rparr>"

definition SetOnRequest ::
  "(http_request \<Rightarrow> 's \<Rightarrow> bool \<times> http_request \<times> 's) \<Rightarrow> ('p, 's) http_parser \<Rightarrow> ('p, 's) http_parser" where
  "SetOnRequest cb hp = hp\<lparr>hp_on_request := Some cb\<rparr>"

definition hp_Reset :: "'p \<Rightarrow> ('p, 's) http_parser \<Rightarrow> ('p, 's) http_parser" where
  "hp_Reset ll hp = hp\<lparr>hp_ll := ll, hp_request := rq_Clear (hp_request hp), hp_field := [], hp_value := [],
     hp_raw_url := [], hp_error := False\<rparr>"

definition ParseUrl :: "string \<Rightarrow> http_request \<Rightarrow> http_request" where
  "ParseUrl url req =
     (case find_char (CHR ''?'') url of
        Some qpos \<Rightarrow> req\<lparr>rq_path := take qpos url, rq_query := drop (qpos + 1) url\<rparr>
      | None \<Rightarrow> req\<lparr>rq_path := url, rq_query := []\<rparr>)"

definition OnMessageBegin :: "('p, 's) http_parser \<Rightarrow> ('p, 's) http_parser" where
  "OnMessageBegin hp = hp\<lparr>hp_request := rq_Clear (hp_request hp), hp_field := [], hp_value := [], hp_raw_url := []\<rparr>"

definition OnUrl :: "string \<Rightarrow> ('p, 's) http_parser \<Rightarrow> ('p, 's) http_parser" where
  "OnUrl at hp = hp\<lparr>hp_raw_url := hp_raw_url hp @ at\<rparr>"

definition OnUrlComplete :: "('p, 's) http_parser \<Rightarrow> ('p, 's) http_parser" where
  "OnUrlComplete hp = hp\<lparr>hp_request := ParseUrl (hp_raw_url hp) (hp_request hp)\<rparr>"

definition OnHeaderField :: "string \<Rightarrow> ('p, 's) http_parser \<Rightarrow> ('p, 's) http_parser" where
  "OnHeaderField at hp = hp\<lparr>hp_field := hp_field hp @ at\<rparr>"

definition OnHeaderValue :: "string \<Rightarrow> ('p, 's) http_parser \<Rightarrow> ('p, 's) http_parser" where
  "OnHeaderValue at hp = hp\<lparr>hp_value := hp_value hp @ at\<rparr>"

definition OnHeaderValueComplete :: "('p, 's) http_parser \<Rightarrow> ('p, 's) http_parser" where
  "OnHeaderValueComplete hp =
     hp\<lparr>hp_request := AddHeader (hp_field hp) (hp_value hp) (hp_request hp), hp_field := [], hp_value := []\<rparr>"

definition OnHeadersComplete :: "int \<Rightarrow> bool \<Rightarrow> ('p, 's) http_parser \<Rightarrow> ('p, 's) http_parser" where
  "OnHeadersComplete meth keep hp =
     hp\<lparr>hp_request := (hp_request hp)\<lparr>rq_method := HttpMethodFromLlhttp meth, rq_keep_alive := keep\<rparr>\<rparr>"

definition OnBody :: "string \<Rightarrow> ('p, 's) http_parser \<Rightarrow> ('p, 's) http_parser" where
  "OnBody at hp = hp\<lparr>hp_request := (hp_request hp)\<lparr>rq_body := rq_body (hp_request hp) @ at\<rparr>\<rparr>"

definition OnMessageComplete :: "('p, 's) http_parser \<times> 's \<Rightarrow> ('p, 's) http_parser \<times> 's" where
  "OnMessageComplete st =
     (case st of (hp, s) \<Rightarrow>
        (case hp_on_request hp of
           None \<Rightarrow> (hp, s)
         | Some cb \<Rightarrow>
             (case cb (hp_request hp) s of
                (cont, req, s') \<Rightarrow> (hp\<lparr>hp_request := req, hp_error := (if cont then hp_error hp else True)\<rparr>, s'))))"

fun on_event :: "ll_event \<Rightarrow> ('p, 's) http_parser \<times> 's \<Rightarrow> ('p, 's) http_parser \<times> 's" where
  "on_event EvMessageBegin (hp, s) = (OnMessageBegin hp, s)"
| "on_event (EvUrl at) (hp, s) = (OnUrl at hp, s)"
| "on_event EvUrlComplete (hp, s) = (OnUrlComplete hp, s)"
| "on_event (EvHeaderField at) (hp, s) = (OnHeaderField at hp, s)"
| "on_event EvHeaderFieldComplete (hp, s) = (hp, s)"
| "on_event (EvHeaderValue at) (hp, s) = (OnHeaderValue at hp, s)"
| "on_event EvHeaderValueComplete (hp, s) = (OnHeaderValueComplete hp, s)"
| "on_event (EvHeadersComplete meth keep) (hp, s) = (OnHeadersComplete meth keep hp, s)"
| "on_event (EvBody at) (hp, s) = (OnBody at hp, s)"
| "on_event EvMessageComplete (hp, s) = OnMessageComplete (hp, s)"

section \<open>Feeding input\<close>

text \<open>\<^verbatim>\<open>Feed\<close> loops while the library pauses after complete messages. It returns the number of bytes consumed.
  It does not return if the library keeps pausing without consuming anything.\<close>

partial_function (option) feed_loop ::
  "'p llhttp \<Rightarrow> nat \<Rightarrow> string \<Rightarrow> nat \<Rightarrow> ('p, 's) http_parser \<times> 's \<Rightarrow> (nat \<times> ('p, 's) http_parser \<times> 's) option" where
  "feed_loop execute len current pos st =
     (if current = [] \<or> hp_error (fst st) then Some (pos, st)
      else
        (case execute (hp_ll (fst st)) current of
           (ll, evs, status) \<Rightarrow>
             let st1 = fold on_event evs ((fst st)\<lparr>hp_ll := ll\<rparr>, snd st) in
             (case status of
                LlOk \<Rightarrow> Some (len, st1)
              | LlPaused consumed \<Rightarrow> feed_loop execute len (drop consumed current) (pos + consumed) st1
              | LlError at \<Rightarrow> Some (pos + at, ((fst st1)\<lparr>hp_error := True\<rparr>, snd st1)))))"

definition Feed :: "'p llhttp \<Rightarrow> string \<Rightarrow> ('p, 's) http_parser \<times> 's \<Rightarrow> (nat \<times> ('p, 's) http_parser \<times> 's) option" where
  "Feed execute data st = feed_loop execute (length data) data 0 st"

section \<open>Assembling a request\<close>

text \<open>A message as the library reports it: every text cut into any number of pieces.\<close>

definition header_events :: "string list \<times> string list \<Rightarrow> ll_event list" where
  "header_events h = map EvHeaderField (fst h) @ [EvHeaderFieldComplete] @ map EvHeaderValue (snd h) @ [EvHeaderValueComplete]"

definition message_events :: "string list \<Rightarrow> (string list \<times> string list) list \<Rightarrow> int \<Rightarrow> bool \<Rightarrow> string list \<Rightarrow> ll_event list" where
  "message_events url hs meth keep body =
     [EvMessageBegin] @ map EvUrl url @ [EvUrlComplete] @ concat (map header_events hs) @
     [EvHeadersComplete meth keep] @ map EvBody body @ [EvMessageComplete]"

text \<open>The request it stands for.\<close>

definition request_of :: "string \<Rightarrow> (string \<times> string) list \<Rightarrow> int \<Rightarrow> bool \<Rightarrow> string \<Rightarrow> http_request" where
  "request_of url hs meth keep body =
     (ParseUrl url http_request_new)\<lparr>rq_headers := hs, rq_method := HttpMethodFromLlhttp meth, rq_keep_alive := keep, rq_body := body\<rparr>"

lemma fold_url: "fold on_event (map EvUrl us) (hp, s) = (hp\<lparr>hp_raw_url := hp_raw_url hp @ concat us\<rparr>, s)"
  by (induction us arbitrary: hp) (simp_all add: OnUrl_def)

lemma fold_field: "fold on_event (map EvHeaderField us) (hp, s) = (hp\<lparr>hp_field := hp_field hp @ concat us\<rparr>, s)"
  by (induction us arbitrary: hp) (simp_all add: OnHeaderField_def)

lemma fold_value: "fold on_event (map EvHeaderValue us) (hp, s) = (hp\<lparr>hp_value := hp_value hp @ concat us\<rparr>, s)"
  by (induction us arbitrary: hp) (simp_all add: OnHeaderValue_def)

lemma fold_body:
  "fold on_event (map EvBody us) (hp, s) = (hp\<lparr>hp_request := (hp_request hp)\<lparr>rq_body := rq_body (hp_request hp) @ concat us\<rparr>\<rparr>, s)"
  by (induction us arbitrary: hp) (simp_all add: OnBody_def)

lemmas fold_texts = fold_url fold_field fold_value fold_body

lemma fold_headers:
  "hp_field hp = [] \<Longrightarrow> hp_value hp = [] \<Longrightarrow>
   fold on_event (concat (map header_events hs)) (hp, s) =
     (hp\<lparr>hp_request := (hp_request hp)\<lparr>rq_headers := rq_headers (hp_request hp) @
        map (\<lambda>h. (concat (fst h), concat (snd h))) hs\<rparr>\<rparr>, s)"
proof (induction hs arbitrary: hp)
  case (Cons h hs)
  have "fold on_event (header_events h) (hp, s) =
      (hp\<lparr>hp_request := AddHeader (concat (fst h)) (concat (snd h)) (hp_request hp)\<rparr>, s)"
    using Cons(2,3) by (simp add: header_events_def fold_texts OnHeaderValueComplete_def)
  then show ?case using Cons by (simp add: AddHeader_def)
qed simp

lemma ParseUrl_fields [simp]:
  "rq_headers (ParseUrl u r) = rq_headers r" "rq_body (ParseUrl u r) = rq_body r"
  by (simp_all add: ParseUrl_def split: option.splits)

lemma message_before_complete:
  "fold on_event ([EvMessageBegin] @ map EvUrl url @ [EvUrlComplete] @ concat (map header_events hs) @
     [EvHeadersComplete meth keep] @ map EvBody body) (hp, s) =
   (hp\<lparr>hp_request := request_of (concat url) (map (\<lambda>h. (concat (fst h), concat (snd h))) hs) meth keep (concat body),
       hp_field := [], hp_value := [], hp_raw_url := concat url\<rparr>, s)"
  by (simp add: fold_texts fold_headers OnMessageBegin_def OnUrlComplete_def OnHeadersComplete_def request_of_def
      rq_Clear_def http_request_new_def)

text \<open>C25: However the library cuts the URL, the header names and values and the body into pieces, and whatever
  request came before, the request handler is called once with exactly the message: the URL split at
  its first question mark, the headers in order, the whole body. It stops the parser exactly when it
  returns false.\<close>

theorem http_request_assembled:
  assumes "hp_on_request hp = Some cb"
    and "cb (request_of (concat url) (map (\<lambda>h. (concat (fst h), concat (snd h))) hs) meth keep (concat body)) s = (cont, req, s')"
  shows "case fold on_event (message_events url hs meth keep body) (hp, s) of
      (hp', t) \<Rightarrow> t = s' \<and> hp_request hp' = req \<and> hp_error hp' = (hp_error hp \<or> \<not> cont) \<and> hp_ll hp' = hp_ll hp"
proof -
  let ?before = "[EvMessageBegin] @ map EvUrl url @ [EvUrlComplete] @ concat (map header_events hs) @
       [EvHeadersComplete meth keep] @ map EvBody body"
  have "fold on_event (message_events url hs meth keep body) (hp, s) = on_event EvMessageComplete (fold on_event ?before (hp, s))"
    by (simp add: message_events_def)
  then show ?thesis using assms
    by (simp only: message_before_complete) (simp add: OnMessageComplete_def)
qed

theorem http_request_assembled_witness:
  "snd (fold on_event (message_events [''/a'', ''?x='', ''1''] [([''Ho'', ''st''], [''h''])] 1 True [''b'', ''c''])
     ((http_parser_new ())\<lparr>hp_on_request := Some (\<lambda>r s. (True, r, s @ [(rq_path r, rq_query r, rq_headers r, rq_body r)]))\<rparr>, [])) =
   [(''/a'', ''x=1'', [(''Host'', ''h'')], ''bc'')]"
  using http_request_assembled [of "(http_parser_new ())\<lparr>hp_on_request := Some (\<lambda>r s. (True, r, s @ [(rq_path r, rq_query r, rq_headers r, rq_body r)]))\<rparr>"
      "\<lambda>r s. (True, r, s @ [(rq_path r, rq_query r, rq_headers r, rq_body r)])" "[''/a'', ''?x='', ''1'']" "[([''Ho'', ''st''], [''h''])]" 1 True "[''b'', ''c'']" "[]"]
  by (simp add: request_of_def ParseUrl_def http_request_new_def split_beta)

section \<open>Termination\<close>

lemma feed_loop_returns:
  assumes "\<And>p d q evs n. d \<noteq> [] \<Longrightarrow> execute p d = (q, evs, LlPaused n) \<Longrightarrow> 0 < n \<and> n \<le> length d"
  shows "\<exists>n st'. feed_loop execute len current pos st = Some (n, st') \<and> (n \<le> pos + length current \<or> n = len \<or> hp_error (fst st'))"
proof (induction "length current" arbitrary: current pos st rule: less_induct)
  case less
  show ?case
  proof (cases "current = [] \<or> hp_error (fst st)")
    case True
    then show ?thesis by (subst feed_loop.simps) simp
  next
    case False
    obtain ll evs status where e: "execute (hp_ll (fst st)) current = (ll, evs, status)" by (metis prod_cases3)
    show ?thesis
    proof (cases status)
      case (LlPaused k)
      have k: "0 < k" "k \<le> length current" using assms [OF _ e [unfolded LlPaused]] False by blast+
      then have "length (drop k current) < length current" by simp
      then obtain n st' where "feed_loop execute len (drop k current) (pos + k) (fold on_event evs ((fst st)\<lparr>hp_ll := ll\<rparr>, snd st)) = Some (n, st')"
        "n \<le> pos + k + length (drop k current) \<or> n = len \<or> hp_error (fst st')" using less by blast
      then show ?thesis using False e LlPaused k by (subst feed_loop.simps) (simp add: Let_def)
    qed (use False e in \<open>subst feed_loop.simps, simp add: Let_def\<close>)+
  qed
qed

text \<open>C34: \<^verbatim>\<open>Feed\<close> always returns, provided the library consumes something before it pauses; if it does not flag
  an error it consumed at most what it was given.\<close>

theorem http_feed_terminates:
  assumes "\<And>p d q evs n. d \<noteq> [] \<Longrightarrow> execute p d = (q, evs, LlPaused n) \<Longrightarrow> 0 < n \<and> n \<le> length d"
  shows "\<exists>n hp s. Feed execute data st = Some (n, hp, s) \<and> (n \<le> length data \<or> hp_error hp)"
proof -
  obtain n st' where "feed_loop execute (length data) data 0 st = Some (n, st')"
    "n \<le> 0 + length data \<or> n = length data \<or> hp_error (fst st')"
    using feed_loop_returns [of execute "length data" data 0 st] assms by blast
  then show ?thesis unfolding Feed_def by (cases st') auto
qed

theorem http_feed_terminates_witness:
  "\<exists>n hp s. Feed (\<lambda>p d. (p, [EvMessageBegin, EvMessageComplete], LlPaused (min (length d) 3) :: ll_status)) ''abcdefg''
     (http_parser_new (), ()) = Some (n, hp, s) \<and> (n \<le> length ''abcdefg'' \<or> hp_error hp)"
  using http_feed_terminates [of "\<lambda>p d. (p, [EvMessageBegin, EvMessageComplete], LlPaused (min (length d) 3))" "''abcdefg''" "(http_parser_new (), ())"]
  by simp

end
