(* ===== verification/Ws_Handshake.thy ===== *)
theory Ws_Handshake
  imports Base64 Http_Message
begin

text \<open>
  The opening handshake of a WebSocket connection (\<^verbatim>\<open>src/web/ws/WsHandshake.cpp\<close>); \<^verbatim>\<open>sha1\<close> is the digest
  of the cryptography library.
\<close>

definition kMagicGuid :: string where
  "kMagicGuid = ''258EAFA5-E914-47DA-95CA-C5AB0DC85B11''"

definition CaseInsensitiveContains :: "string \<Rightarrow> string \<Rightarrow> bool" where
  "CaseInsensitiveContains haystack needle =
     (if length haystack < length needle then False
      else list_ex (\<lambda>i. list_all2 (\<lambda>x y. ToLower x = ToLower y) (take (length needle) (drop i haystack)) needle)
             [0..<length haystack - length needle + 1])"

definition ValidateUpgrade :: "http_request \<Rightarrow> bool" where
  "ValidateUpgrade req =
     (CaseInsensitiveContains (GetHeader ''Upgrade'' req) ''websocket'' \<and>
      CaseInsensitiveContains (GetHeader ''Connection'' req) ''upgrade'' \<and>
      GetHeader ''Sec-WebSocket-Version'' req = ''13'' \<and>
      GetHeader ''Sec-WebSocket-Key'' req \<noteq> [])"

definition ComputeAcceptKey :: "(bytes \<Rightarrow> bytes) \<Rightarrow> string \<Rightarrow> string" where
  "ComputeAcceptKey sha1 client_key = b64_std (sha1 (bytes_of (client_key @ kMagicGuid)))"

definition upgrade_response :: "string \<Rightarrow> string" where
  "upgrade_response accept_key =
     ''HTTP/1.1 101 Switching Protocols'' @ CRLF @ ''Upgrade: websocket'' @ CRLF @ ''Connection: Upgrade'' @ CRLF @
     ''Sec-WebSocket-Accept: '' @ accept_key @ CRLF @ CRLF"

definition BuildUpgradeResponse :: "string \<Rightarrow> buffer_pool \<Rightarrow> send_buffer option \<times> buffer_pool" where
  "BuildUpgradeResponse accept_key p = build_buffer (bytes_of (upgrade_response accept_key)) p"

section \<open>Lemmas\<close>

lemma list_all2_map_eq: "list_all2 (\<lambda>x y. f x = f y) xs ys \<longleftrightarrow> map f xs = map f ys"
proof (induction xs arbitrary: ys)
  case (Cons x xs)
  then show ?case by (cases ys) auto
qed simp

lemma contains_iff:
  "CaseInsensitiveContains haystack needle \<longleftrightarrow>
     (\<exists>pre mid post. haystack = pre @ mid @ post \<and> map ToLower mid = map ToLower needle)"
proof
  assume "CaseInsensitiveContains haystack needle"
  then obtain i where i: "list_all2 (\<lambda>x y. ToLower x = ToLower y) (take (length needle) (drop i haystack)) needle"
    by (simp only: CaseInsensitiveContains_def list_ex_iff split: if_splits) blast
  then have "map ToLower (take (length needle) (drop i haystack)) = map ToLower needle"
    by (simp only: list_all2_map_eq)
  moreover have "haystack = take i haystack @ take (length needle) (drop i haystack) @ drop (length needle) (drop i haystack)"
    by (simp only: append_take_drop_id)
  ultimately show "\<exists>pre mid post. haystack = pre @ mid @ post \<and> map ToLower mid = map ToLower needle" by blast
next
  assume "\<exists>pre mid post. haystack = pre @ mid @ post \<and> map ToLower mid = map ToLower needle"
  then obtain pre mid post where p: "haystack = pre @ mid @ post" "map ToLower mid = map ToLower needle" by blast
  then have len: "length mid = length needle" by (metis length_map)
  have "list_all2 (\<lambda>x y. ToLower x = ToLower y) mid needle"
    using p(2) by (simp only: list_all2_map_eq)
  then show "CaseInsensitiveContains haystack needle"
    using len by (auto simp: CaseInsensitiveContains_def list_ex_iff p(1) intro!: bexI [of _ "length pre"])
qed

text \<open>The accept key is the standard padded base64 text of the digest: decoding it gives the digest back.\<close>

lemma accept_key_decodes: "b64_decode (ComputeAcceptKey sha1 key) = Some (sha1 (bytes_of (key @ kMagicGuid)))"
  by (simp add: ComputeAcceptKey_def b64_std_decode)

end
