(* ===== verification/Http_Session.thy ===== *)
theory Http_Session
  imports Http_Parser Ws_Handshake Ws_Builder Session_IO Recv_Buffer Routing
begin

text \<open>
  A web connection (\<^verbatim>\<open>src/web/HttpSession.cpp\<close>) and the server's route registration (\<^verbatim>\<open>src/web/WebServer.cpp\<close>):
  received bytes go to the request parser or, after an upgrade, to the frame parser; requests are dispatched
  through the router; answers leave through the connection's send queue. What a WebSocket handler does is
  a list of calls of the session's interface. The buffers a response produces during a dispatch are sent when
  the dispatch ends.
\<close>

section \<open>State\<close>

datatype hs_mode = ModeHttp | ModeWebSocket

datatype hs_call = CSendText bytes | CSendBinary bytes | CSendPing bytes | CWsClose u16 bytes | CDisconnect

record 'h ws_handler =
  h_state :: 'h
  h_OnOpen :: "'h \<Rightarrow> hs_call list \<times> 'h"
  h_OnMessage :: "bytes \<Rightarrow> bool \<Rightarrow> 'h \<Rightarrow> hs_call list \<times> 'h"
  h_OnClose :: "u16 \<Rightarrow> bytes \<Rightarrow> 'h \<Rightarrow> hs_call list \<times> 'h"

text \<open>A null buffer can be passed to \<^verbatim>\<open>Send\<close>; the queue holds optional buffers.\<close>

record 'h http_session =
  hs_io :: "send_buffer option session"
  hs_pool :: buffer_pool
  hs_recv_buf :: recv_buffer
  hs_mode :: hs_mode
  hs_ws_parser :: ws_parser
  hs_ws_handler :: "'h ws_handler option"

definition hs_Send :: "send_buffer option \<Rightarrow> 'h http_session \<Rightarrow> 'h http_session" where
  "hs_Send b hs = hs\<lparr>hs_io := snd (Send b (hs_io hs))\<rparr>"

definition hs_Disconnect :: "'h http_session \<Rightarrow> 'h http_session" where
  "hs_Disconnect hs = hs\<lparr>hs_io := Disconnect (hs_io hs)\<rparr>"

definition SendResponse :: "send_buffer option \<Rightarrow> 'h http_session \<Rightarrow> 'h http_session" where
  "SendResponse b hs = hs_Send b hs"

section \<open>WebSocket side\<close>

text \<open>\<^verbatim>\<open>auto buf = BuildWsFrame(...); if (buf) Send(std::move(buf))\<close>.\<close>

definition send_frame :: "u8 \<Rightarrow> bytes \<Rightarrow> 'h http_session \<Rightarrow> 'h http_session" where
  "send_frame opcode payload hs =
     (case BuildWsFrame opcode payload (hs_pool hs) of
        (None, p) \<Rightarrow> hs\<lparr>hs_pool := p\<rparr>
      | (Some b, p) \<Rightarrow> hs_Send (Some b) (hs\<lparr>hs_pool := p\<rparr>))"

definition SendText :: "bytes \<Rightarrow> 'h http_session \<Rightarrow> 'h http_session" where
  "SendText message hs = send_frame kText message hs"

definition SendBinary :: "bytes \<Rightarrow> 'h http_session \<Rightarrow> 'h http_session" where
  "SendBinary data hs = send_frame kBinary data hs"

definition SendPing :: "bytes \<Rightarrow> 'h http_session \<Rightarrow> 'h http_session" where
  "SendPing payload hs = send_frame kPing payload hs"

definition close_payload :: "u16 \<Rightarrow> bytes \<Rightarrow> bytes" where
  "close_payload code reason = [ucast (drop_bit 8 code AND 0xFF), ucast (code AND 0xFF)] @ reason"

definition WsClose :: "u16 \<Rightarrow> bytes \<Rightarrow> 'h http_session \<Rightarrow> 'h http_session" where
  "WsClose code reason hs = send_frame kClose (close_payload code reason) hs"

fun hs_run :: "hs_call \<Rightarrow> 'h http_session \<Rightarrow> 'h http_session" where
  "hs_run (CSendText m) hs = SendText m hs"
| "hs_run (CSendBinary d) hs = SendBinary d hs"
| "hs_run (CSendPing p) hs = SendPing p hs"
| "hs_run (CWsClose code reason) hs = WsClose code reason hs"
| "hs_run CDisconnect hs = hs_Disconnect hs"

text \<open>A call of the handler: its answer is run on the session.\<close>

definition with_handler :: "('h ws_handler \<Rightarrow> hs_call list \<times> 'h) \<Rightarrow> 'h http_session \<Rightarrow> 'h http_session" where
  "with_handler f hs =
     (case hs_ws_handler hs of
        None \<Rightarrow> hs
      | Some h \<Rightarrow>
          (case f h of (calls, st) \<Rightarrow> fold hs_run calls (hs\<lparr>hs_ws_handler := Some (h\<lparr>h_state := st\<rparr>)\<rparr>)))"

definition close_code :: "bytes \<Rightarrow> u16" where
  "close_code payload = (if 2 \<le> length payload then push_bit 8 (ucast (payload ! 0)) OR ucast (payload ! 1) else 1000)"

definition close_reason :: "bytes \<Rightarrow> bytes" where
  "close_reason payload = (if 2 < length payload then drop 2 payload else [])"

definition on_frame :: "u8 \<Rightarrow> bytes \<Rightarrow> 'h http_session \<Rightarrow> 'h http_session" where
  "on_frame opcode payload hs =
     (if opcode = kText \<or> opcode = kBinary
      then with_handler (\<lambda>h. h_OnMessage h payload (opcode = kText) (h_state h)) hs
      else if opcode = kPing then send_frame kPong payload hs
      else if opcode = kPong then hs
      else if opcode = kClose
      then hs_Disconnect (send_frame kClose payload
             (with_handler (\<lambda>h. h_OnClose h (close_code payload) (close_reason payload) (h_state h)) hs))
      else hs)"

fun on_ws_event :: "ws_event \<Rightarrow> 'h http_session \<Rightarrow> 'h http_session" where
  "on_ws_event (ws_event.OnFrame opcode payload) hs = on_frame opcode payload hs"
| "on_ws_event (ws_event.OnError msg) hs = hs"

text \<open>\<^verbatim>\<open>ws_parser_.Feed\<close> with the frame callback installed: the frames it delivers are handled in order.\<close>

definition feed_ws :: "bytes \<Rightarrow> 'h http_session \<Rightarrow> nat \<times> 'h http_session" where
  "feed_ws data hs =
     (case ws_Feed data (hs_ws_parser hs) of
        (w, consumed) \<Rightarrow>
          (consumed, fold on_ws_event (drop (length (ws_log (hs_ws_parser hs))) (ws_log w)) (hs\<lparr>hs_ws_parser := w\<rparr>)))"

definition UpgradeToWebSocket :: "'h ws_handler \<Rightarrow> 'h http_session \<Rightarrow> 'h http_session" where
  "UpgradeToWebSocket handler hs =
     with_handler (\<lambda>h. h_OnOpen h (h_state h)) (hs\<lparr>hs_mode := ModeWebSocket, hs_ws_handler := Some handler\<rparr>)"

definition drop_read :: "nat \<Rightarrow> 'h http_session \<Rightarrow> 'h http_session" where
  "drop_read consumed hs =
     (let rb = OnRead (of_nat consumed) (hs_recv_buf hs)
      in hs\<lparr>hs_recv_buf := (if ShouldCompact rb then Compact rb else rb)\<rparr>)"

definition HandleWsRecv :: "bytes \<Rightarrow> 'h http_session \<Rightarrow> 'h http_session" where
  "HandleWsRecv data hs =
     (if IsEmpty (hs_recv_buf hs)
      then
        let hs1 = snd (feed_ws data hs)
        in if ws_error (hs_ws_parser hs1) then hs_Disconnect hs1 else hs1
      else
        (case Append data (hs_recv_buf hs) of
           (Inl _, rb) \<Rightarrow> hs_Disconnect (hs\<lparr>hs_recv_buf := rb\<rparr>)
         | (Inr _, rb) \<Rightarrow>
             (case feed_ws (ReadRegion rb) (hs\<lparr>hs_recv_buf := rb\<rparr>) of
                (consumed, hs1) \<Rightarrow>
                  let hs2 = drop_read consumed hs1
                  in if ws_error (hs_ws_parser hs2) then hs_Disconnect hs2 else hs2)))"

section \<open>HTTP side\<close>

text \<open>The router's handlers are actions whose session part is this record.\<close>

definition HandleRequest :: "string \<Rightarrow> 'h http_session action rnode \<Rightarrow> http_request \<Rightarrow> 'h http_session \<Rightarrow>
    bool \<times> http_request \<times> 'h http_session" where
  "HandleRequest date router req hs =
     (let ctx = \<lparr>cx_request = req, cx_response = KeepAlive (rq_keep_alive req) (http_response_new True),
                 cx_pool = hs_pool hs, cx_outbox = [], cx_session = hs\<rparr>;
          ctx1 = Dispatch date router ctx;
          ctx2 = (if rs_sent (cx_response ctx1) then ctx1 else response_send date ctx1);
          hs1 = fold (\<lambda>b. hs_Send (Some b)) (cx_outbox ctx2) ((cx_session ctx2)\<lparr>hs_pool := cx_pool ctx2\<rparr>)
      in if \<not> rq_keep_alive (cx_request ctx2) then (False, cx_request ctx2, hs_Disconnect hs1)
         else (True, cx_request ctx2, hs1))"

definition bad_request :: "string \<Rightarrow> 'h http_session \<Rightarrow> 'h http_session" where
  "bad_request date hs =
     (case Build date (KeepAlive False (Body ''Bad Request'' (ContentType ''text/plain'' (Status KBadRequest (http_response_new False))))) (hs_pool hs) of
        (b, p) \<Rightarrow>
          hs_Disconnect ((case b of None \<Rightarrow> (\<lambda>h. h) | Some _ \<Rightarrow> hs_Send b) (hs\<lparr>hs_pool := p\<rparr>)))"

text \<open>\<^verbatim>\<open>execute\<close> is the llhttp library; the parser's callback is \<^verbatim>\<open>HandleRequest\<close>.\<close>

definition HandleHttpRecv :: "'p llhttp \<Rightarrow> string \<Rightarrow> bytes \<Rightarrow> ('p, 'h http_session) http_parser \<times> 'h http_session \<Rightarrow>
    (('p, 'h http_session) http_parser \<times> 'h http_session) option" where
  "HandleHttpRecv execute date data st =
     (case st of (hp, hs) \<Rightarrow>
        if IsEmpty (hs_recv_buf hs)
        then
          (case Feed execute (string_of data) (hp, hs) of
             None \<Rightarrow> None
           | Some (consumed, hp1, hs1) \<Rightarrow>
               if hp_error hp1 then Some (hp1, bad_request date hs1)
               else if consumed < length data
               then
                 (case Append (drop consumed data) (hs_recv_buf hs1) of
                    (Inl _, rb) \<Rightarrow> Some (hp1, hs_Disconnect (hs1\<lparr>hs_recv_buf := rb\<rparr>))
                  | (Inr _, rb) \<Rightarrow> Some (hp1, hs1\<lparr>hs_recv_buf := rb\<rparr>))
               else Some (hp1, hs1))
        else
          (case Append data (hs_recv_buf hs) of
             (Inl _, rb) \<Rightarrow> Some (hp, hs_Disconnect (hs\<lparr>hs_recv_buf := rb\<rparr>))
           | (Inr _, rb) \<Rightarrow>
               (case Feed execute (string_of (ReadRegion rb)) (hp, hs\<lparr>hs_recv_buf := rb\<rparr>) of
                  None \<Rightarrow> None
                | Some (consumed, hp1, hs1) \<Rightarrow>
                    if hp_error hp1 then Some (hp1, bad_request date hs1)
                    else Some (hp1, drop_read consumed hs1))))"

definition hs_OnRecv :: "'p llhttp \<Rightarrow> string \<Rightarrow> bytes \<Rightarrow> ('p, 'h http_session) http_parser \<times> 'h http_session \<Rightarrow>
    (('p, 'h http_session) http_parser \<times> 'h http_session) option" where
  "hs_OnRecv execute date data st =
     (if hs_mode (snd st) = ModeHttp then HandleHttpRecv execute date data st
      else Some (fst st, HandleWsRecv data (snd st)))"

definition http_session_new :: "'p \<Rightarrow> string \<Rightarrow> 'h http_session action rnode \<Rightarrow> send_buffer option session \<Rightarrow> buffer_pool \<Rightarrow> u32 \<Rightarrow>
    ('p, 'h http_session) http_parser \<times> 'h http_session" where
  "http_session_new ll date router io pool cap =
     (SetOnRequest (HandleRequest date router) (http_parser_new ll),
      \<lparr>hs_io = io, hs_pool = pool, hs_recv_buf = recv_buffer_new cap, hs_mode = ModeHttp,
       hs_ws_parser = ws_parser_new, hs_ws_handler = None\<rparr>)"

section \<open>Server routes\<close>

record 'h web_server =
  srv_router :: "'h http_session action rnode"
  srv_middlewares :: "'h http_session middleware list"

definition srv_Use :: "'h http_session middleware \<Rightarrow> 'h web_server \<Rightarrow> 'h web_server" where
  "srv_Use mw srv = srv\<lparr>srv_middlewares := srv_middlewares srv @ [mw]\<rparr>"

definition srv_Route :: "http_method \<Rightarrow> string \<Rightarrow> 'h http_session action \<Rightarrow> 'h web_server \<Rightarrow> 'h web_server" where
  "srv_Route m path h srv =
     (if srv_middlewares srv \<noteq> []
      then srv\<lparr>srv_router := Route m path (pipeline_Execute (srv_middlewares srv) h) (srv_router srv)\<rparr>
      else srv\<lparr>srv_router := Route m path h (srv_router srv)\<rparr>)"

definition websocket_action :: "string \<Rightarrow> (bytes \<Rightarrow> bytes) \<Rightarrow> 'h ws_handler \<Rightarrow> 'h http_session action" where
  "websocket_action date sha1 handler ctx =
     (if \<not> ValidateUpgrade (cx_request ctx)
      then (Inr (), response_send date (ctx\<lparr>cx_response := Body ''WebSocket upgrade required'' (Status KBadRequest (cx_response ctx))\<rparr>))
      else
        (case BuildUpgradeResponse (ComputeAcceptKey sha1 (GetHeader ''Sec-WebSocket-Key'' (cx_request ctx))) (cx_pool ctx) of
           (buf, p) \<Rightarrow>
             let hs = UpgradeToWebSocket handler (SendResponse buf ((cx_session ctx)\<lparr>hs_pool := p\<rparr>))
             in (Inr (), ctx\<lparr>cx_response := MarkSent (cx_response ctx), cx_session := hs, cx_pool := hs_pool hs\<rparr>)))"

definition srv_WebSocket :: "string \<Rightarrow> (bytes \<Rightarrow> bytes) \<Rightarrow> string \<Rightarrow> 'h ws_handler \<Rightarrow> 'h web_server \<Rightarrow> 'h web_server" where
  "srv_WebSocket date sha1 path handler srv = srv_Route KGet path (websocket_action date sha1 handler) srv"

definition srv_Group :: "string \<Rightarrow> 'h web_server \<Rightarrow> 'h http_session route_group" where
  "srv_Group pre srv = \<lparr>rg_prefix = pre, rg_global = srv_middlewares srv, rg_group = []\<rparr>"

section \<open>Lemmas\<close>

text \<open>A close frame sent with \<^verbatim>\<open>WsClose\<close> is read back with its code and reason.\<close>

lemma close_roundtrip: "close_code (close_payload code reason) = code" "close_reason (close_payload code reason) = reason"
proof -
  have m: "(0xFF :: u16) = mask 8" by (simp add: mask_eq_exp_minus_1)
  have "push_bit 8 (ucast (ucast (drop_bit 8 code AND mask 8) :: u8)) OR ucast (ucast (code AND mask 8) :: u8) = code"
    by (rule bit_eqI) (auto simp: bit_simps)
  then show "close_code (close_payload code reason) = code" by (simp add: close_code_def close_payload_def m)
qed (simp add: close_reason_def close_payload_def)

lemma TryRelease_disconnecting [simp]: "ss_disconnecting (TryRelease s) = ss_disconnecting s"
  by (simp add: TryRelease_def)

lemma get_sqe_disconnecting [simp]: "ss_disconnecting (snd (get_sqe s)) = ss_disconnecting s"
  by (simp add: get_sqe_def split: list.splits)

lemma Disconnect_disconnecting: "ss_disconnecting (Disconnect s)"
  by (simp add: Disconnect_def Let_def)

text \<open>After a close frame, and after the answer to a request that is not kept alive, the connection is shutting
  down; the parser's loop is told to stop.\<close>

lemma close_frame_disconnects: "ss_disconnecting (hs_io (on_frame kClose payload hs))"
  by (simp add: on_frame_def hs_Disconnect_def Disconnect_disconnecting)

lemma HandleRequest_close:
  assumes "HandleRequest date router req hs = (cont, req', hs')"
  shows "cont = rq_keep_alive req'" and "\<not> cont \<Longrightarrow> ss_disconnecting (hs_io hs')"
  using assms by (auto simp: HandleRequest_def Let_def hs_Disconnect_def Disconnect_disconnecting split: if_splits)

text \<open>A disconnecting session accepts no further buffer: the second answer that \<^verbatim>\<open>bad_request\<close> attempts after a
  request that ended the connection goes nowhere.\<close>

lemma Send_disconnecting: "ss_disconnecting s \<Longrightarrow> Send b s = (Inl KDisconnected, s)"
  by (simp add: Send_def)

lemma bad_request_silent:
  assumes "ss_disconnecting (hs_io hs)"
  shows "ss_accepted (hs_io (bad_request date hs)) = ss_accepted (hs_io hs)"
  using assms
  by (auto simp: bad_request_def hs_Send_def hs_Disconnect_def Send_disconnecting Disconnect_def split: prod.splits option.splits)

end
