(* ===== verification/Upstream.thy ===== *)
theory Upstream
  imports Http_Session
begin

text \<open>
  The client side of the proxy (\<^verbatim>\<open>src/web/UpstreamSession.cpp\<close>, \<^verbatim>\<open>src/web/UpstreamPool.cpp\<close>): one connection
  per forwarded request, which resolves, connects, sends the request, reads until the response is complete
  and reports one outcome. Name resolution, sockets and the texts of error numbers come from a \<^verbatim>\<open>net_env\<close>;
  as in \<^verbatim>\<open>Session_IO\<close>, the answers of \<^verbatim>\<open>GetSqe\<close> are part of the state and the operations the kernel owes a
  completion for are listed in \<^verbatim>\<open>up_armed\<close>.
\<close>

section \<open>Reading a response\<close>

text \<open>\<^verbatim>\<open>std::from_chars\<close> into an \<^verbatim>\<open>int\<close>, on texts too short to overflow.\<close>

definition from_chars_int :: "string \<Rightarrow> int option" where
  "from_chars_int s =
     (let neg = (s \<noteq> [] \<and> hd s = CHR ''-''); t = (if neg then tl s else s) in
      if t = [] \<or> digit_val (hd t) = None then None
      else Some (if neg then - int (fst (read_digits 0 t)) else int (fst (read_digits 0 t))))"

definition header_entry :: "string \<Rightarrow> (string \<times> string) list" where
  "header_entry line =
     (case find_char (CHR '':'') line of
        None \<Rightarrow> []
      | Some colon \<Rightarrow> [(take colon line, dropWhile (\<lambda>c. c = CHR '' '') (drop (colon + 1) line))])"

function headers_loop :: "string \<Rightarrow> nat \<Rightarrow> nat \<Rightarrow> (string \<times> string) list" where
  "headers_loop data header_end pos =
     (if header_end \<le> pos then []
      else case find_sub_from CRLF pos data of
             None \<Rightarrow> []
           | Some line_end \<Rightarrow>
               if line_end > header_end then []
               else header_entry (substr pos (line_end - pos) data) @ headers_loop data header_end (line_end + 2))"
  by pat_completeness auto
termination
  by (relation "measure (\<lambda>(data, header_end, pos). header_end - pos)") (auto simp: find_sub_from_def split: if_splits)

declare headers_loop.simps [simp del]

definition parse_response :: "string \<Rightarrow> string + int \<times> (string \<times> string) list \<times> string" where
  "parse_response data =
     (case find_sub (CRLF @ CRLF) data of
        None \<Rightarrow> Inl ''malformed response: no header terminator''
      | Some header_end \<Rightarrow>
          (case find_sub CRLF data of
             None \<Rightarrow> Inl ''malformed response: no status line''
           | Some status_line_end \<Rightarrow>
               (case find_char (CHR '' '') (take status_line_end data) of
                  None \<Rightarrow> Inl ''malformed status line''
                | Some sp1 \<Rightarrow>
                    (case from_chars_int (substr (sp1 + 1) 3 data) of
                       None \<Rightarrow> Inl ''malformed status code''
                     | Some status \<Rightarrow>
                         Inr (status, headers_loop data header_end (status_line_end + 2), drop (header_end + 4) data)))))"

text \<open>The test in \<^verbatim>\<open>OnRecv\<close> whether the response has arrived completely.\<close>

definition chunked_complete :: "string \<Rightarrow> bool" where
  "chunked_complete data =
     ((find_sub ''Transfer-Encoding: chunked'' data \<noteq> None \<or> find_sub ''transfer-encoding: chunked'' data \<noteq> None) \<and>
      find_sub (CRLF @ ''0'' @ CRLF @ CRLF) data \<noteq> None)"

definition length_complete :: "string \<Rightarrow> nat \<Rightarrow> nat \<Rightarrow> bool" where
  "length_complete data header_end cl_pos =
     (let val_start = cl_pos + 15 + length (takeWhile (\<lambda>c. c = CHR '' '') (substr (cl_pos + 15) (header_end - (cl_pos + 15)) data));
          val_end = (case find_sub_from CRLF val_start data of
                       None \<Rightarrow> header_end | Some e \<Rightarrow> if e > header_end then header_end else e) in
      case from_chars_u64 (substr val_start (val_end - val_start) data) of
        None \<Rightarrow> False
      | Some content_length \<Rightarrow> of_nat (header_end + 4) + content_length \<le> of_nat (length data))"

definition response_complete :: "string \<Rightarrow> bool" where
  "response_complete data =
     (case find_sub (CRLF @ CRLF) data of
        None \<Rightarrow> False
      | Some header_end \<Rightarrow>
          (case (case find_sub ''Content-Length:'' data of
                   None \<Rightarrow> find_sub ''content-length:'' data | Some p \<Rightarrow> Some p) of
             None \<Rightarrow> chunked_complete data
           | Some cl_pos \<Rightarrow>
               if cl_pos < header_end then length_complete data header_end cl_pos else chunked_complete data))"

section \<open>UpstreamSession\<close>

datatype up_outcome = UpResponse int "(string \<times> string) list" string | UpError string

datatype up_op = UpConnecting | UpSending bytes | UpReceiving

record upstream =
  up_fd :: int
  up_connected :: bool
  up_pending_request :: string
  up_recv_buffer :: string
  up_callbacks :: bool
  up_send_buf :: "send_buffer option"
  up_self_ref :: bool
  up_outcomes :: "up_outcome list"
  up_closed :: "int list"
  up_returned :: "u16 list"
  up_sqes :: "bool list"
  up_armed :: "up_op list"

definition upstream_new :: "bool list \<Rightarrow> upstream" where
  "upstream_new sqes = \<lparr>up_fd = -1, up_connected = False, up_pending_request = [], up_recv_buffer = [],
     up_callbacks = False, up_send_buf = None, up_self_ref = False, up_outcomes = [], up_closed = [],
     up_returned = [], up_sqes = sqes, up_armed = []\<rparr>"

record net_env =
  ne_getaddrinfo :: "string \<Rightarrow> string \<Rightarrow> int \<times> bool"
  ne_gai_strerror :: "int \<Rightarrow> string"
  ne_socket :: "int + int"
  ne_strerror :: "int \<Rightarrow> string"

definition up_get_sqe :: "upstream \<Rightarrow> bool \<times> upstream" where
  "up_get_sqe s = (case up_sqes s of [] \<Rightarrow> (True, s) | b # bs \<Rightarrow> (b, s\<lparr>up_sqes := bs\<rparr>))"

definition up_error :: "string \<Rightarrow> upstream \<Rightarrow> upstream" where
  "up_error err s = (if up_callbacks s then s\<lparr>up_outcomes := up_outcomes s @ [UpError err]\<rparr> else s)"

definition up_Close :: "upstream \<Rightarrow> upstream" where
  "up_Close s =
     (let s1 = (if up_fd s \<ge> 0 then s\<lparr>up_closed := up_closed s @ [up_fd s], up_fd := -1\<rparr> else s) in
      s1\<lparr>up_connected := False, up_pending_request := [], up_callbacks := False, up_self_ref := False\<rparr>)"

text \<open>Prepare an operation and submit it; when the submission queue is full, report and close.\<close>

definition up_submit :: "up_op \<Rightarrow> string \<Rightarrow> upstream \<Rightarrow> upstream" where
  "up_submit what err s =
     (case up_get_sqe s of
        (False, s1) \<Rightarrow> up_Close (up_error err s1)
      | (True, s1) \<Rightarrow> s1\<lparr>up_armed := up_armed s1 @ [what]\<rparr>)"

definition up_Connect :: "net_env \<Rightarrow> string \<Rightarrow> u16 \<Rightarrow> string \<Rightarrow> upstream \<Rightarrow> upstream" where
  "up_Connect env host port request_bytes s0 =
     (let s = s0\<lparr>up_pending_request := request_bytes, up_callbacks := True, up_recv_buffer := [], up_self_ref := True\<rparr>;
          port_str = show_nat (unat port) in
      case ne_getaddrinfo env host port_str of (ret, found) \<Rightarrow>
        if ret \<noteq> 0 \<or> \<not> found
        then (up_error (''getaddrinfo failed for '' @ host @ '':'' @ port_str @ '': '' @ ne_gai_strerror env ret) s)
               \<lparr>up_self_ref := False\<rparr>
        else case ne_socket env of
               Inl errno \<Rightarrow>
                 (up_error (''socket() failed: '' @ ne_strerror env errno) (s\<lparr>up_fd := -1\<rparr>))\<lparr>up_self_ref := False\<rparr>
             | Inr fd \<Rightarrow> up_submit UpConnecting ''PrepConnect failed: SQE ring full'' (s\<lparr>up_fd := fd\<rparr>))"

definition SendRequest :: "upstream \<times> buffer_pool \<Rightarrow> upstream \<times> buffer_pool" where
  "SendRequest st =
     (case st of (s, p) \<Rightarrow>
        case build_buffer (bytes_of (up_pending_request s)) p of
          (None, p') \<Rightarrow> (up_Close (up_error ''failed to allocate send buffer'' s), p')
        | (Some sb, p') \<Rightarrow>
            (up_submit (UpSending (sb_Data p' sb)) ''PrepSendMsg failed: SQE ring full''
               (s\<lparr>up_send_buf := Some sb, up_pending_request := []\<rparr>), p'))"

definition up_OnConnect :: "net_env \<Rightarrow> int \<Rightarrow> upstream \<times> buffer_pool \<Rightarrow> upstream \<times> buffer_pool" where
  "up_OnConnect env result st =
     (case st of (s, p) \<Rightarrow>
        if result < 0
        then (up_Close (up_error (''connect failed: '' @ ne_strerror env (- result)) s), p)
        else SendRequest (s\<lparr>up_connected := True\<rparr>, p))"

definition StartRecv :: "upstream \<Rightarrow> upstream" where
  "StartRecv s = up_submit UpReceiving ''PrepRecv failed: SQE ring full'' s"

definition up_OnSend :: "net_env \<Rightarrow> bool \<Rightarrow> int \<Rightarrow> upstream \<times> buffer_pool \<Rightarrow> upstream \<times> buffer_pool" where
  "up_OnSend env contended result st =
     (case st of (s, p) \<Rightarrow>
        let p' = (case up_send_buf s of None \<Rightarrow> p | Some sb \<Rightarrow> OnRelease contended sb p);
            s1 = s\<lparr>up_send_buf := None\<rparr> in
        if result < 0
        then (up_Close (up_error (''send failed: '' @ ne_strerror env (- result)) s1), p')
        else (StartRecv s1, p'))"

definition ParseResponse :: "upstream \<Rightarrow> upstream" where
  "ParseResponse s =
     (case parse_response (up_recv_buffer s) of
        Inl err \<Rightarrow> up_error err s
      | Inr (status, headers, body) \<Rightarrow>
          if up_callbacks s then s\<lparr>up_outcomes := up_outcomes s @ [UpResponse status headers body]\<rparr> else s)"

text \<open>\<^verbatim>\<open>buf\<close> is the provided buffer of the completion, if it has one: its id and the bytes in view.\<close>

definition up_OnRecv :: "net_env \<Rightarrow> int \<Rightarrow> (u16 \<times> string) option \<Rightarrow> upstream \<Rightarrow> upstream" where
  "up_OnRecv env result buf s0 =
     (let s = (case buf of
                 None \<Rightarrow> s0
               | Some (buf_id, view) \<Rightarrow>
                   s0\<lparr>up_recv_buffer := (if result > 0 then up_recv_buffer s0 @ view else up_recv_buffer s0),
                      up_returned := up_returned s0 @ [buf_id]\<rparr>) in
      if result = 0 then up_Close (ParseResponse s)
      else if result < 0 then up_Close (up_error (''recv failed: '' @ ne_strerror env (- result)) s)
      else if response_complete (up_recv_buffer s) then up_Close (ParseResponse s)
      else StartRecv s)"

section \<open>UpstreamPool\<close>

record upstream_target =
  ut_host :: string
  ut_port :: u16

definition target_Key :: "upstream_target \<Rightarrow> string" where
  "target_Key t = ut_host t @ '':'' @ show_nat (unat (ut_port t))"

record upstream_pool =
  pl_active :: u64
  pl_sessions :: "upstream list"

definition upstream_pool_new :: upstream_pool where
  "upstream_pool_new = \<lparr>pl_active = 0, pl_sessions = []\<rparr>"

text \<open>The wrapped callbacks count the session out when they have run.\<close>

definition count_out :: "upstream \<Rightarrow> upstream \<Rightarrow> u64 \<Rightarrow> u64" where
  "count_out s s' active = active - of_nat (length (up_outcomes s') - length (up_outcomes s))"

definition Forward :: "net_env \<Rightarrow> bool list \<Rightarrow> upstream_target \<Rightarrow> string \<Rightarrow> upstream_pool \<Rightarrow> upstream_pool" where
  "Forward env sqes target request_bytes pl =
     (let s = upstream_new sqes; s' = up_Connect env (ut_host target) (ut_port target) request_bytes s in
      pl\<lparr>pl_active := count_out s s' (pl_active pl + 1), pl_sessions := pl_sessions pl @ [s']\<rparr>)"

definition IdleCount :: "string \<Rightarrow> upstream_pool \<Rightarrow> u64" where
  "IdleCount key pl = 0"

definition ActiveCount :: "upstream_pool \<Rightarrow> u64" where
  "ActiveCount pl = pl_active pl"

section \<open>Reading back a written response\<close>

text \<open>A header field whose name and value survive a line-based reader.\<close>

definition header_clean :: "string \<times> string \<Rightarrow> bool" where
  "header_clean h = (CHR 0x0D \<notin> set (fst h) \<and> CHR 0x0D \<notin> set (snd h) \<and> CHR '':'' \<notin> set (fst h) \<and>
     (snd h = [] \<or> hd (snd h) \<noteq> CHR '' ''))"

lemma find_crlf: "CHR 0x0D \<notin> set s \<Longrightarrow> find_sub CRLF (s @ CRLF @ u) = Some (length s)"
  by (induction s) (auto simp: CRLF_def)

lemma find_crlf_from:
  assumes "CHR 0x0D \<notin> set s"
  shows "find_sub_from CRLF (length pre) (pre @ s @ CRLF @ u) = Some (length pre + length s)"
  using find_crlf [OF assms] by (simp add: find_sub_from_def)

lemma header_entry_line: "header_clean (n, v) \<Longrightarrow> header_entry (n @ '': '' @ v) = [(n, v)]"
  by (cases v) (auto simp: header_entry_def header_clean_def find_char_here)

lemma headers_loop_lines:
  assumes "list_all header_clean hs" and "he + 2 = length pre + length (concat (map header_line hs))"
  shows "headers_loop (pre @ concat (map header_line hs) @ rest) he (length pre) = hs"
  using assms
proof (induction hs arbitrary: pre)
  case Nil
  then show ?case by (simp add: headers_loop.simps)
next
  case (Cons h hs)
  obtain n v where h: "h = (n, v)" by fastforce
  let ?l = "n @ '': '' @ v" and ?rest = "concat (map header_line hs) @ rest"
  have line: "header_line h = ?l @ CRLF" by (simp add: h header_line_def)
  have "CHR 0x0D \<notin> set ?l" using Cons.prems by (auto simp: h header_clean_def)
  then have end_: "find_sub_from CRLF (length pre) (pre @ ?l @ CRLF @ ?rest) = Some (length pre + length ?l)"
    by (rule find_crlf_from)
  have le: "length pre < he" "length pre + length ?l \<le> he"
    using Cons.prems(2) by (simp_all add: line CRLF_def)
  have rest: "headers_loop ((pre @ ?l @ CRLF) @ ?rest) he (length (pre @ ?l @ CRLF)) = hs"
    using Cons.prems by (intro Cons.IH) (auto simp: line)
  have pos: "length pre + length ?l + 2 = length (pre @ ?l @ CRLF)" by (simp add: CRLF_def)
  have "headers_loop (pre @ concat (map header_line (h # hs)) @ rest) he (length pre) =
      headers_loop (pre @ ?l @ CRLF @ ?rest) he (length pre)" by (simp add: line)
  also have "\<dots> = header_entry ?l @ headers_loop (pre @ ?l @ CRLF @ ?rest) he (length pre + length ?l + 2)"
    using le by (subst headers_loop.simps) (simp only: end_, simp add: substr_def)
  also have "headers_loop (pre @ ?l @ CRLF @ ?rest) he (length pre + length ?l + 2) = hs"
    using rest unfolding pos by simp
  finally show ?case using Cons.prems(1) header_entry_line [of n v] by (simp add: h)
qed

text \<open>The first empty line of a message is the one after its header lines.\<close>

lemma find_blank_line:
  assumes "list_all (\<lambda>l. l \<noteq> [] \<and> CHR 0x0D \<notin> set l) ls" and "CHR 0x0D \<notin> set l"
  shows "find_sub (CRLF @ CRLF) (l @ CRLF @ concat (map (\<lambda>x. x @ CRLF) ls) @ CRLF @ body) =
    Some (length (l @ CRLF @ concat (map (\<lambda>x. x @ CRLF) ls)) - 2)"
  using assms
proof (induction ls arbitrary: l)
  case Nil
  then show ?case by (induction l) (auto simp: CRLF_def)
next
  case (Cons x ls)
  let ?t = "concat (map (\<lambda>x. x @ CRLF) ls) @ CRLF @ body"
  obtain c x' where x: "x = c # x'" "c \<noteq> CHR 0x0D" using Cons.prems(1) by (cases x) auto
  have ih: "find_sub (CRLF @ CRLF) (x @ CRLF @ ?t) = Some (length (x @ CRLF @ concat (map (\<lambda>x. x @ CRLF) ls)) - 2)"
    using Cons by simp
  have "find_sub (CRLF @ CRLF) (l @ CRLF @ x @ CRLF @ ?t) = map_option ((+) (length l + 2)) (find_sub (CRLF @ CRLF) (x @ CRLF @ ?t))"
    using Cons.prems(2)
  proof (induction l)
    case Nil
    then show ?case using x by (simp add: CRLF_def option.map_comp comp_def)
  next
    case (Cons a l)
    then show ?case by (auto simp: CRLF_def option.map_comp comp_def)
  qed
  then show ?case using ih by (simp add: CRLF_def)
qed

lemma find_sub_line:
  assumes "t \<noteq> []" and "CHR 0x0D \<notin> set t" and "CHR 0x0A \<notin> set t" and "find_sub t l = None"
  shows "find_sub t (l @ CRLF @ u) = map_option ((+) (length l + 2)) (find_sub t u)"
proof -
  have "find_sub t (l @ CHR 0x0D # []) = None" using find_sub_part [OF assms(1,2,4), of "[]"] assms(1) by simp
  from find_sub_part [OF assms(1,3) this, of u] show ?thesis by (simp add: CRLF_def)
qed

lemma find_sub_lines:
  assumes "t \<noteq> []" and "CHR 0x0D \<notin> set t" and "CHR 0x0A \<notin> set t" and "list_all (\<lambda>l. find_sub t l = None) ls"
  shows "find_sub t (concat (map (\<lambda>l. l @ CRLF) ls) @ t @ u) = Some (length (concat (map (\<lambda>l. l @ CRLF) ls)))"
  using assms(4)
proof (induction ls)
  case Nil
  then show ?case using assms(1) by (cases t) auto
next
  case (Cons l ls)
  then show ?case using find_sub_line [OF assms(1-3), of l] by (simp add: CRLF_def)
qed

lemma show_nat_snoc: "10 \<le> n \<Longrightarrow> length (show_nat n) = Suc (length (show_nat (n div 10)))"
  by (subst show_nat.simps) simp

lemma show_nat_three:
  assumes "100 \<le> n" and "n < 1000"
  shows "length (show_nat n) = 3"
proof -
  have "10 \<le> n" "10 \<le> n div 10" "n div 10 div 10 < 10"
    using assms by (auto simp: less_eq_div_iff_mult_less_eq div_less_iff_less_mult)
  moreover from this(3) have "length (show_nat (n div 10 div 10)) = 1" by (subst show_nat.simps) simp
  ultimately show ?thesis by (simp only: show_nat_snoc)
qed

lemma show_nat_no [simp]: "CHR 0x0D \<notin> set (show_nat n)" "CHR '':'' \<notin> set (show_nat n)" "CHR '' '' \<notin> set (show_nat n)"
  "CHR ''-'' \<notin> set (show_nat n)"
  by (auto dest!: show_nat_chars simp: digit_val_def)

lemma from_chars_int_show: "from_chars_int (show_nat n) = Some (int n)"
proof -
  have "hd (show_nat n) \<noteq> CHR ''-''" "digit_val (hd (show_nat n)) \<noteq> None"
    using show_nat_no(4) [of n] show_nat_chars [of "hd (show_nat n)" n] hd_in_set [OF show_nat_neq_Nil [of n]] by metis+
  then show ?thesis by (auto simp: from_chars_int_def read_show_nat Let_def)
qed

definition status_line :: "http_status \<Rightarrow> string" where
  "status_line st = ''HTTP/1.1 '' @ show_nat (status_code st) @ '' '' @ HttpStatusToString st"

lemma status_text_no: "CHR 0x0D \<notin> set (HttpStatusToString st)" "CHR '':'' \<notin> set (HttpStatusToString st)"
  by (cases st; simp)+

lemma status_line_no: "CHR 0x0D \<notin> set (status_line st)" "CHR '':'' \<notin> set (status_line st)"
  using status_text_no by (auto simp: status_line_def)

definition field_line :: "string \<times> string \<Rightarrow> string" where
  "field_line h = fst h @ '': '' @ snd h"

lemma header_lines: "concat (map header_line hs) = concat (map (\<lambda>l. l @ CRLF) (map field_line hs))"
  by (induction hs) (auto simp: header_line_def field_line_def)

lemma fields_clean: "list_all header_clean hs \<Longrightarrow> list_all (\<lambda>l. l \<noteq> [] \<and> CHR 0x0D \<notin> set l) (map field_line hs)"
  by (induction hs) (auto simp: field_line_def header_clean_def)

text \<open>A message with a clean head, read by the parser.\<close>

lemma parse_response_message:
  assumes "list_all header_clean hs" and "100 \<le> status_code st" and "status_code st < 1000"
  shows "parse_response (status_line st @ CRLF @ concat (map header_line hs) @ CRLF @ body) =
    Inr (int (status_code st), hs, body)" (is "parse_response ?m = _")
proof -
  let ?head = "status_line st @ CRLF @ concat (map header_line hs)"
  note fields = fields_clean [OF assms(1)]
  have he: "find_sub (CRLF @ CRLF) ?m = Some (length ?head - 2)"
    using find_blank_line [OF fields status_line_no(1), where body = body] unfolding header_lines by simp
  have sl: "find_sub CRLF ?m = Some (length (status_line st))" by (rule find_crlf [OF status_line_no(1)])
  have sp: "find_char (CHR '' '') (take (length (status_line st)) ?m) = Some 8" by (simp add: status_line_def)
  have code: "substr (8 + 1) 3 ?m = show_nat (status_code st)"
    using show_nat_three [OF assms(2,3)] by (simp add: substr_def status_line_def)
  have pos: "length ?head - 2 + 4 = length (?head @ CRLF)" "?m = (?head @ CRLF) @ body" by (simp_all add: CRLF_def)
  have body: "drop (length ?head - 2 + 4) ?m = body" unfolding pos by simp
  have "headers_loop ((status_line st @ CRLF) @ concat (map header_line hs) @ CRLF @ body) (length ?head - 2)
      (length (status_line st @ CRLF)) = hs"
    by (rule headers_loop_lines [OF assms(1)]) (simp add: CRLF_def)
  then have hs: "headers_loop ?m (length ?head - 2) (length (status_line st) + 2) = hs"
    by (simp add: CRLF_def)
  show ?thesis unfolding parse_response_def he option.case sl sp code from_chars_int_show hs body by simp
qed

lemma length_complete_at:
  assumes "length pre + 16 + length (show_nat n) \<le> he" and "he + 4 + n < 2 ^ 64"
    and "length (pre @ ''Content-Length: '' @ show_nat n @ CRLF @ rest) < 2 ^ 64"
  shows "length_complete (pre @ ''Content-Length: '' @ show_nat n @ CRLF @ rest) he (length pre) =
    (he + 4 + n \<le> length (pre @ ''Content-Length: '' @ show_nat n @ CRLF @ rest))"
    (is "length_complete ?d he ?p = _")
proof -
  let ?from = "pre @ ''Content-Length: ''"
  have "takeWhile (\<lambda>c. c = CHR '' '') (substr (?p + 15) (he - (?p + 15)) ?d) = '' ''"
  proof -
    obtain c cs where c: "show_nat n = c # cs" "c \<noteq> CHR '' ''"
      using show_nat_neq_Nil [of n] show_nat_no(3) [of n] by (cases "show_nat n") auto
    obtain k where k: "he - (?p + 15) = Suc (Suc k)"
      using assms(1) c(1) by (cases "he - (?p + 15)"; cases "he - (?p + 15) - 1") auto
    have "substr (?p + 15) (he - (?p + 15)) ?d = CHR '' '' # c # take k (cs @ CRLF @ rest)"
      unfolding k by (simp add: substr_def c(1))
    then show ?thesis using c(2) by simp
  qed
  then have start: "?p + 15 + length (takeWhile (\<lambda>c. c = CHR '' '') (substr (?p + 15) (he - (?p + 15)) ?d)) = length ?from"
    by simp
  have e: "find_sub_from CRLF (length ?from) ?d = Some (length ?from + length (show_nat n))"
    using find_crlf_from [OF show_nat_no(1) [of n], of ?from rest] by simp
  have le: "\<not> length ?from + length (show_nat n) > he" using assms(1) by simp
  have v: "substr (length ?from) (length ?from + length (show_nat n) - length ?from) ?d = show_nat n"
    by (simp add: substr_def)
  have "n < 2 ^ 64" using assms(2) by simp
  then have num: "from_chars_u64 (show_nat n) = Some (of_nat n)" by (rule from_chars_show)
  have "(of_nat (he + 4) + of_nat n :: u64) = of_nat (he + 4 + n)" by simp
  then have "((of_nat (he + 4) + of_nat n :: u64) \<le> of_nat (length ?d)) = (he + 4 + n \<le> length ?d)"
    using assms(2,3) by (simp only: word_le_nat_alt unat_of_nat64)
  then show ?thesis
    unfolding length_complete_def Let_def start e option.case if_not_P [OF le] v num by simp
qed

lemma response_complete_message:
  assumes "list_all header_clean (hs1 @ (''Content-Length'', show_nat n) # hs2)"
    and "list_all (\<lambda>h. find_sub ''Content-Length:'' (field_line h) = None) hs1"
    and "m = status_line st @ CRLF @ concat (map header_line (hs1 @ (''Content-Length'', show_nat n) # hs2)) @ CRLF @ b"
    and "length m + n < 2 ^ 64"
  shows "response_complete m = (n \<le> length b)"
proof -
  let ?hs = "hs1 @ (''Content-Length'', show_nat n) # hs2"
  let ?head = "status_line st @ CRLF @ concat (map header_line ?hs)"
  let ?pre = "concat (map (\<lambda>l. l @ CRLF) (status_line st # map field_line hs1))"
  let ?rest = "concat (map header_line hs2) @ CRLF @ b"
  note fields = fields_clean [OF assms(1)]
  have he: "find_sub (CRLF @ CRLF) m = Some (length ?head - 2)"
    using find_blank_line [OF fields status_line_no(1), where body = b] unfolding assms(3) header_lines by simp
  have m: "m = ?pre @ ''Content-Length: '' @ show_nat n @ CRLF @ ?rest"
    by (simp add: assms(3) header_lines) (simp add: header_line_def)
  have "find_sub ''Content-Length:'' (status_line st) = None"
    by (rule find_sub_missing_char [where c = "CHR '':''"]) (simp_all add: status_line_no)
  then have "find_sub ''Content-Length:'' (?pre @ ''Content-Length:'' @ '' '' @ show_nat n @ CRLF @ ?rest) = Some (length ?pre)"
    using assms(2) by (intro find_sub_lines) (simp_all add: list_all_iff)
  then have pos: "find_sub ''Content-Length:'' m = Some (length ?pre)" unfolding m by simp
  have len: "length ?head = length ?pre + 16 + length (show_nat n) + 2 + length (concat (map header_line hs2))"
    "length m = length ?head + 2 + length b"
    by (simp_all add: assms(3) header_lines) (simp_all add: header_line_def field_line_def CRLF_def)
  have "length_complete m (length ?head - 2) (length ?pre) = (length ?head - 2 + 4 + n \<le> length m)"
  proof -
    have a: "length ?pre + 16 + length (show_nat n) \<le> length ?head - 2" "length ?head - 2 + 4 + n < 2 ^ 64" "length m < 2 ^ 64"
      using len assms(4) by linarith+
    show ?thesis using length_complete_at [OF a(1,2), of ?rest] a(3) unfolding m [symmetric] by blast
  qed
  moreover have "length ?pre < length ?head - 2" "length ?head - 2 + 4 + n \<le> length m \<longleftrightarrow> n \<le> length b"
    using len by linarith+
  ultimately show ?thesis unfolding response_complete_def he option.case pos by (simp only: if_True)
qed

text \<open>C23: a response written by this server is read back by its proxy client: the parser returns
  the status, every header in order and the body, and the reader stops exactly when the last byte has
  arrived, neither after a shorter prefix nor later. Header names must be free of colons and carriage returns,
  values of carriage returns and a leading space, and neither date nor content type may contain the name of the
  length field; \<^verbatim>\<open>HttpResponse\<close> itself checks none of this.\<close>

theorem upstream_response_roundtrip:
  assumes "list_all header_clean (response_headers date r)"
    and "find_sub ''Content-Length:'' date = None" and "find_sub ''Content-Length:'' (rs_content_type r) = None"
    and "100 \<le> status_code (rs_status r)" and "status_code (rs_status r) < 1000"
    and "2 * length (serialize date r) < 2 ^ 64"
  shows "parse_response (serialize date r) = Inr (int (status_code (rs_status r)), response_headers date r, rs_body r) \<and>
    response_complete (serialize date r) \<and>
    (\<forall>k < length (serialize date r). \<not> response_complete (take k (serialize date r)))"
proof (intro conjI allI impI)
  let ?hs1 = "[(''Server'', ''serverweb''), (''Date'', date)] @
     (if rs_content_type r \<noteq> [] then [(''Content-Type'', rs_content_type r)] else [])"
  let ?hs2 = "(''Connection'', if rs_keep_alive r then ''keep-alive'' else ''close'') # rs_headers r"
  let ?n = "length (rs_body r)" and ?st = "rs_status r"
  define head where "head = status_line ?st @ CRLF @ concat (map header_line (response_headers date r)) @ CRLF"
  have hs: "response_headers date r = ?hs1 @ (''Content-Length'', show_nat ?n) # ?hs2"
    by (simp add: response_headers_def)
  have m: "serialize date r = status_line ?st @ CRLF @ concat (map header_line (response_headers date r)) @ CRLF @ rs_body r"
    by (simp add: serialize_def status_line_def)
  have body: "?n \<le> length (serialize date r)" by (simp add: m)
  have names: "list_all (\<lambda>h. find_sub ''Content-Length:'' (field_line h) = None) ?hs1"
    using assms(2,3) by (simp add: field_line_def)
  show "parse_response (serialize date r) = Inr (int (status_code ?st), response_headers date r, rs_body r)"
    unfolding m by (rule parse_response_message [OF assms(1,4,5)])
  have complete: "response_complete (head @ b) = (?n \<le> length b)" if "length b \<le> ?n" for b
    using that body assms(6) names assms(1)
    by (intro response_complete_message [of ?hs1 ?n ?hs2 _ ?st]) (auto simp: hs head_def m)
  have split: "serialize date r = head @ rs_body r" by (simp add: m head_def)
  show "response_complete (serialize date r)" using complete [of "rs_body r"] by (simp add: split)
  fix k
  assume k: "k < length (serialize date r)"
  show "\<not> response_complete (take k (serialize date r))"
  proof (cases "length head \<le> k")
    case True
    then have "take k (serialize date r) = head @ take (k - length head) (rs_body r)" by (simp add: split)
    then show ?thesis using complete [of "take (k - length head) (rs_body r)"] k True by (simp add: split)
  next
    case False
    have "find_sub (CRLF @ CRLF) (take k (serialize date r)) = None"
    proof (rule ccontr)
      assume "\<not> ?thesis"
      then obtain i where i: "find_sub (CRLF @ CRLF) (take k (serialize date r)) = Some i" by blast
      from find_sub_prefix [OF this, of "drop k (serialize date r)"]
      have "find_sub (CRLF @ CRLF) (serialize date r) = Some i" by simp
      moreover have "find_sub (CRLF @ CRLF) (serialize date r) = Some (length head - 4)"
        using find_blank_line [OF fields_clean [OF assms(1)] status_line_no(1), of ?st "rs_body r"]
        by (simp add: m head_def header_lines CRLF_def)
      ultimately have "i = length head - 4" by simp
      moreover have "4 \<le> length head" by (simp add: head_def CRLF_def)
      moreover have "i + 4 \<le> k" using find_sub_bound [OF i] by (simp add: CRLF_def)
      ultimately show False using False by linarith
    qed
    then show ?thesis by (simp add: response_complete_def)
  qed
qed

definition hello_response :: http_response where
  "hello_response = Header ''X-Id'' ''7'' (Body ''hi'' (ContentType ''text/plain'' (http_response_new True)))"

theorem upstream_response_roundtrip_witness:
  "parse_response (serialize ''Thu, 01 Jan 1970 00:00:00 GMT'' hello_response) =
    Inr (200, response_headers ''Thu, 01 Jan 1970 00:00:00 GMT'' hello_response, ''hi'')"
proof -
  let ?date = "''Thu, 01 Jan 1970 00:00:00 GMT''"
  have clean: "list_all header_clean (response_headers ?date hello_response)" by code_simp
  have "find_sub ''Content-Length:'' ?date = None" "find_sub ''Content-Length:'' (rs_content_type hello_response) = None"
    "100 \<le> status_code (rs_status hello_response)" "status_code (rs_status hello_response) < 1000"
    "2 * length (serialize ?date hello_response) < 2 ^ 64"
    by (simp_all add: hello_response_def Header_def Body_def ContentType_def http_response_new_def
        response_headers_def header_clean_def serialize_def header_line_def CRLF_def show_nat.simps digit_char_def)
  from upstream_response_roundtrip [OF clean this] show ?thesis
    by (simp add: hello_response_def Header_def Body_def ContentType_def http_response_new_def)
qed

section \<open>One outcome per request\<close>

text \<open>The sessions of a pool over one buffer pool: requests are forwarded, and the completion of an operation
  in flight is delivered to its session.\<close>

record up_sys =
  us_pool :: upstream_pool
  us_buffers :: buffer_pool

fun up_deliver :: "net_env \<Rightarrow> bool \<Rightarrow> int \<Rightarrow> (u16 \<times> string) option \<Rightarrow> up_op \<Rightarrow> upstream \<times> buffer_pool \<Rightarrow> upstream \<times> buffer_pool" where
  "up_deliver env contended res buf UpConnecting st = up_OnConnect env res st"
| "up_deliver env contended res buf (UpSending d) st = up_OnSend env contended res st"
| "up_deliver env contended res buf UpReceiving (s, p) = (up_OnRecv env res buf s, p)"

definition up_complete :: "net_env \<Rightarrow> bool \<Rightarrow> int \<Rightarrow> (u16 \<times> string) option \<Rightarrow> up_op \<Rightarrow> nat \<Rightarrow> up_sys \<Rightarrow> up_sys" where
  "up_complete env contended res buf what i sys =
     (let s = pl_sessions (us_pool sys) ! i in
      case up_deliver env contended res buf what (s\<lparr>up_armed := remove1 what (up_armed s)\<rparr>, us_buffers sys) of
        (s', p') \<Rightarrow>
          \<lparr>us_pool = \<lparr>pl_active = count_out s s' (pl_active (us_pool sys)),
                     pl_sessions = (pl_sessions (us_pool sys))[i := s']\<rparr>, us_buffers = p'\<rparr>)"

inductive up_step :: "up_sys \<Rightarrow> up_sys \<Rightarrow> bool" where
  forward: "up_step sys (sys\<lparr>us_pool := Forward env sqes target req (us_pool sys)\<rparr>)"
| complete: "i < length (pl_sessions (us_pool sys)) \<Longrightarrow> what \<in> set (up_armed (pl_sessions (us_pool sys) ! i)) \<Longrightarrow>
    up_step sys (up_complete env contended res buf what i sys)"

inductive up_reach :: "buffer_pool \<Rightarrow> up_sys \<Rightarrow> bool" for p where
  start: "up_reach p \<lparr>us_pool = upstream_pool_new, us_buffers = p\<rparr>"
| step: "up_reach p sys \<Longrightarrow> up_step sys sys' \<Longrightarrow> up_reach p sys'"

text \<open>A session is either waiting for exactly one completion, or it has reported and waits for nothing.\<close>

definition up_waiting :: "upstream \<Rightarrow> bool" where
  "up_waiting s = (up_outcomes s = [] \<and> up_callbacks s \<and> up_self_ref s \<and> length (up_armed s) = 1)"

definition up_done :: "upstream \<Rightarrow> bool" where
  "up_done s = (length (up_outcomes s) = 1 \<and> \<not> up_self_ref s \<and> up_armed s = [])"

text \<open>What a handler starts from: the completed operation is gone, the callbacks are in place.\<close>

definition up_ready :: "upstream \<Rightarrow> bool" where
  "up_ready s = (up_outcomes s = [] \<and> up_callbacks s \<and> up_self_ref s \<and> up_armed s = [])"

named_theorems up_simps

lemma up_fail_done [up_simps]: "up_ready s \<Longrightarrow> up_done (up_Close (up_error err s))"
  by (simp add: up_ready_def up_done_def up_Close_def up_error_def Let_def)

lemma up_submit_ok [up_simps]: "up_ready s \<Longrightarrow> up_waiting (up_submit what err s) \<or> up_done (up_submit what err s)"
  by (auto simp: up_ready_def up_waiting_def up_done_def up_submit_def up_get_sqe_def up_Close_def up_error_def Let_def
      split: list.splits bool.splits)

lemma up_parse_done [up_simps]: "up_ready s \<Longrightarrow> up_done (up_Close (ParseResponse s))"
  by (auto simp: up_ready_def up_done_def ParseResponse_def up_Close_def up_error_def Let_def split: sum.splits)

lemma up_ready_upd [simp]:
  "up_ready (s\<lparr>up_connected := c\<rparr>) = up_ready s" "up_ready (s\<lparr>up_send_buf := b\<rparr>) = up_ready s"
  "up_ready (s\<lparr>up_pending_request := r\<rparr>) = up_ready s" "up_ready (s\<lparr>up_recv_buffer := d\<rparr>) = up_ready s"
  "up_ready (s\<lparr>up_returned := ids\<rparr>) = up_ready s" "up_ready (s\<lparr>up_fd := fd\<rparr>) = up_ready s"
  by (simp_all add: up_ready_def)

lemma up_deliver_ok:
  assumes "up_ready s"
  shows "up_waiting (fst (up_deliver env contended res buf what (s, p))) \<or>
    up_done (fst (up_deliver env contended res buf what (s, p)))"
  using assms
  by (cases what)
    (auto simp: up_OnConnect_def SendRequest_def up_OnSend_def StartRecv_def up_OnRecv_def up_simps Let_def
      split: prod.splits option.splits)

lemma up_Connect_ok:
  shows "up_waiting (up_Connect env host port req (upstream_new sqes)) \<or> up_done (up_Connect env host port req (upstream_new sqes))"
proof -
  let ?s = "(upstream_new sqes)\<lparr>up_pending_request := req, up_callbacks := True, up_recv_buffer := [], up_self_ref := True\<rparr>"
  have ready: "up_ready ?s" by (simp add: up_ready_def upstream_new_def)
  have err: "up_done ((up_error e s)\<lparr>up_self_ref := False\<rparr>)" if "up_ready s" for e s
    using that by (simp add: up_ready_def up_done_def up_error_def)
  show ?thesis using ready
    by (auto simp: up_Connect_def Let_def err up_simps split: prod.splits sum.splits)
qed

definition up_sys_inv :: "up_sys \<Rightarrow> bool" where
  "up_sys_inv sys =
     (list_all (\<lambda>s. up_waiting s \<or> up_done s) (pl_sessions (us_pool sys)) \<and>
      pl_active (us_pool sys) = of_nat (length (filter up_waiting (pl_sessions (us_pool sys)))))"

lemma done_not_waiting: "up_done s \<Longrightarrow> \<not> up_waiting s"
  by (auto simp: up_done_def up_waiting_def)

lemma length_filter_update:
  assumes "i < length xs" and "P (xs ! i)"
  shows "length (filter P xs) = length (filter P (xs[i := y])) + (if P y then 0 else 1)"
proof -
  have "filter P xs = filter P (take i xs) @ xs ! i # filter P (drop (Suc i) xs)"
    using assms by (subst id_take_nth_drop [OF assms(1)]) simp
  then show ?thesis using assms by (simp add: upd_conv_take_nth_drop)
qed

lemma up_step_inv:
  assumes "up_step sys sys'" and "up_sys_inv sys"
  shows "up_sys_inv sys'"
  using assms
proof (induction rule: up_step.induct)
  case (forward sys env sqes target req)
  let ?s = "up_Connect env (ut_host target) (ut_port target) req (upstream_new sqes)"
  have "up_waiting ?s \<or> up_done ?s" by (rule up_Connect_ok)
  then show ?case
  proof
    assume w: "up_waiting ?s"
    then have "up_outcomes ?s = []" by (simp add: up_waiting_def)
    then show ?thesis using w forward by (simp add: up_sys_inv_def Forward_def Let_def count_out_def)
  next
    assume d: "up_done ?s"
    then have "length (up_outcomes ?s) = 1" by (simp add: up_done_def)
    then show ?thesis using d done_not_waiting [OF d] forward
      by (simp add: up_sys_inv_def Forward_def Let_def count_out_def upstream_new_def)
  qed
next
  case (complete i sys what env contended res buf)
  let ?ss = "pl_sessions (us_pool sys)"
  let ?s = "?ss ! i"
  have w: "up_waiting ?s" using complete by (auto simp: up_sys_inv_def list_all_length up_done_def)
  then have "up_ready (?s\<lparr>up_armed := remove1 what (up_armed ?s)\<rparr>)"
    using complete(2) by (simp add: up_waiting_def up_ready_def length_Suc_conv) fastforce
  then obtain s' p' where d: "up_deliver env contended res buf what (?s\<lparr>up_armed := remove1 what (up_armed ?s)\<rparr>, us_buffers sys) = (s', p')"
    and s': "up_waiting s' \<or> up_done s'"
    using up_deliver_ok by (metis prod.collapse)
  have out: "length (up_outcomes s') - length (up_outcomes ?s) = (if up_waiting s' then 0 else 1)"
    using s' w by (auto simp: up_waiting_def up_done_def)
  have all: "list_all (\<lambda>s. up_waiting s \<or> up_done s) (?ss[i := s'])"
    using complete s' by (simp add: up_sys_inv_def list_all_length nth_list_update)
  show ?case using all complete(1,3) length_filter_update [of i ?ss up_waiting s', OF complete(1) w]
    by (simp add: up_sys_inv_def up_complete_def d Let_def count_out_def out)
qed

lemma up_reach_inv: "up_reach p sys \<Longrightarrow> up_sys_inv sys"
proof (induction rule: up_reach.induct)
  case start
  show ?case by (simp add: up_sys_inv_def upstream_pool_new_def)
next
  case (step sys sys')
  then show ?case using up_step_inv by blast
qed

text \<open>C24: every forwarded request is answered at most once and is never forgotten: in every reachable state a
  session has either reported exactly one outcome, and then holds no operation and no reference to itself, or has
  reported none and waits for exactly one completion, which can be delivered; the pool's counter is the number of
  those that wait.\<close>

theorem upstream_single_outcome:
  assumes "up_reach p sys"
  shows "ActiveCount (us_pool sys) = of_nat (length (filter (\<lambda>s. up_outcomes s = []) (pl_sessions (us_pool sys)))) \<and>
    (\<forall>i < length (pl_sessions (us_pool sys)).
       let s = pl_sessions (us_pool sys) ! i in
       (length (up_outcomes s) = 1 \<and> up_armed s = [] \<and> \<not> up_self_ref s) \<or>
       (up_outcomes s = [] \<and> up_self_ref s \<and>
        (\<exists>what. up_armed s = [what] \<and> up_step sys (up_complete env contended res buf what i sys))))"
proof -
  let ?ss = "pl_sessions (us_pool sys)"
  have inv: "list_all (\<lambda>s. up_waiting s \<or> up_done s) ?ss" "pl_active (us_pool sys) = of_nat (length (filter up_waiting ?ss))"
    using up_reach_inv [OF assms] by (auto simp: up_sys_inv_def)
  have "filter (\<lambda>s. up_outcomes s = []) ?ss = filter up_waiting ?ss"
    using inv(1) by (intro filter_cong) (auto simp: list_all_iff up_waiting_def up_done_def)
  moreover have "\<exists>what. up_armed (?ss ! i) = [what] \<and> up_step sys (up_complete env contended res buf what i sys)"
    if "i < length ?ss" "up_waiting (?ss ! i)" for i
    using that up_step.complete [OF that(1)] by (auto simp: up_waiting_def length_Suc_conv)
  ultimately show ?thesis using inv
    by (auto simp: ActiveCount_def list_all_length Let_def up_waiting_def up_done_def)
qed

definition demo_env :: net_env where
  "demo_env = \<lparr>ne_getaddrinfo = (\<lambda>host port. (0, True)), ne_gai_strerror = (\<lambda>e. []), ne_socket = Inr 5,
     ne_strerror = (\<lambda>e. ''Connection refused'')\<rparr>"

definition demo_sys :: "buffer_pool \<Rightarrow> up_sys" where
  "demo_sys p =
     (let send = (\<lambda>sys. sys\<lparr>us_pool := Forward demo_env [] \<lparr>ut_host = ''gateway'', ut_port = 8000\<rparr> ''GET /'' (us_pool sys)\<rparr>) in
      up_complete demo_env False (-111) None UpConnecting 0
        (send (send \<lparr>us_pool = upstream_pool_new, us_buffers = p\<rparr>)))"

theorem upstream_single_outcome_witness:
  "ActiveCount (us_pool (demo_sys (buffer_pool_new 4096 4))) = 1 \<and>
   map up_outcomes (pl_sessions (us_pool (demo_sys (buffer_pool_new 4096 4)))) =
     [[UpError ''connect failed: Connection refused''], []]"
proof -
  let ?p = "buffer_pool_new 4096 4"
  have "up_reach ?p (demo_sys ?p)"
    unfolding demo_sys_def Let_def
    by (intro up_reach.step [OF _ up_step.complete] up_reach.step [OF _ up_step.forward] up_reach.start)
      (simp_all add: upstream_pool_new_def Forward_def up_Connect_def upstream_new_def up_submit_def up_get_sqe_def demo_env_def Let_def)
  from upstream_single_outcome [OF this] show ?thesis
    by (simp add: demo_sys_def upstream_pool_new_def Forward_def up_Connect_def upstream_new_def up_submit_def up_get_sqe_def
        demo_env_def up_complete_def up_OnConnect_def up_Close_def up_error_def count_out_def Let_def)
qed

end
