(* ===== verification/Reverse_Proxy.thy ===== *)
theory Reverse_Proxy
  imports Upstream
begin

text \<open>
  The proxy middleware (\<^verbatim>\<open>src/web/ReverseProxy.cpp\<close>): it selects a route by host and path, forwards the request
  through the upstream pool and relays the answer, or takes over a WebSocket upgrade with a handler that holds an
  upstream connection of its own. A request's session is the client session together with the upstream pool.
\<close>

section \<open>Routes\<close>

record proxy_route =
  host_pattern :: string
  path_prefix :: string
  upstream_host :: string
  upstream_port :: u16

definition route_matches :: "string \<Rightarrow> string \<Rightarrow> proxy_route \<Rightarrow> bool" where
  "route_matches host path route =
     ((host_pattern route = ''*'' \<or> host_pattern route = host) \<and> starts_with path (path_prefix route))"

definition FindRoute :: "proxy_route list \<Rightarrow> string \<Rightarrow> string \<Rightarrow> proxy_route option" where
  "FindRoute routes host path = find (route_matches host path) routes"

definition host_of :: "string \<Rightarrow> string" where
  "host_of header = (case find_char (CHR '':'') header of None \<Rightarrow> header | Some colon \<Rightarrow> take colon header)"

definition is_host :: "string \<Rightarrow> bool" where
  "is_host name =
     (length name = 4 \<and> name ! 0 \<in> {CHR ''H'', CHR ''h''} \<and> name ! 1 \<in> {CHR ''o'', CHR ''O''} \<and>
      name ! 2 \<in> {CHR ''s'', CHR ''S''} \<and> name ! 3 \<in> {CHR ''t'', CHR ''T''})"

definition path_and_query :: "http_request \<Rightarrow> string" where
  "path_and_query req = rq_path req @ (if rq_query req \<noteq> [] then ''?'' @ rq_query req else [])"

definition host_value :: "string \<Rightarrow> u16 \<Rightarrow> string" where
  "host_value host port = host @ '':'' @ show_nat (unat port)"

definition SerializeRequest :: "http_request \<Rightarrow> proxy_route \<Rightarrow> string" where
  "SerializeRequest req route =
     HttpMethodToString (rq_method req) @ '' '' @ path_and_query req @ '' HTTP/1.1'' @ CRLF @
     header_line (''Host'', host_value (upstream_host route) (upstream_port route)) @
     concat (map header_line (filter (\<lambda>h. \<not> is_host (fst h)) (rq_headers req))) @
     ''X-Forwarded-For: client'' @ CRLF @ ''Connection: close'' @ CRLF @
     CRLF @ rq_body req"

section \<open>WebSocket proxying\<close>

text \<open>\<^verbatim>\<open>wp_released\<close> are the upstream sessions the handler has closed and let go.\<close>

record ws_proxy =
  wp_target :: upstream_target
  wp_upgrade_request :: string
  wp_upstream :: "upstream option"
  wp_released :: "upstream list"

definition kWsHeaders :: "string list" where
  "kWsHeaders = [''Upgrade'', ''Connection'', ''Sec-WebSocket-Key'', ''Sec-WebSocket-Version'',
     ''Sec-WebSocket-Protocol'', ''Sec-WebSocket-Extensions'', ''Origin'']"

definition WsProxyHandler :: "upstream_target \<Rightarrow> http_request \<Rightarrow> ws_proxy" where
  "WsProxyHandler target req =
     \<lparr>wp_target = target,
      wp_upgrade_request =
        ''GET '' @ path_and_query req @ '' HTTP/1.1'' @ CRLF @
        header_line (''Host'', host_value (ut_host target) (ut_port target)) @
        concat (map header_line (filter (\<lambda>h. snd h \<noteq> []) (map (\<lambda>name. (name, GetHeader name req)) kWsHeaders))) @ CRLF,
      wp_upstream = None, wp_released = []\<rparr>"

text \<open>The upstream's error callback closes the client's WebSocket.\<close>

definition wp_calls :: "up_outcome list \<Rightarrow> hs_call list" where
  "wp_calls outs = concat (map (\<lambda>x. case x of UpError e \<Rightarrow> [CWsClose 1014 (bytes_of ''upstream error'')] | _ \<Rightarrow> []) outs)"

definition wp_OnOpen :: "net_env \<Rightarrow> bool list \<Rightarrow> ws_proxy \<Rightarrow> hs_call list \<times> ws_proxy" where
  "wp_OnOpen env sqes wp =
     (let up = up_Connect env (ut_host (wp_target wp)) (ut_port (wp_target wp)) (wp_upgrade_request wp) (upstream_new sqes) in
      (wp_calls (up_outcomes up), wp\<lparr>wp_upgrade_request := [], wp_upstream := Some up\<rparr>))"

definition wp_OnMessage :: "bytes \<Rightarrow> bool \<Rightarrow> ws_proxy \<Rightarrow> hs_call list \<times> ws_proxy" where
  "wp_OnMessage data is_text wp = ([], wp)"

definition wp_OnClose :: "u16 \<Rightarrow> bytes \<Rightarrow> ws_proxy \<Rightarrow> hs_call list \<times> ws_proxy" where
  "wp_OnClose code reason wp =
     ([], case wp_upstream wp of None \<Rightarrow> wp | Some up \<Rightarrow> wp\<lparr>wp_released := wp_released wp @ [up_Close up], wp_upstream := None\<rparr>)"

definition ws_proxy_handler :: "net_env \<Rightarrow> bool list \<Rightarrow> upstream_target \<Rightarrow> http_request \<Rightarrow> ws_proxy ws_handler" where
  "ws_proxy_handler env sqes target req =
     \<lparr>h_state = WsProxyHandler target req, h_OnOpen = wp_OnOpen env sqes, h_OnMessage = wp_OnMessage,
      h_OnClose = wp_OnClose\<rparr>"

section \<open>The middleware\<close>

text \<open>The environment the middleware runs in: the network, the answers for a new session's submissions, and
  whether the calling thread has a ring.\<close>

record proxy_env =
  pe_net :: net_env
  pe_sqes :: "bool list"
  pe_ring :: bool

type_synonym proxy_session = "ws_proxy http_session \<times> upstream_pool"

definition HandleWebSocketProxy :: "string \<Rightarrow> proxy_env \<Rightarrow> proxy_route \<Rightarrow> proxy_session request_ctx \<Rightarrow> proxy_session request_ctx" where
  "HandleWebSocketProxy date env route ctx =
     (if \<not> pe_ring env then SendError date KInternalServerError ''No IoRing available'' ctx
      else let target = \<lparr>ut_host = upstream_host route, ut_port = upstream_port route\<rparr>;
               handler = ws_proxy_handler (pe_net env) (pe_sqes env) target (cx_request ctx) in
           ctx\<lparr>cx_session := (UpgradeToWebSocket handler (fst (cx_session ctx)), snd (cx_session ctx))\<rparr>)"

definition ReverseProxy_Process :: "string \<Rightarrow> proxy_env \<Rightarrow> proxy_route list \<Rightarrow> proxy_session middleware" where
  "ReverseProxy_Process date env routes ctx next =
     (let host = host_of (GetHeader ''Host'' (cx_request ctx)) in
      case FindRoute routes host (rq_path (cx_request ctx)) of
        None \<Rightarrow> next ctx
      | Some route \<Rightarrow>
          if GetHeader ''Upgrade'' (cx_request ctx) = ''websocket''
          then (Inr (), HandleWebSocketProxy date env route ctx)
          else
            let ctx1 = Defer ctx in
            if \<not> pe_ring env then (Inr (), SendError date KInternalServerError ''No IoRing available'' ctx1)
            else
              let target = \<lparr>ut_host = upstream_host route, ut_port = upstream_port route\<rparr>;
                  raw_request = SerializeRequest (cx_request ctx) route in
              (Inr (), ctx1\<lparr>cx_session := (fst (cx_session ctx1),
                 Forward (pe_net env) (pe_sqes env) target raw_request (snd (cx_session ctx1)))\<rparr>))"

text \<open>The callbacks: the response that answers the client.\<close>

fun relay :: "up_outcome \<Rightarrow> http_response" where
  "relay (UpResponse status headers body) =
     Body body (fold (\<lambda>(n, v). Header n v) headers (Status (cast_status status) (http_response_new True)))"
| "relay (UpError err) = Body (''Bad Gateway: '' @ err) (Status KBadGateway (http_response_new True))"

definition relay_send :: "string \<Rightarrow> up_outcome \<Rightarrow> 'h http_session \<Rightarrow> 'h http_session" where
  "relay_send date out hs =
     (case rs_Send date (relay out) (hs_pool hs) of
        (sb, r, p) \<Rightarrow> (case sb of None \<Rightarrow> hs\<lparr>hs_pool := p\<rparr> | Some b \<Rightarrow> SendResponse (Some b) (hs\<lparr>hs_pool := p\<rparr>)))"

section \<open>What the proxy sends\<close>

text \<open>The test for the header that is replaced is the case-insensitive comparison.\<close>

lemma ToLower_upper:
  assumes "65 \<le> n" and "n \<le> 90"
  shows "ToLower c = char_of (n + 32 :: nat) \<longleftrightarrow> c = char_of n \<or> c = char_of (n + 32)"
proof -
  have eq: "c = char_of m \<longleftrightarrow> of_char c = m" if "m < 256" for c and m :: nat
    using that by (auto simp: char_of_eq_iff take_bit_eq_mod)
  have "of_char (ToLower c) = (let x = of_char c :: nat in if 65 \<le> x \<and> x \<le> 90 then x + 32 else x)"
    by (auto simp: ToLower_def take_bit_eq_mod Let_def)
  then show ?thesis using assms by (auto simp: eq Let_def split: if_splits)
qed

lemma ToLower_eq:
  "ToLower c = CHR ''h'' \<longleftrightarrow> c = CHR ''H'' \<or> c = CHR ''h''" "ToLower c = CHR ''o'' \<longleftrightarrow> c = CHR ''O'' \<or> c = CHR ''o''"
  "ToLower c = CHR ''s'' \<longleftrightarrow> c = CHR ''S'' \<or> c = CHR ''s''" "ToLower c = CHR ''t'' \<longleftrightarrow> c = CHR ''T'' \<or> c = CHR ''t''"
proof -
  have n: "char_of (72 :: nat) = CHR ''H''" "char_of (72 + 32 :: nat) = CHR ''h''" "char_of (79 :: nat) = CHR ''O''"
    "char_of (79 + 32 :: nat) = CHR ''o''" "char_of (83 :: nat) = CHR ''S''" "char_of (83 + 32 :: nat) = CHR ''s''"
    "char_of (84 :: nat) = CHR ''T''" "char_of (84 + 32 :: nat) = CHR ''t''"
    by code_simp+
  show "ToLower c = CHR ''h'' \<longleftrightarrow> c = CHR ''H'' \<or> c = CHR ''h''" using ToLower_upper [of 72 c] unfolding n by simp
  show "ToLower c = CHR ''o'' \<longleftrightarrow> c = CHR ''O'' \<or> c = CHR ''o''" using ToLower_upper [of 79 c] unfolding n by simp
  show "ToLower c = CHR ''s'' \<longleftrightarrow> c = CHR ''S'' \<or> c = CHR ''s''" using ToLower_upper [of 83 c] unfolding n by simp
  show "ToLower c = CHR ''t'' \<longleftrightarrow> c = CHR ''T'' \<or> c = CHR ''t''" using ToLower_upper [of 84 c] unfolding n by simp
qed

lemma is_host_iff: "is_host name \<longleftrightarrow> CaseInsensitiveEqual ''Host'' name"
proof -
  have low: "ToLower (CHR ''H'') = CHR ''h''" "ToLower (CHR ''o'') = CHR ''o''" "ToLower (CHR ''s'') = CHR ''s''"
    "ToLower (CHR ''t'') = CHR ''t''" by code_simp+
  show ?thesis
  proof (cases "length name = 4")
    case True
    then have "length name = Suc (Suc (Suc (Suc 0)))" by simp
    then obtain a b c d where "name = [a, b, c, d]" by (auto simp: length_Suc_conv)
    then show ?thesis
      by (simp add: is_host_def CaseInsensitiveEqual_def low ToLower_eq [THEN trans [OF eq_commute]] disj_commute)
  qed (simp add: is_host_def CaseInsensitiveEqual_def)
qed

text \<open>The header fields of a forwarded request.\<close>

definition forwarded_headers :: "http_request \<Rightarrow> proxy_route \<Rightarrow> (string \<times> string) list" where
  "forwarded_headers req route =
     [(''Host'', host_value (upstream_host route) (upstream_port route))] @
     filter (\<lambda>h. \<not> is_host (fst h)) (rq_headers req) @ [(''X-Forwarded-For'', ''client''), (''Connection'', ''close'')]"

lemma SerializeRequest_fields:
  "SerializeRequest req route =
     (HttpMethodToString (rq_method req) @ '' '' @ path_and_query req @ '' HTTP/1.1'') @ CRLF @
     concat (map header_line (forwarded_headers req route)) @ CRLF @ rq_body req"
  by (simp add: SerializeRequest_def forwarded_headers_def header_line_def)

lemma forwarded_host_unique:
  "filter (\<lambda>h. CaseInsensitiveEqual ''Host'' (fst h)) (forwarded_headers req route) =
     [(''Host'', host_value (upstream_host route) (upstream_port route))]"
proof -
  have "is_host ''Host''" "\<not> is_host ''X-Forwarded-For''" "\<not> is_host ''Connection''" by code_simp+
  then show ?thesis by (simp add: forwarded_headers_def is_host_iff [symmetric])
qed

lemma fold_Header: "fold (\<lambda>(n, v). Header n v) hs r = r\<lparr>rs_headers := rs_headers r @ hs\<rparr>"
  by (induction hs arbitrary: r) (auto simp: Header_def)

lemma relay_headers:
  "response_headers date (relay (UpResponse status hs body)) =
     [(''Server'', ''serverweb''), (''Date'', date), (''Content-Length'', show_nat (length body)), (''Connection'', ''keep-alive'')] @ hs"
  by (simp add: response_headers_def fold_Header Body_def Status_def http_response_new_def)

text \<open>The client of the proxy reads the upstream's status, all of its headers and its body, after four headers
  of the proxy itself. The proxy does not drop the upstream's framing headers: a relayed response with a
  Content-Length, as every response with a body of known length has, carries that field twice.\<close>

theorem proxy_relays_response:
  assumes "parse_response data = Inr (status, hs, body)" and "list_all header_clean hs" and "header_clean (''Date'', date)"
    and "100 \<le> status" and "status < 1000"
  shows "parse_response (serialize date (relay (UpResponse status hs body))) =
      Inr (status, [(''Server'', ''serverweb''), (''Date'', date), (''Content-Length'', show_nat (length body)),
                    (''Connection'', ''keep-alive'')] @ hs, body) \<and>
    length (filter (\<lambda>h. CaseInsensitiveEqual ''Content-Length'' (fst h))
      (response_headers date (relay (UpResponse status hs body)))) =
    Suc (length (filter (\<lambda>h. CaseInsensitiveEqual ''Content-Length'' (fst h)) hs))"
proof
  let ?r = "relay (UpResponse status hs body)"
  have code: "int (status_code (cast_status status)) = status" using assms(4,5) by (intro status_code_cast) simp_all
  have st: "rs_status ?r = cast_status status" "rs_body ?r = body"
    by (simp_all add: fold_Header Body_def Status_def http_response_new_def)
  have len: "hd (show_nat (length body)) \<noteq> CHR '' ''"
    using show_nat_no(3) [of "length body"] hd_in_set [OF show_nat_neq_Nil [of "length body"]] by metis
  have "list_all header_clean (response_headers date ?r)"
    using assms(2,3) len unfolding relay_headers by (simp add: header_clean_def)
  moreover have "serialize date ?r = status_line (cast_status status) @ CRLF @
      concat (map header_line (response_headers date ?r)) @ CRLF @ body"
    unfolding serialize_def st status_line_def by simp
  moreover have "100 \<le> status_code (cast_status status)" "status_code (cast_status status) < 1000"
    using code assms(4,5) by linarith+
  ultimately have "parse_response (serialize date ?r) = Inr (int (status_code (cast_status status)), response_headers date ?r, body)"
    by (simp only: parse_response_message)
  then show "parse_response (serialize date ?r) = Inr (status, [(''Server'', ''serverweb''), (''Date'', date),
      (''Content-Length'', show_nat (length body)), (''Connection'', ''keep-alive'')] @ hs, body)"
    unfolding code relay_headers .
  have "CaseInsensitiveEqual ''Content-Length'' ''Content-Length''" "\<not> CaseInsensitiveEqual ''Content-Length'' ''Server''"
    "\<not> CaseInsensitiveEqual ''Content-Length'' ''Date''" "\<not> CaseInsensitiveEqual ''Content-Length'' ''Connection''"
    by code_simp+
  then show "length (filter (\<lambda>h. CaseInsensitiveEqual ''Content-Length'' (fst h)) (response_headers date ?r)) =
      Suc (length (filter (\<lambda>h. CaseInsensitiveEqual ''Content-Length'' (fst h)) hs))"
    unfolding relay_headers by simp
qed

definition upstream_answer :: string where
  "upstream_answer = ''HTTP/1.1 200 OK'' @ CRLF @ ''Content-Length: 2'' @ CRLF @ CRLF @ ''hi''"

theorem proxy_relays_response_witness:
  "length (filter (\<lambda>h. CaseInsensitiveEqual ''Content-Length'' (fst h))
     (response_headers ''today'' (relay (UpResponse 200 [(''Content-Length'', ''2'')] ''hi'')))) = 2"
proof -
  have "parse_response upstream_answer = Inr (200, [(''Content-Length'', ''2'')], ''hi'')"
    "list_all header_clean [(''Content-Length'', ''2'')]" "header_clean (''Date'', ''today'')"
    by code_simp+
  from proxy_relays_response [OF this]
  have "length (filter (\<lambda>h. CaseInsensitiveEqual ''Content-Length'' (fst h))
      (response_headers ''today'' (relay (UpResponse 200 [(''Content-Length'', ''2'')] ''hi'')))) =
    Suc (length (filter (\<lambda>h. CaseInsensitiveEqual ''Content-Length'' (fst h)) [(''Content-Length'', ''2'')]))"
    by simp
  moreover have "CaseInsensitiveEqual ''Content-Length'' ''Content-Length''" by code_simp
  ultimately show ?thesis by simp
qed

end
