(* ===== verification/Presence.thy ===== *)
theory Presence
  imports Ws_Builder Text_Lib "HOL-Library.AList"
begin

text \<open>
  Players and what is pushed to them (\<^verbatim>\<open>src/game/PlayerRegistry.cpp\<close>, \<^verbatim>\<open>src/game/presence/PresenceTracker.cpp\<close>,
  \<^verbatim>\<open>src/game/notification/NotificationService.cpp\<close>). An \<^verbatim>\<open>unordered_map\<close> is an association list whose order
  stands for its iteration order, an \<^verbatim>\<open>unordered_set\<close> a list without repetitions. The JSON library is the
  parameter \<^verbatim>\<open>dump\<close>; the network dispatcher and the notification store record what they are given. Operations
  run under the component's lock and are atomic.
\<close>

section \<open>PlayerRegistry\<close>

record player_entry =
  en_context_id :: u16
  en_status :: string
  en_match_id :: u64

type_synonym player_registry = "(u64 \<times> player_entry) list"

definition Register :: "u64 \<Rightarrow> u16 \<Rightarrow> player_registry \<Rightarrow> player_registry" where
  "Register pid reactor reg = AList.update pid \<lparr>en_context_id = reactor, en_status = ''online'', en_match_id = 0\<rparr> reg"

definition Unregister :: "u64 \<Rightarrow> player_registry \<Rightarrow> player_registry" where
  "Unregister pid reg = AList.delete pid reg"

definition pr_UpdateStatus :: "u64 \<Rightarrow> string \<Rightarrow> player_registry \<Rightarrow> player_registry" where
  "pr_UpdateStatus pid status reg =
     (case map_of reg pid of None \<Rightarrow> reg | Some e \<Rightarrow> AList.update pid (e\<lparr>en_status := status\<rparr>) reg)"

definition UpdateMatch :: "u64 \<Rightarrow> u64 \<Rightarrow> player_registry \<Rightarrow> player_registry" where
  "UpdateMatch pid match_id reg =
     (case map_of reg pid of None \<Rightarrow> reg | Some e \<Rightarrow> AList.update pid (e\<lparr>en_match_id := match_id\<rparr>) reg)"

definition pr_Find :: "u64 \<Rightarrow> player_registry \<Rightarrow> player_entry option" where
  "pr_Find pid reg = map_of reg pid"

definition IsOnline :: "u64 \<Rightarrow> player_registry \<Rightarrow> bool" where
  "IsOnline pid reg = (map_of reg pid \<noteq> None)"

definition GetOnlinePlayers :: "player_registry \<Rightarrow> u64 list" where
  "GetOnlinePlayers reg = map fst reg"

definition OnlineCount :: "player_registry \<Rightarrow> nat" where
  "OnlineCount reg = length reg"

section \<open>Messages to players\<close>

datatype json_value = JStr string | JNum int

type_synonym json_obj = "(string \<times> json_value) list"

text \<open>The state the services share: the registry, the buffer pool, and what was dispatched: the target
  context, the player and the packet (none for a null packet).\<close>

record game_net =
  gn_registry :: player_registry
  gn_pool :: buffer_pool
  gn_sent :: "(u16 \<times> u64 \<times> send_buffer option) list"

definition net_dispatch :: "u16 \<Rightarrow> u64 \<Rightarrow> send_buffer option \<Rightarrow> game_net \<Rightarrow> game_net" where
  "net_dispatch ctx pid buf g = g\<lparr>gn_sent := gn_sent g @ [(ctx, pid, buf)]\<rparr>"

definition send_json :: "(json_obj \<Rightarrow> string) \<Rightarrow> u16 \<Rightarrow> u64 \<Rightarrow> json_obj \<Rightarrow> game_net \<Rightarrow> game_net" where
  "send_json dump ctx pid j g =
     (case BuildWsTextFrame (gn_pool g) (bytes_of (dump j)) of
        (None, p) \<Rightarrow> g\<lparr>gn_pool := p\<rparr>
      | (Some buf, p) \<Rightarrow> net_dispatch ctx pid (Some buf) (g\<lparr>gn_pool := p\<rparr>))"

section \<open>PresenceTracker\<close>

datatype presence_event_type = KJoin | KLeave | KUpdate

record presence_event =
  pe_type :: presence_event_type
  pe_player_id :: u64
  pe_status :: string
  pe_metadata :: string

record presence_tracker =
  topic_subscribers :: "(string \<times> u64 list) list"
  player_topics :: "(u64 \<times> string list) list"

definition presence_new :: presence_tracker where
  "presence_new = \<lparr>topic_subscribers = [], player_topics = []\<rparr>"

definition set_insert :: "'k \<Rightarrow> 'a \<Rightarrow> ('k \<times> 'a list) list \<Rightarrow> ('k \<times> 'a list) list" where
  "set_insert k x m = AList.update k (List.insert x (case map_of m k of None \<Rightarrow> [] | Some xs \<Rightarrow> xs)) m"

definition set_erase :: "'k \<Rightarrow> 'a \<Rightarrow> ('k \<times> 'a list) list \<Rightarrow> ('k \<times> 'a list) list" where
  "set_erase k x m =
     (case map_of m k of
        None \<Rightarrow> m
      | Some xs \<Rightarrow> if removeAll x xs = [] then AList.delete k m else AList.update k (removeAll x xs) m)"

definition Subscribe :: "u64 \<Rightarrow> string \<Rightarrow> presence_tracker \<Rightarrow> presence_tracker" where
  "Subscribe subscriber topic pt =
     pt\<lparr>topic_subscribers := set_insert topic subscriber (topic_subscribers pt),
        player_topics := set_insert subscriber topic (player_topics pt)\<rparr>"

definition Unsubscribe :: "u64 \<Rightarrow> string \<Rightarrow> presence_tracker \<Rightarrow> presence_tracker" where
  "Unsubscribe subscriber topic pt =
     pt\<lparr>topic_subscribers := set_erase topic subscriber (topic_subscribers pt),
        player_topics := set_erase subscriber topic (player_topics pt)\<rparr>"

definition UnsubscribeAll :: "u64 \<Rightarrow> presence_tracker \<Rightarrow> presence_tracker" where
  "UnsubscribeAll subscriber pt =
     (case map_of (player_topics pt) subscriber of
        None \<Rightarrow> pt
      | Some topics \<Rightarrow>
          pt\<lparr>topic_subscribers := fold (\<lambda>topic. set_erase topic subscriber) topics (topic_subscribers pt),
             player_topics := AList.delete subscriber (player_topics pt)\<rparr>)"

definition GetSubscribers :: "string \<Rightarrow> presence_tracker \<Rightarrow> u64 list" where
  "GetSubscribers topic pt = (case map_of (topic_subscribers pt) topic of Some subs \<Rightarrow> subs | None \<Rightarrow> [])"

definition OnPlayerConnected :: "u64 \<Rightarrow> u16 \<Rightarrow> presence_tracker \<times> game_net \<Rightarrow> presence_tracker \<times> game_net" where
  "OnPlayerConnected pid reactor st = (case st of (pt, g) \<Rightarrow> (pt, g\<lparr>gn_registry := Register pid reactor (gn_registry g)\<rparr>))"

definition OnPlayerDisconnected :: "u64 \<Rightarrow> presence_tracker \<times> game_net \<Rightarrow> presence_tracker \<times> game_net" where
  "OnPlayerDisconnected pid st =
     (case st of (pt, g) \<Rightarrow> (UnsubscribeAll pid pt, g\<lparr>gn_registry := Unregister pid (gn_registry g)\<rparr>))"

definition pt_UpdateStatus :: "u64 \<Rightarrow> string \<Rightarrow> string \<Rightarrow> presence_tracker \<times> game_net \<Rightarrow> presence_tracker \<times> game_net" where
  "pt_UpdateStatus pid status metadata st =
     (case st of (pt, g) \<Rightarrow> (pt, g\<lparr>gn_registry := pr_UpdateStatus pid status (gn_registry g)\<rparr>))"

fun event_name :: "presence_event_type \<Rightarrow> string" where
  "event_name KJoin = ''join''"
| "event_name KLeave = ''leave''"
| "event_name KUpdate = ''update''"

text \<open>\<^verbatim>\<open>has_pool\<close>: whether the tracker was given a buffer pool.\<close>

definition DispatchToPlayer :: "(json_obj \<Rightarrow> string) \<Rightarrow> bool \<Rightarrow> presence_event \<Rightarrow> u64 \<Rightarrow> game_net \<Rightarrow> game_net" where
  "DispatchToPlayer dump has_pool event pid g =
     (case pr_Find pid (gn_registry g) of
        None \<Rightarrow> g
      | Some entry \<Rightarrow>
          if has_pool
          then send_json dump (en_context_id entry) pid
                 ([(''type'', JStr ''presence.event''), (''player_id'', JNum (uint (pe_player_id event))),
                   (''status'', JStr (pe_status event)), (''event'', JStr (event_name (pe_type event)))] @
                  (if pe_metadata event \<noteq> [] then [(''metadata'', JStr (pe_metadata event))] else [])) g
          else net_dispatch (en_context_id entry) pid None g)"

definition BroadcastEvent :: "(json_obj \<Rightarrow> string) \<Rightarrow> bool \<Rightarrow> string \<Rightarrow> presence_event \<Rightarrow> presence_tracker \<times> game_net \<Rightarrow> presence_tracker \<times> game_net" where
  "BroadcastEvent dump has_pool topic event st =
     (case st of (pt, g) \<Rightarrow> (pt, fold (DispatchToPlayer dump has_pool event) (GetSubscribers topic pt) g))"

section \<open>NotificationService\<close>

record notification =
  nt_id :: u64
  recipient_id :: u64
  sender_id :: u64
  nt_code :: int
  nt_subject :: string
  nt_content :: string
  nt_persistent :: bool

definition notification_new :: notification where
  "notification_new = \<lparr>nt_id = 0, recipient_id = 0, sender_id = 0, nt_code = 0, nt_subject = [], nt_content = [], nt_persistent = True\<rparr>"

definition DeliverOnline :: "(json_obj \<Rightarrow> string) \<Rightarrow> u64 \<Rightarrow> notification \<Rightarrow> game_net \<Rightarrow> game_net" where
  "DeliverOnline dump pid n g =
     (case pr_Find pid (gn_registry g) of
        None \<Rightarrow> g
      | Some entry \<Rightarrow>
          send_json dump (en_context_id entry) pid
            ([(''type'', JStr ''notification''), (''id'', JNum (uint (nt_id n))), (''code'', JNum (nt_code n)),
              (''subject'', JStr (nt_subject n)), (''content'', JStr (nt_content n))] @
             (if sender_id n \<noteq> 0 then [(''sender_id'', JNum (uint (sender_id n)))] else [])) g)"

text \<open>The store, when there is one, is the list of saved notifications.\<close>

definition nt_Send :: "(json_obj \<Rightarrow> string) \<Rightarrow> notification \<Rightarrow> notification list option \<times> game_net \<Rightarrow> notification list option \<times> game_net" where
  "nt_Send dump n st =
     (case st of (store, g) \<Rightarrow>
        (if nt_persistent n then map_option (\<lambda>saved. saved @ [n]) store else store,
         if IsOnline (recipient_id n) (gn_registry g) then DeliverOnline dump (recipient_id n) n g else g))"

definition SendMulti :: "(json_obj \<Rightarrow> string) \<Rightarrow> u64 list \<Rightarrow> int \<Rightarrow> string \<Rightarrow> string \<Rightarrow> bool \<Rightarrow>
    notification list option \<times> game_net \<Rightarrow> notification list option \<times> game_net" where
  "SendMulti dump recipients code subject content persistent st =
     fold (\<lambda>pid. nt_Send dump (notification_new\<lparr>recipient_id := pid, nt_code := code, nt_subject := subject,
             nt_content := content, nt_persistent := persistent\<rparr>)) recipients st"

section \<open>The two subscription indexes\<close>

text \<open>What a table of sets promises to its user.\<close>

locale set_table =
  fixes members :: "'m \<Rightarrow> 'k \<Rightarrow> 'a set" and ins era :: "'k \<Rightarrow> 'a \<Rightarrow> 'm \<Rightarrow> 'm" and drop_key :: "'k \<Rightarrow> 'm \<Rightarrow> 'm"
  assumes members_ins: "members (ins k x m) k' = (if k' = k then insert x (members m k) else members m k')"
    and members_era: "members (era k x m) k' = (if k' = k then members m k - {x} else members m k')"
    and members_drop: "members (drop_key k m) k' = (if k' = k then {} else members m k')"
begin

lemma members_fold_era:
  "members (fold (\<lambda>k. era k x) ks m) k' = (if k' \<in> set ks then members m k' - {x} else members m k')"
  by (induction ks arbitrary: m) (auto simp: members_era)

end

text \<open>Two tables that index one relation from both sides stay inverse to each other.\<close>

locale inverse_tables =
  fwd: set_table members1 ins1 era1 drop1 + bwd: set_table members2 ins2 era2 drop2
  for members1 :: "'m1 \<Rightarrow> 'k \<Rightarrow> 'a set" and ins1 era1 drop1 and members2 :: "'m2 \<Rightarrow> 'a \<Rightarrow> 'k set" and ins2 era2 drop2
begin

lemma inverse_ins:
  assumes "\<forall>a k. a \<in> members1 m1 k \<longleftrightarrow> k \<in> members2 m2 a"
  shows "a \<in> members1 (ins1 k' a' m1) k \<longleftrightarrow> k \<in> members2 (ins2 a' k' m2) a"
  using assms by (auto simp: fwd.members_ins bwd.members_ins)

lemma inverse_era:
  assumes "\<forall>a k. a \<in> members1 m1 k \<longleftrightarrow> k \<in> members2 m2 a"
  shows "a \<in> members1 (era1 k' a' m1) k \<longleftrightarrow> k \<in> members2 (era2 a' k' m2) a"
  using assms by (auto simp: fwd.members_era bwd.members_era)

lemma inverse_drop:
  assumes "\<forall>a k. a \<in> members1 m1 k \<longleftrightarrow> k \<in> members2 m2 a" and "set ks = members2 m2 a'"
  shows "a \<in> members1 (fold (\<lambda>k. era1 k a') ks m1) k \<longleftrightarrow> k \<in> members2 (drop2 a' m2) a"
  using assms by (auto simp: fwd.members_fold_era bwd.members_drop)

end

definition set_of :: "('k \<times> 'a list) list \<Rightarrow> 'k \<Rightarrow> 'a set" where
  "set_of m k = (case map_of m k of None \<Rightarrow> {} | Some xs \<Rightarrow> set xs)"

lemma set_of_insert: "set_of (set_insert k x m) k' = (if k' = k then insert x (set_of m k) else set_of m k')"
  by (auto simp: set_of_def set_insert_def update_conv' split: option.splits)

lemma set_of_erase: "set_of (set_erase k x m) k' = (if k' = k then set_of m k - {x} else set_of m k')"
  by (auto simp: set_of_def set_erase_def update_conv' AList.delete_conv' simp flip: set_empty split: option.splits)

lemma set_of_delete: "set_of (AList.delete k m) k' = (if k' = k then {} else set_of m k')"
  by (simp add: set_of_def AList.delete_conv')

interpretation tbl: set_table set_of set_insert set_erase AList.delete
  by unfold_locales (simp_all only: set_of_insert set_of_erase set_of_delete)

interpretation subs: inverse_tables
  "set_of :: (string \<times> u64 list) list \<Rightarrow> string \<Rightarrow> u64 set" set_insert set_erase AList.delete
  "set_of :: (u64 \<times> string list) list \<Rightarrow> u64 \<Rightarrow> string set" set_insert set_erase AList.delete
  by unfold_locales

text \<open>A table as the map and set classes keep it: one entry per key, no empty set, no repeated member.\<close>

definition table_ok :: "('k \<times> 'a list) list \<Rightarrow> bool" where
  "table_ok m = (distinct (map fst m) \<and> list_all (\<lambda>(k, xs). xs \<noteq> [] \<and> distinct xs) m)"

lemma set_update_subset: "set (AList.update k v m) \<subseteq> insert (k, v) (set m)"
  by (induction m) auto

lemma table_ok_update:
  assumes "table_ok m" and "xs \<noteq> []" and "distinct xs"
  shows "table_ok (AList.update k xs m)"
  using assms set_update_subset [of k xs m] by (fastforce simp: table_ok_def list_all_iff distinct_update)

lemma table_ok_delete: "table_ok m \<Longrightarrow> table_ok (AList.delete k m)"
  by (auto simp: table_ok_def list_all_iff AList.delete_eq distinct_map inj_on_def)

lemma table_ok_lookup: "table_ok m \<Longrightarrow> map_of m k = Some xs \<Longrightarrow> xs \<noteq> [] \<and> distinct xs"
  by (auto simp: table_ok_def list_all_iff dest!: map_of_SomeD)

lemma table_ok_insert: "table_ok m \<Longrightarrow> table_ok (set_insert k x m)"
  unfolding set_insert_def
  by (rule table_ok_update) (auto simp: List.insert_def dest: table_ok_lookup split: option.splits)

lemma table_ok_erase: "table_ok m \<Longrightarrow> table_ok (set_erase k x m)"
  by (auto simp: set_erase_def table_ok_delete distinct_removeAll dest: table_ok_lookup intro!: table_ok_update split: option.splits)

lemma table_ok_fold_erase: "table_ok m \<Longrightarrow> table_ok (fold (\<lambda>k. set_erase k x) ks m)"
  by (induction ks arbitrary: m) (auto simp: table_ok_erase)

definition presence_ok :: "presence_tracker \<Rightarrow> bool" where
  "presence_ok pt =
     (table_ok (topic_subscribers pt) \<and> table_ok (player_topics pt) \<and>
      (\<forall>pid topic. pid \<in> set_of (topic_subscribers pt) topic \<longleftrightarrow> topic \<in> set_of (player_topics pt) pid))"

lemma Subscribe_ok: "presence_ok pt \<Longrightarrow> presence_ok (Subscribe pid topic pt)"
  using subs.inverse_ins [of "topic_subscribers pt" "player_topics pt"]
  by (simp add: presence_ok_def Subscribe_def table_ok_insert)

lemma Unsubscribe_ok: "presence_ok pt \<Longrightarrow> presence_ok (Unsubscribe pid topic pt)"
  using subs.inverse_era [of "topic_subscribers pt" "player_topics pt"]
  by (simp add: presence_ok_def Unsubscribe_def table_ok_erase)

lemma UnsubscribeAll_ok: "presence_ok pt \<Longrightarrow> presence_ok (UnsubscribeAll pid pt)"
  using subs.inverse_drop [of "topic_subscribers pt" "player_topics pt" _ pid]
  by (auto simp: presence_ok_def UnsubscribeAll_def table_ok_fold_erase table_ok_delete set_of_def split: option.splits)

lemma UnsubscribeAll_gone: "presence_ok pt \<Longrightarrow> pid \<notin> set_of (topic_subscribers (UnsubscribeAll pid pt)) topic"
  using UnsubscribeAll_ok [of pt pid]
  by (auto simp: presence_ok_def UnsubscribeAll_def set_of_def AList.delete_conv' split: option.splits)

section \<open>Reachable states\<close>

inductive presence_step :: "presence_tracker \<times> game_net \<Rightarrow> presence_tracker \<times> game_net \<Rightarrow> bool" where
  subscribe: "presence_step (pt, g) (Subscribe pid topic pt, g)"
| unsubscribe: "presence_step (pt, g) (Unsubscribe pid topic pt, g)"
| unsubscribe_all: "presence_step (pt, g) (UnsubscribeAll pid pt, g)"
| connected: "presence_step (pt, g) (OnPlayerConnected pid reactor (pt, g))"
| disconnected: "presence_step (pt, g) (OnPlayerDisconnected pid (pt, g))"
| status: "presence_step (pt, g) (pt_UpdateStatus pid st md (pt, g))"
| broadcast: "presence_step (pt, g) (BroadcastEvent dump has_pool topic event (pt, g))"

inductive presence_reach :: "game_net \<Rightarrow> presence_tracker \<times> game_net \<Rightarrow> bool" for g0 where
  start: "presence_reach g0 (presence_new, g0)"
| step: "presence_reach g0 s \<Longrightarrow> presence_step s s' \<Longrightarrow> presence_reach g0 s'"

inductive_cases presence_stepE: "presence_step s s'"

lemma presence_step_ok: "presence_step s s' \<Longrightarrow> presence_ok (fst s) \<Longrightarrow> presence_ok (fst s')"
  by (erule presence_stepE)
    (simp_all add: Subscribe_ok Unsubscribe_ok UnsubscribeAll_ok OnPlayerConnected_def OnPlayerDisconnected_def
      pt_UpdateStatus_def BroadcastEvent_def)

lemma presence_reach_ok: "presence_reach g0 s \<Longrightarrow> presence_ok (fst s)"
proof (induction rule: presence_reach.induct)
  case start
  show ?case by (simp add: presence_ok_def presence_new_def table_ok_def set_of_def)
next
  case (step s s')
  then show ?case using presence_step_ok by blast
qed

text \<open>In every reachable state of the presence tracker the two subscription indexes describe the same relation,
  hold one entry per key and no empty or repeated member, so that \<^verbatim>\<open>GetSubscribers\<close> lists each subscriber of a topic
  once; and after a player has disconnected no topic lists that player and the registry no longer knows them.\<close>

theorem presence_indexes_agree:
  assumes "presence_reach g0 (pt, g)"
  shows "(pid \<in> set (GetSubscribers topic pt) \<longleftrightarrow>
      (\<exists>topics. map_of (player_topics pt) pid = Some topics \<and> topic \<in> set topics)) \<and>
    distinct (GetSubscribers topic pt) \<and> distinct (map fst (topic_subscribers pt)) \<and> distinct (map fst (player_topics pt)) \<and>
    [] \<notin> snd ` set (topic_subscribers pt) \<and> [] \<notin> snd ` set (player_topics pt) \<and>
    pid \<notin> set (GetSubscribers topic (fst (OnPlayerDisconnected pid (pt, g)))) \<and>
    \<not> IsOnline pid (gn_registry (snd (OnPlayerDisconnected pid (pt, g))))"
proof -
  have ok: "presence_ok pt" using presence_reach_ok [OF assms] by simp
  then have tabs: "table_ok (topic_subscribers pt)" "table_ok (player_topics pt)" by (simp_all add: presence_ok_def)
  have subs: "set (GetSubscribers t p) = set_of (topic_subscribers p) t" for t p
    by (simp add: GetSubscribers_def set_of_def split: option.splits)
  have "pid \<in> set (GetSubscribers topic pt) \<longleftrightarrow> (\<exists>topics. map_of (player_topics pt) pid = Some topics \<and> topic \<in> set topics)"
    using ok unfolding subs by (simp add: presence_ok_def) (simp add: set_of_def split: option.splits)
  moreover have "distinct (GetSubscribers topic pt)"
    using tabs table_ok_lookup by (fastforce simp: GetSubscribers_def split: option.splits)
  moreover have "pid \<notin> set (GetSubscribers topic (fst (OnPlayerDisconnected pid (pt, g))))"
    using UnsubscribeAll_gone [OF ok] unfolding subs by (simp add: OnPlayerDisconnected_def)
  moreover have "\<not> IsOnline pid (gn_registry (snd (OnPlayerDisconnected pid (pt, g))))"
    by (simp add: OnPlayerDisconnected_def IsOnline_def Unregister_def AList.delete_conv')
  ultimately show ?thesis using tabs by (auto simp: table_ok_def list_all_iff)
qed

definition game_net_new :: game_net where
  "game_net_new = \<lparr>gn_registry = [], gn_pool = buffer_pool_new 4096 4, gn_sent = []\<rparr>"

theorem presence_indexes_agree_witness:
  "GetSubscribers ''chat'' (Subscribe 8 ''chat'' (Subscribe 7 ''chat'' presence_new)) = [8, 7] \<and>
   7 \<notin> set (GetSubscribers ''chat'' (fst (OnPlayerDisconnected 7 (Subscribe 8 ''chat'' (Subscribe 7 ''chat'' presence_new), game_net_new))))"
proof -
  have "presence_reach game_net_new (Subscribe 8 ''chat'' (Subscribe 7 ''chat'' presence_new), game_net_new)"
    by (rule presence_reach.step [OF presence_reach.step [OF presence_reach.start]]) (rule presence_step.subscribe)+
  from presence_indexes_agree [OF this, of 7 "''chat''"] show ?thesis
    by (simp add: GetSubscribers_def Subscribe_def set_insert_def presence_new_def)
qed

end
