(* ===== verification/Match_Service.thy ===== *)
theory Match_Service
  imports Presence Job_System
begin

text \<open>
  Matches and their registry (\<^verbatim>\<open>src/game/match/Match.cpp\<close>, \<^verbatim>\<open>src/game/match/MatchRegistry.cpp\<close>). A match is a job
  queue: its public operations push jobs, which run one after the other (see \<^verbatim>\<open>Job_System\<close>); \<^verbatim>\<open>mt_jobs\<close> are the
  jobs pushed and not yet run. The game rules are a \<^verbatim>\<open>MatchHandler\<close>, given as functions on a state of their own that
  answer with calls of the match's interface. Times are in milliseconds.
\<close>

section \<open>State\<close>

datatype match_job = JobJoin u64 u16 | JobLeave u64 | JobMessage u64 int bytes | JobTerminate | JobTick

datatype game_queue = QMatch u64 | QMatchmaker

datatype game_job = GMatchTick | GMatchmakerTick int

type_synonym game_timer = "(game_queue, game_job) reserved_job list"

record match_config =
  tick_rate :: u32
  max_players :: u32
  handler_name :: string
  mc_label :: string

definition match_config_default :: match_config where
  "match_config_default = \<lparr>tick_rate = 20, max_players = 0, handler_name = [], mc_label = []\<rparr>"

datatype match_call = CallSendToPlayer u64 int bytes | CallBroadcastAll int bytes | CallBroadcastExcept u64 int bytes
  | CallSetLabel string | CallTerminate

record 'h match_handler =
  mh_state :: 'h
  mh_Init :: "'h \<Rightarrow> match_call list \<times> 'h"
  mh_JoinAttempt :: "u64 \<Rightarrow> 'h \<Rightarrow> bool"
  mh_OnJoin :: "u64 \<Rightarrow> 'h \<Rightarrow> match_call list \<times> 'h"
  mh_OnLeave :: "u64 \<Rightarrow> 'h \<Rightarrow> match_call list \<times> 'h"
  mh_OnMessage :: "u64 \<Rightarrow> int \<Rightarrow> bytes \<Rightarrow> 'h \<Rightarrow> match_call list \<times> 'h"
  mh_OnTick :: "int \<Rightarrow> 'h \<Rightarrow> match_call list \<times> 'h"
  mh_OnTerminate :: "'h \<Rightarrow> match_call list \<times> 'h"

record 'h match =
  mt_id :: u64
  mt_config :: match_config
  mt_handler :: "'h match_handler"
  mt_players :: "(u64 \<times> u16) list"
  mt_active :: bool
  mt_last_tick :: int
  mt_jobs :: "match_job list"

type_synonym 'h match_sys = "'h match \<times> game_net"

section \<open>Sending\<close>

definition SendToReactor :: "(json_obj \<Rightarrow> string) \<Rightarrow> 'h match \<Rightarrow> u16 \<Rightarrow> u64 \<Rightarrow> int \<Rightarrow> bytes \<Rightarrow> game_net \<Rightarrow> game_net" where
  "SendToReactor dump m reactor pid opcode data g =
     send_json dump reactor pid
       [(''type'', JStr ''match.data''), (''match_id'', JNum (uint (mt_id m))), (''sender'', JNum (uint pid)),
        (''opcode'', JNum opcode), (''data_size'', JNum (int (length data)))] g"

definition SendToPlayer :: "(json_obj \<Rightarrow> string) \<Rightarrow> 'h match \<Rightarrow> u64 \<Rightarrow> int \<Rightarrow> bytes \<Rightarrow> game_net \<Rightarrow> game_net" where
  "SendToPlayer dump m pid opcode data g =
     (case map_of (mt_players m) pid of None \<Rightarrow> g | Some reactor \<Rightarrow> SendToReactor dump m reactor pid opcode data g)"

definition BroadcastAll :: "(json_obj \<Rightarrow> string) \<Rightarrow> 'h match \<Rightarrow> int \<Rightarrow> bytes \<Rightarrow> game_net \<Rightarrow> game_net" where
  "BroadcastAll dump m opcode data g =
     fold (\<lambda>(pid, reactor). SendToReactor dump m reactor pid opcode data) (mt_players m) g"

definition BroadcastExcept :: "(json_obj \<Rightarrow> string) \<Rightarrow> 'h match \<Rightarrow> u64 \<Rightarrow> int \<Rightarrow> bytes \<Rightarrow> game_net \<Rightarrow> game_net" where
  "BroadcastExcept dump m exclude opcode data g =
     fold (\<lambda>(pid, reactor) g. if pid \<noteq> exclude then SendToReactor dump m reactor pid opcode data g else g) (mt_players m) g"

definition SetLabel :: "string \<Rightarrow> 'h match \<Rightarrow> 'h match" where
  "SetLabel label m = m\<lparr>mt_config := (mt_config m)\<lparr>mc_label := label\<rparr>\<rparr>"

section \<open>Requests\<close>

definition mt_push :: "match_job \<Rightarrow> 'h match \<Rightarrow> 'h match" where
  "mt_push j m = m\<lparr>mt_jobs := mt_jobs m @ [j]\<rparr>"

definition RequestJoin :: "u64 \<Rightarrow> u16 \<Rightarrow> 'h match \<Rightarrow> 'h match" where
  "RequestJoin pid reactor m = mt_push (JobJoin pid reactor) m"

definition RequestLeave :: "u64 \<Rightarrow> 'h match \<Rightarrow> 'h match" where
  "RequestLeave pid m = mt_push (JobLeave pid) m"

definition DispatchMessage :: "u64 \<Rightarrow> int \<Rightarrow> bytes \<Rightarrow> 'h match \<Rightarrow> 'h match" where
  "DispatchMessage sender opcode data m = mt_push (JobMessage sender opcode data) m"

definition Terminate :: "'h match \<Rightarrow> 'h match" where
  "Terminate m = mt_push JobTerminate m"

fun run_call :: "(json_obj \<Rightarrow> string) \<Rightarrow> match_call \<Rightarrow> 'h match_sys \<Rightarrow> 'h match_sys" where
  "run_call dump (CallSendToPlayer pid opcode data) (m, g) = (m, SendToPlayer dump m pid opcode data g)"
| "run_call dump (CallBroadcastAll opcode data) (m, g) = (m, BroadcastAll dump m opcode data g)"
| "run_call dump (CallBroadcastExcept pid opcode data) (m, g) = (m, BroadcastExcept dump m pid opcode data g)"
| "run_call dump (CallSetLabel label) (m, g) = (SetLabel label m, g)"
| "run_call dump CallTerminate (m, g) = (Terminate m, g)"

text \<open>A call of the handler, and the calls it makes in turn.\<close>

definition call_handler :: "(json_obj \<Rightarrow> string) \<Rightarrow> ('h match_handler \<Rightarrow> 'h \<Rightarrow> match_call list \<times> 'h) \<Rightarrow> 'h match_sys \<Rightarrow> 'h match_sys" where
  "call_handler dump f st =
     (case st of (m, g) \<Rightarrow>
        case f (mt_handler m) (mh_state (mt_handler m)) of
          (calls, h') \<Rightarrow> fold (run_call dump) calls (m\<lparr>mt_handler := (mt_handler m)\<lparr>mh_state := h'\<rparr>\<rparr>, g))"

section \<open>Jobs\<close>

definition set_player :: "u64 \<Rightarrow> string \<Rightarrow> u64 \<Rightarrow> game_net \<Rightarrow> game_net" where
  "set_player pid status match_id g =
     g\<lparr>gn_registry := UpdateMatch pid match_id (pr_UpdateStatus pid status (gn_registry g))\<rparr>"

definition HandleJoin :: "(json_obj \<Rightarrow> string) \<Rightarrow> u64 \<Rightarrow> u16 \<Rightarrow> 'h match_sys \<Rightarrow> 'h match_sys" where
  "HandleJoin dump pid reactor st =
     (case st of (m, g) \<Rightarrow>
        if \<not> mt_active m then (m, g)
        else if 0 < max_players (mt_config m) \<and> unat (max_players (mt_config m)) \<le> length (mt_players m) then (m, g)
        else if \<not> mh_JoinAttempt (mt_handler m) pid (mh_state (mt_handler m)) then (m, g)
        else call_handler dump (\<lambda>h. mh_OnJoin h pid)
               (m\<lparr>mt_players := AList.update pid reactor (mt_players m)\<rparr>, set_player pid ''in_game'' (mt_id m) g))"

definition HandleLeave :: "(json_obj \<Rightarrow> string) \<Rightarrow> u64 \<Rightarrow> 'h match_sys \<Rightarrow> 'h match_sys" where
  "HandleLeave dump pid st =
     (case st of (m, g) \<Rightarrow>
        if map_of (mt_players m) pid = None then (m, g)
        else call_handler dump (\<lambda>h. mh_OnLeave h pid)
               (m\<lparr>mt_players := AList.delete pid (mt_players m)\<rparr>, set_player pid ''online'' 0 g))"

definition HandleMessage :: "(json_obj \<Rightarrow> string) \<Rightarrow> u64 \<Rightarrow> int \<Rightarrow> bytes \<Rightarrow> 'h match_sys \<Rightarrow> 'h match_sys" where
  "HandleMessage dump sender opcode data st = call_handler dump (\<lambda>h. mh_OnMessage h sender opcode data) st"

definition mt_ScheduleTick :: "int \<Rightarrow> 'h match \<Rightarrow> game_timer \<Rightarrow> game_timer" where
  "mt_ScheduleTick now m timer =
     (if tick_rate (mt_config m) = 0 then timer
      else Reserve now (1000 div uint (tick_rate (mt_config m))) (QMatch (mt_id m)) GMatchTick timer)"

definition HandleTick :: "(json_obj \<Rightarrow> string) \<Rightarrow> int \<Rightarrow> 'h match_sys \<times> game_timer \<Rightarrow> 'h match_sys \<times> game_timer" where
  "HandleTick dump now st =
     (case st of ((m, g), timer) \<Rightarrow>
        if \<not> mt_active m then st
        else case call_handler dump (\<lambda>h. mh_OnTick h (now - mt_last_tick m)) (m\<lparr>mt_last_tick := now\<rparr>, g) of
               (m', g') \<Rightarrow> ((m', g'), mt_ScheduleTick now m' timer))"

definition HandleTerminate :: "(json_obj \<Rightarrow> string) \<Rightarrow> 'h match_sys \<Rightarrow> 'h match_sys" where
  "HandleTerminate dump st =
     (case call_handler dump mh_OnTerminate st of
        (m, g) \<Rightarrow> (m\<lparr>mt_active := False, mt_players := []\<rparr>,
                    fold (\<lambda>(pid, reactor). set_player pid ''online'' 0) (mt_players m) g))"

fun run_job :: "(json_obj \<Rightarrow> string) \<Rightarrow> int \<Rightarrow> match_job \<Rightarrow> 'h match_sys \<times> game_timer \<Rightarrow> 'h match_sys \<times> game_timer" where
  "run_job dump now (JobJoin pid reactor) (st, timer) = (HandleJoin dump pid reactor st, timer)"
| "run_job dump now (JobLeave pid) (st, timer) = (HandleLeave dump pid st, timer)"
| "run_job dump now (JobMessage sender opcode data) (st, timer) = (HandleMessage dump sender opcode data st, timer)"
| "run_job dump now JobTerminate (st, timer) = (HandleTerminate dump st, timer)"
| "run_job dump now JobTick (st, timer) = HandleTick dump now (st, timer)"

section \<open>MatchRegistry\<close>

datatype game_error = KPlayerNotFound | KRoomFull | KMatchNotFound | KInvalidAction | KAlreadyJoined

record 'h match_registry =
  mr_factories :: "(string \<times> 'h match_handler) list"
  mr_matches :: "(u64 \<times> 'h match) list"
  mr_next_id :: u64

definition match_registry_new :: "'h match_registry" where
  "match_registry_new = \<lparr>mr_factories = [], mr_matches = [], mr_next_id = 1\<rparr>"

definition RegisterHandler :: "string \<Rightarrow> 'h match_handler \<Rightarrow> 'h match_registry \<Rightarrow> 'h match_registry" where
  "RegisterHandler name factory mr = mr\<lparr>mr_factories := AList.update name factory (mr_factories mr)\<rparr>"

definition Match_new :: "(json_obj \<Rightarrow> string) \<Rightarrow> int \<Rightarrow> u64 \<Rightarrow> 'h match_handler \<Rightarrow> match_config \<Rightarrow> game_net \<Rightarrow> 'h match_sys" where
  "Match_new dump now i handler config g =
     call_handler dump mh_Init
       (\<lparr>mt_id = i, mt_config = config, mt_handler = handler, mt_players = [], mt_active = True, mt_last_tick = now,
         mt_jobs = []\<rparr>, g)"

text \<open>The result is the error or the id of the new match, which stands for the pointer to it.\<close>

definition CreateMatch :: "(json_obj \<Rightarrow> string) \<Rightarrow> int \<Rightarrow> string \<Rightarrow> match_config \<Rightarrow>
    'h match_registry \<times> game_net \<times> game_timer \<Rightarrow> (game_error + u64) \<times> 'h match_registry \<times> game_net \<times> game_timer" where
  "CreateMatch dump now name config st =
     (case st of (mr, g, timer) \<Rightarrow>
        case map_of (mr_factories mr) name of
          None \<Rightarrow> (Inl KMatchNotFound, mr, g, timer)
        | Some handler \<Rightarrow>
            let i = mr_next_id mr in
            case Match_new dump now i handler (config\<lparr>handler_name := name\<rparr>) g of
              (m, g') \<Rightarrow>
                (Inr i, mr\<lparr>mr_next_id := i + 1, mr_matches := AList.update i m (mr_matches mr)\<rparr>, g',
                 if 0 < tick_rate (mt_config m) then mt_ScheduleTick now m timer else timer))"

definition FindMatch :: "u64 \<Rightarrow> 'h match_registry \<Rightarrow> 'h match option" where
  "FindMatch i mr = map_of (mr_matches mr) i"

definition RemoveMatch :: "u64 \<Rightarrow> 'h match_registry \<Rightarrow> 'h match_registry" where
  "RemoveMatch i mr = mr\<lparr>mr_matches := AList.delete i (mr_matches mr)\<rparr>"

definition ListMatches :: "string \<Rightarrow> 'h match_registry \<Rightarrow> u64 list" where
  "ListMatches label mr =
     map fst (filter (\<lambda>(i, m). label = [] \<or> mc_label (mt_config m) = label) (mr_matches mr))"

definition mr_ActiveCount :: "'h match_registry \<Rightarrow> nat" where
  "mr_ActiveCount mr = length (mr_matches mr)"

text \<open>A call through the pointer a caller got from \<^verbatim>\<open>CreateMatch\<close> or \<^verbatim>\<open>FindMatch\<close>.\<close>

definition upd_match :: "u64 \<Rightarrow> ('h match \<Rightarrow> 'h match) \<Rightarrow> 'h match_registry \<Rightarrow> 'h match_registry" where
  "upd_match i f mr =
     (case map_of (mr_matches mr) i of None \<Rightarrow> mr | Some m \<Rightarrow> mr\<lparr>mr_matches := AList.update i (f m) (mr_matches mr)\<rparr>)"

section \<open>The roster of a match\<close>

text \<open>What the players map of a match promises: the limit is kept, a terminated match is empty, and every player of
  the match who is registered is shown as playing in it.\<close>

definition roster_ok :: "'h match_sys \<Rightarrow> bool" where
  "roster_ok st =
     (case st of (m, g) \<Rightarrow>
        distinct (map fst (mt_players m)) \<and>
        (0 < max_players (mt_config m) \<longrightarrow> length (mt_players m) \<le> unat (max_players (mt_config m))) \<and>
        (\<not> mt_active m \<longrightarrow> mt_players m = []) \<and>
        (\<forall>pid e. map_of (mt_players m) pid \<noteq> None \<longrightarrow> pr_Find pid (gn_registry g) = Some e \<longrightarrow>
           en_match_id e = mt_id m \<and> en_status e = ''in_game''))"

text \<open>What a handler can change through its calls.\<close>

definition same_roster :: "'h match_sys \<Rightarrow> 'h match_sys \<Rightarrow> bool" where
  "same_roster a b =
     (mt_players (fst a) = mt_players (fst b) \<and> mt_active (fst a) = mt_active (fst b) \<and> mt_id (fst a) = mt_id (fst b) \<and>
      max_players (mt_config (fst a)) = max_players (mt_config (fst b)) \<and> gn_registry (snd a) = gn_registry (snd b))"

lemma send_json_registry [simp]: "gn_registry (send_json dump ctx pid j g) = gn_registry g"
  by (simp add: send_json_def net_dispatch_def split: prod.splits option.splits)

lemma SendToReactor_registry [simp]: "gn_registry (SendToReactor dump m r pid opcode data g) = gn_registry g"
  by (simp add: SendToReactor_def)

lemma fold_registry:
  assumes "\<And>x g. gn_registry (f x g) = gn_registry g"
  shows "gn_registry (fold f xs g) = gn_registry g"
  by (induction xs arbitrary: g) (simp_all add: assms)

lemma run_call_roster: "same_roster (run_call dump c st) st"
proof (cases st)
  case (Pair m g)
  then show ?thesis
    by (cases c)
      (auto simp: same_roster_def SendToPlayer_def BroadcastAll_def BroadcastExcept_def SetLabel_def Terminate_def mt_push_def
        split_beta intro!: fold_registry split: option.splits)
qed

lemma fold_call_roster: "same_roster (fold (run_call dump) calls st) st"
proof (induction calls arbitrary: st)
  case (Cons c calls)
  then show ?case using run_call_roster [of dump c st] Cons [of "run_call dump c st"] by (simp add: same_roster_def)
qed (simp add: same_roster_def)

lemma call_handler_roster: "same_roster (call_handler dump f st) st"
proof -
  obtain m g where st: "st = (m, g)" by fastforce
  obtain calls h where f: "f (mt_handler m) (mh_state (mt_handler m)) = (calls, h)" by fastforce
  show ?thesis
    using fold_call_roster [of dump calls "(m\<lparr>mt_handler := (mt_handler m)\<lparr>mh_state := h\<rparr>\<rparr>, g)"]
    by (simp add: call_handler_def st f same_roster_def)
qed

lemma roster_ok_same: "same_roster a b \<Longrightarrow> roster_ok a = roster_ok b"
  by (simp add: roster_ok_def same_roster_def split_beta)

lemma call_handler_ok: "roster_ok (call_handler dump f st) = roster_ok st"
  using roster_ok_same [OF call_handler_roster] .

lemma pr_Find_set_player:
  "pr_Find q (gn_registry (set_player pid status i g)) =
     (if q = pid then map_option (\<lambda>e. e\<lparr>en_status := status, en_match_id := i\<rparr>) (pr_Find pid (gn_registry g))
      else pr_Find q (gn_registry g))"
  by (auto simp: set_player_def pr_Find_def pr_UpdateStatus_def UpdateMatch_def update_conv' split: option.splits)

lemma length_update_le: "length (AList.update k v xs) \<le> Suc (length xs)"
  by (induction xs) auto

lemma HandleJoin_ok: "roster_ok st \<Longrightarrow> roster_ok (HandleJoin dump pid reactor st)"
proof -
  obtain m g where st: "st = (m, g)" by fastforce
  assume ok: "roster_ok st"
  let ?m = "m\<lparr>mt_players := AList.update pid reactor (mt_players m)\<rparr>"
  have "roster_ok (?m, set_player pid ''in_game'' (mt_id m) g)"
    if "mt_active m" "\<not> (0 < max_players (mt_config m) \<and> unat (max_players (mt_config m)) \<le> length (mt_players m))"
    using ok that length_update_le [of pid reactor "mt_players m"]
    by (auto simp: roster_ok_def st distinct_update update_conv' pr_Find_set_player split: if_splits)
  then show ?thesis using ok by (simp add: HandleJoin_def st call_handler_ok)
qed

lemma HandleLeave_ok: "roster_ok st \<Longrightarrow> roster_ok (HandleLeave dump pid st)"
proof -
  obtain m g where st: "st = (m, g)" by fastforce
  assume ok: "roster_ok st"
  have "roster_ok (m\<lparr>mt_players := AList.delete pid (mt_players m)\<rparr>, set_player pid ''online'' 0 g)"
    using ok AList.length_delete_le [of pid "mt_players m"]
    by (auto simp: roster_ok_def st AList.distinct_delete AList.delete_conv' pr_Find_set_player split: if_splits)
  then show ?thesis using ok by (simp add: HandleLeave_def st call_handler_ok)
qed

lemma HandleTerminate_ok: "roster_ok (HandleTerminate dump st)"
  by (simp add: HandleTerminate_def roster_ok_def split: prod.splits)

lemma HandleTick_ok: "roster_ok (fst st) \<Longrightarrow> roster_ok (fst (HandleTick dump now st))"
proof -
  obtain m g timer where st: "st = ((m, g), timer)" by (metis prod.collapse)
  assume ok: "roster_ok (fst st)"
  have "roster_ok (call_handler dump (\<lambda>h. mh_OnTick h (now - mt_last_tick m)) (m\<lparr>mt_last_tick := now\<rparr>, g))"
    using ok by (simp add: call_handler_ok) (simp add: st roster_ok_def)
  then show ?thesis using ok by (auto simp: HandleTick_def st split: prod.splits)
qed

lemma run_job_ok: "roster_ok (fst st) \<Longrightarrow> roster_ok (fst (run_job dump now j st))"
  by (cases st; cases j)
    (simp_all add: HandleJoin_ok HandleLeave_ok HandleTerminate_ok HandleMessage_def call_handler_ok HandleTick_ok)

lemma Match_new_ok: "roster_ok (Match_new dump now i handler config g)"
  by (simp add: Match_new_def call_handler_ok) (simp add: roster_ok_def)

lemma run_jobs_ok: "roster_ok (fst st) \<Longrightarrow> roster_ok (fst (fold (\<lambda>(now, j). run_job dump now j) jobs st))"
  by (induction jobs arbitrary: st) (simp_all add: run_job_ok split_beta)

text \<open>Whatever the game rules do and whatever jobs a new match runs, in whatever order, its roster stays
  consistent: never more players than the limit, nobody after termination, and every registered player in the match
  is shown in the registry as playing in this very match.\<close>

theorem match_roster_consistent:
  "roster_ok (fst (fold (\<lambda>(now, j). run_job dump now j) jobs (Match_new dump now0 i handler config g, timer)))"
  by (rule run_jobs_ok) (simp add: Match_new_ok)

end
