(* ===== verification/Matchmaker.thy ===== *)
theory Matchmaker
  imports Match_Service "HOL-Library.Sublist"
begin

text \<open>
  Matchmaking (\<^verbatim>\<open>src/game/matchmaker/QueryParser.cpp\<close>, \<^verbatim>\<open>src/game/matchmaker/MatchmakerQueue.cpp\<close>): the query language
  of a ticket, and the queue that groups tickets into matches. Floating-point numbers are a parameter: how they are
  read and compared is all that is used of them. The queue runs its jobs one after the other; the jobs' bodies are
  the operations below. Times are in nanoseconds.
\<close>

section \<open>Queries\<close>

record 'd doubles =
  d_from_chars :: "string \<Rightarrow> 'd option"
  d_ge :: "'d \<Rightarrow> 'd \<Rightarrow> bool"
  d_gt :: "'d \<Rightarrow> 'd \<Rightarrow> bool"
  d_le :: "'d \<Rightarrow> 'd \<Rightarrow> bool"
  d_lt :: "'d \<Rightarrow> 'd \<Rightarrow> bool"

datatype query_op = KEq | KNeq | KGte | KGt | KLte | KLt

datatype 'd query_value = VStr string | VNum 'd

record 'd condition =
  cd_key :: string
  cd_op :: query_op
  cd_value :: "'d query_value"

record 'd properties =
  string_keys :: "string list"
  string_values :: "string list"
  numeric_keys :: "string list"
  numeric_values :: "'d list"

definition split_op :: "string \<Rightarrow> query_op \<times> string" where
  "split_op val_str =
     (if starts_with val_str ''>='' then (KGte, drop 2 val_str)
      else if starts_with val_str ''<='' then (KLte, drop 2 val_str)
      else if starts_with val_str ''>'' then (KGt, drop 1 val_str)
      else if starts_with val_str ''<'' then (KLt, drop 1 val_str)
      else (KEq, val_str))"

definition read_condition :: "'d doubles \<Rightarrow> bool \<Rightarrow> string \<Rightarrow> string \<Rightarrow> 'd condition list" where
  "read_condition ops negate key val_str =
     (if negate then [\<lparr>cd_key = key, cd_op = KNeq, cd_value = VStr val_str\<rparr>]
      else case split_op val_str of (oper, rest) \<Rightarrow>
        if oper \<noteq> KEq
        then (case d_from_chars ops rest of None \<Rightarrow> [] | Some num \<Rightarrow> [\<lparr>cd_key = key, cd_op = oper, cd_value = VNum num\<rparr>])
        else [\<lparr>cd_key = key, cd_op = KEq, cd_value = VStr rest\<rparr>])"

text \<open>The loop, on the rest of the query from \<^verbatim>\<open>pos\<close> on.\<close>

function qp_loop :: "'d doubles \<Rightarrow> string \<Rightarrow> 'd condition list" where
  "qp_loop ops q =
     (case dropWhile (\<lambda>c. c = CHR '' '') q of
        [] \<Rightarrow> []
      | c # r \<Rightarrow>
          if c = CHR ''+'' \<or> c = CHR ''-''
          then case find_char (CHR '':'') r of
                 None \<Rightarrow> []
               | Some colon \<Rightarrow>
                   read_condition ops (c = CHR ''-'') (take colon r) (takeWhile (\<lambda>c. c \<noteq> CHR '' '') (drop (colon + 1) r)) @
                   qp_loop ops (dropWhile (\<lambda>c. c \<noteq> CHR '' '') (drop (colon + 1) r))
          else qp_loop ops r)"
  by pat_completeness auto
termination
proof (relation "measure (\<lambda>(ops, q). length q)")
  fix ops q c r and colon
  assume q: "dropWhile (\<lambda>c. c = CHR '' '') q = c # r"
  have "length (dropWhile (\<lambda>c. c \<noteq> CHR '' '') (drop (colon + 1) r)) \<le> length (drop (colon + 1) r)"
    by (rule length_dropWhile_le)
  moreover have "length (c # r) \<le> length q" using length_dropWhile_le [of _ q] q by metis
  ultimately show "((ops, dropWhile (\<lambda>c. c \<noteq> CHR '' '') (drop (colon + 1) r)), ops, q) \<in> measure (\<lambda>(ops, q). length q)"
    by simp
next
  fix ops q c r
  assume q: "dropWhile (\<lambda>c. c = CHR '' '') q = c # r"
  have "length (c # r) \<le> length q" using length_dropWhile_le [of _ q] q by metis
  then show "((ops, r), ops, q) \<in> measure (\<lambda>(ops, q). length q)" by simp
qed simp

declare qp_loop.simps [simp del]

definition Parse :: "'d doubles \<Rightarrow> string \<Rightarrow> 'd condition list" where
  "Parse ops query = qp_loop ops query"

definition eval_condition :: "'d doubles \<Rightarrow> 'd properties \<Rightarrow> 'd condition \<Rightarrow> bool" where
  "eval_condition ops props cond =
     (case cd_value cond of
        VNum x \<Rightarrow>
          (case map_of (zip (numeric_keys props) (numeric_values props)) (cd_key cond) of
             None \<Rightarrow> False
           | Some v \<Rightarrow>
               (case cd_op cond of KGte \<Rightarrow> d_ge ops v x | KGt \<Rightarrow> d_gt ops v x | KLte \<Rightarrow> d_le ops v x | KLt \<Rightarrow> d_lt ops v x
                | _ \<Rightarrow> False))
      | VStr s \<Rightarrow>
          (let found = map_of (zip (string_keys props) (string_values props)) (cd_key cond) in
           case cd_op cond of KEq \<Rightarrow> found = Some s | KNeq \<Rightarrow> found \<noteq> Some s | _ \<Rightarrow> False))"

definition Evaluate :: "'d doubles \<Rightarrow> 'd condition list \<Rightarrow> 'd properties \<Rightarrow> bool" where
  "Evaluate ops conditions props = list_all (eval_condition ops props) conditions"

section \<open>Tickets\<close>

record 'd ticket =
  ticket_id :: u64
  tk_player_id :: u64
  tk_context_id :: u16
  min_count :: u32
  max_count :: u32
  tk_query :: string
  tk_handler_name :: string
  string_props :: "(string \<times> string) list"
  numeric_props :: "(string \<times> 'd) list"
  submitted_at :: int
  tk_timeout :: int

record 'd matchmaker =
  mq_tickets :: "'d ticket list"
  mq_next_ticket_id :: u64
  mq_made :: "(u64 \<times> 'd ticket list) list"

text \<open>\<^verbatim>\<open>mq_made\<close> is the history of the groups that were matched, with the match's id.\<close>

definition matchmaker_new :: "'d matchmaker" where
  "matchmaker_new = \<lparr>mq_tickets = [], mq_next_ticket_id = 1, mq_made = []\<rparr>"

definition TicketToProps :: "'d ticket \<Rightarrow> 'd properties" where
  "TicketToProps t =
     \<lparr>string_keys = map fst (string_props t), string_values = map snd (string_props t),
      numeric_keys = map fst (numeric_props t), numeric_values = map snd (numeric_props t)\<rparr>"

definition HandleAddTicket :: "int \<Rightarrow> 'd ticket \<Rightarrow> 'd matchmaker \<Rightarrow> 'd matchmaker" where
  "HandleAddTicket now t mq =
     (let t1 = t\<lparr>ticket_id := mq_next_ticket_id mq\<rparr>;
          t2 = (if submitted_at t1 = 0 then t1\<lparr>submitted_at := now\<rparr> else t1) in
      mq\<lparr>mq_next_ticket_id := mq_next_ticket_id mq + 1, mq_tickets := mq_tickets mq @ [t2]\<rparr>)"

definition HandleRemoveTicket :: "u64 \<Rightarrow> 'd matchmaker \<Rightarrow> 'd matchmaker" where
  "HandleRemoveTicket i mq = mq\<lparr>mq_tickets := filter (\<lambda>t. ticket_id t \<noteq> i) (mq_tickets mq)\<rparr>"

definition HandleRemoveByPlayer :: "u64 \<Rightarrow> 'd matchmaker \<Rightarrow> 'd matchmaker" where
  "HandleRemoveByPlayer pid mq = mq\<lparr>mq_tickets := filter (\<lambda>t. tk_player_id t \<noteq> pid) (mq_tickets mq)\<rparr>"

section \<open>Notifications\<close>

text \<open>The \<^verbatim>\<open>memcpy\<close> of an integer on a little-endian machine.\<close>

definition le_bytes :: "nat \<Rightarrow> 'w::len word \<Rightarrow> bytes" where
  "le_bytes n w = map (\<lambda>i. ucast (drop_bit (8 * i) w)) [0..<n]"

definition match_found_count :: "'d ticket list \<Rightarrow> u8" where
  "match_found_count grp = of_nat (length grp)"

definition match_found_size :: "'d ticket list \<Rightarrow> u16" where
  "match_found_size grp = 4 + (8 + 1 + ucast (match_found_count grp) * 8)"

definition match_found_bytes :: "'d ticket list \<Rightarrow> u64 \<Rightarrow> bytes" where
  "match_found_bytes grp match_id =
     le_bytes 2 (match_found_size grp) @ le_bytes 2 (0x3001 :: u16) @ le_bytes 8 match_id @
     [match_found_count grp] @ concat (map (\<lambda>t. le_bytes 8 (tk_player_id t)) grp)"

text \<open>Allocate, copy the packet, commit the computed size and dispatch to the player's context.\<close>

definition send_packet :: "u16 \<Rightarrow> bytes \<Rightarrow> u16 \<Rightarrow> u64 \<Rightarrow> game_net \<Rightarrow> game_net" where
  "send_packet total_size packet ctx pid g =
     (case Allocate (ucast total_size) (gn_pool g) of
        (Inl _, p) \<Rightarrow> g\<lparr>gn_pool := p\<rparr>
      | (Inr sb, p) \<Rightarrow> net_dispatch ctx pid (Some (Commit (ucast total_size) sb)) (g\<lparr>gn_pool := fill_writable packet sb p\<rparr>))"

definition NotifyMatchFound :: "'d ticket list \<Rightarrow> u64 \<Rightarrow> game_net \<Rightarrow> game_net" where
  "NotifyMatchFound grp match_id g =
     fold (\<lambda>t g.
       case pr_Find (tk_player_id t) (gn_registry g) of
         None \<Rightarrow> g
       | Some entry \<Rightarrow> send_packet (match_found_size grp) (match_found_bytes grp match_id) (en_context_id entry) (tk_player_id t) g)
       grp g"

definition NotifyTimeout :: "'d ticket \<Rightarrow> game_net \<Rightarrow> game_net" where
  "NotifyTimeout t g =
     (case pr_Find (tk_player_id t) (gn_registry g) of
        None \<Rightarrow> g
      | Some entry \<Rightarrow>
          send_packet 12 (le_bytes 2 (12 :: u16) @ le_bytes 2 (0x3003 :: u16) @ le_bytes 8 (ticket_id t)) (en_context_id entry) (tk_player_id t) g)"

section \<open>Matching\<close>

definition accepts :: "'d doubles \<Rightarrow> 'd ticket \<Rightarrow> 'd ticket \<Rightarrow> bool" where
  "accepts ops a b = Evaluate ops (Parse ops (tk_query a)) (TicketToProps b)"

fun collect :: "'d doubles \<Rightarrow> 'd ticket list \<Rightarrow> bool list \<Rightarrow> nat \<Rightarrow> nat list \<Rightarrow> nat list \<Rightarrow> nat list" where
  "collect ops ts used i [] grp = grp"
| "collect ops ts used i (j # js) grp =
     (if used ! j then collect ops ts used i js grp
      else if tk_handler_name (ts ! j) \<noteq> tk_handler_name (ts ! i) then collect ops ts used i js grp
      else if accepts ops (ts ! i) (ts ! j) \<and> accepts ops (ts ! j) (ts ! i)
      then if unat (max_count (ts ! i)) \<le> length (grp @ [j]) then grp @ [j] else collect ops ts used i js (grp @ [j])
      else collect ops ts used i js grp)"

type_synonym 'h game_state = "'h match_registry \<times> game_net \<times> game_timer"

text \<open>One round of the outer loop, for the ticket at \<^verbatim>\<open>i\<close>.\<close>

definition try_ticket :: "(json_obj \<Rightarrow> string) \<Rightarrow> int \<Rightarrow> 'd doubles \<Rightarrow> 'd ticket list \<Rightarrow> nat \<Rightarrow>
    bool list \<times> (u64 \<times> 'd ticket list) list \<times> 'h game_state \<Rightarrow> bool list \<times> (u64 \<times> 'd ticket list) list \<times> 'h game_state" where
  "try_ticket dump now ops ts i st =
     (case st of (used, made, gs) \<Rightarrow>
        if used ! i then st
        else
          let grp = collect ops ts used i [i + 1..<length ts] [i] in
          if unat (min_count (ts ! i)) \<le> length grp
          then
            case CreateMatch dump now (tk_handler_name (ts ! i))
                   (match_config_default\<lparr>handler_name := tk_handler_name (ts ! i)\<rparr>) gs of
              (Inl _, gs') \<Rightarrow> (used, made, gs')
            | (Inr match_id, mr, g, timer) \<Rightarrow>
                let matched = map ((!) ts) grp;
                    mr' = fold (\<lambda>t. upd_match match_id (RequestJoin (tk_player_id t) (tk_context_id t))) matched mr in
                (fold (\<lambda>j u. u[j := True]) grp used, made @ [(match_id, matched)],
                 mr', NotifyMatchFound matched match_id g, timer)
          else (used, made, gs))"

definition TryMatch :: "(json_obj \<Rightarrow> string) \<Rightarrow> int \<Rightarrow> 'd doubles \<Rightarrow> 'd matchmaker \<times> 'h game_state \<Rightarrow> 'd matchmaker \<times> 'h game_state" where
  "TryMatch dump now ops st =
     (case st of (mq, gs) \<Rightarrow>
        let ts = mq_tickets mq in
        if length ts < 2 then (mq, gs)
        else
          case fold (try_ticket dump now ops ts) [0..<length ts] (replicate (length ts) False, mq_made mq, gs) of
            (used, made, gs') \<Rightarrow>
              (mq\<lparr>mq_tickets := map ((!) ts) (filter (\<lambda>i. \<not> used ! i) [0..<length ts]), mq_made := made\<rparr>, gs'))"

definition ticket_expired :: "int \<Rightarrow> 'd ticket \<Rightarrow> bool" where
  "ticket_expired now t = (now - submitted_at t \<ge> tk_timeout t * 1000000000)"

definition ExpireTimeouts :: "int \<Rightarrow> 'd matchmaker \<times> game_net \<Rightarrow> 'd matchmaker \<times> game_net" where
  "ExpireTimeouts now st =
     (case st of (mq, g) \<Rightarrow>
        (mq\<lparr>mq_tickets := filter (\<lambda>t. \<not> ticket_expired now t) (mq_tickets mq)\<rparr>,
         fold NotifyTimeout (filter (ticket_expired now) (mq_tickets mq)) g))"

definition mq_ScheduleTick :: "int \<Rightarrow> int \<Rightarrow> game_timer \<Rightarrow> game_timer" where
  "mq_ScheduleTick now interval timer = Reserve now interval QMatchmaker (GMatchmakerTick interval) timer"

definition ProcessTickNow :: "(json_obj \<Rightarrow> string) \<Rightarrow> int \<Rightarrow> 'd doubles \<Rightarrow> 'd matchmaker \<times> 'h game_state \<Rightarrow> 'd matchmaker \<times> 'h game_state" where
  "ProcessTickNow dump now ops st =
     (case st of (mq, mr, g, timer) \<Rightarrow>
        case ExpireTimeouts now (mq, g) of (mq', g') \<Rightarrow> TryMatch dump now ops (mq', mr, g', timer))"

definition ProcessTick :: "(json_obj \<Rightarrow> string) \<Rightarrow> int \<Rightarrow> 'd doubles \<Rightarrow> int \<Rightarrow> 'd matchmaker \<times> 'h game_state \<Rightarrow> 'd matchmaker \<times> 'h game_state" where
  "ProcessTick dump now ops interval st =
     (case ProcessTickNow dump now ops st of (mq, mr, g, timer) \<Rightarrow> (mq, mr, g, mq_ScheduleTick now interval timer))"

definition TicketCount :: "'d matchmaker \<Rightarrow> nat" where
  "TicketCount mq = length (mq_tickets mq)"

section \<open>The query language\<close>

text \<open>The text of a condition, and the conditions that have one; \<^verbatim>\<open>shw\<close> prints a number.\<close>

fun op_text :: "query_op \<Rightarrow> string" where
  "op_text KGte = ''>=''" | "op_text KLte = ''<=''" | "op_text KGt = ''>''" | "op_text KLt = ''<''" | "op_text _ = []"

definition value_text :: "('d \<Rightarrow> string) \<Rightarrow> 'd condition \<Rightarrow> string" where
  "value_text shw c = (case cd_value c of VStr s \<Rightarrow> s | VNum x \<Rightarrow> op_text (cd_op c) @ shw x)"

definition cond_text :: "('d \<Rightarrow> string) \<Rightarrow> 'd condition \<Rightarrow> string" where
  "cond_text shw c = (if cd_op c = KNeq then ''-'' else ''+'') @ cd_key c @ '':'' @ value_text shw c"

definition cond_ok :: "'d doubles \<Rightarrow> ('d \<Rightarrow> string) \<Rightarrow> 'd condition \<Rightarrow> bool" where
  "cond_ok ops shw c =
     (CHR '':'' \<notin> set (cd_key c) \<and> CHR '' '' \<notin> set (value_text shw c) \<and>
      (case cd_value c of
         VStr s \<Rightarrow> cd_op c = KNeq \<or> cd_op c = KEq \<and> (s = [] \<or> hd s \<notin> {CHR ''<'', CHR ''>''})
       | VNum x \<Rightarrow> cd_op c \<in> {KGte, KGt, KLte, KLt} \<and> d_from_chars ops (shw x) = Some x \<and> (shw x = [] \<or> hd (shw x) \<noteq> CHR ''='')))"

lemma read_condition_text:
  assumes "cond_ok ops shw c"
  shows "read_condition ops (cd_op c = KNeq) (cd_key c) (value_text shw c) = [c]"
proof (cases "cd_value c")
  case (VStr s)
  then show ?thesis using assms
    by (cases s) (auto simp: cond_ok_def read_condition_def value_text_def split_op_def starts_with_def split: if_splits)
next
  case (VNum x)
  then show ?thesis using assms
    by (cases "shw x") (auto simp: cond_ok_def read_condition_def value_text_def split_op_def starts_with_def)
qed

lemma qp_loop_space: "qp_loop ops (CHR '' '' # q) = qp_loop ops q"
  by (subst (1 2) qp_loop.simps) simp

lemma qp_loop_cond:
  assumes "cond_ok ops shw c"
  shows "qp_loop ops (cond_text shw c @ '' '' @ rest) = c # qp_loop ops rest"
proof -
  let ?v = "value_text shw c" and ?sign = "if cd_op c = KNeq then CHR ''-'' else CHR ''+''"
  let ?r = "cd_key c @ CHR '':'' # ?v @ CHR '' '' # rest"
  have printed: "cond_text shw c @ '' '' @ rest = ?sign # ?r" by (simp add: cond_text_def)
  have colon: "find_char (CHR '':'') ?r = Some (length (cd_key c))"
    using assms by (simp add: find_char_here cond_ok_def)
  have v: "takeWhile (\<lambda>c. c \<noteq> CHR '' '') (?v @ CHR '' '' # rest) = ?v" "dropWhile (\<lambda>c. c \<noteq> CHR '' '') (?v @ CHR '' '' # rest) = CHR '' '' # rest"
    using assms by (auto simp: cond_ok_def takeWhile_append dropWhile_append)
  have "qp_loop ops (?sign # ?r) =
      read_condition ops (cd_op c = KNeq) (cd_key c) ?v @ qp_loop ops (CHR '' '' # rest)"
    using v by (subst qp_loop.simps) (simp add: colon)
  then show ?thesis unfolding printed by (simp add: read_condition_text [OF assms] qp_loop_space)
qed

text \<open>The query language round-trips: parsing the printed conditions of a ticket gives back exactly those
  conditions, in order, for keys without a colon, values without a space and numbers the number reader accepts.\<close>

theorem query_parse_print:
  assumes "list_all (cond_ok ops shw) cs"
  shows "Parse ops (concat (map (\<lambda>c. cond_text shw c @ '' '') cs)) = cs"
  using assms
proof (induction cs)
  case Nil
  show ?case by (simp add: Parse_def qp_loop.simps)
next
  case (Cons c cs)
  then show ?case using qp_loop_cond [of ops shw c "concat (map (\<lambda>c. cond_text shw c @ '' '') cs)"] by (simp add: Parse_def)
qed

definition nat_doubles :: "nat doubles" where
  "nat_doubles = \<lparr>d_from_chars = (\<lambda>s. if s \<noteq> [] \<and> digit_val (hd s) \<noteq> None then Some (fst (read_digits 0 s)) else None),
     d_ge = (\<ge>), d_gt = (>), d_le = (\<le>), d_lt = (<)\<rparr>"

theorem query_parse_print_witness:
  "Parse nat_doubles ''+mode:ranked +level:>=10 -map:desert '' =
     [\<lparr>cd_key = ''mode'', cd_op = KEq, cd_value = VStr ''ranked''\<rparr>, \<lparr>cd_key = ''level'', cd_op = KGte, cd_value = VNum 10\<rparr>,
      \<lparr>cd_key = ''map'', cd_op = KNeq, cd_value = VStr ''desert''\<rparr>]" (is "_ = ?cs")
proof -
  have "list_all (cond_ok nat_doubles show_nat) ?cs" by code_simp
  from query_parse_print [OF this]
  have "Parse nat_doubles (concat (map (\<lambda>c. cond_text show_nat c @ '' '') ?cs)) = ?cs" .
  moreover have "concat (map (\<lambda>c. cond_text show_nat c @ '' '') ?cs) = ''+mode:ranked +level:>=10 -map:desert ''" by code_simp
  ultimately show ?thesis by (simp only:)
qed

section \<open>Packets\<close>

lemma length_le_bytes [simp]: "length (le_bytes n w) = n"
  by (simp add: le_bytes_def)

lemma length_match_found: "length (match_found_bytes grp i) = 13 + 8 * length grp"
  by (simp add: match_found_bytes_def length_concat comp_def sum_list_triv)

lemma unat_match_found_size: "unat (match_found_size grp) = 13 + 8 * (length grp mod 256)"
proof -
  have c: "unat (ucast (match_found_count grp) :: u16) = length grp mod 256"
    by (simp add: match_found_count_def unat_ucast_up unat_of_nat take_bit_eq_mod)
  have "match_found_size grp = of_nat (13 + 8 * (length grp mod 256))"
    by (simp add: match_found_size_def flip: c)
  moreover have "13 + 8 * (length grp mod 256) < 65536" using mod_less_divisor [of 256 "length grp"] by linarith
  then have "unat (of_nat (13 + 8 * (length grp mod 256)) :: u16) = 13 + 8 * (length grp mod 256)"
    by (simp only: unat_of_nat take_bit_eq_mod) simp
  ultimately show ?thesis by (simp only:)
qed

text \<open>The packet that announces a match has exactly the announced and allocated size if and only if the group has
  fewer than 256 players; the player count is cut to eight bits, so for a larger group the copy writes past the buffer.\<close>

theorem match_found_packet_fits:
  "length (match_found_bytes grp i) = unat (match_found_size grp) \<longleftrightarrow> length grp < 256"
  unfolding length_match_found unat_match_found_size using mod_less_divisor [of 256 "length grp"] by auto

section \<open>Groups\<close>

text \<open>What a matched group promises its members; the first one is the ticket whose limits were applied.\<close>

definition group_ok :: "'d doubles \<Rightarrow> 'd ticket list \<Rightarrow> bool" where
  "group_ok ops grp =
     (grp \<noteq> [] \<and>
      unat (min_count (hd grp)) \<le> length grp \<and> length grp \<le> max 2 (unat (max_count (hd grp))) \<and>
      (\<forall>t \<in> set (tl grp). tk_handler_name t = tk_handler_name (hd grp) \<and> accepts ops (hd grp) t \<and> accepts ops t (hd grp)))"

lemma collect_spec:
  "\<exists>new. collect ops ts used i js grp = grp @ new \<and> subseq new js \<and>
     (\<forall>j \<in> set new. \<not> used ! j \<and> tk_handler_name (ts ! j) = tk_handler_name (ts ! i) \<and>
        accepts ops (ts ! i) (ts ! j) \<and> accepts ops (ts ! j) (ts ! i)) \<and>
     length (grp @ new) \<le> max (Suc (length grp)) (unat (max_count (ts ! i)))"
proof (induction js arbitrary: grp)
  case (Cons j js)
  let ?ok = "\<not> used ! j \<and> tk_handler_name (ts ! j) = tk_handler_name (ts ! i) \<and> accepts ops (ts ! i) (ts ! j) \<and> accepts ops (ts ! j) (ts ! i)"
  show ?case
  proof (cases ?ok)
    case False
    then have "collect ops ts used i (j # js) grp = collect ops ts used i js grp" by auto
    then show ?thesis using Cons [of grp] by (metis list_emb_Cons)
  next
    case True
    show ?thesis
    proof (cases "unat (max_count (ts ! i)) \<le> length (grp @ [j])")
      case stop: True
      then have "collect ops ts used i (j # js) grp = grp @ [j]" using True by simp
      then show ?thesis using True by (intro exI [of _ "[j]"]) simp
    next
      case go: False
      obtain new where new: "collect ops ts used i js (grp @ [j]) = (grp @ [j]) @ new" "subseq new js"
        "\<forall>j \<in> set new. \<not> used ! j \<and> tk_handler_name (ts ! j) = tk_handler_name (ts ! i) \<and>
          accepts ops (ts ! i) (ts ! j) \<and> accepts ops (ts ! j) (ts ! i)"
        "length ((grp @ [j]) @ new) \<le> max (Suc (length (grp @ [j]))) (unat (max_count (ts ! i)))"
        using Cons [of "grp @ [j]"] by blast
      have "collect ops ts used i (j # js) grp = grp @ j # new" using True go new(1) by simp
      moreover have "length (grp @ j # new) \<le> max (Suc (length grp)) (unat (max_count (ts ! i)))" using new(4) go by simp
      ultimately show ?thesis using True new(2,3) by (intro exI [of _ "j # new"]) auto
    qed
  qed
qed simp

lemma fold_mark:
  assumes "\<forall>j \<in> set grp. j < length used" and "i < length used"
  shows "fold (\<lambda>j u. u[j := True]) grp used ! i \<longleftrightarrow> used ! i \<or> i \<in> set grp"
  using assms by (induction grp arbitrary: used) (auto simp: nth_list_update)

lemma length_fold_mark [simp]: "length (fold (\<lambda>j u. u[j := True]) grp used) = length used"
  by (induction grp arbitrary: used) auto

lemma mset_mark:
  assumes "distinct grp" and "\<forall>j \<in> set grp. j < n \<and> \<not> P j"
  shows "mset (filter (\<lambda>i. P i \<or> i \<in> set grp) [0..<n]) = mset (filter P [0..<n]) + mset grp"
proof -
  have "mset (filter (\<lambda>i. P i \<or> i \<in> set grp) xs) = mset (filter P xs) + mset (filter (\<lambda>i. i \<in> set grp) xs)" for xs
    using assms(2) by (induction xs) auto
  moreover have "mset (filter (\<lambda>i. i \<in> set grp) [0..<n]) = mset grp"
    using assms by (intro set_eq_iff_mset_eq_distinct [THEN iffD1]) auto
  ultimately show ?thesis by (simp only:)
qed

text \<open>The tickets marked as used so far are exactly those of the groups made so far.\<close>

definition try_inv :: "'d doubles \<Rightarrow> 'd ticket list \<Rightarrow> (u64 \<times> 'd ticket list) list \<Rightarrow> bool list \<times> (u64 \<times> 'd ticket list) list \<times> 'h game_state \<Rightarrow> bool" where
  "try_inv ops ts made0 st =
     (case st of (used, made, gs) \<Rightarrow>
        length used = length ts \<and>
        (\<exists>new. made = made0 @ new \<and> list_all (\<lambda>(i, grp). group_ok ops grp) new \<and>
           mset (map ((!) ts) (filter ((!) used) [0..<length ts])) = mset (concat (map snd new))))"

lemma try_ticket_inv:
  assumes "try_inv ops ts made0 st" and "i < length ts"
  shows "try_inv ops ts made0 (try_ticket dump now ops ts i st)"
proof -
  obtain used made gs where st: "st = (used, made, gs)" by (metis prod.collapse)
  obtain new where new: "length used = length ts" "made = made0 @ new" "list_all (\<lambda>(i, grp). group_ok ops grp) new"
    "mset (map ((!) ts) (filter ((!) used) [0..<length ts])) = mset (concat (map snd new))"
    using assms(1) by (auto simp: try_inv_def st)
  let ?grp = "collect ops ts used i [i + 1..<length ts] [i]"
  obtain js where js: "?grp = i # js" "subseq js [i + 1..<length ts]"
    "\<forall>j \<in> set js. \<not> used ! j \<and> tk_handler_name (ts ! j) = tk_handler_name (ts ! i) \<and>
      accepts ops (ts ! i) (ts ! j) \<and> accepts ops (ts ! j) (ts ! i)"
    "length (i # js) \<le> max 2 (unat (max_count (ts ! i)))"
    using collect_spec [of ops ts used i "[i + 1..<length ts]" "[i]"] by (auto simp: numeral_2_eq_2)
  let ?used = "fold (\<lambda>j u. u[j := True]) ?grp used" and ?matched = "map ((!) ts) ?grp"
  have "try_inv ops ts made0 (?used, made @ [(m, ?matched)], gs')"
    if free: "\<not> used ! i" and min: "unat (min_count (ts ! i)) \<le> length ?grp" for m and gs' :: "'b game_state"
  proof -
    obtain N where "js = nths [i + 1..<length ts] N" using js(2) subseq_conv_nths by blast
    then have sub: "set js \<subseteq> {i + 1..<length ts}" "distinct js"
      using set_nths_subset [of "[i + 1..<length ts]" N] by (auto simp del: upt_conv_Cons)
    then have d: "distinct ?grp" "\<forall>j \<in> set ?grp. j < length ts \<and> \<not> used ! j"
      using js free assms(2) by auto
    have "filter ((!) ?used) [0..<length ts] = filter (\<lambda>i. used ! i \<or> i \<in> set ?grp) [0..<length ts]"
      using d new(1) by (intro filter_cong) (auto simp: fold_mark)
    then have "mset (map ((!) ts) (filter ((!) ?used) [0..<length ts])) = mset (concat (map snd new)) + mset ?matched"
      using mset_mark [OF d] new(4) by simp
    moreover have "group_ok ops ?matched" using js min by (auto simp: group_ok_def)
    ultimately show ?thesis using new(1-3) by (auto simp: try_inv_def intro!: exI [of _ "new @ [(m, ?matched)]"])
  qed
  moreover have "try_inv ops ts made0 (used, made, gs')" for gs' :: "'b game_state"
    using new by (auto simp: try_inv_def)
  ultimately show ?thesis by (auto simp: try_ticket_def st Let_def split: prod.splits sum.splits)
qed

lemma try_loop_inv:
  "try_inv ops ts made0 st \<Longrightarrow> set is \<subseteq> {0..<length ts} \<Longrightarrow> try_inv ops ts made0 (fold (try_ticket dump now ops ts) is st)"
  by (induction "is" arbitrary: st) (auto simp: try_ticket_inv)

lemma mset_nth_split:
  "mset ts = mset (map ((!) ts) (filter (\<lambda>i. \<not> P i) [0..<length ts])) + mset (map ((!) ts) (filter P [0..<length ts]))"
proof -
  have "mset [0..<length ts] = mset (filter (\<lambda>i. \<not> P i) [0..<length ts]) + mset (filter P [0..<length ts])"
    by (simp only: mset_filter multiset_partition [of _ P, symmetric] add.commute flip: multiset_partition)
  then have "mset (map ((!) ts) [0..<length ts]) = mset (map ((!) ts) (filter (\<lambda>i. \<not> P i) [0..<length ts])) +
      mset (map ((!) ts) (filter P [0..<length ts]))"
    by (simp only: mset_map image_mset_union)
  then show ?thesis by (simp only: map_nth)
qed

text \<open>C22: a round of matchmaking loses and duplicates no ticket: the tickets before the round are those that remain,
  in their order, together with those of the groups made, and every group has at least as many members as its first
  ticket demands, at most the larger of two and the number it allows, one handler, and mutual acceptance between the first
  ticket and each other member.\<close>

theorem trymatch_partitions_tickets:
  "\<exists>new. mq_made (fst (TryMatch dump now ops (mq, gs))) = mq_made mq @ new \<and>
     list_all (\<lambda>(match_id, grp). group_ok ops grp) new \<and>
     mset (mq_tickets mq) = mset (mq_tickets (fst (TryMatch dump now ops (mq, gs)))) + mset (concat (map snd new)) \<and>
     subseq (mq_tickets (fst (TryMatch dump now ops (mq, gs)))) (mq_tickets mq)"
proof (cases "length (mq_tickets mq) < 2")
  case True
  then show ?thesis by (intro exI [of _ "[]"]) (simp add: TryMatch_def)
next
  case False
  let ?ts = "mq_tickets mq"
  have "filter ((!) (replicate (length ?ts) False)) [0..<length ?ts] = []" by (auto simp: filter_empty_conv)
  then have "try_inv ops ?ts (mq_made mq) (replicate (length ?ts) False, mq_made mq, gs)"
    unfolding try_inv_def prod.case by (intro conjI exI [of _ "[]"]) (simp_all only: length_replicate, simp_all)
  then have inv: "try_inv ops ?ts (mq_made mq)
      (fold (try_ticket dump now ops ?ts) [0..<length ?ts] (replicate (length ?ts) False, mq_made mq, gs))"
    by (rule try_loop_inv) simp
  obtain used made gs' where loop:
    "fold (try_ticket dump now ops ?ts) [0..<length ?ts] (replicate (length ?ts) False, mq_made mq, gs) = (used, made, gs')"
    by (metis prod.collapse)
  let ?rest = "map ((!) ?ts) (filter (\<lambda>i. \<not> used ! i) [0..<length ?ts])"
  have res: "fst (TryMatch dump now ops (mq, gs)) = mq\<lparr>mq_tickets := ?rest, mq_made := made\<rparr>"
    using False by (simp add: TryMatch_def Let_def loop)
  obtain new where new: "made = mq_made mq @ new" "list_all (\<lambda>(i, grp). group_ok ops grp) new"
    "mset (map ((!) ?ts) (filter ((!) used) [0..<length ?ts])) = mset (concat (map snd new))"
    using inv by (auto simp: loop try_inv_def)
  have "subseq ?rest (map ((!) ?ts) [0..<length ?ts])" by (intro subseq_map subseq_filter_left)
  then have "subseq ?rest ?ts" by (simp only: map_nth)
  then show ?thesis using new mset_nth_split [of ?ts "(!) used"] unfolding res
    by (intro exI [of _ new]) simp
qed

end
