(* ===== verification/Storage.thy ===== *)
theory Storage
  imports Auth "HOL-Library.Multiset"
begin

text \<open>
  The database layer (\<^verbatim>\<open>src/storage/\<close>): results, blocking connections, the pool of worker threads that runs queries
  and sends the results back to the ring a query came from, the facade and the query builder. The database itself is a
  parameter: \<^verbatim>\<open>connect\<close> tells whether the connection with a given number opens, \<^verbatim>\<open>exec\<close> runs a statement on the
  database's state. A callback is represented by an identifier, a ring by its number.
\<close>

section \<open>Results\<close>

text \<open>What libpq documents of a result: a status, a message, and a table of optional texts; reading outside of the
  table gives a null value.\<close>

datatype pg_status = TuplesOk | CommandOk | OtherStatus

record pg_raw =
  pq_status :: pg_status
  pq_message :: string
  pq_fields :: nat
  pq_rows :: "string option list list"

type_synonym pg_result = "pg_raw option"

definition pq_value :: "pg_raw \<Rightarrow> int \<Rightarrow> int \<Rightarrow> string option" where
  "pq_value r row col =
     (if 0 \<le> row \<and> nat row < length (pq_rows r) \<and> 0 \<le> col \<and> nat col < length (pq_rows r ! nat row)
      then pq_rows r ! nat row ! nat col else None)"

definition IsOk :: "pg_result \<Rightarrow> bool" where
  "IsOk res = (case res of None \<Rightarrow> False | Some r \<Rightarrow> pq_status r = TuplesOk)"

definition IsCommand :: "pg_result \<Rightarrow> bool" where
  "IsCommand res = (case res of None \<Rightarrow> False | Some r \<Rightarrow> pq_status r = CommandOk)"

definition result_bool :: "pg_result \<Rightarrow> bool" where
  "result_bool res = (IsOk res \<or> IsCommand res)"

definition ErrorMessage :: "pg_result \<Rightarrow> string" where
  "ErrorMessage res = (case res of None \<Rightarrow> ''no result'' | Some r \<Rightarrow> pq_message r)"

definition RowCount :: "pg_result \<Rightarrow> nat" where
  "RowCount res = (case res of None \<Rightarrow> 0 | Some r \<Rightarrow> length (pq_rows r))"

definition ColumnCount :: "pg_result \<Rightarrow> nat" where
  "ColumnCount res = (case res of None \<Rightarrow> 0 | Some r \<Rightarrow> pq_fields r)"

definition GetString :: "pg_result \<Rightarrow> int \<Rightarrow> int \<Rightarrow> string" where
  "GetString res row col =
     (case res of None \<Rightarrow> [] | Some r \<Rightarrow> (case pq_value r row col of None \<Rightarrow> [] | Some v \<Rightarrow> v))"

definition IsNull :: "pg_result \<Rightarrow> int \<Rightarrow> int \<Rightarrow> bool" where
  "IsNull res row col = (case res of None \<Rightarrow> True | Some r \<Rightarrow> pq_value r row col = None)"

text \<open>\<^verbatim>\<open>std::atoi\<close> and \<^verbatim>\<open>std::atoll\<close> on a text whose number is in range.\<close>

definition is_space :: "char \<Rightarrow> bool" where
  "is_space c = (c = CHR '' '' \<or> (9 \<le> (of_char c :: nat) \<and> (of_char c :: nat) \<le> 13))"

definition atoi :: "string \<Rightarrow> int" where
  "atoi s =
     (case dropWhile is_space s of
        [] \<Rightarrow> 0
      | c # r \<Rightarrow>
          if c = CHR ''-'' then - int (fst (read_digits 0 r))
          else if c = CHR ''+'' then int (fst (read_digits 0 r))
          else int (fst (read_digits 0 (c # r))))"

definition GetInt :: "pg_result \<Rightarrow> int \<Rightarrow> int \<Rightarrow> int" where
  "GetInt res row col = (let sv = GetString res row col in if sv = [] then 0 else atoi sv)"

definition GetInt64 :: "pg_result \<Rightarrow> int \<Rightarrow> int \<Rightarrow> int" where
  "GetInt64 res row col = (let sv = GetString res row col in if sv = [] then 0 else atoi sv)"

lemma atoi_show_int: "atoi (show_int n) = n"
proof -
  have ns: "\<not> is_space (hd (show_nat k))" "hd (show_nat k) \<noteq> CHR ''-''" "hd (show_nat k) \<noteq> CHR ''+''" for k
    using show_nat_chars [OF hd_in_set [OF show_nat_neq_Nil [of k]]]
    by (auto simp: is_space_def digit_val_def Let_def split: if_splits)
  have "atoi (show_nat k) = int k" for k
    using ns [of k] read_show_nat [of k] by (cases "show_nat k") (auto simp: atoi_def simp del: read_digits.simps)
  then show ?thesis by (simp add: show_int_def) (simp add: atoi_def is_space_def read_show_nat)
qed

section \<open>Connections\<close>

record storage_config =
  connection_string :: string
  connections_per_worker :: u16
  query_timeout_ms :: u32
  connect_timeout_ms :: u32


text \<open>A connection is its open handle, if any; \<^verbatim>\<open>reply\<close> is what \<^verbatim>\<open>PQconnectdb\<close> gives.\<close>

record pg_connection =
  pc_config :: storage_config
  pc_conn :: "nat option"

definition Connect :: "nat option \<Rightarrow> pg_connection \<Rightarrow> bool \<times> pg_connection" where
  "Connect reply c =
     (case reply of None \<Rightarrow> (False, c\<lparr>pc_conn := None\<rparr>) | Some h \<Rightarrow> (True, c\<lparr>pc_conn := Some h\<rparr>))"


section \<open>The worker pool\<close>

record pg_job =
  jb_sql :: string
  jb_params :: "string list"
  jb_cb :: "nat option"
  jb_reply_ring :: nat

datatype pg_worker = Waiting | Running pg_job | Exited

text \<open>Besides the members: the database, and the history: jobs accepted and finished, results posted to rings and
  callbacks called in place.\<close>

record 'db worker_pool =
  pp_config :: storage_config
  pp_queue :: "pg_job list"
  pp_stopping :: bool
  pp_conns :: "pg_connection list"
  pp_workers :: "pg_worker list"
  pp_db :: 'db
  pp_accepted :: "pg_job list"
  pp_finished :: "pg_job list"
  pp_posted :: "(nat \<times> nat \<times> pg_result) list"
  pp_inline :: "(nat \<times> pg_result) list"


fun open_all :: "(nat \<Rightarrow> nat option) \<Rightarrow> storage_config \<Rightarrow> nat list \<Rightarrow> pg_connection list option" where
  "open_all connect cfg [] = Some []"
| "open_all connect cfg (i # is) =
     (case Connect (connect i) \<lparr>pc_config = cfg, pc_conn = None\<rparr> of
        (False, _) \<Rightarrow> None
      | (True, c) \<Rightarrow> map_option ((#) c) (open_all connect cfg is))"

definition pool_Start :: "(nat \<Rightarrow> nat option) \<Rightarrow> 'db worker_pool \<Rightarrow> bool \<times> 'db worker_pool" where
  "pool_Start connect p =
     (let count = unat (connections_per_worker (pp_config p)) in
      if count = 0 then (False, p)
      else case open_all connect (pp_config p) [0..<count] of
             None \<Rightarrow> (False, p\<lparr>pp_conns := []\<rparr>)
           | Some conns \<Rightarrow> (True, p\<lparr>pp_conns := pp_conns p @ conns, pp_workers := pp_workers p @ replicate count Waiting\<rparr>))"

definition Submit_query :: "nat option \<Rightarrow> string \<Rightarrow> string list \<Rightarrow> nat option \<Rightarrow> 'db worker_pool \<Rightarrow> 'db worker_pool" where
  "Submit_query current sql params cb p =
     (let reject = p\<lparr>pp_inline := pp_inline p @ (case cb of None \<Rightarrow> [] | Some k \<Rightarrow> [(k, None)])\<rparr> in
      case current of
        None \<Rightarrow> reject
      | Some ring \<Rightarrow>
          if pp_stopping p then reject
          else let j = \<lparr>jb_sql = sql, jb_params = params, jb_cb = cb, jb_reply_ring = ring\<rparr> in
               p\<lparr>pp_queue := pp_queue p @ [j], pp_accepted := pp_accepted p @ [j]\<rparr>)"




definition stop_end :: "'db worker_pool \<Rightarrow> 'db worker_pool" where
  "stop_end p = p\<lparr>pp_workers := [], pp_conns := []\<rparr>"

section \<open>Facade and builder\<close>

definition Initialize :: "(nat \<Rightarrow> nat option) \<Rightarrow> 'db worker_pool \<Rightarrow> bool \<times> 'db worker_pool" where
  "Initialize connect p = pool_Start connect p"

definition pool_Execute :: "nat option \<Rightarrow> string \<Rightarrow> string list \<Rightarrow> nat option \<Rightarrow> 'db worker_pool \<Rightarrow> 'db worker_pool" where
  "pool_Execute current sql params cb p = Submit_query current sql params cb p"

definition TotalCount :: "'db worker_pool \<Rightarrow> nat" where
  "TotalCount p = length (pp_workers p)"

record query_builder =
  qb_sql :: string
  qb_params :: "string list"

definition Sql :: "string \<Rightarrow> query_builder \<Rightarrow> query_builder" where
  "Sql sql qb = qb\<lparr>qb_sql := sql\<rparr>"

definition Param_string :: "string \<Rightarrow> query_builder \<Rightarrow> query_builder" where
  "Param_string v qb = qb\<lparr>qb_params := qb_params qb @ [v]\<rparr>"

definition Param_int :: "int \<Rightarrow> query_builder \<Rightarrow> query_builder" where
  "Param_int v qb = qb\<lparr>qb_params := qb_params qb @ [show_int v]\<rparr>"

definition qb_Execute :: "nat option \<Rightarrow> nat option \<Rightarrow> query_builder \<Rightarrow> 'db worker_pool \<Rightarrow> query_builder \<times> 'db worker_pool" where
  "qb_Execute current cb qb p = (qb\<lparr>qb_sql := [], qb_params := []\<rparr>, pool_Execute current (qb_sql qb) (qb_params qb) cb p)"

section \<open>Every accepted query runs once\<close>



definition running_jobs :: "pg_worker list \<Rightarrow> pg_job list" where
  "running_jobs ws = concat (map (\<lambda>w. case w of Running j \<Rightarrow> [j] | _ \<Rightarrow> []) ws)"



lemma running_jobs_simps [simp]:
  "running_jobs [] = []" "running_jobs (Waiting # ws) = running_jobs ws" "running_jobs (Exited # ws) = running_jobs ws"
  "running_jobs (Running j # ws) = j # running_jobs ws" "running_jobs (replicate n Waiting) = []"
  by (simp_all add: running_jobs_def)







section \<open>Stopping\<close>










end
