(* ===== verification/Dungeon_Grid.thy ===== *)
theory Dungeon_Grid
  imports Main
begin

text \<open>
  The grid of the dungeon generator of the game server
  (\<^verbatim>\<open>examples/GameServer/src/game/dungeon_generator.cpp\<close>): random fill, smoothing by a cellular automaton, and the
  flood fill that finds connected regions. A grid maps coordinates to tiles, 1 for a wall and 0 for floor. The random
  engine with its distributions is a parameter \<^verbatim>\<open>draw\<close>: bounds and engine state to a number and the next state.
\<close>

section \<open>Coordinates\<close>

definition GRID_WIDTH :: int where
  "GRID_WIDTH = 120"

definition GRID_HEIGHT :: int where
  "GRID_HEIGHT = 70"

type_synonym coord = "int \<times> int"
type_synonym grid = "coord \<Rightarrow> int"
type_synonym 'r draw = "int \<Rightarrow> int \<Rightarrow> 'r \<Rightarrow> int \<times> 'r"

definition IsInMapRange :: "coord \<Rightarrow> bool" where
  "IsInMapRange c = (0 \<le> fst c \<and> fst c < GRID_WIDTH \<and> 0 \<le> snd c \<and> snd c < GRID_HEIGHT)"

definition GetTile :: "grid \<Rightarrow> coord \<Rightarrow> int" where
  "GetTile g c = (if IsInMapRange c then g c else 1)"

text \<open>The nested loops over a square around a tile, and over the whole grid.\<close>

definition block :: "int \<Rightarrow> coord \<Rightarrow> coord list" where
  "block r c = [(x, y). x \<leftarrow> [fst c - r..fst c + r], y \<leftarrow> [snd c - r..snd c + r]]"

definition cells :: "coord list" where
  "cells = [(x, y). x \<leftarrow> [0..GRID_WIDTH - 1], y \<leftarrow> [0..GRID_HEIGHT - 1]]"

definition on_border :: "coord \<Rightarrow> bool" where
  "on_border c = (fst c = 0 \<or> fst c = GRID_WIDTH - 1 \<or> snd c = 0 \<or> snd c = GRID_HEIGHT - 1)"

section \<open>Cellular automaton\<close>

definition fill_percent :: "int \<Rightarrow> int" where
  "fill_percent depth = 52 + min (depth * 2) 10"

definition fill_cell :: "'r draw \<Rightarrow> int \<Rightarrow> coord \<Rightarrow> grid \<times> 'r \<Rightarrow> grid \<times> 'r" where
  "fill_cell draw pct c st =
     (case st of (g, rng) \<Rightarrow>
        if on_border c then (g(c := 1), rng)
        else case draw 0 99 rng of (v, rng') \<Rightarrow> (g(c := if v < pct then 1 else 0), rng'))"

definition RandomFillMap :: "'r draw \<Rightarrow> int \<Rightarrow> grid \<times> 'r \<Rightarrow> grid \<times> 'r" where
  "RandomFillMap draw depth st = fold (fill_cell draw (fill_percent depth)) cells st"

definition GetSurroundingWallCount :: "grid \<Rightarrow> coord \<Rightarrow> int" where
  "GetSurroundingWallCount g c =
     sum_list (map (\<lambda>n. if IsInMapRange n then (if n \<noteq> c then g n else 0) else 1) (block 1 c))"

definition SmoothMap :: "grid \<Rightarrow> grid" where
  "SmoothMap g =
     (\<lambda>c. if IsInMapRange c
          then let neighbours = GetSurroundingWallCount g c in
               if neighbours > 4 then 1 else if neighbours < 4 then 0 else g c
          else g c)"

definition SMOOTH_ITERATIONS :: nat where
  "SMOOTH_ITERATIONS = 5"

section \<open>Flood fill\<close>

definition near_cross :: "coord \<Rightarrow> coord list" where
  "near_cross c = filter (\<lambda>n. fst n = fst c \<or> snd n = snd c) (block 1 c)"

definition push_tile :: "grid \<Rightarrow> int \<Rightarrow> coord \<Rightarrow> coord list \<times> coord list \<Rightarrow> coord list \<times> coord list" where
  "push_tile g tileType n st =
     (case st of (q, flags) \<Rightarrow>
        if IsInMapRange n \<and> n \<notin> set flags \<and> g n = tileType then (q @ [n], n # flags) else (q, flags))"

lemma push_tile_measure:
  assumes "finite R" and "\<And>n. IsInMapRange n \<Longrightarrow> n \<in> R"
    and "fold (push_tile g t) ns (q, flags) = (q', flags')"
  shows "2 * card (R - set flags') + length q' \<le> 2 * card (R - set flags) + length q"
  using assms(3)
proof (induction ns arbitrary: q flags)
  case (Cons n ns)
  show ?case
  proof (cases "IsInMapRange n \<and> n \<notin> set flags \<and> g n = t")
    case True
    then have "push_tile g t n (q, flags) = (q @ [n], n # flags)" by (simp add: push_tile_def)
    then have "fold (push_tile g t) ns (q @ [n], n # flags) = (q', flags')" using Cons.prems by simp
    from Cons.IH [OF this] have "2 * card (R - set (n # flags)) + length (q @ [n]) \<ge> 2 * card (R - set flags') + length q'" .
    moreover have "n \<in> R - set flags" using True assms(2) by blast
    then have "card (R - set (n # flags)) < card (R - set flags)"
      using assms(1) by (intro psubset_card_mono) auto
    ultimately show ?thesis by simp
  next
    case False
    then have "push_tile g t n (q, flags) = (q, flags)" by (auto simp: push_tile_def)
    then show ?thesis using Cons by simp
  qed
qed simp

definition map_range :: "coord set" where
  "map_range = {c. IsInMapRange c}"

lemma finite_map_range [simp]: "finite map_range"
proof -
  have "map_range \<subseteq> {0..<GRID_WIDTH} \<times> {0..<GRID_HEIGHT}" by (auto simp: map_range_def IsInMapRange_def)
  then show ?thesis using finite_subset by blast
qed

text \<open>The loop over the queue: \<^verbatim>\<open>flags\<close> are the marked tiles, \<^verbatim>\<open>tiles\<close> those taken off the queue.\<close>

function region_loop :: "grid \<Rightarrow> int \<Rightarrow> coord list \<Rightarrow> coord list \<Rightarrow> coord list \<Rightarrow> coord list" where
  "region_loop g t [] flags tiles = tiles"
| "region_loop g t (c # q) flags tiles =
     (case fold (push_tile g t) (near_cross c) (q, flags) of (q', flags') \<Rightarrow> region_loop g t q' flags' (tiles @ [c]))"
  by pat_completeness auto
termination
proof (relation "measure (\<lambda>(g, t, q, flags, tiles). 2 * card (map_range - set flags) + length q)")
  fix g t c q flags tiles q' flags'
  assume "(q', flags') = fold (push_tile g t) (near_cross c) (q, flags)"
  then have "2 * card (map_range - set flags') + length q' \<le> 2 * card (map_range - set flags) + length q"
    using push_tile_measure [OF finite_map_range, of g t "near_cross c" q flags q' flags'] by (simp add: map_range_def)
  then show "((g, t, q', flags', tiles @ [c]), g, t, c # q, flags, tiles)
      \<in> measure (\<lambda>(g, t, q, flags, tiles). 2 * card (map_range - set flags) + length q)" by simp
qed simp

definition GetRegionTiles :: "grid \<Rightarrow> coord \<Rightarrow> coord list" where
  "GetRegionTiles g start = region_loop g (g start) [start] [start] []"

definition add_region :: "grid \<Rightarrow> int \<Rightarrow> coord \<Rightarrow> coord list list \<times> coord list \<Rightarrow> coord list list \<times> coord list" where
  "add_region g tileType c st =
     (case st of (regions, flags) \<Rightarrow>
        if c \<notin> set flags \<and> g c = tileType
        then let region = GetRegionTiles g c in (regions @ [region], region @ flags)
        else (regions, flags))"

definition GetRegions :: "grid \<Rightarrow> int \<Rightarrow> coord list list" where
  "GetRegions g tileType = fst (fold (add_region g tileType) cells ([], []))"

section \<open>Connected regions\<close>

text \<open>Side by side on the grid, and connected through tiles of one type.\<close>

definition next_to :: "coord \<Rightarrow> coord \<Rightarrow> bool" where
  "next_to a b = (\<bar>fst a - fst b\<bar> + \<bar>snd a - snd b\<bar> = 1)"

definition step_on :: "grid \<Rightarrow> int \<Rightarrow> coord \<Rightarrow> coord \<Rightarrow> bool" where
  "step_on g t a b = (next_to a b \<and> IsInMapRange a \<and> IsInMapRange b \<and> g a = t \<and> g b = t)"

lemma block_iff: "n \<in> set (block r c) \<longleftrightarrow> \<bar>fst n - fst c\<bar> \<le> r \<and> \<bar>snd n - snd c\<bar> \<le> r"
  by (cases n; cases c) (auto simp: block_def image_iff)

lemma near_cross_iff: "n \<in> set (near_cross c) \<longleftrightarrow> n = c \<or> next_to c n"
  by (cases n; cases c) (auto simp: near_cross_def block_iff next_to_def)

lemma step_on_sym: "step_on g t a b \<Longrightarrow> step_on g t b a"
  by (auto simp: step_on_def next_to_def)

lemma reach_sym: "(step_on g t)\<^sup>*\<^sup>* a b \<Longrightarrow> (step_on g t)\<^sup>*\<^sup>* b a"
  by (induction rule: rtranclp_induct) (auto intro: converse_rtranclp_into_rtranclp step_on_sym)

lemma reach_type: "(step_on g t)\<^sup>*\<^sup>* a b \<Longrightarrow> IsInMapRange a \<Longrightarrow> g a = t \<Longrightarrow> IsInMapRange b \<and> g b = t"
  by (induction rule: rtranclp_induct) (auto simp: step_on_def)

lemma fold_push:
  "\<exists>new. fold (push_tile g t) ns (q, flags) = (q @ new, rev new @ flags) \<and> distinct new \<and>
     set new = {n \<in> set ns. IsInMapRange n \<and> n \<notin> set flags \<and> g n = t}"
proof (induction ns arbitrary: q flags)
  case (Cons n ns)
  show ?case
  proof (cases "IsInMapRange n \<and> n \<notin> set flags \<and> g n = t")
    case True
    then have p: "push_tile g t n (q, flags) = (q @ [n], n # flags)" by (simp add: push_tile_def)
    obtain new where "fold (push_tile g t) ns (q @ [n], n # flags) = ((q @ [n]) @ new, rev new @ n # flags)" "distinct new"
      "set new = {m \<in> set ns. IsInMapRange m \<and> m \<notin> set (n # flags) \<and> g m = t}"
      using Cons.IH [of "q @ [n]" "n # flags"] by blast
    then show ?thesis using True by (intro exI [of _ "n # new"]) (auto simp: p)
  next
    case False
    then have "push_tile g t n (q, flags) = (q, flags)" by (auto simp: push_tile_def)
    then show ?thesis using Cons.IH [of q flags] False by auto
  qed
qed simp

text \<open>The invariant of the loop: everything marked is connected to the start and is either done or waiting, and the
  neighbours of what is done are marked.\<close>

definition fill_inv :: "grid \<Rightarrow> int \<Rightarrow> coord \<Rightarrow> coord list \<Rightarrow> coord list \<Rightarrow> coord list \<Rightarrow> bool" where
  "fill_inv g t s q flags tiles =
     (set flags = set tiles \<union> set q \<and> distinct (tiles @ q) \<and> s \<in> set flags \<and>
      (\<forall>c \<in> set flags. IsInMapRange c \<and> g c = t \<and> (step_on g t)\<^sup>*\<^sup>* s c) \<and>
      (\<forall>c \<in> set tiles. \<forall>n. step_on g t c n \<longrightarrow> n \<in> set flags))"

lemma fill_inv_step:
  assumes "fill_inv g t s (c # q) flags tiles" and "fold (push_tile g t) (near_cross c) (q, flags) = (q', flags')"
  shows "fill_inv g t s q' flags' (tiles @ [c])"
proof -
  obtain new where new: "q' = q @ new" "flags' = rev new @ flags" "distinct new"
    "set new = {n \<in> set (near_cross c). IsInMapRange n \<and> n \<notin> set flags \<and> g n = t}"
    using fold_push [of g t "near_cross c" q flags] assms(2) by auto
  have c: "c \<in> set flags" "IsInMapRange c" "g c = t" "(step_on g t)\<^sup>*\<^sup>* s c"
    using assms(1) by (auto simp: fill_inv_def)
  have "(step_on g t)\<^sup>*\<^sup>* s n" if "n \<in> set new" for n
  proof -
    have "step_on g t c n" using that new(4) c by (auto simp: near_cross_iff step_on_def)
    then show ?thesis using c(4) by (rule rtranclp.rtrancl_into_rtrancl [rotated])
  qed
  moreover have "n \<in> set flags'" if "step_on g t c n" for n
    using that new(2,4) by (auto simp: near_cross_iff step_on_def)
  ultimately show ?thesis using assms(1) new unfolding fill_inv_def by auto
qed

lemma fill_inv_done:
  assumes "fill_inv g t s [] flags tiles"
  shows "set tiles = {c. (step_on g t)\<^sup>*\<^sup>* s c}"
proof
  show "set tiles \<subseteq> {c. (step_on g t)\<^sup>*\<^sup>* s c}" using assms by (auto simp: fill_inv_def)
  have "c \<in> set tiles" if "(step_on g t)\<^sup>*\<^sup>* s c" for c
    using that assms by (induction rule: rtranclp_induct) (auto simp: fill_inv_def)
  then show "{c. (step_on g t)\<^sup>*\<^sup>* s c} \<subseteq> set tiles" by blast
qed

lemma region_loop_spec:
  "fill_inv g t s q flags tiles \<Longrightarrow>
     distinct (region_loop g t q flags tiles) \<and> set (region_loop g t q flags tiles) = {c. (step_on g t)\<^sup>*\<^sup>* s c}"
proof (induction g t q flags tiles rule: region_loop.induct)
  case (1 g t flags tiles)
  then show ?case using fill_inv_done [OF 1] by (simp add: fill_inv_def)
next
  case (2 g t c q flags tiles)
  obtain q' flags' where f: "fold (push_tile g t) (near_cross c) (q, flags) = (q', flags')" by fastforce
  then show ?case using "2.IH" [OF f [symmetric]] fill_inv_step [OF "2.prems" f] by simp
qed

lemma GetRegionTiles_spec:
  assumes "IsInMapRange c"
  shows "distinct (GetRegionTiles g c)" "set (GetRegionTiles g c) = {d. (step_on g (g c))\<^sup>*\<^sup>* c d}"
proof -
  have "fill_inv g (g c) c [c] [c] []" using assms by (simp add: fill_inv_def)
  from region_loop_spec [OF this]
  show "distinct (GetRegionTiles g c)" "set (GetRegionTiles g c) = {d. (step_on g (g c))\<^sup>*\<^sup>* c d}"
    by (simp_all add: GetRegionTiles_def)
qed

lemma set_cells: "set cells = map_range"
  by (auto simp: cells_def map_range_def IsInMapRange_def image_iff)

definition regions_inv :: "grid \<Rightarrow> int \<Rightarrow> coord list list \<Rightarrow> coord list \<Rightarrow> bool" where
  "regions_inv g t regions flags =
     (set flags = set (concat regions) \<and> distinct (concat regions) \<and>
      (\<forall>c \<in> set flags. IsInMapRange c \<and> g c = t) \<and>
      (\<forall>region \<in> set regions. region \<noteq> [] \<and> (\<forall>c \<in> set region. set region = {d. (step_on g t)\<^sup>*\<^sup>* c d})))"

lemma region_members:
  assumes "set region = {d. (step_on g t)\<^sup>*\<^sup>* c d}" and "e \<in> set region"
  shows "set region = {d. (step_on g t)\<^sup>*\<^sup>* e d}"
  using assms by (auto dest: reach_sym rtranclp_trans)

lemma add_region_inv:
  assumes "regions_inv g t regions flags" and "IsInMapRange c" and "add_region g t c (regions, flags) = (regions', flags')"
  shows "regions_inv g t regions' flags' \<and> set flags \<subseteq> set flags' \<and> (g c = t \<longrightarrow> c \<in> set flags')"
proof (cases "c \<notin> set flags \<and> g c = t")
  case True
  let ?r = "GetRegionTiles g c"
  have r: "distinct ?r" "set ?r = {d. (step_on g t)\<^sup>*\<^sup>* c d}"
    using GetRegionTiles_spec [OF assms(2), of g] True by auto
  have new: "regions' = regions @ [?r]" "flags' = ?r @ flags" using assms(3) True by (auto simp: add_region_def Let_def)
  have apart: "d \<notin> set flags" if d: "d \<in> set ?r" for d
  proof
    assume "d \<in> set flags"
    then obtain region where "region \<in> set regions" "d \<in> set region" using assms(1) by (auto simp: regions_inv_def)
    then have "set region = {e. (step_on g t)\<^sup>*\<^sup>* d e}" using assms(1) by (auto simp: regions_inv_def)
    moreover have "(step_on g t)\<^sup>*\<^sup>* d c" using d r(2) by (auto intro: reach_sym)
    ultimately have "c \<in> set flags" using \<open>region \<in> set regions\<close> assms(1) by (auto simp: regions_inv_def)
    then show False using True by simp
  qed
  have c: "c \<in> set ?r" using r(2) by simp
  have typed: "\<forall>d \<in> set ?r. IsInMapRange d \<and> g d = t" using r(2) reach_type assms(2) True by blast
  have "\<forall>e \<in> set ?r. set ?r = {d. (step_on g t)\<^sup>*\<^sup>* e d}" using region_members [OF r(2)] by blast
  then show ?thesis using assms(1) apart c typed r(1) unfolding new regions_inv_def by auto
next
  case False
  then show ?thesis using assms by (auto simp: add_region_def)
qed

lemma fold_add_region:
  assumes "regions_inv g t regions flags" and "\<forall>c \<in> set ns. IsInMapRange c" and "fold (add_region g t) ns (regions, flags) = (regions', flags')"
  shows "regions_inv g t regions' flags' \<and> set flags \<subseteq> set flags' \<and> (\<forall>c \<in> set ns. g c = t \<longrightarrow> c \<in> set flags')"
  using assms
proof (induction ns arbitrary: regions flags)
  case (Cons c ns)
  obtain r1 f1 where a: "add_region g t c (regions, flags) = (r1, f1)" by fastforce
  have i: "regions_inv g t r1 f1 \<and> set flags \<subseteq> set f1 \<and> (g c = t \<longrightarrow> c \<in> set f1)"
    using add_region_inv [OF Cons.prems(1) _ a] Cons.prems(2) by simp
  then show ?case using Cons.IH [of r1 f1] Cons.prems a by auto
qed simp

lemma GetRegions_inv:
  "\<exists>flags. regions_inv g t (GetRegions g t) flags \<and> set flags = {c. IsInMapRange c \<and> g c = t}"
proof -
  obtain regions flags where f: "fold (add_region g t) cells ([], []) = (regions, flags)" by fastforce
  have inv: "regions_inv g t regions flags \<and> set [] \<subseteq> set flags \<and> (\<forall>c \<in> set cells. g c = t \<longrightarrow> c \<in> set flags)"
    by (rule fold_add_region [OF _ _ f]) (auto simp: regions_inv_def set_cells map_range_def)
  then have "set flags = {c. IsInMapRange c \<and> g c = t}" unfolding regions_inv_def set_cells map_range_def by blast
  then show ?thesis using inv by (auto simp: GetRegions_def f)
qed

text \<open>The flood fill is correct: the regions of a tile type are exactly the connected components of the tiles of
  that type, each listed once with each of its tiles once, and they cover every such tile of the map.\<close>

theorem get_regions_components:
  "distinct (concat (GetRegions g t)) \<and> set (concat (GetRegions g t)) = {c. IsInMapRange c \<and> g c = t} \<and>
   list_all (\<lambda>region. region \<noteq> [] \<and> list_all (\<lambda>c. set region = {d. (step_on g t)\<^sup>*\<^sup>* c d}) region) (GetRegions g t)"
proof -
  obtain flags where inv: "regions_inv g t (GetRegions g t) flags" and flags: "set flags = {c. IsInMapRange c \<and> g c = t}"
    using GetRegions_inv by blast
  have "set (concat (GetRegions g t)) = {c. IsInMapRange c \<and> g c = t}" using inv flags unfolding regions_inv_def by blast
  moreover have "distinct (concat (GetRegions g t))" using inv unfolding regions_inv_def by blast
  moreover have "list_all (\<lambda>region. region \<noteq> [] \<and> list_all (\<lambda>c. set region = {d. (step_on g t)\<^sup>*\<^sup>* c d}) region) (GetRegions g t)"
    using inv unfolding regions_inv_def list_all_iff by blast
  ultimately show ?thesis by blast
qed

section \<open>The border\<close>

definition tile_ok :: "coord \<Rightarrow> int \<Rightarrow> bool" where
  "tile_ok c v = ((v = 0 \<or> v = 1) \<and> (on_border c \<longrightarrow> v = 1))"

definition walled :: "grid \<Rightarrow> bool" where
  "walled g = (\<forall>c. IsInMapRange c \<longrightarrow> tile_ok c (g c))"

lemma walledD: "walled g \<Longrightarrow> IsInMapRange c \<Longrightarrow> tile_ok c (g c)"
  unfolding walled_def by blast

lemma fill_cell_ok:
  assumes "fill_cell draw pct n (g, rng) = (g', rng')" and "c = n \<or> tile_ok c (g c)"
  shows "tile_ok c (g' c)"
  using assms by (auto simp: fill_cell_def tile_ok_def split: if_splits prod.splits)

lemma fold_fill:
  "fold (fill_cell draw pct) ns (g, rng) = (g', rng') \<Longrightarrow> c \<in> set ns \<or> tile_ok c (g c) \<Longrightarrow> tile_ok c (g' c)"
proof (induction ns arbitrary: g rng)
  case (Cons n ns)
  obtain g1 rng1 where f: "fill_cell draw pct n (g, rng) = (g1, rng1)" by fastforce
  then have "c \<in> set ns \<or> tile_ok c (g1 c)" using fill_cell_ok [OF f, of c] Cons.prems(2) by auto
  then show ?case using Cons.IH [of g1 rng1] Cons.prems(1) f by simp
qed simp

lemma RandomFillMap_walled:
  assumes "RandomFillMap draw depth st = (g, rng)"
  shows "walled g"
proof -
  obtain g0 rng0 where "st = (g0, rng0)" by fastforce
  then have "fold (fill_cell draw (fill_percent depth)) cells (g0, rng0) = (g, rng)" using assms by (simp add: RandomFillMap_def)
  from fold_fill [OF this] show ?thesis unfolding walled_def by (simp add: set_cells map_range_def)
qed

lemma block_one: "block 1 (x, y) = [(x - 1, y - 1), (x - 1, y), (x - 1, y + 1), (x, y - 1), (x, y), (x, y + 1),
    (x + 1, y - 1), (x + 1, y), (x + 1, y + 1)]"
proof -
  have "[z - 1..z + 1] = [z - 1, z, z + 1]" for z :: int by (simp add: upto.simps)
  then show ?thesis by (simp add: block_def)
qed

lemma border_wall_count:
  assumes "walled g" and "IsInMapRange c" and "on_border c"
  shows "GetSurroundingWallCount g c > 4"
proof -
  obtain x y where c: "c = (x, y)" by fastforce
  let ?v = "\<lambda>n. if IsInMapRange n then (if n \<noteq> c then g n else 0) else 1"
  have pos: "?v n \<ge> 0" for n using walledD [OF assms(1), of n] by (auto simp: tile_ok_def)
  have one: "?v n = 1" if "n \<noteq> c" "\<not> IsInMapRange n \<or> on_border n" for n
    using that walledD [OF assms(1), of n] by (auto simp: tile_ok_def)
  have sum: "GetSurroundingWallCount g c = ?v (x - 1, y - 1) + ?v (x - 1, y) + ?v (x - 1, y + 1) + ?v (x, y - 1) + ?v (x, y + 1) +
      ?v (x + 1, y - 1) + ?v (x + 1, y) + ?v (x + 1, y + 1)"
    using assms(2) unfolding GetSurroundingWallCount_def c block_one by simp
  consider "x = 0" | "x = GRID_WIDTH - 1" | "y = 0" | "y = GRID_HEIGHT - 1" using assms(3) c by (auto simp: on_border_def)
  then show ?thesis
  proof cases
    case 1
    have "?v (x - 1, y - 1) = 1" "?v (x - 1, y) = 1" "?v (x - 1, y + 1) = 1" "?v (x, y - 1) = 1" "?v (x, y + 1) = 1"
      using 1 by (intro one; simp add: c IsInMapRange_def on_border_def)+
    then show ?thesis using sum pos [of "(x + 1, y - 1)"] pos [of "(x + 1, y)"] pos [of "(x + 1, y + 1)"] by linarith
  next
    case 2
    have "?v (x + 1, y - 1) = 1" "?v (x + 1, y) = 1" "?v (x + 1, y + 1) = 1" "?v (x, y - 1) = 1" "?v (x, y + 1) = 1"
      using 2 by (intro one; simp add: c IsInMapRange_def on_border_def)+
    then show ?thesis using sum pos [of "(x - 1, y - 1)"] pos [of "(x - 1, y)"] pos [of "(x - 1, y + 1)"] by linarith
  next
    case 3
    have "?v (x - 1, y - 1) = 1" "?v (x, y - 1) = 1" "?v (x + 1, y - 1) = 1" "?v (x - 1, y) = 1" "?v (x + 1, y) = 1"
      using 3 by (intro one; simp add: c IsInMapRange_def on_border_def)+
    then show ?thesis using sum pos [of "(x - 1, y + 1)"] pos [of "(x, y + 1)"] pos [of "(x + 1, y + 1)"] by linarith
  next
    case 4
    have "?v (x - 1, y + 1) = 1" "?v (x, y + 1) = 1" "?v (x + 1, y + 1) = 1" "?v (x - 1, y) = 1" "?v (x + 1, y) = 1"
      using 4 by (intro one; simp add: c IsInMapRange_def on_border_def)+
    then show ?thesis using sum pos [of "(x - 1, y - 1)"] pos [of "(x, y - 1)"] pos [of "(x + 1, y - 1)"] by linarith
  qed
qed

lemma SmoothMap_walled:
  assumes "walled g"
  shows "walled (SmoothMap g)"
proof -
  have "tile_ok c (SmoothMap g c)" if c: "IsInMapRange c" for c
    using border_wall_count [OF assms c] walledD [OF assms c] c by (auto simp: tile_ok_def SmoothMap_def Let_def)
  then show ?thesis by (simp add: walled_def)
qed

lemma smooth_walled: "walled g \<Longrightarrow> walled ((SmoothMap ^^ n) g)"
  by (induction n) (auto simp: SmoothMap_walled)

end
