(* ===== verification/Dungeon_Passage.thy ===== *)
theory Dungeon_Passage
  imports Dungeon_Grid
begin

text \<open>
  Passages of the dungeon generator: \<^verbatim>\<open>GetLine\<close> walks the integer line between two tiles and \<^verbatim>\<open>DrawCircle\<close> carves floor
  around each of its tiles. The lemmas give the line in closed form and show that a carved line joins its two ends.
\<close>

section \<open>Model\<close>

definition PASSAGE_RADIUS :: int where
  "PASSAGE_RADIUS = 1"

fun line_loop :: "bool \<Rightarrow> int \<Rightarrow> int \<Rightarrow> int \<Rightarrow> int \<Rightarrow> nat \<Rightarrow> int \<Rightarrow> int \<Rightarrow> int \<Rightarrow> coord list" where
  "line_loop inverted step gradientStep longest shortest 0 x y acc = []"
| "line_loop inverted step gradientStep longest shortest (Suc n) x y acc =
     (x, y) #
     (let x1 = (if inverted then x else x + step);
          y1 = (if inverted then y + step else y);
          acc1 = acc + shortest
      in if acc1 \<ge> longest
         then line_loop inverted step gradientStep longest shortest n
                (if inverted then x1 + gradientStep else x1) (if inverted then y1 else y1 + gradientStep) (acc1 - longest)
         else line_loop inverted step gradientStep longest shortest n x1 y1 acc1)"

definition GetLine :: "coord \<Rightarrow> coord \<Rightarrow> coord list" where
  "GetLine from to =
     (let dx = fst to - fst from; dy = snd to - snd from in
      if \<bar>dx\<bar> < \<bar>dy\<bar>
      then line_loop True (sgn dy) (sgn dx) \<bar>dy\<bar> \<bar>dx\<bar> (nat \<bar>dy\<bar>) (fst from) (snd from) (\<bar>dy\<bar> div 2)
      else line_loop False (sgn dx) (sgn dy) \<bar>dx\<bar> \<bar>dy\<bar> (nat \<bar>dx\<bar>) (fst from) (snd from) (\<bar>dx\<bar> div 2))"

definition draw_cell :: "int \<Rightarrow> coord \<Rightarrow> coord \<Rightarrow> grid \<Rightarrow> grid" where
  "draw_cell r c n g =
     (let x = fst n - fst c; y = snd n - snd c in
      if x * x + y * y \<le> r * r \<and> IsInMapRange n then g(n := 0) else g)"

definition DrawCircle :: "int \<Rightarrow> coord \<Rightarrow> grid \<Rightarrow> grid" where
  "DrawCircle r c g = fold (draw_cell r c) (block r c) g"

definition carve :: "coord list \<Rightarrow> grid \<Rightarrow> grid" where
  "carve line g = fold (DrawCircle PASSAGE_RADIUS) line g"

section \<open>The line\<close>

text \<open>Progress along the longer axis is one tile per step; along the shorter one it is a rounded quotient.\<close>

definition line_quot :: "int \<Rightarrow> int \<Rightarrow> nat \<Rightarrow> int" where
  "line_quot longest shortest k = (longest div 2 + int k * shortest) div longest"

definition line_point :: "bool \<Rightarrow> int \<Rightarrow> int \<Rightarrow> int \<Rightarrow> int \<Rightarrow> coord \<Rightarrow> nat \<Rightarrow> coord" where
  "line_point inverted step gradientStep longest shortest from k =
     (let a = step * int k; b = gradientStep * line_quot longest shortest k in
      if inverted then (fst from + b, snd from + a) else (fst from + a, snd from + b))"

lemma div_mod_carry:
  fixes a l s :: int
  assumes "0 < l" and "0 \<le> s" and "s \<le> l"
  shows "(a + s) div l = a div l + (if a mod l + s \<ge> l then 1 else 0)"
    and "(a + s) mod l = a mod l + s - (if a mod l + s \<ge> l then l else 0)"
proof -
  let ?c = "if a mod l + s \<ge> l then 1 else 0 :: int"
  have m: "0 \<le> a mod l" "a mod l < l" using assms(1) by simp_all
  have "a + s = l * (a div l + ?c) + (a mod l + s - l * ?c)" using mult_div_mod_eq [of l a] by (simp add: algebra_simps)
  moreover have "0 \<le> a mod l + s - l * ?c" "a mod l + s - l * ?c < l"
    using m assms by (cases "a mod l + s \<ge> l"; simp only: if_True if_False; linarith)+
  ultimately have "(a + s) div l = a div l + ?c \<and> (a + s) mod l = a mod l + s - l * ?c"
    by (blast intro: int_div_pos_eq int_mod_pos_eq)
  then show "(a + s) div l = a div l + (if a mod l + s \<ge> l then 1 else 0)"
    and "(a + s) mod l = a mod l + s - (if a mod l + s \<ge> l then l else 0)" by auto
qed

lemma line_quot_Suc:
  assumes "0 < l" and "0 \<le> s" and "s \<le> l"
  shows "line_quot l s (Suc k) = line_quot l s k + (if (l div 2 + int k * s) mod l + s \<ge> l then 1 else 0)"
  using div_mod_carry(1) [OF assms, of "l div 2 + int k * s"] by (simp add: line_quot_def algebra_simps)

lemma line_loop_points:
  assumes "0 < l" and "0 \<le> s" and "s \<le> l"
  shows "line_point ivt st gs l s p k = (x, y) \<Longrightarrow> acc = (l div 2 + int k * s) mod l \<Longrightarrow>
    line_loop ivt st gs l s n x y acc = map (line_point ivt st gs l s p) [k..<k + n]"
proof (induction n arbitrary: k x y acc)
  case (Suc n)
  let ?x = "if ivt then x else x + st" and ?y = "if ivt then y + st else y"
  let ?carry = "acc + s \<ge> l"
  have acc: "(l div 2 + int (Suc k) * s) mod l = acc + s - (if ?carry then l else 0)"
    using div_mod_carry(2) [OF assms, of "l div 2 + int k * s"] Suc.prems(2) by (simp add: algebra_simps)
  have pt: "line_point ivt st gs l s p (Suc k) =
      (if ?carry then (if ivt then ?x + gs else ?x, if ivt then ?y else ?y + gs) else (?x, ?y))"
    using Suc.prems line_quot_Suc [OF assms, of k] by (auto simp: line_point_def Let_def algebra_simps)
  have "[k..<k + Suc n] = k # [Suc k..<Suc k + n]" by (simp add: upt_conv_Cons)
  then show ?case using Suc.IH [of "Suc k"] Suc.prems(1) acc pt by (auto simp: Let_def)
qed simp

lemma line_quot_ends:
  assumes "0 < l"
  shows "line_quot l s 0 = 0" and "line_quot l s (nat l) = s"
proof -
  have "l div 2 div l = 0" using assms by (simp add: div_pos_pos_trivial)
  then show "line_quot l s 0 = 0" "line_quot l s (nat l) = s" using assms by (simp_all add: line_quot_def)
qed

lemma line_quot_bounds:
  assumes "0 < l" and "0 \<le> s" and "s \<le> l" and "k \<le> nat l"
  shows "0 \<le> line_quot l s k" and "line_quot l s k \<le> s" and "2 * \<bar>line_quot l s k * l - int k * s\<bar> \<le> l"
proof -
  show "0 \<le> line_quot l s k" using assms by (simp add: line_quot_def pos_imp_zdiv_nonneg_iff)
  have "int k * s \<le> l * s" using assms by (intro mult_right_mono) auto
  then have "line_quot l s k \<le> line_quot l s (nat l)"
    using assms(1) unfolding line_quot_def by (intro zdiv_mono1) auto
  then show "line_quot l s k \<le> s" using line_quot_ends [OF assms(1)] by simp
  let ?a = "l div 2 + int k * s"
  define r where "r = ?a mod l"
  have "line_quot l s k * l = ?a - r" by (simp add: line_quot_def r_def minus_mod_eq_div_mult)
  then have e: "line_quot l s k * l - int k * s = l div 2 - r" by simp
  have "0 \<le> r" "r < l" using assms(1) by (simp_all add: r_def)
  moreover have "l - 1 \<le> 2 * (l div 2)" "2 * (l div 2) \<le> l" by presburger+
  ultimately have "2 * \<bar>l div 2 - r\<bar> \<le> l" unfolding abs_if by presburger
  then show "2 * \<bar>line_quot l s k * l - int k * s\<bar> \<le> l" by (simp only: e)
qed

text \<open>The line with the end tile appended, as the list of its points.\<close>

definition axes :: "coord \<Rightarrow> coord \<Rightarrow> bool \<times> int \<times> int \<times> int \<times> int" where
  "axes a b = (let dx = fst b - fst a; dy = snd b - snd a in
     if \<bar>dx\<bar> < \<bar>dy\<bar> then (True, sgn dy, sgn dx, \<bar>dy\<bar>, \<bar>dx\<bar>) else (False, sgn dx, sgn dy, \<bar>dx\<bar>, \<bar>dy\<bar>))"

lemma GetLine_points:
  assumes "axes a b = (ivt, st, gs, l, s)" and "a \<noteq> b"
  shows "0 < l" "0 \<le> s" "s \<le> l" "l = max \<bar>fst b - fst a\<bar> \<bar>snd b - snd a\<bar>"
    and "GetLine a b @ [b] = map (line_point ivt st gs l s a) [0..<Suc (nat l)]"
proof -
  show l: "0 < l" "0 \<le> s" "s \<le> l" "l = max \<bar>fst b - fst a\<bar> \<bar>snd b - snd a\<bar>"
    using assms by (cases a; cases b; auto simp: axes_def Let_def split: if_splits)+
  have z: "line_point ivt st gs l s a 0 = (fst a, snd a)" using line_quot_ends(1) [OF l(1)] by (simp add: line_point_def)
  have "l div 2 = (l div 2 + int 0 * s) mod l" using l(1) by (simp add: mod_pos_pos_trivial)
  from line_loop_points [OF l(1-3) z this, of "nat l"]
  have "GetLine a b = map (line_point ivt st gs l s a) [0..<nat l]"
    using assms(1) by (auto simp: GetLine_def axes_def Let_def split: if_splits)
  moreover have "line_point ivt st gs l s a (nat l) = b"
    using assms(1) l(1) line_quot_ends(2) [OF l(1), of s]
    by (cases a; cases b) (auto simp: axes_def line_point_def Let_def sgn_mult_abs split: if_splits)
  ultimately show "GetLine a b @ [b] = map (line_point ivt st gs l s a) [0..<Suc (nat l)]" by simp
qed

text \<open>Two tiles that touch, at a side or a corner.\<close>

definition king :: "coord \<Rightarrow> coord \<Rightarrow> bool" where
  "king a b = (\<bar>fst a - fst b\<bar> \<le> 1 \<and> \<bar>snd a - snd b\<bar> \<le> 1)"

definition in_box :: "coord \<Rightarrow> coord \<Rightarrow> coord \<Rightarrow> bool" where
  "in_box a b c = (min (fst a) (fst b) \<le> fst c \<and> fst c \<le> max (fst a) (fst b) \<and>
                   min (snd a) (snd b) \<le> snd c \<and> snd c \<le> max (snd a) (snd b))"

lemma in_box_range: "in_box a b c \<Longrightarrow> IsInMapRange a \<Longrightarrow> IsInMapRange b \<Longrightarrow> IsInMapRange c"
  by (auto simp: in_box_def IsInMapRange_def)

text \<open>Twice the distance of a tile from the straight line through two tiles, scaled by the longer axis.\<close>

definition off_line :: "coord \<Rightarrow> coord \<Rightarrow> coord \<Rightarrow> int" where
  "off_line a b c = 2 * \<bar>(fst b - fst a) * (snd c - snd a) - (snd b - snd a) * (fst c - fst a)\<bar>"

lemma sgn_steps:
  fixes d q :: int
  assumes "0 \<le> q" and "q \<le> \<bar>d\<bar>"
  shows "min a (a + d) \<le> a + sgn d * q" and "a + sgn d * q \<le> max a (a + d)"
  using assms by (cases "d > 0"; cases "d = 0"; simp add: sgn_if)+

lemma line_point_king:
  assumes "0 < l" and "0 \<le> s" and "s \<le> l" and "\<bar>st\<bar> \<le> 1" and "\<bar>gs\<bar> \<le> 1"
  shows "king (line_point ivt st gs l s a k) (line_point ivt st gs l s a (Suc k))"
proof -
  have "\<bar>gs * line_quot l s k - gs * line_quot l s (Suc k)\<bar> \<le> 1"
    using assms(5) line_quot_Suc [OF assms(1-3), of k] by (auto simp: algebra_simps)
  then show ?thesis using assms(4) by (auto simp: king_def line_point_def Let_def algebra_simps)
qed

lemma line_point_box:
  assumes "axes a b = (ivt, st, gs, l, s)" and "a \<noteq> b" and "k \<le> nat l"
  shows "in_box a b (line_point ivt st gs l s a k)"
    and "off_line a b (line_point ivt st gs l s a k) \<le> l"
proof -
  note l = GetLine_points(1-3) [OF assms(1,2)]
  note q = line_quot_bounds [OF l assms(3)]
  obtain dx dy where d: "dx = fst b - fst a" "dy = snd b - snd a" by blast
  have k: "0 \<le> int k" "int k \<le> l" using assms(3) l(1) by auto
  have ax: "ivt \<and> st = sgn dy \<and> gs = sgn dx \<and> l = \<bar>dy\<bar> \<and> s = \<bar>dx\<bar> \<or>
      \<not> ivt \<and> st = sgn dx \<and> gs = sgn dy \<and> l = \<bar>dx\<bar> \<and> s = \<bar>dy\<bar>"
    using assms(1) d by (auto simp: axes_def Let_def split: if_splits)
  have b: "fst b = fst a + dx" "snd b = snd a + dy" using d by simp_all
  show "in_box a b (line_point ivt st gs l s a k)"
    using ax k q(1,2) sgn_steps [of "int k" dx "fst a"] sgn_steps [of "int k" dy "snd a"]
      sgn_steps [of "line_quot l s k" dx "fst a"] sgn_steps [of "line_quot l s k" dy "snd a"]
    by (elim disjE) (simp_all add: in_box_def line_point_def Let_def b)
  have swap: "\<bar>u * (sgn v * m) - v * (sgn u * n)\<bar> = \<bar>m * \<bar>u\<bar> - n * \<bar>v\<bar>\<bar>"
    if "u \<noteq> 0" "v = 0 \<Longrightarrow> m = 0" for u v m n :: int
    using that by (cases "v = 0"; cases "u > 0"; cases "v > 0"; simp add: sgn_if algebra_simps abs_minus_commute)
  have off: "off_line a b (line_point ivt st gs l s a k) = 2 * \<bar>line_quot l s k * l - int k * s\<bar>"
    using ax
  proof
    assume i: "ivt \<and> st = sgn dy \<and> gs = sgn dx \<and> l = \<bar>dy\<bar> \<and> s = \<bar>dx\<bar>"
    then have "dy \<noteq> 0" "dx = 0 \<Longrightarrow> line_quot l s k = 0" using l(1) q(1,2) by auto
    from swap [where n = "int k", OF this] i show ?thesis
      by (simp add: off_line_def line_point_def Let_def d [symmetric] abs_minus_commute)
  next
    assume i: "\<not> ivt \<and> st = sgn dx \<and> gs = sgn dy \<and> l = \<bar>dx\<bar> \<and> s = \<bar>dy\<bar>"
    then have "dx \<noteq> 0" "dy = 0 \<Longrightarrow> line_quot l s k = 0" using l(1) q(1,2) by auto
    from swap [where n = "int k", OF this] i show ?thesis
      by (simp add: off_line_def line_point_def Let_def d [symmetric])
  qed
  show "off_line a b (line_point ivt st gs l s a k) \<le> l" unfolding off by (rule q(3))
qed

lemma successively_map_upt:
  "(\<And>k. R (f k) (f (Suc k))) \<Longrightarrow> successively R (map f [m..<n])"
proof (induction n)
  case (Suc n)
  have "R (f (n - 1)) (f n)" if "m < n" using Suc.prems [of "n - 1"] that by simp
  then have "successively R (map f [m..<n] @ [f n])"
    using Suc by (cases "m < n") (auto simp: successively_append_iff last_map)
  then show ?case by (cases "m \<le> n") auto
qed simp

lemma GetLine_path:
  assumes "a \<noteq> b"
  shows "length (GetLine a b) = nat (max \<bar>fst b - fst a\<bar> \<bar>snd b - snd a\<bar>)" and "hd (GetLine a b @ [b]) = a"
    and "successively king (GetLine a b @ [b])"
    and "c \<in> set (GetLine a b @ [b]) \<Longrightarrow> in_box a b c \<and> off_line a b c \<le> max \<bar>fst b - fst a\<bar> \<bar>snd b - snd a\<bar>"
proof -
  obtain ivt st gs l s where ax: "axes a b = (ivt, st, gs, l, s)" by (cases "axes a b") auto
  note pts = GetLine_points [OF ax assms]
  have sg: "\<bar>st\<bar> \<le> 1" "\<bar>gs\<bar> \<le> 1" using ax by (auto simp: axes_def Let_def sgn_if split: if_splits)
  have "length (GetLine a b @ [b]) = Suc (nat l)" unfolding pts(5) by simp
  then show "length (GetLine a b) = nat (max \<bar>fst b - fst a\<bar> \<bar>snd b - snd a\<bar>)" using pts(4) by simp
  show "hd (GetLine a b @ [b]) = a"
    unfolding pts(5) using line_quot_ends(1) [OF pts(1)] by (simp add: upt_conv_Cons line_point_def del: upt_Suc)
  show "successively king (GetLine a b @ [b])"
    unfolding pts(5) by (intro successively_map_upt line_point_king pts(1-3) sg)
  show "in_box a b c \<and> off_line a b c \<le> max \<bar>fst b - fst a\<bar> \<bar>snd b - snd a\<bar>" if "c \<in> set (GetLine a b @ [b])"
    using that line_point_box [OF ax assms] unfolding pts(5) pts(4) [symmetric] by auto
qed

lemma GetLine_same: "GetLine a a = []"
  by (simp add: GetLine_def)

text \<open>\<^verbatim>\<open>GetLine\<close> draws a straight line: it has as many tiles as the longer of the two offsets, starts at the first
  tile, moves by one tile in each direction at most, stops one move short of the second tile, stays in the box the two
  tiles span, and no tile is further than half a tile from the exact line.\<close>

theorem get_line_straight:
  "length (GetLine a b) = nat (max \<bar>fst b - fst a\<bar> \<bar>snd b - snd a\<bar>) \<and>
   hd (GetLine a b @ [b]) = a \<and> successively king (GetLine a b @ [b]) \<and>
   list_all (\<lambda>c. in_box a b c \<and> off_line a b c \<le> max \<bar>fst b - fst a\<bar> \<bar>snd b - snd a\<bar>) (GetLine a b)"
proof (cases "a = b")
  case False
  show ?thesis using GetLine_path [OF False] by (simp add: list_all_iff)
qed (simp add: GetLine_same)

section \<open>Carving\<close>

definition near :: "coord \<Rightarrow> coord \<Rightarrow> bool" where
  "near c n = (n = c \<or> next_to c n)"

lemma disc_one: "(fst n - fst c) * (fst n - fst c) + (snd n - snd c) * (snd n - snd c) \<le> (1 :: int) \<longleftrightarrow> near c n"
proof -
  have small: "\<bar>u\<bar> \<le> 1" if "u * u + v * v \<le> (1 :: int)" for u v :: int
  proof (rule ccontr)
    assume "\<not> \<bar>u\<bar> \<le> 1"
    then have "2 * 2 \<le> \<bar>u\<bar> * \<bar>u\<bar>" by (intro mult_mono) auto
    then show False using that zero_le_square [of v] by simp
  qed
  let ?u = "fst n - fst c" and ?v = "snd n - snd c"
  have "?u \<in> {-1, 0, 1} \<and> ?v \<in> {-1, 0, 1}" if "?u * ?u + ?v * ?v \<le> 1"
    using small [OF that] small [of ?v ?u] that by (auto simp: add.commute)
  moreover have "?u \<in> {-1, 0, 1} \<and> ?v \<in> {-1, 0, 1}" if "near c n"
    using that by (auto simp: near_def next_to_def)
  moreover have "?u * ?u + ?v * ?v \<le> 1 \<longleftrightarrow> near c n" if "?u \<in> {-1, 0, 1} \<and> ?v \<in> {-1, 0, 1}"
  proof -
    have f: "fst n = fst c + ?u" "snd n = snd c + ?v" by simp_all
    have "near c n \<longleftrightarrow> \<bar>?u\<bar> + \<bar>?v\<bar> \<le> 1" using that by (auto simp: near_def next_to_def prod_eq_iff)
    then show ?thesis using that by (elim conjE insertE emptyE) simp_all
  qed
  ultimately show ?thesis by blast
qed

lemma fold_draw_cell:
  "fold (draw_cell 1 c) ns g n = (if n \<in> set ns \<and> near c n \<and> IsInMapRange n then 0 else g n)"
  by (induction ns arbitrary: g) (auto simp: draw_cell_def Let_def disc_one)

lemma DrawCircle_one: "DrawCircle 1 c g n = (if near c n \<and> IsInMapRange n then 0 else g n)"
  by (auto simp: DrawCircle_def fold_draw_cell block_iff near_def next_to_def)

lemma carve_apply: "carve line g n = (if IsInMapRange n \<and> (\<exists>c \<in> set line. near c n) then 0 else g n)"
  unfolding carve_def PASSAGE_RADIUS_def by (induction line arbitrary: g) (auto simp: DrawCircle_one)

lemma carve_floor: "g n = 0 \<Longrightarrow> carve line g n = 0"
  by (simp add: carve_apply)

lemma carve_reach:
  assumes "(step_on g 0)\<^sup>*\<^sup>* a b"
  shows "(step_on (carve line g) 0)\<^sup>*\<^sup>* a b"
  using assms by (rule mono_rtranclp [rule_format, rotated]) (auto simp: step_on_def carve_floor)

text \<open>A move over a corner has a carved tile beside it.\<close>

lemma king_reach:
  assumes "king a b" and "IsInMapRange a" and "IsInMapRange b" and "g b = 0" and "\<And>n. near a n \<Longrightarrow> IsInMapRange n \<Longrightarrow> g n = 0"
  shows "(step_on g 0)\<^sup>*\<^sup>* a b"
proof -
  have ga: "g a = 0" using assms(2,5) by (simp add: near_def)
  have "a = b \<or> next_to a b \<or> next_to a (fst b, snd a) \<and> next_to (fst b, snd a) b"
    using assms(1) unfolding king_def next_to_def prod_eq_iff fst_conv snd_conv by linarith
  then consider "a = b" | "next_to a b" | "next_to a (fst b, snd a)" "next_to (fst b, snd a) b" by blast
  then show ?thesis
  proof cases
    case 2
    then have "step_on g 0 a b" using assms ga by (simp add: step_on_def)
    then show ?thesis by blast
  next
    case 3
    have m: "IsInMapRange (fst b, snd a)" using assms(2,3) by (simp add: IsInMapRange_def)
    then have "g (fst b, snd a) = 0" using assms(5) 3(1) by (simp add: near_def)
    then have "step_on g 0 a (fst b, snd a)" "step_on g 0 (fst b, snd a) b" using 3 m assms ga by (simp_all add: step_on_def)
    then show ?thesis by (meson rtranclp.rtrancl_into_rtrancl rtranclp.rtrancl_refl)
  qed simp
qed

lemma carved_path:
  assumes "successively king (p @ [b])" and "list_all IsInMapRange (p @ [b])" and "g b = 0"
    and "\<And>c n. c \<in> set p \<Longrightarrow> near c n \<Longrightarrow> IsInMapRange n \<Longrightarrow> g n = 0" and "c \<in> set (p @ [b])"
  shows "(step_on g 0)\<^sup>*\<^sup>* c b"
  using assms
proof (induction p arbitrary: c)
  case (Cons e p)
  let ?d = "hd (p @ [b])"
  have d: "?d \<in> set (p @ [b])" by (metis append_is_Nil_conv hd_in_set not_Cons_self2)
  have k: "king e ?d" using Cons.prems(1) by (cases p) auto
  have e: "IsInMapRange e" using Cons.prems(2) by simp
  have dr: "IsInMapRange ?d" using Cons.prems(2) d by (auto simp: list_all_iff)
  have gd: "g ?d = 0"
    using Cons.prems(3) Cons.prems(4) [of ?d ?d] d dr by (auto simp: near_def)
  have "(step_on g 0)\<^sup>*\<^sup>* e ?d"
    by (rule king_reach [where g = g, OF k e dr gd]) (rule Cons.prems(4), simp_all)
  moreover have "(step_on g 0)\<^sup>*\<^sup>* n b" if n: "n \<in> set (p @ [b])" for n
  proof (rule Cons.IH [OF _ _ Cons.prems(3) _ n])
    show "successively king (p @ [b])" "list_all IsInMapRange (p @ [b])" using Cons.prems(1,2) by (cases p; auto)+
  qed (rule Cons.prems(4), simp_all)
  moreover have "c = e \<or> c \<in> set (p @ [b])" using Cons.prems(5) by auto
  ultimately show ?case using d by (meson rtranclp_trans)
qed simp

lemma passage_line:
  assumes "IsInMapRange a" and "IsInMapRange b" and "g b = 0"
    and "c \<in> set (GetLine a b @ [b])"
  shows "(step_on (carve (GetLine a b) g) 0)\<^sup>*\<^sup>* c b"
proof (cases "a = b")
  case False
  note line = GetLine_path [OF False]
  have r: "list_all IsInMapRange (GetLine a b @ [b])"
    using line(4) in_box_range assms(1,2) unfolding list_all_iff by blast
  show ?thesis by (rule carved_path [OF line(3) r _ _ assms(4)]) (auto simp: carve_apply assms(3))
qed (use assms(4) in \<open>simp add: GetLine_same\<close>)

lemma passage_joins:
  assumes "IsInMapRange a" and "IsInMapRange b" and "g b = 0"
  shows "(step_on (carve (GetLine a b) g) 0)\<^sup>*\<^sup>* a b"
proof (cases "a = b")
  case False
  then have "a \<in> set (GetLine a b @ [b])" using GetLine_path(2) by (metis append_is_Nil_conv hd_in_set not_Cons_self2)
  then show ?thesis using passage_line [where g = g, OF assms] by blast
qed simp

text \<open>Whatever a passage opens is reached from its end.\<close>

lemma passage_floor:
  assumes "IsInMapRange a" and "IsInMapRange b" and "g b = 0"
    and "IsInMapRange n" and "carve (GetLine a b) g n = 0"
  shows "g n = 0 \<or> (step_on (carve (GetLine a b) g) 0)\<^sup>*\<^sup>* b n"
proof (rule disjCI)
  let ?g = "carve (GetLine a b) g"
  assume "\<not> (step_on ?g 0)\<^sup>*\<^sup>* b n"
  show "g n = 0"
  proof (rule ccontr)
    assume "g n \<noteq> 0"
    then obtain c where c: "c \<in> set (GetLine a b)" "near c n" using assms(5) by (auto simp: carve_apply split: if_splits)
    then have cb: "(step_on ?g 0)\<^sup>*\<^sup>* c b" using passage_line [where g = g, OF assms(1-3)] by simp
    then have bc: "(step_on ?g 0)\<^sup>*\<^sup>* b c" by (rule reach_sym)
    have "IsInMapRange c \<and> ?g c = 0" using reach_type [OF bc] assms(2,3) carve_floor by blast
    then have "n = c \<or> step_on ?g 0 c n" using c(2) assms(4,5) by (auto simp: near_def step_on_def)
    then have "(step_on ?g 0)\<^sup>*\<^sup>* b n" using bc by (auto intro: rtranclp.rtrancl_into_rtrancl)
    then show False using \<open>\<not> (step_on ?g 0)\<^sup>*\<^sup>* b n\<close> by blast
  qed
qed

end
