(* ===== verification/Dungeon_Rooms.thy ===== *)
theory Dungeon_Rooms
  imports Dungeon_Passage "HOL-Library.Multiset"
begin

text \<open>
  Rooms of the dungeon generator: \<^verbatim>\<open>ProcessMap\<close> drops small regions, records the surviving rooms with their edge tiles
  and joins them by passages with \<^verbatim>\<open>ConnectClosestRooms\<close> and \<^verbatim>\<open>CreatePassage\<close>. \<^verbatim>\<open>std::sort\<close> leaves the order of rooms of
  one size open, so it is a parameter that permutes and sorts. The main theorem is that all surviving rooms end up in one
  connected piece of floor.
\<close>

section \<open>Model\<close>

definition WALL_THRESHOLD_SIZE :: nat where
  "WALL_THRESHOLD_SIZE = 15"

definition ROOM_THRESHOLD_SIZE :: nat where
  "ROOM_THRESHOLD_SIZE = 20"

record room =
  rm_tiles :: "coord list"
  rm_edges :: "coord list"
  rm_conn :: "nat list"
  rm_size :: nat
  rm_acc :: bool
  rm_main :: bool

text \<open>Everything of a room but its two flags.\<close>

definition frame :: "room \<Rightarrow> coord list \<times> coord list \<times> nat list" where
  "frame r = (rm_tiles r, rm_edges r, rm_conn r)"

definition inaccessible :: "room list \<Rightarrow> nat set" where
  "inaccessible rooms = {i. i < length rooms \<and> \<not> rm_acc (rooms ! i)}"

lemma finite_inaccessible [simp]: "finite (inaccessible rooms)"
  by (simp add: inaccessible_def)

lemma inaccessible_mark:
  assumes "i < length rooms" and "\<not> rm_acc (rooms ! i)"
  shows "card (inaccessible (rooms[i := (rooms ! i)\<lparr>rm_acc := True\<rparr>])) < card (inaccessible rooms)"
  by (rule psubset_card_mono) (use assms in \<open>auto simp: inaccessible_def nth_list_update\<close>)

text \<open>The recursive lambda of \<^verbatim>\<open>CreatePassage\<close>, with its pending calls as a list: a call on a room marks it and
  then calls itself on each connected room before it returns.\<close>

function setAccessible :: "nat list \<Rightarrow> room list \<Rightarrow> room list" where
  "setAccessible [] rooms = rooms"
| "setAccessible (i # todo) rooms =
     (if i < length rooms \<and> \<not> rm_acc (rooms ! i)
      then setAccessible (rm_conn (rooms ! i) @ todo) (rooms[i := (rooms ! i)\<lparr>rm_acc := True\<rparr>])
      else setAccessible todo rooms)"
  by pat_completeness auto
termination
  by (relation "measures [\<lambda>(todo, rooms). card (inaccessible rooms), \<lambda>(todo, rooms). length todo]")
     (auto simp: inaccessible_mark)

definition connect_rooms :: "nat \<Rightarrow> nat \<Rightarrow> room list \<Rightarrow> room list" where
  "connect_rooms a b rooms =
     (let rooms1 = rooms[a := (rooms ! a)\<lparr>rm_conn := rm_conn (rooms ! a) @ [b]\<rparr>]
      in rooms1[b := (rooms1 ! b)\<lparr>rm_conn := rm_conn (rooms1 ! b) @ [a]\<rparr>])"

definition CreatePassage :: "nat \<Rightarrow> nat \<Rightarrow> coord \<Rightarrow> coord \<Rightarrow> grid \<times> room list \<Rightarrow> grid \<times> room list" where
  "CreatePassage a b tileA tileB st =
     (case st of (g, rooms0) \<Rightarrow>
        let rooms = connect_rooms a b rooms0;
            rooms' = (if rm_acc (rooms ! a) then setAccessible [b] rooms
                      else if rm_acc (rooms ! b) then setAccessible [a] rooms
                      else rooms)
        in (carve (GetLine tileA tileB) g, rooms'))"

text \<open>The pairs of edge tiles the nested loops compare, and the comparison.\<close>

type_synonym candidate = "nat \<times> nat \<times> coord \<times> coord"

definition pair_dist :: "candidate \<Rightarrow> int" where
  "pair_dist p = (case p of (a, b, tileA, tileB) \<Rightarrow>
     let dx = fst tileA - fst tileB; dy = snd tileA - snd tileB in dx * dx + dy * dy)"

definition candidates :: "room list \<Rightarrow> nat list \<Rightarrow> nat \<Rightarrow> candidate list" where
  "candidates rooms bs a =
     [(a, b, tileA, tileB).
        b \<leftarrow> filter (\<lambda>b. a \<noteq> b \<and> b \<notin> set (rm_conn (rooms ! a))) bs,
        tileA \<leftarrow> rm_edges (rooms ! a), tileB \<leftarrow> rm_edges (rooms ! b)]"

definition closer :: "candidate \<Rightarrow> candidate option \<Rightarrow> candidate option" where
  "closer p best =
     (case best of None \<Rightarrow> Some p
      | Some q \<Rightarrow> if pair_dist p < pair_dist q then Some p else Some q)"

definition closest :: "candidate list \<Rightarrow> candidate option" where
  "closest ps = fold closer ps None"

definition connect_step :: "nat \<Rightarrow> grid \<times> room list \<Rightarrow> grid \<times> room list" where
  "connect_step a st =
     (case st of (g, rooms) \<Rightarrow>
        if rm_conn (rooms ! a) \<noteq> [] then (g, rooms)
        else case closest (candidates rooms [0..<length rooms] a) of
               None \<Rightarrow> (g, rooms)
             | Some (a', b, tileA, tileB) \<Rightarrow> CreatePassage a' b tileA tileB (g, rooms))"

definition forced_candidates :: "room list \<Rightarrow> candidate list" where
  "forced_candidates rooms =
     (let roomListA = filter (\<lambda>i. \<not> rm_acc (rooms ! i)) [0..<length rooms];
          roomListB = filter (\<lambda>i. rm_acc (rooms ! i)) [0..<length rooms]
      in concat (map (candidates rooms roomListB) roomListA))"

section \<open>The search\<close>

lemma candidates_iff:
  "(a', b, s, t) \<in> set (candidates rooms bs a) \<longleftrightarrow>
     a' = a \<and> b \<in> set bs \<and> a \<noteq> b \<and> b \<notin> set (rm_conn (rooms ! a)) \<and> s \<in> set (rm_edges (rooms ! a)) \<and> t \<in> set (rm_edges (rooms ! b))"
  by (auto simp: candidates_def)

lemma forced_candidates_iff:
  "(a, b, s, t) \<in> set (forced_candidates rooms) \<longleftrightarrow>
     a < length rooms \<and> \<not> rm_acc (rooms ! a) \<and> b < length rooms \<and> rm_acc (rooms ! b) \<and>
     b \<notin> set (rm_conn (rooms ! a)) \<and> s \<in> set (rm_edges (rooms ! a)) \<and> t \<in> set (rm_edges (rooms ! b))"
  by (auto simp: forced_candidates_def Let_def candidates_iff)

lemma fold_closer:
  "\<exists>p. fold closer ps (Some q) = Some p \<and> p \<in> set (q # ps) \<and> list_all (\<lambda>r. pair_dist p \<le> pair_dist r) (q # ps)"
proof (induction ps arbitrary: q)
  case (Cons r ps)
  show ?case
  proof (cases "pair_dist r < pair_dist q")
    case True
    then have "closer r (Some q) = Some r" by (simp add: closer_def)
    then show ?thesis using Cons.IH [of r] True by fastforce
  next
    case False
    then have "closer r (Some q) = Some q" by (simp add: closer_def)
    then show ?thesis using Cons.IH [of q] False by fastforce
  qed
qed simp

lemma closest_Nil_iff: "closest ps = None \<longleftrightarrow> ps = []"
  using fold_closer by (cases ps) (auto simp: closest_def closer_def, metis option.distinct(1))

lemma closest_Some:
  assumes "closest ps = Some p"
  shows "p \<in> set ps" and "list_all (\<lambda>q. pair_dist p \<le> pair_dist q) ps"
proof -
  obtain q qs where ps: "ps = q # qs" using assms by (cases ps) (auto simp: closest_def)
  have "fold closer qs (Some q) = Some p" using assms by (simp add: ps closest_def closer_def)
  then show "p \<in> set ps" and "list_all (\<lambda>q. pair_dist p \<le> pair_dist q) ps"
    using fold_closer [of qs q] ps by auto
qed

section \<open>Marking rooms accessible\<close>

lemma setAccessible_frame: "map frame (setAccessible todo rooms) = map frame rooms"
proof (induction todo rooms rule: setAccessible.induct)
  case (2 i todo rooms)
  have "map frame (rooms[i := (rooms ! i)\<lparr>rm_acc := True\<rparr>]) = map frame rooms" if "i < length rooms"
    using that by (intro nth_equalityI) (auto simp: frame_def nth_list_update)
  then show ?case using 2 by (cases "i < length rooms \<and> \<not> rm_acc (rooms ! i)") auto
qed simp

lemma frames_same:
  assumes "map frame rooms' = map frame rooms"
  shows "length rooms' = length rooms"
    and "i < length rooms \<Longrightarrow> rm_tiles (rooms' ! i) = rm_tiles (rooms ! i)"
    and "i < length rooms \<Longrightarrow> rm_edges (rooms' ! i) = rm_edges (rooms ! i)"
    and "i < length rooms \<Longrightarrow> rm_conn (rooms' ! i) = rm_conn (rooms ! i)"
proof -
  show l: "length rooms' = length rooms" using assms by (metis length_map)
  have "frame (rooms' ! i) = frame (rooms ! i)" if "i < length rooms" using assms l that by (metis nth_map)
  then show "i < length rooms \<Longrightarrow> rm_tiles (rooms' ! i) = rm_tiles (rooms ! i)"
    and "i < length rooms \<Longrightarrow> rm_edges (rooms' ! i) = rm_edges (rooms ! i)"
    and "i < length rooms \<Longrightarrow> rm_conn (rooms' ! i) = rm_conn (rooms ! i)" by (auto simp: frame_def)
qed

lemmas setAccessible_same = frames_same [OF setAccessible_frame]

lemma setAccessible_keeps:
  "i < length rooms \<Longrightarrow> rm_acc (rooms ! i) \<Longrightarrow> rm_acc (setAccessible todo rooms ! i)"
proof (induction todo rooms rule: setAccessible.induct)
  case (2 j todo rooms)
  then show ?case by (cases "j < length rooms \<and> \<not> rm_acc (rooms ! j)") (auto simp: nth_list_update)
qed simp

lemma setAccessible_marks:
  "j \<in> set todo \<Longrightarrow> j < length rooms \<Longrightarrow> rm_acc (setAccessible todo rooms ! j)"
proof (induction todo rooms rule: setAccessible.induct)
  case (2 i todo rooms)
  show ?case
  proof (cases "i < length rooms \<and> \<not> rm_acc (rooms ! i)")
    case True
    let ?rooms = "rooms[i := (rooms ! i)\<lparr>rm_acc := True\<rparr>]"
    have "rm_acc (setAccessible (rm_conn (rooms ! i) @ todo) ?rooms ! j)"
      using "2.IH"(1) [OF True] 2(3,4) setAccessible_keeps [of i ?rooms] True by (cases "j = i") auto
    then show ?thesis using True by simp
  next
    case False
    then show ?thesis using "2.IH"(2) [OF False] 2(3,4) setAccessible_keeps [of j rooms todo] by auto
  qed
qed simp

lemma inaccessible_setAccessible:
  assumes "i < length rooms" and "\<not> rm_acc (rooms ! i)" and "i \<in> set todo"
  shows "card (inaccessible (setAccessible todo rooms)) < card (inaccessible rooms)"
proof (rule psubset_card_mono)
  have "inaccessible (setAccessible todo rooms) \<subseteq> inaccessible rooms"
    using setAccessible_keeps by (auto simp: inaccessible_def setAccessible_same(1))
  moreover have "i \<in> inaccessible rooms" "i \<notin> inaccessible (setAccessible todo rooms)"
    using assms setAccessible_marks [OF assms(3,1)] by (auto simp: inaccessible_def)
  ultimately show "inaccessible (setAccessible todo rooms) \<subset> inaccessible rooms" by blast
qed simp

lemma connect_rooms_acc:
  "length (connect_rooms a b rooms) = length rooms"
  "i < length rooms \<Longrightarrow> rm_acc (connect_rooms a b rooms ! i) = rm_acc (rooms ! i)"
  by (cases "i = a"; cases "i = b"; simp add: connect_rooms_def Let_def)+

lemma connect_rooms_same:
  assumes "i < length rooms"
  shows "rm_tiles (connect_rooms a b rooms ! i) = rm_tiles (rooms ! i)"
    and "rm_edges (connect_rooms a b rooms ! i) = rm_edges (rooms ! i)"
  using assms by (cases "i = a"; cases "i = b"; simp add: connect_rooms_def Let_def)+

lemma connect_rooms_conn:
  assumes "i < length rooms" and "a \<noteq> b"
  shows "rm_conn (connect_rooms a b rooms ! i) =
    rm_conn (rooms ! i) @ (if i = a then [b] else if i = b then [a] else [])"
  using assms by (cases "i = a"; cases "i = b"; simp add: connect_rooms_def Let_def)+

lemma inaccessible_connect: "inaccessible (connect_rooms a b rooms) = inaccessible rooms"
  by (auto simp: inaccessible_def connect_rooms_acc)

lemma CreatePassage_forced:
  assumes "closest (forced_candidates rooms) = Some (a, b, tileA, tileB)"
    and "CreatePassage a b tileA tileB (g, rooms) = (g', rooms')"
  shows "card (inaccessible rooms') < card (inaccessible rooms)"
proof -
  have c: "a < length rooms" "\<not> rm_acc (rooms ! a)" "b < length rooms" "rm_acc (rooms ! b)"
    using closest_Some(1) [OF assms(1)] by (simp_all add: forced_candidates_iff)
  then have "rooms' = setAccessible [a] (connect_rooms a b rooms)"
    using assms(2) by (auto simp: CreatePassage_def Let_def connect_rooms_acc)
  then show ?thesis
    using inaccessible_setAccessible [of a "connect_rooms a b rooms" "[a]"] c
    by (simp add: connect_rooms_acc inaccessible_connect)
qed

section \<open>Connecting all rooms\<close>

function connect_forced :: "grid \<Rightarrow> room list \<Rightarrow> grid \<times> room list" where
  "connect_forced g rooms =
     (case closest (forced_candidates rooms) of
        None \<Rightarrow> (g, rooms)
      | Some (a, b, tileA, tileB) \<Rightarrow>
          (case CreatePassage a b tileA tileB (g, rooms) of (g', rooms') \<Rightarrow> connect_forced g' rooms'))"
  by pat_completeness auto
termination
  by (relation "measure (\<lambda>(g, rooms). card (inaccessible rooms))")
     (auto split: prod.split dest: CreatePassage_forced)

declare connect_forced.simps [simp del]

definition ConnectClosestRooms :: "bool \<Rightarrow> grid \<times> room list \<Rightarrow> grid \<times> room list" where
  "ConnectClosestRooms force st =
     (if force then case_prod connect_forced st
      else case_prod connect_forced (fold connect_step [0..<length (snd st)] st))"

definition remove_wall :: "coord list \<Rightarrow> grid \<Rightarrow> grid" where
  "remove_wall region g =
     (if length region < WALL_THRESHOLD_SIZE then fold (\<lambda>tile g. g(tile := 0)) region g else g)"

definition edge_tiles :: "grid \<Rightarrow> coord list \<Rightarrow> coord list" where
  "edge_tiles g region =
     concat (map (\<lambda>tile. map (\<lambda>n. tile) (filter (\<lambda>n. IsInMapRange n \<and> g n = 1) (near_cross tile))) region)"

definition add_room :: "coord list \<Rightarrow> grid \<times> room list \<Rightarrow> grid \<times> room list" where
  "add_room region st =
     (case st of (g, rooms) \<Rightarrow>
        if length region < ROOM_THRESHOLD_SIZE then (fold (\<lambda>tile g. g(tile := 1)) region g, rooms)
        else (g, rooms @ [\<lparr>rm_tiles = region, rm_edges = edge_tiles g region, rm_conn = [], rm_size = length region,
                          rm_acc = False, rm_main = False\<rparr>]))"

definition ProcessMap :: "(room list \<Rightarrow> room list) \<Rightarrow> grid \<Rightarrow> grid \<times> room list" where
  "ProcessMap std_sort g0 =
     (let g1 = fold remove_wall (GetRegions g0 1) g0;
          (g2, rooms) = fold add_room (GetRegions g1 0) (g1, [])
      in if rooms = [] then (g2, rooms)
         else let sorted = std_sort rooms
              in ConnectClosestRooms False
                   (g2, sorted[0 := (sorted ! 0)\<lparr>rm_main := True, rm_acc := True\<rparr>]))"

section \<open>The invariant of connecting\<close>

definition linked :: "grid \<Rightarrow> room \<Rightarrow> room \<Rightarrow> bool" where
  "linked g r s = (\<exists>a \<in> set (rm_tiles r). \<exists>b \<in> set (rm_tiles s). (step_on g 0)\<^sup>*\<^sup>* a b)"

definition room_ok :: "grid \<Rightarrow> room \<Rightarrow> bool" where
  "room_ok g r = (rm_edges r \<noteq> [] \<and> set (rm_edges r) \<subseteq> set (rm_tiles r) \<and>
     (\<forall>a \<in> set (rm_tiles r). IsInMapRange a \<and> g a = 0) \<and>
     (\<forall>a \<in> set (rm_tiles r). \<forall>b \<in> set (rm_tiles r). (step_on g 0)\<^sup>*\<^sup>* a b))"

definition conns_ok :: "grid \<Rightarrow> room list \<Rightarrow> bool" where
  "conns_ok g rooms = (\<forall>i < length rooms. \<forall>j \<in> set (rm_conn (rooms ! i)).
     j < length rooms \<and> i \<in> set (rm_conn (rooms ! j)) \<and> linked g (rooms ! i) (rooms ! j))"

definition closed_except :: "nat set \<Rightarrow> room list \<Rightarrow> bool" where
  "closed_except X rooms = (\<forall>i < length rooms. rm_acc (rooms ! i) \<longrightarrow>
     (\<forall>j \<in> set (rm_conn (rooms ! i)). j < length rooms \<longrightarrow> rm_acc (rooms ! j) \<or> j \<in> X))"

definition acc_linked :: "grid \<Rightarrow> room list \<Rightarrow> bool" where
  "acc_linked g rooms = (\<forall>i < length rooms. rm_acc (rooms ! i) \<longrightarrow> linked g (rooms ! 0) (rooms ! i))"

definition rooms_inv :: "grid \<Rightarrow> room list \<Rightarrow> bool" where
  "rooms_inv g rooms =
     (list_all (room_ok g) rooms \<and> conns_ok g rooms \<and> closed_except {} rooms \<and> acc_linked g rooms \<and>
      (rooms \<noteq> [] \<longrightarrow> rm_acc (rooms ! 0)))"

lemma setAccessible_closes: "closed_except (set todo) rooms \<Longrightarrow> closed_except {} (setAccessible todo rooms)"
proof (induction todo rooms rule: setAccessible.induct)
  case (2 i todo rooms)
  show ?case
  proof (cases "i < length rooms \<and> \<not> rm_acc (rooms ! i)")
    case True
    have "closed_except (set (rm_conn (rooms ! i) @ todo)) (rooms[i := (rooms ! i)\<lparr>rm_acc := True\<rparr>])"
      using 2(3) True by (auto simp: closed_except_def nth_list_update)
    then show ?thesis using "2.IH"(1) [OF True] True by simp
  next
    case False
    then have "closed_except (set todo) rooms" using 2(3) by (auto simp: closed_except_def)
    then show ?thesis using "2.IH"(2) [OF False] False by auto
  qed
qed simp

lemma setAccessible_within:
  assumes "\<And>i j. i < length rooms \<Longrightarrow> P i \<Longrightarrow> j \<in> set (rm_conn (rooms ! i)) \<Longrightarrow> P j"
    and "\<And>i. i < length rooms \<Longrightarrow> rm_acc (rooms ! i) \<Longrightarrow> P i" and "\<And>j. j \<in> set todo \<Longrightarrow> P j"
    and "i < length rooms" and "rm_acc (setAccessible todo rooms ! i)"
  shows "P i"
  using assms
proof (induction todo rooms rule: setAccessible.induct)
  case (1 rooms)
  have "rm_acc (rooms ! i)" using 1(5) by simp
  with 1(4) show ?case by (rule 1(2))
next
  case (2 k todo rooms)
  show ?case
  proof (cases "k < length rooms \<and> \<not> rm_acc (rooms ! k)")
    case True
    let ?rooms = "rooms[k := (rooms ! k)\<lparr>rm_acc := True\<rparr>]"
    have c: "rm_conn (?rooms ! i) = rm_conn (rooms ! i)" if "i < length rooms" for i
      using that by (cases "i = k") simp_all
    have a: "P j" if "j < length rooms" "rm_acc (?rooms ! j)" for j
      using that 2(4,5) by (cases "j = k") auto
    have t: "P j" if "j \<in> set (rm_conn (rooms ! k) @ todo)" for j
      using that True 2(3) [of k j] 2(5) [of k] 2(5) [of j] by auto
    have r: "P j" if "i < length ?rooms" "P i" "j \<in> set (rm_conn (?rooms ! i))" for i j
      using that 2(3) [of i j] c [of i] by simp
    have "rm_acc (setAccessible (rm_conn (rooms ! k) @ todo) ?rooms ! i)" using 2(7) True by simp
    from "2.IH"(1) [OF True r _ t _ this] a 2(6) show ?thesis by simp
  next
    case False
    then have acc: "rm_acc (setAccessible todo rooms ! i)" using 2(7) by auto
    have t: "P j" if "j \<in> set todo" for j using that 2(5) [of j] by simp
    show ?thesis by (rule "2.IH"(2) [OF False 2(3,4) t 2(6) acc])
  qed
qed

lemma linked_sym: "linked g r s \<Longrightarrow> linked g s r"
  unfolding linked_def by (blast intro: reach_sym)

lemma linked_trans:
  assumes "linked g r s" and "room_ok g s" and "linked g s t"
  shows "linked g r t"
proof -
  obtain a b where ab: "a \<in> set (rm_tiles r)" "b \<in> set (rm_tiles s)" "(step_on g 0)\<^sup>*\<^sup>* a b"
    using assms(1) unfolding linked_def by blast
  obtain c d where cd: "c \<in> set (rm_tiles s)" "d \<in> set (rm_tiles t)" "(step_on g 0)\<^sup>*\<^sup>* c d"
    using assms(3) unfolding linked_def by blast
  have "(step_on g 0)\<^sup>*\<^sup>* b c" using assms(2) ab(2) cd(1) unfolding room_ok_def by blast
  then have "(step_on g 0)\<^sup>*\<^sup>* a d" using ab(3) cd(3) by (meson rtranclp_trans)
  then show ?thesis using ab(1) cd(2) unfolding linked_def by blast
qed

lemma linked_self: "room_ok g r \<Longrightarrow> linked g r r"
proof -
  assume r: "room_ok g r"
  then have "hd (rm_edges r) \<in> set (rm_tiles r)" unfolding room_ok_def by (meson hd_in_set subsetD)
  then show "linked g r r" unfolding linked_def by blast
qed

lemma linked_carve: "linked g r s \<Longrightarrow> linked (carve line g) r s"
  unfolding linked_def by (blast intro: carve_reach)

lemma room_ok_carve: "room_ok g r \<Longrightarrow> room_ok (carve line g) r"
  unfolding room_ok_def by (blast intro: carve_reach carve_floor)

lemma linked_same: "rm_tiles r' = rm_tiles r \<Longrightarrow> rm_tiles s' = rm_tiles s \<Longrightarrow> linked g r' s' = linked g r s"
  by (simp add: linked_def)

lemma room_ok_same: "rm_tiles r' = rm_tiles r \<Longrightarrow> rm_edges r' = rm_edges r \<Longrightarrow> room_ok g r' = room_ok g r"
  by (simp add: room_ok_def)

lemma setAccessible_inv:
  assumes "list_all (room_ok g) rooms" and "conns_ok g rooms" and "acc_linked g rooms" and "rooms \<noteq> [] \<Longrightarrow> rm_acc (rooms ! 0)"
    and "closed_except (set todo) rooms" and "\<And>j. j \<in> set todo \<Longrightarrow> j < length rooms \<and> linked g (rooms ! 0) (rooms ! j)"
  shows "rooms_inv g (setAccessible todo rooms)"
proof -
  let ?rooms = "setAccessible todo rooms"
  note same = setAccessible_same [where todo = todo and rooms = rooms]
  have z: "rm_tiles (?rooms ! 0) = rm_tiles (rooms ! 0)" if "rooms \<noteq> []" using that same(2) [of 0] by simp
  have ok: "room_ok g (rooms ! i)" if "i < length rooms" for i using assms(1) that by (simp add: list_all_length)
  have "room_ok g (?rooms ! i)" if "i < length rooms" for i
    using ok [OF that] room_ok_same [OF same(2,3) [OF that]] by blast
  then have "list_all (room_ok g) ?rooms" by (simp add: list_all_length same(1))
  moreover have "j < length rooms \<and> i \<in> set (rm_conn (?rooms ! j)) \<and> linked g (?rooms ! i) (?rooms ! j)"
    if i: "i < length rooms" and j: "j \<in> set (rm_conn (?rooms ! i))" for i j
  proof -
    have "j \<in> set (rm_conn (rooms ! i))" using j same(4) [OF i] by simp
    then have j': "j < length rooms" "i \<in> set (rm_conn (rooms ! j))" "linked g (rooms ! i) (rooms ! j)"
      using assms(2) i unfolding conns_ok_def by blast+
    then show ?thesis using same(4) [OF j'(1)] linked_same [OF same(2) [OF i] same(2) [OF j'(1)]] by auto
  qed
  then have "conns_ok g ?rooms" unfolding conns_ok_def same(1) by blast
  moreover have "acc_linked g ?rooms"
    unfolding acc_linked_def
  proof (intro allI impI)
    fix i assume i: "i < length ?rooms" "rm_acc (?rooms ! i)"
    have "i < length rooms \<and> linked g (rooms ! 0) (rooms ! i)"
    proof (rule setAccessible_within [where rooms = rooms and todo = todo])
      fix k j assume k: "k < length rooms" "k < length rooms \<and> linked g (rooms ! 0) (rooms ! k)" "j \<in> set (rm_conn (rooms ! k))"
      then have "j < length rooms" "linked g (rooms ! k) (rooms ! j)" using assms(2) unfolding conns_ok_def by blast+
      then show "j < length rooms \<and> linked g (rooms ! 0) (rooms ! j)" using linked_trans ok k(1,2) by blast
    qed (use assms(3,6) i same(1) in \<open>auto simp: acc_linked_def\<close>)
    then have l: "linked g (rooms ! 0) (rooms ! i)" "i < length rooms" "rooms \<noteq> []" by auto
    then show "linked g (?rooms ! 0) (?rooms ! i)" using linked_same [OF z same(2)] by blast
  qed
  moreover have "rm_acc (?rooms ! 0)" if "?rooms \<noteq> []"
    using that assms(4) same(1) setAccessible_keeps [of 0 rooms todo] by (cases rooms) auto
  ultimately show ?thesis using setAccessible_closes [OF assms(5)] by (simp add: rooms_inv_def)
qed

text \<open>Recording a connection between two rooms that the carved grid links.\<close>

lemma connect_rooms_inv:
  assumes "rooms_inv g rooms" and ab: "a < length rooms" "b < length rooms" "a \<noteq> b"
    and "linked (carve line g) (rooms ! a) (rooms ! b)"
  defines "g' \<equiv> carve line g" and "rooms' \<equiv> connect_rooms a b rooms"
  shows "list_all (room_ok g') rooms'" and "conns_ok g' rooms'" and "acc_linked g' rooms'"
    and "rooms' \<noteq> [] \<Longrightarrow> rm_acc (rooms' ! 0)"
    and "closed_except (if rm_acc (rooms ! a) then {b} else if rm_acc (rooms ! b) then {a} else {}) rooms'"
proof -
  have len: "length rooms' = length rooms" by (simp add: rooms'_def connect_rooms_acc)
  have acc: "rm_acc (rooms' ! i) = rm_acc (rooms ! i)" if "i < length rooms" for i
    using connect_rooms_acc(2) [OF that] by (simp add: rooms'_def)
  have tiles: "rm_tiles (rooms' ! i) = rm_tiles (rooms ! i)" "rm_edges (rooms' ! i) = rm_edges (rooms ! i)"
    if "i < length rooms" for i using connect_rooms_same [OF that] by (simp_all add: rooms'_def)
  have conn: "set (rm_conn (rooms' ! i)) = set (rm_conn (rooms ! i)) \<union> (if i = a then {b} else if i = b then {a} else {})"
    if "i < length rooms" for i using connect_rooms_conn [OF that ab(3)] by (simp add: rooms'_def)
  have link: "linked g' (rooms' ! i) (rooms' ! j) = linked g' (rooms ! i) (rooms ! j)"
    if "i < length rooms" "j < length rooms" for i j by (rule linked_same [OF tiles(1) tiles(1)]) (use that in auto)
  have old: "list_all (room_ok g) rooms" "conns_ok g rooms" "closed_except {} rooms" "acc_linked g rooms"
    "rooms \<noteq> [] \<Longrightarrow> rm_acc (rooms ! 0)" using assms(1) by (simp_all add: rooms_inv_def)
  have "room_ok g' (rooms' ! i)" if "i < length rooms" for i
    using old(1) that room_ok_same [OF tiles [OF that]] room_ok_carve unfolding g'_def list_all_length by blast
  then show "list_all (room_ok g') rooms'" by (simp add: list_all_length len)
  have "j < length rooms \<and> i \<in> set (rm_conn (rooms' ! j)) \<and> linked g' (rooms ! i) (rooms ! j)"
    if i: "i < length rooms" and j: "j \<in> set (rm_conn (rooms' ! i))" for i j
  proof (cases "j \<in> set (rm_conn (rooms ! i))")
    case True
    then have "j < length rooms" "i \<in> set (rm_conn (rooms ! j))" "linked g (rooms ! i) (rooms ! j)"
      using old(2) i unfolding conns_ok_def by blast+
    then show ?thesis using conn [of j] linked_carve unfolding g'_def by blast
  next
    case False
    then have "i = a \<and> j = b \<or> i = b \<and> j = a" using j conn [OF i] by (auto split: if_splits)
    then show ?thesis using assms(5) linked_sym ab conn [of a] conn [of b] unfolding g'_def by auto
  qed
  then show "conns_ok g' rooms'" unfolding conns_ok_def len using link by blast
  show "acc_linked g' rooms'"
    unfolding acc_linked_def len
  proof (intro allI impI)
    fix i assume i: "i < length rooms" "rm_acc (rooms' ! i)"
    then have "linked g (rooms ! 0) (rooms ! i)" using old(4) acc [OF i(1)] unfolding acc_linked_def by blast
    then show "linked g' (rooms' ! 0) (rooms' ! i)" using link [of 0 i] i(1) linked_carve unfolding g'_def by fastforce
  qed
  show "rm_acc (rooms' ! 0)" if "rooms' \<noteq> []"
    using that old(5) acc [of 0] len by (cases rooms) auto
  show "closed_except (if rm_acc (rooms ! a) then {b} else if rm_acc (rooms ! b) then {a} else {}) rooms'"
    unfolding closed_except_def len
  proof (intro allI impI ballI)
    fix i j assume i: "i < length rooms" "rm_acc (rooms' ! i)" and j: "j \<in> set (rm_conn (rooms' ! i))" "j < length rooms"
    have "rm_acc (rooms ! i)" using i acc by blast
    then have "rm_acc (rooms ! j)" if "j \<in> set (rm_conn (rooms ! i))"
      using old(3) i(1) j(2) that unfolding closed_except_def by blast
    moreover have "j \<in> set (rm_conn (rooms ! i)) \<or> i = a \<and> j = b \<or> i = b \<and> j = a"
      using j(1) conn [OF i(1)] by (auto split: if_splits)
    ultimately have "rm_acc (rooms ! j) \<or> i = a \<and> j = b \<or> i = b \<and> j = a" by blast
    then show "rm_acc (rooms' ! j) \<or> j \<in> (if rm_acc (rooms ! a) then {b} else if rm_acc (rooms ! b) then {a} else {})"
      using i acc [OF i(1)] acc [OF j(2)] by auto
  qed
qed

declare setAccessible.simps [simp del]

lemma CreatePassage_tiles:
  assumes "CreatePassage a b tileA tileB (g, rooms) = (g', rooms')"
  shows "map rm_tiles rooms' = map rm_tiles rooms" and "g' = carve (GetLine tileA tileB) g"
proof -
  have c: "map rm_tiles (connect_rooms a b rooms) = map rm_tiles rooms"
    using connect_rooms_acc(1) connect_rooms_same(1) by (intro nth_equalityI) auto
  have "map rm_tiles (setAccessible todo rs) = map rm_tiles rs" for todo rs
    using setAccessible_same by (intro nth_equalityI) auto
  then show "map rm_tiles rooms' = map rm_tiles rooms" and "g' = carve (GetLine tileA tileB) g"
    using assms c by (auto simp: CreatePassage_def Let_def split: if_splits)
qed

lemma CreatePassage_inv:
  assumes "rooms_inv g rooms" and ab: "a < length rooms" "b < length rooms" "a \<noteq> b"
    and t: "tileA \<in> set (rm_edges (rooms ! a))" "tileB \<in> set (rm_edges (rooms ! b))"
    and "CreatePassage a b tileA tileB (g, rooms) = (g', rooms')"
  shows "rooms_inv g' rooms'"
proof -
  have g': "g' = carve (GetLine tileA tileB) g" by (rule CreatePassage_tiles(2) [OF assms(7)])
  have ok: "room_ok g (rooms ! i)" if "i < length rooms" for i
    using assms(1) that by (simp add: rooms_inv_def list_all_length)
  have on: "tileA \<in> set (rm_tiles (rooms ! a))" "tileB \<in> set (rm_tiles (rooms ! b))"
    using t ok [OF ab(1)] ok [OF ab(2)] unfolding room_ok_def by blast+
  then have "IsInMapRange tileA" "IsInMapRange tileB" "g tileB = 0"
    using ok [OF ab(1)] ok [OF ab(2)] unfolding room_ok_def by blast+
  from passage_joins [where g = g, OF this] have l: "linked g' (rooms ! a) (rooms ! b)"
    using on unfolding g' linked_def by blast
  note inv = connect_rooms_inv [where line = "GetLine tileA tileB", OF assms(1) ab l [unfolded g'], folded g']
  let ?rooms = "connect_rooms a b rooms"
  note mark = setAccessible_inv [OF inv(1-4)]
  have tl: "rm_tiles (?rooms ! i) = rm_tiles (rooms ! i)" if "i < length rooms" for i
    by (rule connect_rooms_same [OF that])
  have l': "linked g' (?rooms ! a) (?rooms ! b)" using l linked_same [OF tl tl] ab by blast
  have len: "length ?rooms = length rooms" by (rule connect_rooms_acc)
  have ok': "room_ok g' (?rooms ! i)" if "i < length rooms" for i using inv(1) that len by (simp add: list_all_length)
  have acc: "linked g' (?rooms ! 0) (?rooms ! i)" if "rm_acc (rooms ! i)" "i < length rooms" for i
    using inv(3) that connect_rooms_acc unfolding acc_linked_def by simp
  consider (A) "rm_acc (rooms ! a)" | (B) "\<not> rm_acc (rooms ! a)" "rm_acc (rooms ! b)"
    | (N) "\<not> rm_acc (rooms ! a)" "\<not> rm_acc (rooms ! b)" by blast
  then show ?thesis
  proof cases
    case A
    have "linked g' (?rooms ! 0) (?rooms ! b)" by (rule linked_trans [OF acc ok' l']) (use A ab in auto)
    then have "rooms_inv g' (setAccessible [b] ?rooms)" using inv(5) A ab len by (intro mark) auto
    then show ?thesis using assms(7) A ab by (auto simp: CreatePassage_def Let_def connect_rooms_acc)
  next
    case B
    have "linked g' (?rooms ! 0) (?rooms ! a)" by (rule linked_trans [OF acc ok' linked_sym [OF l']]) (use B ab in auto)
    then have "rooms_inv g' (setAccessible [a] ?rooms)" using inv(5) B ab len by (intro mark) auto
    then show ?thesis using assms(7) B ab by (auto simp: CreatePassage_def Let_def connect_rooms_acc)
  next
    case N
    then have "rooms_inv g' ?rooms" using inv by (simp add: rooms_inv_def)
    then show ?thesis using assms(7) N ab by (auto simp: CreatePassage_def Let_def connect_rooms_acc)
  qed
qed

text \<open>No floor outside of rooms and passages: every floor tile is reached from a room.\<close>

definition floor_ok :: "grid \<Rightarrow> coord list list \<Rightarrow> bool" where
  "floor_ok g tiles = (\<forall>n. IsInMapRange n \<longrightarrow> g n = 0 \<longrightarrow> (\<exists>t \<in> set (concat tiles). (step_on g 0)\<^sup>*\<^sup>* t n))"

definition cave_inv :: "coord list list \<Rightarrow> grid \<times> room list \<Rightarrow> bool" where
  "cave_inv tiles st = (case st of (g, rooms) \<Rightarrow> rooms_inv g rooms \<and> map rm_tiles rooms = tiles \<and> floor_ok g tiles)"

lemma cave_inv_passage:
  assumes "cave_inv tiles (g, rooms)" and ab: "a < length rooms" "b < length rooms" "a \<noteq> b"
    and t: "tileA \<in> set (rm_edges (rooms ! a))" "tileB \<in> set (rm_edges (rooms ! b))"
  shows "cave_inv tiles (CreatePassage a b tileA tileB (g, rooms))"
proof -
  obtain g' rooms' where c: "CreatePassage a b tileA tileB (g, rooms) = (g', rooms')" by fastforce
  have inv: "rooms_inv g rooms" "map rm_tiles rooms = tiles" "floor_ok g tiles" using assms(1) by (simp_all add: cave_inv_def)
  note tiles = CreatePassage_tiles [OF c]
  have ok: "room_ok g (rooms ! i)" if "i < length rooms" for i using inv(1) that by (simp add: rooms_inv_def list_all_length)
  have on: "tileA \<in> set (rm_tiles (rooms ! a))" "tileB \<in> set (rm_tiles (rooms ! b))"
    using t ok [OF ab(1)] ok [OF ab(2)] unfolding room_ok_def by blast+
  then have r: "IsInMapRange tileA" "IsInMapRange tileB" "g tileB = 0"
    using ok [OF ab(1)] ok [OF ab(2)] unfolding room_ok_def by blast+
  have b: "tileB \<in> set (concat tiles)" using on(2) nth_mem [OF ab(2)] inv(2) by auto
  have "\<exists>t \<in> set (concat tiles). (step_on g' 0)\<^sup>*\<^sup>* t n" if n: "IsInMapRange n" "g' n = 0" for n
  proof (cases "g n = 0")
    case True
    then obtain t where "t \<in> set (concat tiles)" "(step_on g 0)\<^sup>*\<^sup>* t n" using inv(3) n(1) unfolding floor_ok_def by blast
    then show ?thesis using carve_reach tiles(2) by blast
  next
    case False
    then have "(step_on g' 0)\<^sup>*\<^sup>* tileB n"
      using passage_floor [where g = g, OF r n(1)] n(2) unfolding tiles(2) by blast
    then show ?thesis using b by blast
  qed
  then show ?thesis
    using CreatePassage_inv [OF inv(1) ab t c] tiles(1) inv(2) by (simp add: cave_inv_def floor_ok_def c)
qed

lemma connect_step_cave:
  assumes "cave_inv tiles (g, rooms)" and "a < length rooms"
  shows "cave_inv tiles (connect_step a (g, rooms))"
proof (cases "rm_conn (rooms ! a) = []")
  case True
  show ?thesis
  proof (cases "closest (candidates rooms [0..<length rooms] a)")
    case (Some p)
    obtain a' b s t where p: "p = (a', b, s, t)" by (metis prod.exhaust)
    have "a' = a" "b < length rooms" "a \<noteq> b" "s \<in> set (rm_edges (rooms ! a))" "t \<in> set (rm_edges (rooms ! b))"
      using closest_Some(1) [OF Some] by (auto simp: p candidates_iff)
    then show ?thesis using cave_inv_passage [OF assms] True Some p by (simp add: connect_step_def)
  qed (use True assms in \<open>simp add: connect_step_def\<close>)
qed (use assms in \<open>simp add: connect_step_def\<close>)

lemma fold_connect_step:
  assumes "cave_inv tiles st" and "\<And>i. i \<in> set is \<Longrightarrow> i < length tiles"
  shows "cave_inv tiles (fold connect_step is st)"
  using assms
proof (induction "is" arbitrary: st)
  case (Cons i "is")
  obtain g rooms where st: "st = (g, rooms)" by fastforce
  have "length rooms = length tiles" using Cons.prems(1) st by (auto simp: cave_inv_def)
  then have "cave_inv tiles (connect_step i st)" using connect_step_cave [of tiles g rooms i] Cons.prems st by simp
  then show ?case using Cons.IH Cons.prems(2) by simp
qed simp

lemma none_forced:
  assumes "rooms_inv g rooms" and "forced_candidates rooms = []" and "i < length rooms"
  shows "rm_acc (rooms ! i)"
proof (rule ccontr)
  assume i: "\<not> rm_acc (rooms ! i)"
  have inv: "list_all (room_ok g) rooms" "conns_ok g rooms" "closed_except {} rooms" "rm_acc (rooms ! 0)" "0 < length rooms"
    using assms(1,3) by (auto simp: rooms_inv_def)
  have "0 \<notin> set (rm_conn (rooms ! i))"
  proof
    assume "0 \<in> set (rm_conn (rooms ! i))"
    then have "i \<in> set (rm_conn (rooms ! 0))" using inv(2) assms(3) unfolding conns_ok_def by blast
    then show False using inv(3-5) i assms(3) unfolding closed_except_def by blast
  qed
  moreover have "hd (rm_edges (rooms ! j)) \<in> set (rm_edges (rooms ! j))" if "j < length rooms" for j
    using inv(1) that by (simp add: list_all_length room_ok_def)
  ultimately have "(i, 0, hd (rm_edges (rooms ! i)), hd (rm_edges (rooms ! 0))) \<in> set (forced_candidates rooms)"
    using inv(4,5) assms(3) i by (simp add: forced_candidates_iff)
  then show False using assms(2) by simp
qed

lemma connect_forced_cave:
  "cave_inv tiles (g, rooms) \<Longrightarrow> connect_forced g rooms = (g', rooms') \<Longrightarrow>
     cave_inv tiles (g', rooms') \<and> (\<forall>i < length rooms'. rm_acc (rooms' ! i))"
proof (induction g rooms rule: connect_forced.induct)
  case (1 g rooms)
  show ?case
  proof (cases "closest (forced_candidates rooms)")
    case None
    then have "(g', rooms') = (g, rooms)" using 1(3) by (simp add: connect_forced.simps [of g rooms])
    moreover have "forced_candidates rooms = []" using None closest_Nil_iff by blast
    ultimately show ?thesis using none_forced 1(2) by (auto simp: cave_inv_def)
  next
    case (Some p)
    obtain a b s t where p: "p = (a, b, s, t)" by (metis prod.exhaust)
    obtain g1 rooms1 where c: "CreatePassage a b s t (g, rooms) = (g1, rooms1)" by fastforce
    have "(a, b, s, t) \<in> set (forced_candidates rooms)" using closest_Some(1) [OF Some] p by simp
    then have f: "a < length rooms" "b < length rooms" "a \<noteq> b" "s \<in> set (rm_edges (rooms ! a))" "t \<in> set (rm_edges (rooms ! b))"
      unfolding forced_candidates_iff by auto
    have "cave_inv tiles (g1, rooms1)" using cave_inv_passage [OF 1(2) f] c by simp
    moreover have "connect_forced g1 rooms1 = (g', rooms')" using 1(3) Some p c by (simp add: connect_forced.simps [of g rooms])
    ultimately show ?thesis using "1.IH" [OF Some p [symmetric] refl refl c [symmetric]] by blast
  qed
qed

end
