(* ===== verification/Dungeon_Map.thy ===== *)
theory Dungeon_Map
  imports Dungeon_Rooms
begin

text \<open>
  What \<^verbatim>\<open>ProcessMap\<close> makes of a walled grid: the outer wall is never a small region, the surviving rooms are components
  of the floor with at least one edge tile each, and after the passages all floor of the map is one component.
\<close>

section \<open>Small regions\<close>

lemma fold_set_tiles: "fold (\<lambda>tile g. g(tile := v)) tiles g c = (if c \<in> set tiles then v else g c)"
  by (induction tiles arbitrary: g) auto

lemma walk:
  assumes "\<And>k. k < n \<Longrightarrow> step_on g t (f (Suc k)) (f k)"
  shows "(step_on g t)\<^sup>*\<^sup>* (f n) (f 0)"
  using assms by (induction n) (auto intro: converse_rtranclp_into_rtranclp)

lemma border_tile: "walled g \<Longrightarrow> IsInMapRange c \<Longrightarrow> on_border c \<Longrightarrow> g c = 1"
  using walledD [of g c] by (simp add: tile_ok_def)

lemma border_row:
  assumes "walled g" and "y = 0 \<or> y = GRID_HEIGHT - 1" and "0 \<le> x" and "x < GRID_WIDTH"
  shows "(step_on g 1)\<^sup>*\<^sup>* (x, y) (0, y)"
proof -
  have "step_on g 1 (int (Suc k), y) (int k, y)" if "k < nat x" for k
    using that assms by (auto simp: step_on_def next_to_def IsInMapRange_def on_border_def GRID_HEIGHT_def intro!: border_tile)
  from walk [of "nat x" g 1 "\<lambda>k. (int k, y)", OF this] show ?thesis using assms(3) by simp
qed

lemma border_column:
  assumes "walled g" and "x = 0 \<or> x = GRID_WIDTH - 1" and "0 \<le> y" and "y < GRID_HEIGHT"
  shows "(step_on g 1)\<^sup>*\<^sup>* (x, y) (x, 0)"
proof -
  have "step_on g 1 (x, int (Suc k)) (x, int k)" if "k < nat y" for k
    using that assms by (auto simp: step_on_def next_to_def IsInMapRange_def on_border_def GRID_WIDTH_def intro!: border_tile)
  from walk [of "nat y" g 1 "\<lambda>k. (x, int k)", OF this] show ?thesis using assms(3) by simp
qed

lemma border_reach:
  assumes "walled g" and "IsInMapRange c" and "on_border c"
  shows "(step_on g 1)\<^sup>*\<^sup>* c (0, 0)"
proof -
  obtain x y where c: "c = (x, y)" by fastforce
  have r: "0 \<le> x" "x < GRID_WIDTH" "0 \<le> y" "y < GRID_HEIGHT" using assms(2) by (simp_all add: c IsInMapRange_def)
  have "(step_on g 1)\<^sup>*\<^sup>* (x, 0) (0, 0)" by (rule border_row [OF assms(1)]) (use r in auto)
  moreover have "(step_on g 1)\<^sup>*\<^sup>* (0, y) (0, 0)" by (rule border_column [OF assms(1)]) (use r in auto)
  moreover have "(step_on g 1)\<^sup>*\<^sup>* (x, y) (x, 0) \<or> (step_on g 1)\<^sup>*\<^sup>* (x, y) (0, y)"
    using assms(3) border_column [OF assms(1) _ r(3,4), of x] border_row [OF assms(1) _ r(1,2), of y] by (auto simp: c on_border_def)
  ultimately show ?thesis unfolding c by (elim disjE; metis rtranclp_trans)
qed

lemma GetRegions_facts:
  shows "distinct (concat (GetRegions g t))" and "set (concat (GetRegions g t)) = {c. IsInMapRange c \<and> g c = t}"
    and "region \<in> set (GetRegions g t) \<Longrightarrow> region \<noteq> []"
    and "region \<in> set (GetRegions g t) \<Longrightarrow> c \<in> set region \<Longrightarrow> set region = {d. (step_on g t)\<^sup>*\<^sup>* c d}"
  using GetRegions_inv [of g t] unfolding regions_inv_def by blast+

lemma border_region:
  assumes "walled g" and "region \<in> set (GetRegions g 1)" and "c \<in> set region" and "on_border c"
  shows "WALL_THRESHOLD_SIZE \<le> length region"
proof -
  have "c \<in> set (concat (GetRegions g 1))" using assms(2,3) by auto
  then have c: "IsInMapRange c" using GetRegions_facts(2) by blast
  have region: "set region = {d. (step_on g 1)\<^sup>*\<^sup>* c d}" by (rule GetRegions_facts(4) [OF assms(2,3)])
  let ?f = "\<lambda>k. (int k, 0 :: int)"
  have "?f k \<in> set region" if "k < 15" for k
  proof -
    have "(step_on g 1)\<^sup>*\<^sup>* (?f k) (0, 0)" by (rule border_row [OF assms(1)]) (use that in \<open>auto simp: GRID_WIDTH_def\<close>)
    then show ?thesis using border_reach [OF assms(1) c assms(4)] unfolding region by (auto dest: reach_sym rtranclp_trans)
  qed
  then have "?f ` {..<15} \<subseteq> set region" by auto
  then have "card (?f ` {..<15}) \<le> card (set region)" by (intro card_mono) auto
  moreover have "card (?f ` {..<15}) = 15" by (subst card_image) (auto simp: inj_on_def)
  ultimately show ?thesis using card_length [of region] by (simp add: WALL_THRESHOLD_SIZE_def)
qed

lemma remove_wall_walled:
  assumes "walled g" and "length region < WALL_THRESHOLD_SIZE \<Longrightarrow> list_all (\<lambda>c. \<not> on_border c) region"
  shows "walled (remove_wall region g)"
proof -
  have "tile_ok c (remove_wall region g c)" if c: "IsInMapRange c" for c
    using walledD [OF assms(1) c] assms(2) by (auto simp: remove_wall_def fold_set_tiles tile_ok_def list_all_iff)
  then show ?thesis unfolding walled_def by blast
qed

lemma fold_remove_wall:
  "walled g \<Longrightarrow> (\<And>region. region \<in> set regions \<Longrightarrow> length region < WALL_THRESHOLD_SIZE \<Longrightarrow> list_all (\<lambda>c. \<not> on_border c) region) \<Longrightarrow>
     walled (fold remove_wall regions g)"
  by (induction regions arbitrary: g) (auto intro: remove_wall_walled)

lemma remove_walls_walled:
  assumes "walled g"
  shows "walled (fold remove_wall (GetRegions g 1) g)"
proof (rule fold_remove_wall [OF assms])
  fix region assume "region \<in> set (GetRegions g 1)" "length region < WALL_THRESHOLD_SIZE"
  then show "list_all (\<lambda>c. \<not> on_border c) region" using border_region [OF assms] by (fastforce simp: list_all_iff)
qed

section \<open>Surviving rooms\<close>

lemma edge_tiles_iff:
  "c \<in> set (edge_tiles g region) \<longleftrightarrow> c \<in> set region \<and> (\<exists>n. near c n \<and> IsInMapRange n \<and> g n = 1)"
  by (auto simp: edge_tiles_def near_cross_iff near_def)

lemma region_edge:
  assumes "walled g1" and "region \<in> set (GetRegions g1 0)" and "\<And>c. IsInMapRange c \<Longrightarrow> g1 c = 1 \<Longrightarrow> g c = 1"
  shows "edge_tiles g region \<noteq> []"
proof -
  let ?m = "Max (fst ` set region)"
  have "region \<noteq> []" by (rule GetRegions_facts(3) [OF assms(2)])
  then have "?m \<in> fst ` set region" by (intro Max_in) auto
  then obtain y where c: "(?m, y) \<in> set region" by auto
  have top: "fst d \<le> ?m" if "d \<in> set region" for d using that by (intro Max_ge) auto
  have "(?m, y) \<in> set (concat (GetRegions g1 0))" using c assms(2) by auto
  then have r: "IsInMapRange (?m, y)" "g1 (?m, y) = 0" using GetRegions_facts(2) by blast+
  let ?d = "(?m + 1, y)"
  have "\<not> on_border (?m, y)" using walledD [OF assms(1) r(1)] r(2) by (auto simp: tile_ok_def)
  then have d: "IsInMapRange ?d" using r(1) by (auto simp: IsInMapRange_def on_border_def)
  have "g1 ?d \<noteq> 0"
  proof
    assume "g1 ?d = 0"
    then have "step_on g1 0 (?m, y) ?d" using r d by (simp add: step_on_def next_to_def)
    then have "?d \<in> set region" using GetRegions_facts(4) [OF assms(2) c] by blast
    then show False using top [of ?d] by simp
  qed
  then have "g ?d = 1" using walledD [OF assms(1) d] assms(3) [OF d] by (auto simp: tile_ok_def)
  moreover have "near (?m, y) ?d" by (simp add: near_def next_to_def)
  ultimately have "(?m, y) \<in> set (edge_tiles g region)" using c d unfolding edge_tiles_iff by blast
  then show ?thesis by auto
qed

definition fresh_room :: "grid \<Rightarrow> grid \<Rightarrow> room \<Rightarrow> bool" where
  "fresh_room g1 g r =
     (rm_tiles r \<in> set (GetRegions g1 0) \<and> ROOM_THRESHOLD_SIZE \<le> length (rm_tiles r) \<and> rm_size r = length (rm_tiles r) \<and>
      rm_edges r \<noteq> [] \<and> set (rm_edges r) \<subseteq> set (rm_tiles r) \<and> rm_conn r = [] \<and> \<not> rm_acc r \<and> \<not> rm_main r \<and>
      (\<forall>c \<in> set (rm_tiles r). g c = 0))"

definition scan_inv :: "grid \<Rightarrow> coord list list \<Rightarrow> grid \<times> room list \<Rightarrow> bool" where
  "scan_inv g1 regions st = (case st of (g, rooms) \<Rightarrow>
     list_all (fresh_room g1 g) rooms \<and> set regions \<subseteq> set (GetRegions g1 0) \<and> distinct (concat regions) \<and>
     (\<forall>c. IsInMapRange c \<longrightarrow> g1 c = 1 \<longrightarrow> g c = 1) \<and> (\<forall>c \<in> set (concat regions). g c = 0) \<and>
     (\<forall>r \<in> set rooms. set (rm_tiles r) \<inter> set (concat regions) = {}) \<and>
     (\<forall>c. IsInMapRange c \<longrightarrow> g c = 0 \<longrightarrow> c \<in> set (concat regions) \<union> set (concat (map rm_tiles rooms))))"

lemma scan_inv_step:
  assumes "walled g1" and "scan_inv g1 (region # regions) (g, rooms)"
  shows "scan_inv g1 regions (add_room region (g, rooms))"
proof -
  have inv: "list_all (fresh_room g1 g) rooms" "region \<in> set (GetRegions g1 0)" "set regions \<subseteq> set (GetRegions g1 0)"
    "distinct (concat regions)" "set region \<inter> set (concat regions) = {}"
    "\<And>c. IsInMapRange c \<Longrightarrow> g1 c = 1 \<Longrightarrow> g c = 1" "\<And>c. c \<in> set region \<union> set (concat regions) \<Longrightarrow> g c = 0"
    "\<And>r. r \<in> set rooms \<Longrightarrow> set (rm_tiles r) \<inter> (set region \<union> set (concat regions)) = {}"
    "\<And>c. IsInMapRange c \<Longrightarrow> g c = 0 \<Longrightarrow> c \<in> set region \<union> set (concat regions) \<union> set (concat (map rm_tiles rooms))"
    using assms(2) unfolding scan_inv_def prod.case by auto
  show ?thesis
  proof (cases "length region < ROOM_THRESHOLD_SIZE")
    case True
    let ?g = "fold (\<lambda>tile g. g(tile := 1)) region g"
    have g: "?g c = (if c \<in> set region then 1 else g c)" for c by (rule fold_set_tiles)
    have "list_all (fresh_room g1 ?g) rooms"
      unfolding list_all_iff
    proof
      fix r assume r: "r \<in> set rooms"
      then have "fresh_room g1 g r" using inv(1) by (simp add: list_all_iff)
      moreover have "?g c = g c" if "c \<in> set (rm_tiles r)" for c using that inv(8) [OF r] unfolding g by auto
      ultimately show "fresh_room g1 ?g r" unfolding fresh_room_def by simp
    qed
    moreover have "\<forall>c \<in> set (concat regions). ?g c = 0" using inv(5,7) unfolding g by auto
    moreover have "\<forall>c. IsInMapRange c \<longrightarrow> ?g c = 0 \<longrightarrow> c \<in> set (concat regions) \<union> set (concat (map rm_tiles rooms))"
    proof (intro allI impI)
      fix c assume c: "IsInMapRange c" "?g c = 0"
      then have "c \<notin> set region" "g c = 0" unfolding g by (auto split: if_splits)
      then show "c \<in> set (concat regions) \<union> set (concat (map rm_tiles rooms))" using inv(9) [OF c(1)] by blast
    qed
    moreover have "\<forall>c. IsInMapRange c \<longrightarrow> g1 c = 1 \<longrightarrow> ?g c = 1" using inv(6) unfolding g by metis
    moreover have "add_room region (g, rooms) = (?g, rooms)" using True by (simp add: add_room_def)
    ultimately show ?thesis using inv(3,4,8) unfolding scan_inv_def by (simp only: prod.case) blast
  next
    case False
    let ?r = "\<lparr>rm_tiles = region, rm_edges = edge_tiles g region, rm_conn = [], rm_size = length region, rm_acc = False, rm_main = False\<rparr>"
    have "edge_tiles g region \<noteq> []" by (rule region_edge [OF assms(1) inv(2,6)])
    moreover have "set (edge_tiles g region) \<subseteq> set region" unfolding subset_iff edge_tiles_iff by blast
    ultimately have fresh: "fresh_room g1 g ?r" using False inv(2,7) by (simp add: fresh_room_def)
    have "add_room region (g, rooms) = (g, rooms @ [?r])" using False by (simp add: add_room_def)
    moreover have "list_all (fresh_room g1 g) (rooms @ [?r])" using inv(1) fresh by simp
    moreover have "\<forall>r \<in> set (rooms @ [?r]). set (rm_tiles r) \<inter> set (concat regions) = {}" using inv(5,8) by auto
    moreover have "\<forall>c. IsInMapRange c \<longrightarrow> g c = 0 \<longrightarrow> c \<in> set (concat regions) \<union> set (concat (map rm_tiles (rooms @ [?r])))"
      using inv(9) by simp blast
    ultimately show ?thesis using inv(3,4,6,7) unfolding scan_inv_def by (simp only: prod.case) blast
  qed
qed

lemma fold_add_room:
  "walled g1 \<Longrightarrow> scan_inv g1 regions st \<Longrightarrow> scan_inv g1 [] (fold add_room regions st)"
proof (induction regions arbitrary: st)
  case (Cons region regions)
  obtain g rooms where "st = (g, rooms)" by fastforce
  then show ?case using scan_inv_step [of g1 region regions g rooms] Cons by simp
qed simp

lemma scan_inv_start: "scan_inv g1 (GetRegions g1 0) (g1, [])"
  using GetRegions_facts(1,2) [of g1 0] by (auto simp: scan_inv_def)

lemma surviving_rooms:
  assumes "walled g1" and "fold add_room (GetRegions g1 0) (g1, []) = (g, rooms)"
  shows "list_all (fresh_room g1 g) rooms" and "\<And>c. IsInMapRange c \<Longrightarrow> g c = 0 \<Longrightarrow> c \<in> set (concat (map rm_tiles rooms))"
  using fold_add_room [OF assms(1) scan_inv_start] unfolding assms(2) scan_inv_def by auto

section \<open>One cave\<close>

definition sorts_rooms :: "(room list \<Rightarrow> room list) \<Rightarrow> bool" where
  "sorts_rooms f = (\<forall>rooms. mset (f rooms) = mset rooms \<and> sorted_wrt (\<lambda>a b. rm_size a \<ge> rm_size b) (f rooms))"

definition connected_floor :: "grid \<Rightarrow> bool" where
  "connected_floor g = (\<forall>c d. IsInMapRange c \<and> g c = 0 \<and> IsInMapRange d \<and> g d = 0 \<longrightarrow> (step_on g 0)\<^sup>*\<^sup>* c d)"

lemma component_stays:
  assumes "(step_on g1 0)\<^sup>*\<^sup>* c d" and "\<And>e. (step_on g1 0)\<^sup>*\<^sup>* c e \<Longrightarrow> g e = 0"
  shows "(step_on g 0)\<^sup>*\<^sup>* c d"
  using assms(1)
proof (induction rule: rtranclp_induct)
  case (step d e)
  then have "g d = 0" "g e = 0" using assms(2) [of d] assms(2) [OF rtranclp.rtrancl_into_rtrancl] by blast+
  then have "step_on g 0 d e" using step(2) by (auto simp: step_on_def)
  then show ?case using step(3) by (rule rtranclp.rtrancl_into_rtrancl [rotated])
qed simp

lemma fresh_room_ok:
  assumes "fresh_room g1 g r"
  shows "room_ok g r"
proof -
  have r: "rm_tiles r \<in> set (GetRegions g1 0)" "\<And>c. c \<in> set (rm_tiles r) \<Longrightarrow> g c = 0"
    "rm_edges r \<noteq> []" "set (rm_edges r) \<subseteq> set (rm_tiles r)"
    using assms unfolding fresh_room_def by auto
  have "IsInMapRange c" if "c \<in> set (rm_tiles r)" for c
  proof -
    have "c \<in> set (concat (GetRegions g1 0))" using r(1) that by auto
    then show ?thesis using GetRegions_facts(2) by blast
  qed
  moreover have "(step_on g 0)\<^sup>*\<^sup>* c d" if "c \<in> set (rm_tiles r)" "d \<in> set (rm_tiles r)" for c d
  proof (rule component_stays [of g1])
    show "(step_on g1 0)\<^sup>*\<^sup>* c d" using GetRegions_facts(4) [OF r(1) that(1)] that(2) by blast
    show "g e = 0" if "(step_on g1 0)\<^sup>*\<^sup>* c e" for e using GetRegions_facts(4) [OF r(1) \<open>c \<in> set (rm_tiles r)\<close>] that r(2) by blast
  qed
  ultimately show ?thesis using r unfolding room_ok_def by blast
qed

lemma start_cave:
  assumes "list_all (fresh_room g1 g) rooms" and "rooms \<noteq> []"
    and "\<And>c. IsInMapRange c \<Longrightarrow> g c = 0 \<Longrightarrow> c \<in> set (concat (map rm_tiles rooms))"
  defines "rooms' \<equiv> rooms[0 := (rooms ! 0)\<lparr>rm_main := True, rm_acc := True\<rparr>]"
  shows "cave_inv (map rm_tiles rooms) (g, rooms')"
proof -
  have len: "length rooms' = length rooms" "0 < length rooms" using assms(2) by (simp_all add: rooms'_def)
  have nth: "rm_tiles (rooms' ! i) = rm_tiles (rooms ! i)" "rm_edges (rooms' ! i) = rm_edges (rooms ! i)"
    "rm_conn (rooms' ! i) = rm_conn (rooms ! i)" "rm_acc (rooms' ! i) = (i = 0 \<or> rm_acc (rooms ! i))"
    if "i < length rooms" for i using that len by (cases "i = 0"; simp add: rooms'_def)+
  have fresh: "fresh_room g1 g (rooms ! i)" if "i < length rooms" for i using assms(1) that by (simp add: list_all_length)
  have ok: "room_ok g (rooms' ! i)" if "i < length rooms" for i
    using fresh_room_ok [OF fresh [OF that]] room_ok_same [OF nth(1,2) [OF that]] by blast
  have "rm_conn (rooms' ! i) = []" "rm_acc (rooms' ! i) = (i = 0)" if "i < length rooms" for i
    using nth(3,4) [OF that] fresh [OF that] by (auto simp: fresh_room_def)
  then have "rooms_inv g rooms'"
    using ok len linked_self [OF ok [OF len(2)]]
    by (simp add: rooms_inv_def list_all_length conns_ok_def closed_except_def acc_linked_def)
  moreover have "map rm_tiles rooms' = map rm_tiles rooms" using nth(1) len(1) by (intro nth_equalityI) auto
  moreover have "floor_ok g (map rm_tiles rooms)" using assms(3) unfolding floor_ok_def by blast
  ultimately show ?thesis by (simp add: cave_inv_def)
qed

lemma cave_connected:
  assumes "cave_inv tiles (g, rooms)" and "\<And>i. i < length rooms \<Longrightarrow> rm_acc (rooms ! i)"
  shows "connected_floor g"
proof -
  have inv: "rooms_inv g rooms" "map rm_tiles rooms = tiles" "floor_ok g tiles" using assms(1) by (simp_all add: cave_inv_def)
  have ok: "room_ok g (rooms ! i)" if "i < length rooms" for i using inv(1) that by (simp add: rooms_inv_def list_all_length)
  have room: "\<exists>i < length rooms. \<exists>t \<in> set (rm_tiles (rooms ! i)). (step_on g 0)\<^sup>*\<^sup>* t c" if c: "IsInMapRange c" "g c = 0" for c
  proof -
    obtain t where t: "t \<in> set (concat tiles)" "(step_on g 0)\<^sup>*\<^sup>* t c" using inv(3) c unfolding floor_ok_def by blast
    then obtain r where "r \<in> set rooms" "t \<in> set (rm_tiles r)" using inv(2) by auto
    then show ?thesis using t(2) by (metis in_set_conv_nth)
  qed
  have "(step_on g 0)\<^sup>*\<^sup>* c d" if c: "IsInMapRange c" "g c = 0" and d: "IsInMapRange d" "g d = 0" for c d
  proof -
    obtain i s where i: "i < length rooms" "s \<in> set (rm_tiles (rooms ! i))" "(step_on g 0)\<^sup>*\<^sup>* s c" using room [OF c] by blast
    obtain j t where j: "j < length rooms" "t \<in> set (rm_tiles (rooms ! j))" "(step_on g 0)\<^sup>*\<^sup>* t d" using room [OF d] by blast
    have z: "0 < length rooms" using i(1) by linarith
    have "linked g (rooms ! 0) (rooms ! i)" "linked g (rooms ! 0) (rooms ! j)"
      using inv(1) assms(2) i(1) j(1) unfolding rooms_inv_def acc_linked_def by blast+
    then have "linked g (rooms ! i) (rooms ! j)" using linked_sym linked_trans [OF _ ok [OF z]] by blast
    then obtain u v where uv: "u \<in> set (rm_tiles (rooms ! i))" "v \<in> set (rm_tiles (rooms ! j))" "(step_on g 0)\<^sup>*\<^sup>* u v"
      unfolding linked_def by blast
    have "(step_on g 0)\<^sup>*\<^sup>* c s" using i(3) by (rule reach_sym)
    moreover have "(step_on g 0)\<^sup>*\<^sup>* s u" "(step_on g 0)\<^sup>*\<^sup>* v t"
      using ok [OF i(1)] ok [OF j(1)] i(2) j(2) uv(1,2) unfolding room_ok_def by blast+
    ultimately show ?thesis using uv(3) j(3) by (meson rtranclp_trans)
  qed
  then show ?thesis unfolding connected_floor_def by blast
qed

lemma ProcessMap_cave:
  assumes "sorts_rooms std_sort" and "walled g0" and "ProcessMap std_sort g0 = (g, rooms)"
  shows "connected_floor g" and "list_all (\<lambda>r. room_ok g r \<and> rm_acc r) rooms"
    and "rooms = [] \<Longrightarrow> IsInMapRange c \<Longrightarrow> g c \<noteq> 0"
proof -
  define g1 where "g1 = fold remove_wall (GetRegions g0 1) g0"
  have w: "walled g1" unfolding g1_def by (rule remove_walls_walled [OF assms(2)])
  obtain g2 rs where f: "fold add_room (GetRegions g1 0) (g1, []) = (g2, rs)" by fastforce
  note rs = surviving_rooms [OF w f]
  let ?s = "std_sort rs"
  let ?start = "?s[0 := (?s ! 0)\<lparr>rm_main := True, rm_acc := True\<rparr>]"
  have m: "mset ?s = mset rs" using assms(1) by (simp add: sorts_rooms_def)
  then have set: "set ?s = set rs" by (rule mset_eq_setD)
  have p: "(g, rooms) = (if rs = [] then (g2, rs) else ConnectClosestRooms False (g2, ?start))"
    using assms(3) f unfolding ProcessMap_def Let_def g1_def by (auto split: if_splits)
  have "connected_floor g \<and> list_all (\<lambda>r. room_ok g r \<and> rm_acc r) rooms \<and> (rooms = [] \<longrightarrow> IsInMapRange c \<longrightarrow> g c \<noteq> 0)"
  proof (cases "rs = []")
    case True
    then have "\<not> (IsInMapRange d \<and> g d = 0)" for d using p rs(2) [of d] by auto
    moreover have "rooms = []" using p True by simp
    ultimately show ?thesis unfolding connected_floor_def by simp blast
  next
    case False
    then have ne: "?s \<noteq> []" using set by auto
    have c: "cave_inv (map rm_tiles ?s) (g2, ?start)"
      by (rule start_cave [where ?g1.0 = g1]) (use rs ne set in \<open>auto simp: list_all_iff\<close>)
    obtain g3 rs3 where s: "fold connect_step [0..<length ?s] (g2, ?start) = (g3, rs3)" by fastforce
    have c3: "cave_inv (map rm_tiles ?s) (g3, rs3)" using fold_connect_step [OF c, of "[0..<length ?s]"] s by simp
    have "connect_forced g3 rs3 = (g, rooms)" using p False s by (simp add: ConnectClosestRooms_def)
    from connect_forced_cave [OF c3 this]
    have e: "cave_inv (map rm_tiles ?s) (g, rooms)" "\<And>i. i < length rooms \<Longrightarrow> rm_acc (rooms ! i)" by auto
    have ok: "list_all (room_ok g) rooms" "length rooms = length ?s"
      using e(1) by (auto simp: cave_inv_def rooms_inv_def dest: map_eq_imp_length_eq)
    then show ?thesis using cave_connected [OF e] e(2) ne by (auto simp: list_all_length)
  qed
  then show "connected_floor g" "list_all (\<lambda>r. room_ok g r \<and> rm_acc r) rooms" "rooms = [] \<Longrightarrow> IsInMapRange c \<Longrightarrow> g c \<noteq> 0"
    by blast+
qed

end
