(* ===== verification/Dungeon_Place.thy ===== *)
theory Dungeon_Place
  imports Complex_Main Dungeon_Map
begin

text \<open>
  What the dungeon generator puts on the finished grid: the spawn position, portals, props and the places of lights,
  \<^verbatim>\<open>Generate\<close> itself, and the grid bytes of \<^verbatim>\<open>FillMapData\<close>. World coordinates are differences of small whole numbers, which
  floats hold exactly, so they are integers here. The two kinds of random distributions are parameters over the engine
  state, and so are the two calls of \<^verbatim>\<open>std::sort\<close>.
\<close>

section \<open>Model\<close>

type_synonym 'r draw_real = "real \<Rightarrow> real \<Rightarrow> 'r \<Rightarrow> real \<times> 'r"

definition GridToWorld :: "coord \<Rightarrow> int \<times> int" where
  "GridToWorld c = (fst c - GRID_WIDTH div 2, snd c - GRID_HEIGHT div 2)"

definition is_floor :: "grid \<Rightarrow> coord \<Rightarrow> bool" where
  "is_floor g n = (IsInMapRange n \<and> g n = 0)"

definition floor_in_block :: "grid \<Rightarrow> coord \<Rightarrow> int" where
  "floor_in_block g c = int (length (filter (is_floor g) (block 2 c)))"

definition floor_around :: "grid \<Rightarrow> coord \<Rightarrow> int" where
  "floor_around g c = int (length (filter (\<lambda>n. n \<noteq> c \<and> is_floor g n) (block 1 c)))"

text \<open>Spawn position: the most open tile of the main room, the first of the best.\<close>

definition better_spawn :: "grid \<Rightarrow> coord \<Rightarrow> int \<times> coord \<Rightarrow> int \<times> coord" where
  "better_spawn g tile best = (if floor_in_block g tile > fst best then (floor_in_block g tile, tile) else best)"

definition FindSpawnPosition :: "grid \<Rightarrow> room list \<Rightarrow> int \<times> int" where
  "FindSpawnPosition g rooms =
     (if rooms = [] then (0, 0)
      else let tiles = rm_tiles (rooms ! 0)
           in GridToWorld (snd (fold (better_spawn g) tiles (-1, tiles ! 0))))"

text \<open>Portals.\<close>

record portal_cand =
  pc_dist :: int
  pc_pos :: "int \<times> int"
  pc_open :: int

record portal =
  po_pos :: "int \<times> int"
  po_zone :: nat
  po_name :: string

definition dist2 :: "int \<times> int \<Rightarrow> int \<times> int \<Rightarrow> int" where
  "dist2 p q = (fst p - fst q) * (fst p - fst q) + (snd p - snd q) * (snd p - snd q)"

definition portal_candidates :: "grid \<Rightarrow> int \<times> int \<Rightarrow> portal_cand list" where
  "portal_candidates g spawn =
     [\<lparr>pc_dist = dist2 (GridToWorld c) spawn, pc_pos = GridToWorld c, pc_open = floor_in_block g c\<rparr>.
        c \<leftarrow> [(gx, gy). gx \<leftarrow> [2..GRID_WIDTH - 3], gy \<leftarrow> [2..GRID_HEIGHT - 3]], g c = 0, floor_in_block g c \<ge> 15]"

text \<open>Eight percent of the squared diagonal. The float product differs from 1544 by less than one, and the distances it
  is compared with are whole numbers.\<close>

definition kMinSeparation :: int where
  "kMinSeparation = (GRID_WIDTH * GRID_WIDTH + GRID_HEIGHT * GRID_HEIGHT) * 8 div 100"

definition portal_name :: "nat \<Rightarrow> string" where
  "portal_name placed = takeWhile (\<lambda>c. c \<noteq> char_of (0 :: nat)) (''Portal '' @ [char_of (65 + placed)])"

fun place_loop :: "int \<Rightarrow> nat \<Rightarrow> portal list \<Rightarrow> portal_cand list \<Rightarrow> portal list" where
  "place_loop numPortals placed portals [] = portals"
| "place_loop numPortals placed portals (c # cs) =
     (if int placed \<ge> numPortals then portals
      else if pc_dist c < 36 then portals
      else if list_ex (\<lambda>p. dist2 (po_pos p) (pc_pos c) < kMinSeparation) portals then place_loop numPortals placed portals cs
      else place_loop numPortals (placed + 1)
             (portals @ [\<lparr>po_pos = pc_pos c, po_zone = 0, po_name = portal_name placed\<rparr>]) cs)"

definition PlacePortals :: "(portal_cand list \<Rightarrow> portal_cand list) \<Rightarrow> grid \<Rightarrow> int \<times> int \<Rightarrow> int \<Rightarrow> portal list" where
  "PlacePortals std_sort g spawn numPortals = place_loop numPortals 0 [] (std_sort (portal_candidates g spawn))"

text \<open>Props.\<close>

record map_prop =
  mp_pos :: "int \<times> int"
  mp_type :: int
  mp_rot :: real

definition draw_tile :: "'r draw \<Rightarrow> room \<Rightarrow> 'r \<Rightarrow> coord \<times> 'r" where
  "draw_tile draw room rng =
     (case draw 0 (int (length (rm_tiles room)) - 1) rng of (v, rng') \<Rightarrow> (rm_tiles room ! nat v, rng'))"

definition tile_key :: "coord \<Rightarrow> int" where
  "tile_key tile = fst tile * 1000 + snd tile"

text \<open>The do-while loop, with the number of further attempts it may make.\<close>

primrec pick_tile :: "'r draw \<Rightarrow> room \<Rightarrow> int set \<Rightarrow> nat \<Rightarrow> 'r \<Rightarrow> coord \<times> 'r" where
  "pick_tile draw room used 0 rng = draw_tile draw room rng"
| "pick_tile draw room used (Suc n) rng =
     (case draw_tile draw room rng of (tile, rng') \<Rightarrow>
        if tile_key tile \<in> used then pick_tile draw room used n rng' else (tile, rng'))"

primrec room_props :: "'r draw \<Rightarrow> room \<Rightarrow> nat \<Rightarrow> int set \<Rightarrow> map_prop list \<times> 'r \<Rightarrow> map_prop list \<times> 'r" where
  "room_props draw room 0 used st = st"
| "room_props draw room (Suc n) used st =
     (case st of (props, rng) \<Rightarrow>
      case pick_tile draw room used 19 rng of (tile, rng1) \<Rightarrow>
      case draw 0 4 rng1 of (type, rng2) \<Rightarrow>
      case draw 0 3 rng2 of (rot, rng3) \<Rightarrow>
        room_props draw room n (insert (tile_key tile) used)
          (props @ [\<lparr>mp_pos = GridToWorld tile, mp_type = type, mp_rot = of_int rot * 90\<rparr>], rng3))"

definition propCount :: "room \<Rightarrow> nat" where
  "propCount room = max 2 (min (rm_size room div 12) 15)"

definition narrow_prop :: "'r draw \<Rightarrow> 'r draw_real \<Rightarrow> grid \<Rightarrow> coord \<Rightarrow> map_prop list \<times> 'r \<Rightarrow> map_prop list \<times> 'r" where
  "narrow_prop draw draw_real g c st =
     (case st of (props, rng) \<Rightarrow>
        if g c \<noteq> 0 then (props, rng)
        else if floor_around g c \<le> 3
        then case draw_real 0 1 rng of (chance, rng1) \<Rightarrow>
               if chance < 10737418 / 2 ^ 28
               then case draw 0 4 rng1 of (type, rng2) \<Rightarrow>
                    case draw_real 0 360 rng2 of (rot, rng3) \<Rightarrow>
                      (props @ [\<lparr>mp_pos = GridToWorld c, mp_type = type, mp_rot = rot\<rparr>], rng3)
               else (props, rng1)
        else (props, rng))"

definition PlaceProps :: "'r draw \<Rightarrow> 'r draw_real \<Rightarrow> grid \<Rightarrow> room list \<Rightarrow> 'r \<Rightarrow> map_prop list \<times> 'r" where
  "PlaceProps draw draw_real g rooms rng =
     fold (narrow_prop draw draw_real g) cells
       (fold (\<lambda>room. room_props draw room (propCount room) {}) rooms ([], rng))"

text \<open>Lights: position and whether the shadow is soft.\<close>

definition lightCount :: "room \<Rightarrow> nat" where
  "lightCount room = max 1 (min (rm_size room div 40) 5)"

definition light_index :: "room \<Rightarrow> nat \<Rightarrow> nat" where
  "light_index room li =
     (let stride = max 1 (length (rm_tiles room) div lightCount room)
      in min (li * stride + stride div 2) (length (rm_tiles room) - 1))"

definition room_lights :: "room \<Rightarrow> ((int \<times> int) \<times> bool) list" where
  "room_lights room = map (\<lambda>li. (GridToWorld (rm_tiles room ! light_index room li), li = 0)) [0..<lightCount room]"

definition PlaceLights :: "grid \<Rightarrow> room list \<Rightarrow> ((int \<times> int) \<times> bool) list" where
  "PlaceLights g rooms =
     (let roomTileSet = (\<lambda>tile. fst tile * 10000 + snd tile) ` set (concat (map rm_tiles rooms))
      in concat (map room_lights rooms) @
         map (\<lambda>c. (GridToWorld c, False))
           (filter (\<lambda>c. fst c mod 3 = 0 \<and> snd c mod 3 = 0 \<and> g c = 0 \<and> fst c * 10000 + snd c \<notin> roomTileSet) cells))"

text \<open>A random open tile of a room, or any tile of a room.\<close>

definition openTiles :: "grid \<Rightarrow> room list \<Rightarrow> coord list" where
  "openTiles g rooms =
     (let tiles = concat (map rm_tiles rooms); opened = filter (\<lambda>t. floor_around g t \<ge> 5) tiles
      in if opened = [] then tiles else opened)"

definition GetRandomFloorPosition :: "'r draw \<Rightarrow> grid \<Rightarrow> room list \<Rightarrow> 'r \<Rightarrow> (int \<times> int) option \<times> 'r" where
  "GetRandomFloorPosition draw g rooms rng =
     (if openTiles g rooms = [] then (None, rng)
      else case draw 0 (int (length (openTiles g rooms)) - 1) rng of (v, rng') \<Rightarrow>
             (Some (GridToWorld (openTiles g rooms ! nat v)), rng'))"

section \<open>Generate\<close>

record dungeon =
  dg_grid :: grid
  dg_rooms :: "room list"
  dg_props :: "map_prop list"
  dg_lights :: "((int \<times> int) \<times> bool) list"
  dg_spawn :: "int \<times> int"
  dg_portals :: "portal list"

definition Generate :: "'r draw \<Rightarrow> 'r draw_real \<Rightarrow> (room list \<Rightarrow> room list) \<Rightarrow> (portal_cand list \<Rightarrow> portal_cand list) \<Rightarrow>
    'r \<Rightarrow> int \<Rightarrow> int \<Rightarrow> dungeon" where
  "Generate draw draw_real sort_rooms sort_portals rng numPortals depth =
     (let (g0, rng1) = RandomFillMap draw depth (\<lambda>c. 0, rng);
          g1 = (SmoothMap ^^ SMOOTH_ITERATIONS) g0;
          (g, rooms) = ProcessMap sort_rooms g1;
          (props, rng2) = PlaceProps draw draw_real g rooms rng1;
          spawn = FindSpawnPosition g rooms
      in \<lparr>dg_grid = g, dg_rooms = rooms, dg_props = props, dg_lights = PlaceLights g rooms, dg_spawn = spawn,
          dg_portals = PlacePortals sort_portals g spawn numPortals\<rparr>)"

text \<open>The grid bytes of the map message.\<close>

definition grid_index :: "coord \<Rightarrow> nat" where
  "grid_index c = nat (fst c * GRID_HEIGHT + snd c)"

definition grid_bytes :: "grid \<Rightarrow> int list" where
  "grid_bytes g = fold (\<lambda>c bytes. bytes[grid_index c := g c]) cells (replicate (nat (GRID_WIDTH * GRID_HEIGHT)) 0)"

record map_data =
  md_width :: int
  md_height :: int
  md_grid :: "int list"
  md_props :: "map_prop list"
  md_lights :: "((int \<times> int) \<times> bool) list"
  md_spawn :: "int \<times> int"
  md_portals :: "(nat \<times> portal) list"

definition FillMapData :: "dungeon \<Rightarrow> map_data" where
  "FillMapData d =
     \<lparr>md_width = GRID_WIDTH, md_height = GRID_HEIGHT, md_grid = grid_bytes (dg_grid d), md_props = dg_props d,
      md_lights = dg_lights d, md_spawn = dg_spawn d, md_portals = enumerate 0 (dg_portals d)\<rparr>"

section \<open>The generated cave\<close>

lemma Generate_grid:
  assumes "sorts_rooms sort_rooms" and d: "d = Generate draw draw_real sort_rooms sort_portals rng numPortals depth"
  shows "connected_floor (dg_grid d)" and "list_all (\<lambda>r. room_ok (dg_grid d) r \<and> rm_acc r) (dg_rooms d)"
    and "dg_rooms d = [] \<Longrightarrow> \<not> is_floor (dg_grid d) c"
proof -
  obtain g0 rng1 where f: "RandomFillMap draw depth (\<lambda>c. 0, rng) = (g0, rng1)" by fastforce
  obtain g rooms where p: "ProcessMap sort_rooms ((SmoothMap ^^ SMOOTH_ITERATIONS) g0) = (g, rooms)" by fastforce
  have "walled ((SmoothMap ^^ SMOOTH_ITERATIONS) g0)" by (intro smooth_walled RandomFillMap_walled [OF f])
  note cave = ProcessMap_cave [OF assms(1) this p]
  have "dg_grid d = g \<and> dg_rooms d = rooms" unfolding d Generate_def by (simp add: f p Let_def split: prod.split)
  then show "connected_floor (dg_grid d)" "list_all (\<lambda>r. room_ok (dg_grid d) r \<and> rm_acc r) (dg_rooms d)"
    "dg_rooms d = [] \<Longrightarrow> \<not> is_floor (dg_grid d) c"
    using cave unfolding is_floor_def by auto
qed

lemma Generate_parts:
  assumes "d = Generate draw draw_real sort_rooms sort_portals rng numPortals depth"
  shows "dg_spawn d = FindSpawnPosition (dg_grid d) (dg_rooms d)"
    and "dg_portals d = PlacePortals sort_portals (dg_grid d) (dg_spawn d) numPortals"
    and "dg_lights d = PlaceLights (dg_grid d) (dg_rooms d)"
    and "\<exists>rng1. dg_props d = fst (PlaceProps draw draw_real (dg_grid d) (dg_rooms d) rng1)"
  using assms by (auto simp: Generate_def Let_def split: prod.split) (metis fst_conv)

lemma sort_key_sorts_rooms: "sorts_rooms (sort_key (\<lambda>r. - int (rm_size r)))"
proof -
  have "sorted_wrt (\<lambda>a b. rm_size b \<le> rm_size a) (sort_key (\<lambda>r. - int (rm_size r)) rooms)" for rooms :: "room list"
    using sorted_sort_key [of "\<lambda>r. - int (rm_size r)" rooms] by (simp add: sorted_wrt_map)
  then show ?thesis by (simp add: sorts_rooms_def)
qed

text \<open>C11: the generated cave is one piece: whatever the random numbers and the depth, one can walk over floor from any floor
  tile of the map to any other, every surviving room is marked accessible from the main room, and its tiles are floor.\<close>

theorem generate_connected:
  assumes "sorts_rooms sort_rooms" and "d = Generate draw draw_real sort_rooms sort_portals rng numPortals depth"
  shows "connected_floor (dg_grid d) \<and>
    list_all (\<lambda>r. rm_acc r \<and> list_all (is_floor (dg_grid d)) (rm_tiles r)) (dg_rooms d)"
  using Generate_grid(1,2) [OF assms] unfolding list_all_iff room_ok_def is_floor_def by blast

theorem generate_connected_witness:
  "connected_floor (dg_grid (Generate (\<lambda>lo hi n. ((lo + n) mod (hi + 1), n + 7)) (\<lambda>lo hi n. (lo, n))
     (sort_key (\<lambda>r. - int (rm_size r))) (sort_key (\<lambda>c. - pc_dist c)) (3 :: int) 3 0))"
  by (rule generate_connected [OF sort_key_sorts_rooms refl, THEN conjunct1])

section \<open>Spread portals\<close>

definition sorts_portals :: "(portal_cand list \<Rightarrow> portal_cand list) \<Rightarrow> bool" where
  "sorts_portals f = (\<forall>cs. mset (f cs) = mset cs \<and> sorted_wrt (\<lambda>a b. pc_dist a \<ge> pc_dist b) (f cs))"

definition apart :: "portal \<Rightarrow> portal \<Rightarrow> bool" where
  "apart p q = (dist2 (po_pos p) (po_pos q) \<ge> kMinSeparation)"

lemma place_loop_keeps: "set portals \<subseteq> set (place_loop n placed portals cs)"
  by (induction n placed portals cs rule: place_loop.induct) auto

lemma place_loop_apart: "sorted_wrt apart portals \<Longrightarrow> sorted_wrt apart (place_loop n placed portals cs)"
  by (induction n placed portals cs rule: place_loop.induct)
     (auto simp: sorted_wrt_append apart_def list_ex_iff not_less)

lemma place_loop_from:
  "p \<in> set (place_loop n placed portals cs) \<Longrightarrow>
     p \<in> set portals \<or> (\<exists>c \<in> set cs. po_pos p = pc_pos c \<and> pc_dist c \<ge> 36 \<and> po_zone p = 0)"
  by (induction n placed portals cs rule: place_loop.induct) (auto split: if_splits)

lemma place_loop_names:
  "map po_name portals = map portal_name [0..<placed] \<Longrightarrow>
     map po_name (place_loop n placed portals cs) = map portal_name [0..<length (place_loop n placed portals cs)]"
proof (induction n placed portals cs rule: place_loop.induct)
  case (1 n placed portals)
  then have "placed = length portals" by (metis length_map diff_zero length_upt)
  then show ?case using 1 by simp
next
  case (2 n placed portals c cs)
  then have "placed = length portals" by (metis length_map diff_zero length_upt)
  then show ?case using 2 by auto
qed

lemma place_loop_length:
  "length portals = placed \<Longrightarrow> int placed \<le> max 0 n \<Longrightarrow> int (length (place_loop n placed portals cs)) \<le> max 0 n"
  by (induction n placed portals cs rule: place_loop.induct) auto

lemma kMin_pos: "0 < kMinSeparation"
  by (simp add: kMinSeparation_def GRID_WIDTH_def GRID_HEIGHT_def)

lemma place_loop_maximal:
  assumes "sorted_wrt (\<lambda>a b. pc_dist a \<ge> pc_dist b) cs" and "length portals = placed"
    and "int (length (place_loop n placed portals cs)) < n" and "c \<in> set cs" and "pc_dist c \<ge> 36"
  shows "\<exists>p \<in> set (place_loop n placed portals cs). dist2 (po_pos p) (pc_pos c) < kMinSeparation"
  using assms
proof (induction n placed portals cs rule: place_loop.induct)
  case (2 n placed portals e cs)
  have n: "int placed < n" using "2.prems"(2,3) by (auto split: if_splits)
  have e: "\<not> pc_dist e < 36" using "2.prems"(1,4,5) by auto
  let ?close = "list_ex (\<lambda>p. dist2 (po_pos p) (pc_pos e) < kMinSeparation) portals"
  let ?p = "\<lparr>po_pos = pc_pos e, po_zone = 0, po_name = portal_name placed\<rparr>"
  show ?case
  proof (cases ?close)
    case True
    then obtain p where "p \<in> set portals" "dist2 (po_pos p) (pc_pos e) < kMinSeparation" by (auto simp: list_ex_iff)
    then show ?thesis using "2.IH"(1) "2.prems" n e True place_loop_keeps [of portals n placed cs] by (cases "c = e") auto
  next
    case False
    have "?p \<in> set (place_loop n (placed + 1) (portals @ [?p]) cs)"
      using place_loop_keeps [of "portals @ [?p]" n "placed + 1" cs] by simp
    moreover have "dist2 (po_pos ?p) (pc_pos e) < kMinSeparation" using kMin_pos by (simp add: dist2_def)
    ultimately have "\<exists>p \<in> set (place_loop n (placed + 1) (portals @ [?p]) cs). dist2 (po_pos p) (pc_pos e) < kMinSeparation" by blast
    then show ?thesis using "2.IH"(2) "2.prems" n e False by (cases "c = e") simp_all
  qed
qed simp

lemma candidate_tile:
  assumes "c \<in> set (portal_candidates g spawn)"
  shows "\<exists>t. pc_pos c = GridToWorld t \<and> is_floor g t \<and> floor_in_block g t \<ge> 15 \<and> pc_dist c = dist2 (pc_pos c) spawn"
proof -
  obtain x y where t: "c = \<lparr>pc_dist = dist2 (GridToWorld (x, y)) spawn, pc_pos = GridToWorld (x, y), pc_open = floor_in_block g (x, y)\<rparr>"
    "15 \<le> floor_in_block g (x, y)" "g (x, y) = 0" "2 \<le> x" "x \<le> GRID_WIDTH - 3" "2 \<le> y" "y \<le> GRID_HEIGHT - 3"
    using assms by (auto simp: portal_candidates_def)
  then have "is_floor g (x, y)" by (simp add: is_floor_def IsInMapRange_def)
  then show ?thesis using t by (intro exI [of _ "(x, y)"]) simp
qed

text \<open>Two tiles of one square of side 28 are closer than the separation, and fifteen such squares cover the map.\<close>

definition square :: "portal \<Rightarrow> int \<times> int" where
  "square p = ((fst (po_pos p) + GRID_WIDTH div 2) div 28, (snd (po_pos p) + GRID_HEIGHT div 2) div 28)"

lemma square_bound:
  assumes "po_pos p = GridToWorld t" and "IsInMapRange t"
  shows "square p \<in> {0..4} \<times> {0..2}"
proof -
  have "0 \<le> fst t" "fst t < 120" "0 \<le> snd t" "snd t < 70"
    using assms(2) by (simp_all add: IsInMapRange_def GRID_WIDTH_def GRID_HEIGHT_def)
  then have "0 \<le> fst t div 28" "fst t div 28 \<le> 4" "0 \<le> snd t div 28" "snd t div 28 \<le> 2" by presburger+
  then show ?thesis by (simp add: square_def assms(1) GridToWorld_def)
qed

lemma square_apart:
  assumes "square p = square q"
  shows "\<not> apart p q"
proof -
  have near: "\<bar>a - b\<bar> \<le> 27" if "(a + k) div 28 = (b + k) div 28" for a b k :: int
    using that mult_div_mod_eq [of 28 "a + k"] mult_div_mod_eq [of 28 "b + k"]
      pos_mod_bound [of 28 "a + k"] pos_mod_sign [of 28 "a + k"] pos_mod_bound [of 28 "b + k"] pos_mod_sign [of 28 "b + k"] by linarith
  have sq: "u * u \<le> 27 * 27" if "\<bar>u\<bar> \<le> 27" for u :: int
    using mult_mono [of "\<bar>u\<bar>" 27 "\<bar>u\<bar>" 27] that by simp
  have "\<bar>fst (po_pos p) - fst (po_pos q)\<bar> \<le> 27" "\<bar>snd (po_pos p) - snd (po_pos q)\<bar> \<le> 27"
    using assms by (auto simp: square_def intro: near)
  from sq [OF this(1)] sq [OF this(2)] show ?thesis
    by (simp add: apart_def dist2_def kMinSeparation_def GRID_WIDTH_def GRID_HEIGHT_def)
qed

lemma apart_few:
  assumes "sorted_wrt apart portals" and "\<And>p. p \<in> set portals \<Longrightarrow> \<exists>t. po_pos p = GridToWorld t \<and> IsInMapRange t"
  shows "length portals \<le> 15"
proof -
  have "distinct (map square portals)"
    using assms(1)
  proof (induction portals)
    case (Cons p portals)
    then have "square p \<noteq> square q" if "q \<in> set portals" for q using square_apart [of p q] that by auto
    then show ?case using Cons by auto
  qed simp
  then have "length portals = card (square ` set portals)" using distinct_card by fastforce
  also have "\<dots> \<le> card ({0..4 :: int} \<times> {0..2 :: int})"
  proof (intro card_mono subsetI)
    fix x assume "x \<in> square ` set portals"
    then show "x \<in> {0..4} \<times> {0..2}" using assms(2) square_bound by blast
  qed simp
  finally show ?thesis by simp
qed

text \<open>The portal loop on the candidates of a grid.\<close>

lemma PlacePortals_spec:
  assumes "sorts_portals std_sort"
  defines "portals \<equiv> \<lambda>g spawn n. PlacePortals std_sort g spawn n"
  shows "sorted_wrt apart (portals g spawn n)"
    and "p \<in> set (portals g spawn n) \<Longrightarrow>
      \<exists>t. po_pos p = GridToWorld t \<and> is_floor g t \<and> floor_in_block g t \<ge> 15 \<and> dist2 (po_pos p) spawn \<ge> 36"
    and "int (length (portals g spawn n)) \<le> max 0 n" and "length (portals g spawn n) \<le> 15"
    and "map po_name (portals g spawn n) = map portal_name [0..<length (portals g spawn n)]"
    and "int (length (portals g spawn n)) < n \<Longrightarrow> c \<in> set (portal_candidates g spawn) \<Longrightarrow> pc_dist c \<ge> 36 \<Longrightarrow>
      \<exists>p \<in> set (portals g spawn n). dist2 (po_pos p) (pc_pos c) < kMinSeparation"
proof -
  let ?cs = "std_sort (portal_candidates g spawn)"
  have set: "set ?cs = set (portal_candidates g spawn)" and sorted: "sorted_wrt (\<lambda>a b. pc_dist a \<ge> pc_dist b) ?cs"
    using assms(1) by (auto simp: sorts_portals_def dest: mset_eq_setD)
  have p: "portals g spawn n = place_loop n 0 [] ?cs" by (simp add: portals_def PlacePortals_def)
  show a: "sorted_wrt apart (portals g spawn n)" unfolding p by (intro place_loop_apart) simp
  have f: "\<exists>t. po_pos q = GridToWorld t \<and> is_floor g t \<and> floor_in_block g t \<ge> 15 \<and> dist2 (po_pos q) spawn \<ge> 36"
    if q: "q \<in> set (portals g spawn n)" for q
  proof -
    obtain c where c: "c \<in> set (portal_candidates g spawn)" "po_pos q = pc_pos c" "pc_dist c \<ge> 36"
      using place_loop_from [OF q [unfolded p]] set by auto
    show ?thesis using candidate_tile [OF c(1)] c(3) unfolding c(2) by metis
  qed
  then show "p \<in> set (portals g spawn n) \<Longrightarrow>
      \<exists>t. po_pos p = GridToWorld t \<and> is_floor g t \<and> floor_in_block g t \<ge> 15 \<and> dist2 (po_pos p) spawn \<ge> 36" by blast
  show "int (length (portals g spawn n)) \<le> max 0 n" unfolding p by (intro place_loop_length) auto
  show "length (portals g spawn n) \<le> 15" using apart_few [OF a] f unfolding is_floor_def by blast
  show "map po_name (portals g spawn n) = map portal_name [0..<length (portals g spawn n)]"
    unfolding p by (intro place_loop_names) simp
  show "\<exists>p \<in> set (portals g spawn n). dist2 (po_pos p) (pc_pos c) < kMinSeparation"
    if "int (length (portals g spawn n)) < n" "c \<in> set (portal_candidates g spawn)" "pc_dist c \<ge> 36"
    using place_loop_maximal [OF sorted, of "[]" 0 n c] that set unfolding p by simp
qed

lemma sort_key_sorts_portals: "sorts_portals (sort_key (\<lambda>c. - pc_dist c))"
proof -
  have "sorted_wrt (\<lambda>a b. pc_dist b \<le> pc_dist a) (sort_key (\<lambda>c. - pc_dist c) cs)" for cs :: "portal_cand list"
    using sorted_sort_key [of "\<lambda>c. - pc_dist c" cs] by (simp add: sorted_wrt_map)
  then show ?thesis by (simp add: sorts_portals_def)
qed

text \<open>Portals of a generated map are well placed: there are at most as many as asked for and never more than fifteen, each
  stands on an open floor tile at least six tiles away from the spawn position, any two are at least the separation
  apart, they are named by consecutive letters, and if fewer than asked for were placed no further open tile that far
  from the spawn position is free of a portal within the separation.\<close>

theorem portals_spread:
  assumes "sorts_portals sort_portals" and "d = Generate draw draw_real sort_rooms sort_portals rng numPortals depth"
  shows "int (length (dg_portals d)) \<le> max 0 numPortals \<and> length (dg_portals d) \<le> 15 \<and>
    sorted_wrt (\<lambda>p q. dist2 (po_pos p) (po_pos q) \<ge> kMinSeparation) (dg_portals d) \<and>
    list_all (\<lambda>p. dist2 (po_pos p) (dg_spawn d) \<ge> 36 \<and>
      (\<exists>t. po_pos p = GridToWorld t \<and> is_floor (dg_grid d) t \<and> floor_in_block (dg_grid d) t \<ge> 15)) (dg_portals d) \<and>
    map po_name (dg_portals d) = map (\<lambda>i. ''Portal '' @ [char_of (65 + i)]) [0..<length (dg_portals d)] \<and>
    (int (length (dg_portals d)) < numPortals \<longrightarrow>
       list_all (\<lambda>c. pc_dist c < 36 \<or> list_ex (\<lambda>p. dist2 (po_pos p) (pc_pos c) < kMinSeparation) (dg_portals d))
         (portal_candidates (dg_grid d) (dg_spawn d)))"
proof -
  let ?ps = "dg_portals d"
  note spec = PlacePortals_spec [where g = "dg_grid d" and spawn = "dg_spawn d" and n = numPortals, OF assms(1), folded Generate_parts(2) [OF assms(2)]]
  have "sorted_wrt (\<lambda>p q. dist2 (po_pos p) (po_pos q) \<ge> kMinSeparation) ?ps"
    using spec(1) by (simp add: apart_def [abs_def])
  moreover have "portal_name i = ''Portal '' @ [char_of (65 + i)]" if "i < 15" for i
  proof -
    have "i \<in> set [0..<15]" using that by simp
    then show ?thesis by (auto simp: portal_name_def upt_rec char_of_def)
  qed
  then have "map po_name ?ps = map (\<lambda>i. ''Portal '' @ [char_of (65 + i)]) [0..<length ?ps]"
    using spec(4,5) by simp
  moreover have "list_all (\<lambda>c. pc_dist c < 36 \<or> list_ex (\<lambda>p. dist2 (po_pos p) (pc_pos c) < kMinSeparation) ?ps)
      (portal_candidates (dg_grid d) (dg_spawn d))" if "int (length ?ps) < numPortals"
    using spec(6) that unfolding list_all_iff list_ex_iff by (meson not_less)
  ultimately show ?thesis using spec(2,3,4) unfolding list_all_iff by blast
qed

theorem portals_spread_witness:
  "int (length (dg_portals (Generate (\<lambda>lo hi n. ((lo + n) mod (hi + 1), n + 7)) (\<lambda>lo hi n. (lo, n))
     (sort_key (\<lambda>r. - int (rm_size r))) (sort_key (\<lambda>c. - pc_dist c)) (3 :: int) 3 0))) \<le> 3"
  by (rule order_trans [OF portals_spread [OF sort_key_sorts_portals refl, THEN conjunct1]]) simp

section \<open>Everything stands on floor\<close>

definition on_floor :: "grid \<Rightarrow> int \<times> int \<Rightarrow> bool" where
  "on_floor g pos = (\<exists>t. pos = GridToWorld t \<and> is_floor g t)"

text \<open>\<^verbatim>\<open>std::uniform_int_distribution\<close> stays within its bounds.\<close>

definition draws_within :: "'r draw \<Rightarrow> bool" where
  "draws_within draw = (\<forall>lo hi rng. lo \<le> hi \<longrightarrow> lo \<le> fst (draw lo hi rng) \<and> fst (draw lo hi rng) \<le> hi)"

lemma draw_index:
  assumes "draws_within draw" and "xs \<noteq> []" and "draw 0 (int (length xs) - 1) rng = (v, rng')"
  shows "xs ! nat v \<in> set xs"
proof -
  have len: "0 < length xs" using assms(2) by simp
  then have "(0 :: int) \<le> int (length xs) - 1" by linarith
  then have "0 \<le> v" "v \<le> int (length xs) - 1" using assms(1,3) unfolding draws_within_def by (metis fst_conv)+
  then have "nat v < length xs" using len by linarith
  then show ?thesis by (rule nth_mem)
qed

lemma pick_tile_in:
  assumes "draws_within draw" and "rm_tiles room \<noteq> []" and "pick_tile draw room used n rng = (tile, rng')"
  shows "tile \<in> set (rm_tiles room)"
  using assms(3)
proof (induction n arbitrary: rng)
  case 0
  then show ?case using draw_index [OF assms(1,2)] by (auto simp: draw_tile_def split: prod.splits)
next
  case (Suc n)
  obtain t rng1 where t: "draw_tile draw room rng = (t, rng1)" by fastforce
  then have "t \<in> set (rm_tiles room)" using draw_index [OF assms(1,2)] by (auto simp: draw_tile_def split: prod.splits)
  then show ?case using Suc t by (auto split: if_splits)
qed

definition props_on :: "grid \<Rightarrow> map_prop list \<Rightarrow> bool" where
  "props_on g props = list_all (\<lambda>p. on_floor g (mp_pos p)) props"

lemma room_props_on:
  assumes "draws_within draw" and "rm_tiles room \<noteq> []" and "list_all (is_floor g) (rm_tiles room)"
  shows "props_on g (fst st) \<Longrightarrow> props_on g (fst (room_props draw room n used st))"
proof (induction n arbitrary: used st)
  case (Suc n)
  obtain props rng where st: "st = (props, rng)" by fastforce
  obtain tile rng1 where t: "pick_tile draw room used 19 rng = (tile, rng1)" by fastforce
  obtain ty rng2 where ty: "draw 0 4 rng1 = (ty, rng2)" by fastforce
  obtain rot rng3 where rot: "draw 0 3 rng2 = (rot, rng3)" by fastforce
  have "is_floor g tile" using pick_tile_in [OF assms(1,2) t] assms(3) by (simp add: list_all_iff)
  then have "on_floor g (GridToWorld tile)" unfolding on_floor_def by blast
  then have "props_on g (props @ [\<lparr>mp_pos = GridToWorld tile, mp_type = ty, mp_rot = of_int rot * 90\<rparr>])"
    using Suc.prems st by (simp add: props_on_def)
  then show ?case using Suc.IH st t ty rot by simp
qed simp

lemma narrow_prop_on:
  assumes "IsInMapRange c" and "props_on g (fst st)"
  shows "props_on g (fst (narrow_prop draw draw_real g c st))"
proof (cases "g c = 0")
  case True
  then have "on_floor g (GridToWorld c)" using assms(1) unfolding on_floor_def is_floor_def by blast
  then show ?thesis using assms(2) by (auto simp: narrow_prop_def props_on_def split: prod.splits)
next
  case False
  then show ?thesis using assms(2) by (simp add: narrow_prop_def split: prod.split)
qed

lemma fold_invariant_on: "P st \<Longrightarrow> (\<And>x s. x \<in> set xs \<Longrightarrow> P s \<Longrightarrow> P (f x s)) \<Longrightarrow> P (fold f xs st)"
  by (induction xs arbitrary: st) auto

lemma PlaceProps_on:
  assumes "draws_within draw" and "\<And>r. r \<in> set rooms \<Longrightarrow> rm_tiles r \<noteq> [] \<and> list_all (is_floor g) (rm_tiles r)"
  shows "props_on g (fst (PlaceProps draw draw_real g rooms rng))"
  unfolding PlaceProps_def
proof (rule fold_invariant_on)
  show "props_on g (fst (fold (\<lambda>room. room_props draw room (propCount room) {}) rooms ([], rng)))"
  proof (rule fold_invariant_on)
    show "props_on g (fst (room_props draw r (propCount r) {} st))" if "r \<in> set rooms" "props_on g (fst st)" for r st
      by (rule room_props_on [OF assms(1)]) (use assms(2) that in auto)
  qed (simp add: props_on_def)
  show "props_on g (fst (narrow_prop draw draw_real g c st))" if "c \<in> set cells" "props_on g (fst st)" for c st
    using that by (intro narrow_prop_on) (auto simp: set_cells map_range_def)
qed

lemma PlaceLights_on:
  assumes "\<And>r. r \<in> set rooms \<Longrightarrow> rm_tiles r \<noteq> [] \<and> list_all (is_floor g) (rm_tiles r)"
  shows "list_all (\<lambda>l. on_floor g (fst l)) (PlaceLights g rooms)"
proof -
  have "on_floor g (fst l)" if r: "r \<in> set rooms" and lr: "l \<in> set (room_lights r)" for r l
  proof -
    obtain i where l: "fst l = GridToWorld (rm_tiles r ! light_index r i)" using lr unfolding room_lights_def by auto
    have "light_index r i < length (rm_tiles r)" using assms [OF r] by (cases "rm_tiles r") (auto simp: light_index_def Let_def)
    then show ?thesis using assms [OF r] l unfolding on_floor_def list_all_length by blast
  qed
  then have "list_all (\<lambda>l. on_floor g (fst l)) (concat (map room_lights rooms))" unfolding list_all_iff by auto
  moreover have "on_floor g (GridToWorld c)" if "c \<in> set cells" "g c = 0" for c
    using that unfolding on_floor_def is_floor_def set_cells map_range_def by blast
  ultimately show ?thesis unfolding PlaceLights_def Let_def list_all_append by (simp add: list_all_iff)
qed

lemma spawn_on:
  assumes "rooms \<noteq> []" and "\<And>r. r \<in> set rooms \<Longrightarrow> rm_tiles r \<noteq> [] \<and> list_all (is_floor g) (rm_tiles r)"
  shows "on_floor g (FindSpawnPosition g rooms)"
proof -
  let ?tiles = "rm_tiles (rooms ! 0)"
  have t: "?tiles \<noteq> []" "list_all (is_floor g) ?tiles" using assms by simp_all
  have "snd (fold (better_spawn g) ?tiles (-1, ?tiles ! 0)) \<in> set ?tiles"
    by (rule fold_invariant_on) (use t(1) in \<open>auto simp: better_spawn_def\<close>)
  then have "is_floor g (snd (fold (better_spawn g) ?tiles (-1, ?tiles ! 0)))" using t(2) by (simp add: list_all_iff)
  moreover have "FindSpawnPosition g rooms = GridToWorld (snd (fold (better_spawn g) ?tiles (-1, ?tiles ! 0)))"
    using assms(1) by (simp add: FindSpawnPosition_def Let_def)
  ultimately show ?thesis unfolding on_floor_def by blast
qed

lemma random_position_on:
  assumes "draws_within draw" and "\<And>r. r \<in> set rooms \<Longrightarrow> list_all (is_floor g) (rm_tiles r)"
    and "GetRandomFloorPosition draw g rooms rng = (Some pos, rng')"
  shows "on_floor g pos"
proof -
  let ?xs = "openTiles g rooms"
  obtain v where v: "?xs \<noteq> []" "draw 0 (int (length ?xs) - 1) rng = (v, rng')" "pos = GridToWorld (?xs ! nat v)"
    using assms(3) unfolding GetRandomFloorPosition_def by (auto split: if_splits prod.splits)
  have "?xs ! nat v \<in> set ?xs" by (rule draw_index [OF assms(1) v(1,2)])
  moreover have "set ?xs \<subseteq> set (concat (map rm_tiles rooms))" unfolding openTiles_def Let_def by auto
  ultimately obtain r where "r \<in> set rooms" "?xs ! nat v \<in> set (rm_tiles r)" by auto
  then have "is_floor g (?xs ! nat v)" using assms(2) by (simp add: list_all_iff)
  then show ?thesis unfolding on_floor_def v(3) by blast
qed

text \<open>Nothing is placed inside a wall: in a generated map every prop, every light and every portal stands on a floor tile,
  and so does the spawn position when a room survived; and a random floor position, when there is one, is on floor.\<close>

theorem generate_on_floor:
  assumes "sorts_rooms sort_rooms" and "sorts_portals sort_portals" and "draws_within draw"
    and "d = Generate draw draw_real sort_rooms sort_portals rng numPortals depth"
  shows "list_all (\<lambda>p. on_floor (dg_grid d) (mp_pos p)) (dg_props d) \<and>
    list_all (\<lambda>l. on_floor (dg_grid d) (fst l)) (dg_lights d) \<and>
    list_all (\<lambda>p. on_floor (dg_grid d) (po_pos p)) (dg_portals d) \<and>
    (dg_rooms d \<noteq> [] \<longrightarrow> on_floor (dg_grid d) (dg_spawn d)) \<and>
    (case GetRandomFloorPosition draw (dg_grid d) (dg_rooms d) rng' of
       (None, _) \<Rightarrow> dg_rooms d = [] | (Some pos, _) \<Rightarrow> on_floor (dg_grid d) pos)"
proof -
  let ?g = "dg_grid d" and ?rooms = "dg_rooms d"
  note parts = Generate_parts [OF assms(4)]
  have rooms: "rm_tiles r \<noteq> [] \<and> list_all (is_floor ?g) (rm_tiles r)" if "r \<in> set ?rooms" for r
  proof -
    have "room_ok ?g r" using Generate_grid(2) [OF assms(1,4)] that by (simp add: list_all_iff)
    then show ?thesis by (auto simp: room_ok_def list_all_iff is_floor_def)
  qed
  obtain rng1 where "dg_props d = fst (PlaceProps draw draw_real ?g ?rooms rng1)" using parts(4) by blast
  then have "list_all (\<lambda>p. on_floor ?g (mp_pos p)) (dg_props d)"
    using PlaceProps_on [OF assms(3) rooms] by (simp add: props_on_def)
  moreover have "list_all (\<lambda>p. on_floor ?g (po_pos p)) (dg_portals d)"
    using PlacePortals_spec(2) [OF assms(2), where g = ?g] unfolding parts(2) list_all_iff on_floor_def by blast
  moreover have "list_all (\<lambda>l. on_floor ?g (fst l)) (dg_lights d)"
    unfolding parts(3) by (rule PlaceLights_on) (rule rooms)
  moreover have "case GetRandomFloorPosition draw ?g ?rooms rng' of (None, _) \<Rightarrow> ?rooms = [] | (Some pos, _) \<Rightarrow> on_floor ?g pos"
  proof (cases "GetRandomFloorPosition draw ?g ?rooms rng'")
    case (Pair res rng2)
    show ?thesis
    proof (cases res)
      case None
      then have "openTiles ?g ?rooms = []"
        using Pair unfolding GetRandomFloorPosition_def by (auto split: if_splits prod.splits)
      then have "concat (map rm_tiles ?rooms) = []" unfolding openTiles_def Let_def by metis
      then have "?rooms = []" using rooms [of "hd ?rooms"] by (cases ?rooms) auto
      then show ?thesis using Pair None by simp
    next
      case (Some pos)
      then have "on_floor ?g pos" using random_position_on [OF assms(3)] rooms Pair by blast
      then show ?thesis using Pair Some by simp
    qed
  qed
  moreover have "on_floor ?g (dg_spawn d)" if "?rooms \<noteq> []" unfolding parts(1) by (rule spawn_on [OF that rooms])
  ultimately show ?thesis by blast
qed

lemma mod_draws_within: "draws_within (\<lambda>lo hi n. (lo + n mod max 1 (hi - lo + 1), n + 7 :: int))"
proof -
  have "lo \<le> lo + n mod max 1 (hi - lo + 1) \<and> lo + n mod max 1 (hi - lo + 1) \<le> hi" if "lo \<le> hi" for lo hi n :: int
    using that pos_mod_sign [of "hi - lo + 1" n] pos_mod_bound [of "hi - lo + 1" n] by (simp add: max_def)
  then show ?thesis by (simp add: draws_within_def)
qed

theorem generate_on_floor_witness:
  "let d = Generate (\<lambda>lo hi n. (lo + n mod max 1 (hi - lo + 1), n + 7)) (\<lambda>lo hi n. (lo, n))
     (sort_key (\<lambda>r. - int (rm_size r))) (sort_key (\<lambda>c. - pc_dist c)) (3 :: int) 3 0
   in list_all (\<lambda>p. on_floor (dg_grid d) (mp_pos p)) (dg_props d)"
  unfolding Let_def
  by (rule generate_on_floor [OF sort_key_sorts_rooms sort_key_sorts_portals mod_draws_within refl, THEN conjunct1])

section \<open>Grid bytes\<close>

lemma fold_update_at:
  assumes "inj_on f S" and "set cs \<subseteq> S" and "c \<in> S" and "f c < length bs"
  shows "fold (\<lambda>c bs. bs[f c := g c]) cs bs ! f c = (if c \<in> set cs then g c else bs ! f c)"
  using assms(2,4)
proof (induction cs arbitrary: bs)
  case (Cons e cs)
  have "f e = f c \<longleftrightarrow> e = c" using assms(1,3) Cons.prems(1) by (auto simp: inj_on_def)
  then show ?case using Cons by (cases "e = c") auto
qed simp

lemma grid_index_inj: "inj_on grid_index map_range"
proof (rule inj_onI)
  fix c d assume cd: "c \<in> map_range" "d \<in> map_range" "grid_index c = grid_index d"
  have r: "0 \<le> fst c" "0 \<le> snd c" "snd c < 70" "0 \<le> fst d" "0 \<le> snd d" "snd d < 70"
    using cd(1,2) by (auto simp: map_range_def IsInMapRange_def GRID_HEIGHT_def)
  then have "fst c * 70 + snd c = fst d * 70 + snd d" using cd(3) by (simp add: grid_index_def GRID_HEIGHT_def)
  moreover from this have "fst c = fst d" using r by linarith
  ultimately show "c = d" by (simp add: prod_eq_iff)
qed

text \<open>The byte at the index a client computes for a tile is that tile.\<close>

lemma grid_bytes_nth:
  assumes "IsInMapRange c"
  shows "grid_bytes g ! grid_index c = GetTile g c"
proof -
  have c: "c \<in> map_range" using assms by (simp add: map_range_def)
  have r: "0 \<le> fst c" "fst c < 120" "0 \<le> snd c" "snd c < 70"
    using assms by (auto simp: IsInMapRange_def GRID_HEIGHT_def GRID_WIDTH_def)
  then have "grid_index c < nat (GRID_WIDTH * GRID_HEIGHT)" by (simp add: grid_index_def GRID_HEIGHT_def GRID_WIDTH_def)
  then show ?thesis
    using fold_update_at [OF grid_index_inj _ c, of cells "replicate (nat (GRID_WIDTH * GRID_HEIGHT)) 0" g] c assms
    by (simp add: grid_bytes_def set_cells GetTile_def)
qed

end
