(* ===== verification/Packet_Framing.thy ===== *)
theory Packet_Framing
  imports Recv_Buffer Send_Buffer
begin

text \<open>
  The packet protocol of the example servers: two bytes of size, two bytes of message id, both little-endian, and a body
  (\<^verbatim>\<open>examples/GameServer/src/net/packet_session.cpp\<close>, \<^verbatim>\<open>packet_builder.h\<close>, \<^verbatim>\<open>examples/benchmarks/common/packet_framing.h\<close>,
  \<^verbatim>\<open>examples/benchmarks/GameServerEpoll/src/epoll_connection.cpp\<close>, \<^verbatim>\<open>examples/EchoServer/src/main.cpp\<close>). A serialized message is a
  byte list. Three readers take packets off a byte stream; each is shown to implement one specification, and what a
  stream of packets yields is proved once for all of them.
\<close>

type_synonym packet = "u16 \<times> bytes"

definition kHeaderSize :: nat where
  "kHeaderSize = 4"

definition ReadLE16 :: "bytes \<Rightarrow> nat \<Rightarrow> u16" where
  "ReadLE16 p i = of_nat (unat (p ! i) + 256 * unat (p ! (i + 1)))"

text \<open>A 16-bit integer as \<^verbatim>\<open>memcpy\<close> writes it.\<close>

definition le16 :: "u16 \<Rightarrow> bytes" where
  "le16 w = [of_nat (unat w mod 256), of_nat (unat w div 256)]"

section \<open>Specification\<close>

text \<open>The packets at the front of a byte stream, the bytes behind them, and whether no bad size was met.\<close>

function deframe :: "nat \<Rightarrow> bytes \<Rightarrow> packet list \<times> bytes \<times> bool" where
  "deframe kmax xs =
     (if length xs < 4 then ([], xs, True)
      else let n = unat (ReadLE16 xs 0) in
           if n < 4 \<or> n > kmax then ([], xs, False)
           else if length xs < n then ([], xs, True)
           else case deframe kmax (drop n xs) of
                  (ps, rest, ok) \<Rightarrow> ((ReadLE16 xs 2, take (n - 4) (drop 4 xs)) # ps, rest, ok))"
  by pat_completeness auto
termination by (relation "measure (\<lambda>(kmax, xs). length xs)") auto

declare deframe.simps [simp del]

definition frame_bytes :: "packet \<Rightarrow> bytes" where
  "frame_bytes p = le16 (of_nat (4 + length (snd p))) @ le16 (fst p) @ snd p"

section \<open>Readers\<close>

lemma OnRead_ReadableSize: "ReadableSize (OnRead n rb) = ReadableSize rb - n"
  by (auto simp: OnRead_def ReadableSize_def Let_def) (metis add_diff_cancel_left')

text \<open>The loop of \<^verbatim>\<open>PacketSession::OnRecv\<close> and of \<^verbatim>\<open>DrainPackets\<close>; the packets it hands to its callback are returned.\<close>

function drain_loop :: "u32 \<Rightarrow> recv_buffer \<Rightarrow> packet list \<Rightarrow> bool \<times> recv_buffer \<times> packet list" where
  "drain_loop kMaxPacket rb out =
     (if ReadableSize rb < 4 then (True, rb, out)
      else let region = ReadRegion rb; pkt_size = ucast (ReadLE16 region 0) in
           if pkt_size < 4 \<or> pkt_size > kMaxPacket then (False, rb, out)
           else if ReadableSize rb < pkt_size then (True, rb, out)
           else drain_loop kMaxPacket (OnRead pkt_size rb)
                  (out @ [(ReadLE16 region 2, take (unat pkt_size - 4) (drop 4 region))]))"
  by pat_completeness auto

termination
proof (relation "measure (\<lambda>(k, rb, out). unat (ReadableSize rb))", goal_cases)
  case (2 k rb out region n)
  then have n: "n \<le> ReadableSize rb" "0 < n" by (auto simp: not_less word_gt_0)
  then have "unat (ReadableSize rb - n) < unat (ReadableSize rb)"
    by (simp add: unat_sub word_le_nat_alt word_less_nat_alt)
  then show ?case by (simp add: OnRead_ReadableSize)
qed simp

declare drain_loop.simps [simp del]

text \<open>\<^verbatim>\<open>PacketSession\<close>: a session with a reassembly buffer of the default size.\<close>

record packet_session =
  ps_recv_buf :: recv_buffer
  ps_packets :: "packet list"
  ps_closed :: bool

definition packet_session_new :: packet_session where
  "packet_session_new = \<lparr>ps_recv_buf = recv_buffer_new 65536, ps_packets = [], ps_closed = False\<rparr>"

definition PacketSession_OnRecv :: "bytes \<Rightarrow> packet_session \<Rightarrow> packet_session" where
  "PacketSession_OnRecv data s =
     (case Append data (ps_recv_buf s) of
        (Inl _, rb) \<Rightarrow> s\<lparr>ps_recv_buf := rb, ps_closed := True\<rparr>
      | (Inr _, rb) \<Rightarrow>
          (case drain_loop 8192 rb (ps_packets s) of
             (ok, rb', out) \<Rightarrow> s\<lparr>ps_recv_buf := rb', ps_packets := out, ps_closed := ps_closed s \<or> \<not> ok\<rparr>))"

definition DrainPackets :: "recv_buffer \<Rightarrow> bytes \<Rightarrow> bool \<times> recv_buffer \<times> packet list" where
  "DrainPackets rb data =
     (case Append data rb of
        (Inl _, rb') \<Rightarrow> (False, rb', [])
      | (Inr _, rb') \<Rightarrow> drain_loop 65536 rb' [])"

text \<open>\<^verbatim>\<open>BenchSession\<close> of the benchmark servers.\<close>

record bench_session =
  bs_recv_buf :: recv_buffer
  bs_packets :: "packet list"
  bs_closed :: bool

definition bench_session_new :: bench_session where
  "bench_session_new = \<lparr>bs_recv_buf = recv_buffer_new 65536, bs_packets = [], bs_closed = False\<rparr>"

definition BenchSession_OnRecv :: "bytes \<Rightarrow> bench_session \<Rightarrow> bench_session" where
  "BenchSession_OnRecv data s =
     (case DrainPackets (bs_recv_buf s) data of
        (ok, rb, out) \<Rightarrow> s\<lparr>bs_recv_buf := rb, bs_packets := bs_packets s @ out, bs_closed := bs_closed s \<or> \<not> ok\<rparr>)"

text \<open>\<^verbatim>\<open>EpollConnection\<close>: a vector that is read into behind \<^verbatim>\<open>recv_len_\<close> valid bytes. Each call of \<^verbatim>\<open>recv\<close> has an outcome: the
  bytes the kernel copied, or a condition.\<close>

datatype recv_outcome = RecvData bytes | RecvClosed | RecvAgain | RecvInterrupted | RecvError

record epoll_connection =
  ec_buf_size :: nat
  ec_data :: bytes

definition epoll_connection_new :: epoll_connection where
  "epoll_connection_new = \<lparr>ec_buf_size = 65536, ec_data = []\<rparr>"

text \<open>The reading loop: None when the connection is to be closed, otherwise the state and the outcomes not yet asked for.\<close>

fun read_all :: "recv_outcome list \<Rightarrow> epoll_connection \<Rightarrow> (epoll_connection \<times> recv_outcome list) option" where
  "read_all [] c = Some (c, [])"
| "read_all (r # rs) c =
     (if length (ec_data c) \<ge> ec_buf_size c \<and> ec_buf_size c \<ge> 65536 * 2 then None
      else let c1 = (if length (ec_data c) \<ge> ec_buf_size c then c\<lparr>ec_buf_size := ec_buf_size c * 2\<rparr> else c)
           in case r of
                RecvData d \<Rightarrow> read_all rs (c1\<lparr>ec_data := ec_data c1 @ d\<rparr>)
              | RecvClosed \<Rightarrow> None
              | RecvAgain \<Rightarrow> Some (c1, rs)
              | RecvInterrupted \<Rightarrow> read_all rs c1
              | RecvError \<Rightarrow> None)"

function parse_packets :: "bytes \<Rightarrow> nat \<Rightarrow> packet list \<Rightarrow> bool \<times> nat \<times> packet list" where
  "parse_packets buf consumed out =
     (if length buf - consumed < 4 then (True, consumed, out)
      else let pkt_size = unat (ReadLE16 buf consumed) in
           if pkt_size < 4 \<or> pkt_size > 65536 then (False, consumed, out)
           else if length buf - consumed < pkt_size then (True, consumed, out)
           else parse_packets buf (consumed + pkt_size)
                  (out @ [(ReadLE16 buf (consumed + 2), take (pkt_size - 4) (drop (consumed + 4) buf))]))"
  by pat_completeness auto
termination by (relation "measure (\<lambda>(buf, consumed, out). length buf - consumed)") auto

declare parse_packets.simps [simp del]

definition OnReadable :: "recv_outcome list \<Rightarrow> epoll_connection \<Rightarrow> bool \<times> epoll_connection \<times> packet list" where
  "OnReadable rs c =
     (case read_all rs c of
        None \<Rightarrow> (False, c, [])
      | Some (c1, _) \<Rightarrow>
          (case parse_packets (ec_data c1) 0 [] of
             (ok, consumed, out) \<Rightarrow> (if ok then (True, c1\<lparr>ec_data := drop consumed (ec_data c1)\<rparr>, out) else (False, c1, out))))"

text \<open>Its sending side: \<^verbatim>\<open>eo_wire\<close> records what the kernel has accepted. A call of \<^verbatim>\<open>send\<close> accepts part of what it is offered
  or reports a condition.\<close>

datatype send_outcome = SendBytes nat | SendZero | SendAgain | SendInterrupted | SendError

record epoll_sender =
  eo_queue :: "bytes list"
  eo_offset :: nat
  eo_wire :: bytes

definition QueueSend :: "bytes \<Rightarrow> epoll_sender \<Rightarrow> epoll_sender" where
  "QueueSend pkt s = s\<lparr>eo_queue := eo_queue s @ [pkt]\<rparr>"

definition HasPendingSend :: "epoll_sender \<Rightarrow> bool" where
  "HasPendingSend s = (eo_queue s \<noteq> [])"

definition send_front :: "nat \<Rightarrow> epoll_sender \<Rightarrow> epoll_sender" where
  "send_front n s =
     (let front = hd (eo_queue s);
          m = min n (length front - eo_offset s);
          s1 = s\<lparr>eo_wire := eo_wire s @ take m (drop (eo_offset s) front), eo_offset := eo_offset s + m\<rparr>
      in if eo_offset s1 \<ge> length front then s1\<lparr>eo_queue := tl (eo_queue s1), eo_offset := 0\<rparr> else s1)"

fun OnWritable :: "send_outcome list \<Rightarrow> epoll_sender \<Rightarrow> bool \<times> epoll_sender" where
  "OnWritable [] s = (True, s)"
| "OnWritable (r # rs) s =
     (if eo_queue s = [] then (True, s)
      else case r of
             SendBytes n \<Rightarrow> if n = 0 then (True, s) else OnWritable rs (send_front n s)
           | SendZero \<Rightarrow> (True, s)
           | SendAgain \<Rightarrow> (True, s)
           | SendInterrupted \<Rightarrow> OnWritable rs s
           | SendError \<Rightarrow> (False, s))"

section \<open>Builders\<close>

text \<open>\<^verbatim>\<open>PacketBuilder::Build\<close> allocates for the whole message and writes its size modulo two to the sixteen.\<close>

definition PacketBuilder_Build :: "u16 \<Rightarrow> bytes \<Rightarrow> buffer_pool \<Rightarrow> send_buffer option \<times> buffer_pool" where
  "PacketBuilder_Build msg_id body p = build_buffer (frame_bytes (msg_id, body)) p"

text \<open>\<^verbatim>\<open>BuildPacket\<close> of the benchmarks cuts the size to sixteen bits before it allocates; the message is then written in full.
  The result is what the buffer holds, or None when the write runs past its end.\<close>

definition BuildPacket :: "u16 \<Rightarrow> bytes \<Rightarrow> bytes option" where
  "BuildPacket msg_id body =
     (let total = (of_nat (4 + length body) :: u16)
      in if unat total < 4 + length body then None
         else Some (le16 total @ le16 msg_id @ body))"

section \<open>Echo\<close>

text \<open>\<^verbatim>\<open>EchoSession\<close> builds each packet again and sends it; a packet for which there is no buffer is dropped.\<close>

record echo_session =
  es_recv_buf :: recv_buffer
  es_pool :: buffer_pool
  es_sent :: "send_buffer list"
  es_closed :: bool

definition echo_packet :: "packet \<Rightarrow> echo_session \<Rightarrow> echo_session" where
  "echo_packet pkt s =
     (case build_buffer (frame_bytes pkt) (es_pool s) of
        (None, p) \<Rightarrow> s\<lparr>es_pool := p\<rparr>
      | (Some sb, p) \<Rightarrow> s\<lparr>es_pool := p, es_sent := es_sent s @ [sb]\<rparr>)"

definition EchoSession_OnRecv :: "bytes \<Rightarrow> echo_session \<Rightarrow> echo_session" where
  "EchoSession_OnRecv data s =
     (case DrainPackets (es_recv_buf s) data of
        (ok, rb, out) \<Rightarrow> (fold echo_packet out s)\<lparr>es_recv_buf := rb, es_closed := es_closed s \<or> \<not> ok\<rparr>)"

section \<open>The specification on streams\<close>

lemma ReadLE16_append: "i + 1 < length xs \<Longrightarrow> ReadLE16 (xs @ ys) i = ReadLE16 xs i"
  by (simp add: ReadLE16_def nth_append)

lemma deframe_short: "length xs < 4 \<Longrightarrow> deframe k xs = ([], xs, True)"
  by (simp add: deframe.simps)

lemma deframe_cases:
  assumes "4 \<le> length xs" and "n = unat (ReadLE16 xs 0)"
  shows "n < 4 \<or> k < n \<Longrightarrow> deframe k xs = ([], xs, False)"
    and "4 \<le> n \<Longrightarrow> n \<le> k \<Longrightarrow> length xs < n \<Longrightarrow> deframe k xs = ([], xs, True)"
    and "4 \<le> n \<Longrightarrow> n \<le> k \<Longrightarrow> n \<le> length xs \<Longrightarrow> deframe k (drop n xs) = (ps, rest, ok) \<Longrightarrow>
      deframe k xs = ((ReadLE16 xs 2, take (n - 4) (drop 4 xs)) # ps, rest, ok)"
  using assms by (simp_all add: deframe.simps [of k xs] Let_def)

lemma deframe_append:
  "deframe k xs = (ps, rest, True) \<Longrightarrow> deframe k (rest @ ys) = (qs, rest', ok) \<Longrightarrow> deframe k (xs @ ys) = (ps @ qs, rest', ok)"
proof (induction k xs arbitrary: ps rule: deframe.induct)
  case (1 k xs)
  let ?n = "unat (ReadLE16 xs 0)"
  show ?case
  proof (cases "length xs < 4 \<or> length xs < ?n \<or> ?n < 4 \<or> k < ?n")
    case True
    then have "ps = []" "rest = xs" using 1(2) by (auto simp: deframe.simps [of k xs] Let_def split: if_splits)
    then show ?thesis using 1(3) by simp
  next
    case False
    then have n: "4 \<le> length xs" "4 \<le> ?n" "?n \<le> k" "?n \<le> length xs" by auto
    obtain ps1 rest1 ok1 where d: "deframe k (drop ?n xs) = (ps1, rest1, ok1)" by (metis prod_cases3)
    have e: "ps = (ReadLE16 xs 2, take (?n - 4) (drop 4 xs)) # ps1" "rest1 = rest" "ok1"
      using deframe_cases(3) [OF n(1) refl n(2-4) d] 1(2) by auto
    have "deframe k (drop ?n xs @ ys) = (ps1 @ qs, rest', ok)"
      using 1(1) [of ?n ps1] n d e 1(3) by (simp add: not_less)
    then have "deframe k (drop ?n (xs @ ys)) = (ps1 @ qs, rest', ok)" using n by simp
    moreover have r: "ReadLE16 (xs @ ys) 0 = ReadLE16 xs 0" "ReadLE16 (xs @ ys) 2 = ReadLE16 xs 2"
      using n(1) by (simp_all add: ReadLE16_append)
    ultimately have "deframe k (xs @ ys) = ((ReadLE16 xs 2, take (?n - 4) (drop 4 (xs @ ys))) # ps1 @ qs, rest', ok)"
      using deframe_cases(3) [of "xs @ ys" ?n k "ps1 @ qs" rest' ok] n by simp
    then show ?thesis using e n by simp
  qed
qed

lemma deframe_bad: "deframe k xs = (ps, rest, False) \<Longrightarrow> \<exists>rest'. deframe k (xs @ ys) = (ps, rest', False)"
proof (induction k xs arbitrary: ps rule: deframe.induct)
  case (1 k xs)
  let ?n = "unat (ReadLE16 xs 0)"
  have l: "4 \<le> length xs" using 1(2) deframe_short [of xs k] by force
  then have r: "ReadLE16 (xs @ ys) 0 = ReadLE16 xs 0" "ReadLE16 (xs @ ys) 2 = ReadLE16 xs 2"
    by (simp_all add: ReadLE16_append)
  show ?case
  proof (cases "?n < 4 \<or> k < ?n")
    case True
    then show ?thesis using 1(2) deframe_cases(1) [OF l refl True] deframe_cases(1) [of "xs @ ys" ?n k] l r by simp
  next
    case False
    then have n: "4 \<le> ?n" "?n \<le> k" by auto
    then have len: "?n \<le> length xs" using 1(2) deframe_cases(2) [OF l refl n] by force
    obtain ps1 rest1 ok1 where d: "deframe k (drop ?n xs) = (ps1, rest1, ok1)" by (metis prod_cases3)
    have e: "ps = (ReadLE16 xs 2, take (?n - 4) (drop 4 xs)) # ps1" "\<not> ok1" "rest1 = rest"
      using deframe_cases(3) [OF l refl n len d] 1(2) by auto
    then obtain rest' where "deframe k (drop ?n xs @ ys) = (ps1, rest', False)"
      using 1(1) [of ?n ps1] n l len d by (auto simp: not_less)
    then have "deframe k (drop ?n (xs @ ys)) = (ps1, rest', False)" using len by simp
    then show ?thesis using deframe_cases(3) [of "xs @ ys" ?n k ps1 rest' False] n l len r e by simp
  qed
qed

lemma deframe_rest:
  "deframe k xs = (ps, rest, True) \<Longrightarrow> deframe k rest = ([], rest, True) \<and> length rest < max 4 k"
proof (induction k xs arbitrary: ps rule: deframe.induct)
  case (1 k xs)
  let ?n = "unat (ReadLE16 xs 0)"
  show ?case
  proof (cases "length xs < 4 \<or> length xs < ?n \<or> ?n < 4 \<or> k < ?n")
    case True
    then have "rest = xs" "length xs < 4 \<or> length xs < ?n \<and> ?n \<le> k"
      using 1(2) by (auto simp: deframe.simps [of k xs] Let_def split: if_splits)
    then show ?thesis using 1(2) deframe_short [of xs k] by (auto simp: deframe.simps [of k xs] Let_def split: if_splits)
  next
    case False
    then have n: "4 \<le> length xs" "4 \<le> ?n" "?n \<le> k" "?n \<le> length xs" by auto
    obtain ps1 rest1 ok1 where d: "deframe k (drop ?n xs) = (ps1, rest1, ok1)" by (metis prod_cases3)
    then have "rest1 = rest" "ok1" using deframe_cases(3) [OF n(1) refl n(2-4) d] 1(2) by auto
    then show ?thesis using 1(1) [of ?n ps1] n d by (simp add: not_less)
  qed
qed

lemma unat_of_nat16: "n < 65536 \<Longrightarrow> unat (of_nat n :: u16) = n"
  by (simp add: unat_of_nat take_bit_eq_mod)

lemma le16_read: "ReadLE16 (le16 w @ xs) 0 = w"
proof -
  have w: "unat w < 65536" using unsigned_less [of w] by simp
  have "unat (of_nat (unat w mod 256) :: u8) = unat w mod 256" "unat (of_nat (unat w div 256) :: u8) = unat w div 256"
    using w by (simp_all add: unat_of_nat take_bit_eq_mod)
  then have "ReadLE16 (le16 w @ xs) 0 = of_nat (unat w mod 256 + 256 * (unat w div 256))" by (simp add: ReadLE16_def le16_def)
  then show ?thesis by simp
qed

lemma deframe_frame:
  assumes "4 + length (snd p) \<le> k" and "4 + length (snd p) < 65536" and "deframe k ys = (ps, rest, ok)"
  shows "deframe k (frame_bytes p @ ys) = (p # ps, rest, ok)"
proof -
  obtain m body where p: "p = (m, body)" by fastforce
  let ?xs = "frame_bytes p @ ys" and ?n = "4 + length body"
  have n: "unat (of_nat ?n :: u16) = ?n" using assms(2) p by (intro unat_of_nat16) simp
  have l: "length (le16 w) = 2" for w by (simp add: le16_def)
  have x: "?xs = le16 (of_nat ?n) @ le16 m @ body @ ys" by (simp add: frame_bytes_def p)
  have r0: "unat (ReadLE16 ?xs 0) = ?n" unfolding x using n by (simp only: le16_read)
  have "ReadLE16 ?xs 2 = ReadLE16 (le16 m @ body @ ys) 0" unfolding x by (simp add: ReadLE16_def nth_append l)
  then have r2: "ReadLE16 ?xs 2 = m" by (simp only: le16_read)
  have d: "drop ?n ?xs = ys" "take (?n - 4) (drop 4 ?xs) = body" unfolding x by (simp_all add: l)
  have len: "4 \<le> length ?xs" "?n \<le> length ?xs" unfolding x by (simp_all add: l)
  have "deframe k (drop ?n ?xs) = (ps, rest, ok)" using assms(3) d(1) by (simp only:)
  from deframe_cases(3) [OF len(1) r0 [symmetric] _ _ len(2) this]
  have "deframe k ?xs = ((ReadLE16 ?xs 2, take (?n - 4) (drop 4 ?xs)) # ps, rest, ok)" using assms(1) p by simp
  then have "deframe k ?xs = ((m, body) # ps, rest, ok)" by (simp only: r2 d(2))
  then show ?thesis by (simp only: p [symmetric])
qed

lemma deframe_stream:
  "list_all (\<lambda>p. 4 + length (snd p) \<le> k \<and> 4 + length (snd p) < 65536) pkts \<Longrightarrow>
     deframe k (concat (map frame_bytes pkts)) = (pkts, [], True)"
proof (induction pkts)
  case Nil
  then show ?case by (simp add: deframe_short)
next
  case (Cons p pkts)
  then show ?case using deframe_frame [of p k "concat (map frame_bytes pkts)" pkts "[]" True] by simp
qed

section \<open>The interface of a packet reader\<close>

text \<open>What the three readers have in common: as long as a reader has not given up, taking in bytes hands out the packets that
  the specification finds in the bytes kept and the new ones, keeps what is behind them, and gives up at a bad size.
  \<^verbatim>\<open>room\<close> is how many bytes it can take in, at least \<^verbatim>\<open>least\<close> when no complete packet is kept.\<close>

locale packet_reader =
  fixes limit :: nat
    and invar :: "'s \<Rightarrow> bool"
    and feed :: "bytes \<Rightarrow> 's \<Rightarrow> 's"
    and kept :: "'s \<Rightarrow> bytes"
    and packets :: "'s \<Rightarrow> packet list"
    and given_up :: "'s \<Rightarrow> bool"
    and room :: "'s \<Rightarrow> nat"
    and least :: nat
  assumes feed_law: "invar s \<Longrightarrow> \<not> given_up s \<Longrightarrow> length d \<le> room s \<Longrightarrow> deframe limit (kept s @ d) = (ps, rest, ok) \<Longrightarrow>
      invar (feed d s) \<and> packets (feed d s) = packets s @ ps \<and> given_up (feed d s) = (\<not> ok) \<and> (ok \<longrightarrow> kept (feed d s) = rest)"
    and room_law: "invar s \<Longrightarrow> \<not> given_up s \<Longrightarrow> deframe limit (kept s) = ([], kept s, True) \<Longrightarrow> least \<le> room s"
begin

lemma feed_chunks:
  assumes "invar s" and "\<not> given_up s" and "deframe limit (kept s) = ([], kept s, True)"
    and "list_all (\<lambda>d. length d \<le> least) ds" and "deframe limit (kept s @ concat ds) = (ps, rest, True)"
  shows "packets (fold feed ds s) = packets s @ ps \<and> \<not> given_up (fold feed ds s) \<and> kept (fold feed ds s) = rest"
  using assms
proof (induction ds arbitrary: s ps)
  case (Cons d ds)
  obtain qs mid ok where d: "deframe limit (kept s @ d) = (qs, mid, ok)" by (metis prod_cases3)
  have ok
  proof (rule ccontr)
    assume "\<not> ok"
    then show False using deframe_bad [of limit "kept s @ d" qs mid "concat ds"] d Cons.prems(5) by auto
  qed
  then have ok: "deframe limit (kept s @ d) = (qs, mid, True)" using d by simp
  have "length d \<le> room s" using room_law [OF Cons.prems(1-3)] Cons.prems(4) by simp
  from feed_law [OF Cons.prems(1,2) this ok]
  have f: "invar (feed d s)" "packets (feed d s) = packets s @ qs" "\<not> given_up (feed d s)" "kept (feed d s) = mid" by auto
  obtain qs' rest' ok' where r: "deframe limit (mid @ concat ds) = (qs', rest', ok')" by (metis prod_cases3)
  then have "ps = qs @ qs'" "rest' = rest" "ok'"
    using deframe_append [OF ok r] Cons.prems(5) by auto
  then show ?case using Cons.IH [OF f(1,3)] deframe_rest [OF ok] Cons.prems(4) f r by simp
qed simp

text \<open>A stream of packets, cut into reads in any way, is handed out packet by packet.\<close>

lemma packets_delivered:
  assumes "invar s" and "\<not> given_up s" and "kept s = []" and "packets s = []"
    and "list_all (\<lambda>p. 4 + length (snd p) \<le> limit \<and> 4 + length (snd p) < 65536) pkts"
    and "concat ds = concat (map frame_bytes pkts)" and "list_all (\<lambda>d. length d \<le> least) ds"
  shows "packets (fold feed ds s) = pkts \<and> \<not> given_up (fold feed ds s) \<and> kept (fold feed ds s) = []"
  using feed_chunks [OF assms(1,2) _ assms(7), of pkts "[]"] deframe_stream [OF assms(5)] assms(3,4,6)
  by (simp add: deframe_short)

end

section \<open>The readers implement it\<close>

lemma unat_ucast_16_32: "unat (ucast (w :: u16) :: u32) = unat w"
proof -
  have "unat w < 65536" using unsigned_less [of w] by simp
  then show ?thesis by (simp add: unsigned_ucast_eq take_bit_eq_mod)
qed

lemma drain_loop_spec:
  assumes "rb_inv rb" and "deframe (unat k) (ReadRegion rb) = (ps, rest, ok)"
  shows "\<exists>rb'. drain_loop k rb out = (ok, rb', out @ ps) \<and> rb_inv rb' \<and> ReadRegion rb' = rest \<and> rb_capacity rb' = rb_capacity rb"
  using assms
proof (induction k rb out arbitrary: ps rule: drain_loop.induct)
  case (1 k rb out)
  let ?xs = "ReadRegion rb" and ?w = "ucast (ReadLE16 (ReadRegion rb) 0) :: u32"
  let ?n = "unat (ReadLE16 ?xs 0)"
  have n: "unat ?w = ?n" by (rule unat_ucast_16_32)
  have size: "unat (ReadableSize rb) = length ?xs" by (rule ReadableSize_length [OF 1(2)])
  have lt: "ReadableSize rb < 4 \<longleftrightarrow> length ?xs < 4" "ReadableSize rb < ?w \<longleftrightarrow> length ?xs < ?n" "?w < 4 \<longleftrightarrow> ?n < 4" "k < ?w \<longleftrightarrow> unat k < ?n"
    using size n by (simp_all add: word_less_nat_alt)
  show ?case
  proof (cases "length ?xs < 4 \<or> length ?xs < ?n \<or> ?n < 4 \<or> unat k < ?n")
    case True
    then have e: "ps = []" "rest = ?xs" "ok = (length ?xs < 4 \<or> 4 \<le> ?n \<and> ?n \<le> unat k)"
      using 1(3) by (auto simp: deframe.simps [of "unat k" ?xs] Let_def split: if_splits)
    have "drain_loop k rb out = (ok, rb, out)"
      unfolding drain_loop.simps [of k rb out] Let_def lt e(3) using True by auto
    then show ?thesis using 1(2) e by simp
  next
    case False
    then have g: "4 \<le> length ?xs" "4 \<le> ?n" "?n \<le> unat k" "?n \<le> length ?xs" by auto
    let ?rb = "OnRead ?w rb" and ?p = "(ReadLE16 ?xs 2, take (unat ?w - 4) (drop 4 ?xs))"
    note r = OnRead_spec [OF 1(2), of ?w, unfolded n, OF g(4)]
    obtain ps1 rest1 ok1 where d: "deframe (unat k) (drop ?n ?xs) = (ps1, rest1, ok1)" by (metis prod_cases3)
    have e: "ps = ?p # ps1" "rest1 = rest" "ok1 = ok" using deframe_cases(3) [OF g(1) refl g(2-4) d] 1(3) n by auto
    have "drain_loop k rb out = drain_loop k ?rb (out @ [?p])"
      unfolding drain_loop.simps [of k rb out] Let_def lt using False by auto
    moreover obtain rb' where "drain_loop k ?rb (out @ [?p]) = (ok, rb', (out @ [?p]) @ ps1)" "rb_inv rb'" "ReadRegion rb' = rest"
      "rb_capacity rb' = rb_capacity ?rb"
      using 1(1) [OF _ refl refl _ _ r(1), of ps1] d e False by (auto simp: lt r(2))
    ultimately show ?thesis using e r(3) by simp
  qed
qed

text \<open>Taking in bytes through the reassembly buffer.\<close>

lemma append_drain:
  assumes "rb_inv rb" and "rb_capacity rb = 65536" and "length (ReadRegion rb) + length d \<le> 65536"
    and "deframe (unat k) (ReadRegion rb @ d) = (ps, rest, ok)"
  shows "\<exists>rb1 rb'. Append d rb = (Inr (), rb1) \<and> drain_loop k rb1 out = (ok, rb', out @ ps) \<and> rb_inv rb' \<and>
    ReadRegion rb' = rest \<and> rb_capacity rb' = 65536"
proof -
  have c: "length (ReadRegion rb) + length d \<le> unat (rb_capacity rb)" using assms(2,3) by simp
  have "length d < 2 ^ 32" using assms(3) by simp
  from Append_success [OF assms(1) this c] obtain rb1 where rb1: "Append d rb = (Inr (), rb1)" "rb_inv rb1"
    "ReadRegion rb1 = ReadRegion rb @ d" "rb_capacity rb1 = rb_capacity rb" by blast
  then show ?thesis using drain_loop_spec [OF rb1(2), of k ps rest ok out] assms(2,4) by auto
qed

definition ps_ok :: "packet_session \<Rightarrow> bool" where
  "ps_ok s = (rb_inv (ps_recv_buf s) \<and> rb_capacity (ps_recv_buf s) = 65536)"

definition bs_ok :: "bench_session \<Rightarrow> bool" where
  "bs_ok s = (rb_inv (bs_recv_buf s) \<and> rb_capacity (bs_recv_buf s) = 65536)"

interpretation game: packet_reader 8192 ps_ok PacketSession_OnRecv "\<lambda>s. ReadRegion (ps_recv_buf s)" ps_packets ps_closed
  "\<lambda>s. 65536 - length (ReadRegion (ps_recv_buf s))" 57345
proof
  fix s d ps rest ok
  assume s: "ps_ok s" "\<not> ps_closed s" "length d \<le> 65536 - length (ReadRegion (ps_recv_buf s))"
    and d: "deframe 8192 (ReadRegion (ps_recv_buf s) @ d) = (ps, rest, ok)"
  have inv: "rb_inv (ps_recv_buf s)" "rb_capacity (ps_recv_buf s) = 65536" using s(1) by (simp_all add: ps_ok_def)
  have "length (ReadRegion (ps_recv_buf s)) \<le> 65536"
    using rb_invD [OF inv(1)] inv(2) length_ReadRegion [OF inv(1)] by simp
  then have "length (ReadRegion (ps_recv_buf s)) + length d \<le> 65536" using s(3) by linarith
  from append_drain [OF inv this, of 8192 ps rest ok "ps_packets s"] d
  show "ps_ok (PacketSession_OnRecv d s) \<and> ps_packets (PacketSession_OnRecv d s) = ps_packets s @ ps \<and>
      ps_closed (PacketSession_OnRecv d s) = (\<not> ok) \<and> (ok \<longrightarrow> ReadRegion (ps_recv_buf (PacketSession_OnRecv d s)) = rest)"
    using s(2) by (auto simp: PacketSession_OnRecv_def ps_ok_def)
next
  fix s :: packet_session
  assume "deframe 8192 (ReadRegion (ps_recv_buf s)) = ([], ReadRegion (ps_recv_buf s), True)"
  from deframe_rest [OF this] have "length (ReadRegion (ps_recv_buf s)) < 8192" by simp
  then show "57345 \<le> 65536 - length (ReadRegion (ps_recv_buf s))" by linarith
qed

interpretation bench: packet_reader 65536 bs_ok BenchSession_OnRecv "\<lambda>s. ReadRegion (bs_recv_buf s)" bs_packets bs_closed
  "\<lambda>s. 65536 - length (ReadRegion (bs_recv_buf s))" 1
proof
  fix s d ps rest ok
  assume s: "bs_ok s" "\<not> bs_closed s" "length d \<le> 65536 - length (ReadRegion (bs_recv_buf s))"
    and d: "deframe 65536 (ReadRegion (bs_recv_buf s) @ d) = (ps, rest, ok)"
  have inv: "rb_inv (bs_recv_buf s)" "rb_capacity (bs_recv_buf s) = 65536" using s(1) by (simp_all add: bs_ok_def)
  have "length (ReadRegion (bs_recv_buf s)) \<le> 65536"
    using rb_invD [OF inv(1)] inv(2) length_ReadRegion [OF inv(1)] by simp
  then have "length (ReadRegion (bs_recv_buf s)) + length d \<le> 65536" using s(3) by linarith
  from append_drain [OF inv this, of 65536 ps rest ok "[]"] d
  show "bs_ok (BenchSession_OnRecv d s) \<and> bs_packets (BenchSession_OnRecv d s) = bs_packets s @ ps \<and>
      bs_closed (BenchSession_OnRecv d s) = (\<not> ok) \<and> (ok \<longrightarrow> ReadRegion (bs_recv_buf (BenchSession_OnRecv d s)) = rest)"
    using s(2) by (auto simp: BenchSession_OnRecv_def DrainPackets_def bs_ok_def)
next
  fix s :: bench_session
  assume "deframe 65536 (ReadRegion (bs_recv_buf s)) = ([], ReadRegion (bs_recv_buf s), True)"
  from deframe_rest [OF this] have "length (ReadRegion (bs_recv_buf s)) < 65536" by simp
  then show "1 \<le> 65536 - length (ReadRegion (bs_recv_buf s))" by linarith
qed

text \<open>The vector of an epoll connection with the packets it handed out. One readiness event reads one piece.\<close>

type_synonym epoll_state = "epoll_connection \<times> packet list \<times> bool"

definition epoll_feed :: "bytes \<Rightarrow> epoll_state \<Rightarrow> epoll_state" where
  "epoll_feed d s =
     (case s of (c, out, closed) \<Rightarrow>
      case OnReadable [RecvData d, RecvAgain] c of (ok, c', ps) \<Rightarrow> (c', out @ ps, closed \<or> \<not> ok))"

definition ec_ok :: "epoll_state \<Rightarrow> bool" where
  "ec_ok s = ((ec_buf_size (fst s) = 65536 \<or> ec_buf_size (fst s) = 131072) \<and> (snd (snd s) \<or> length (ec_data (fst s)) < 65536))"

definition ec_room :: "epoll_state \<Rightarrow> nat" where
  "ec_room s = 65536 - length (ec_data (fst s))"

lemma parse_packets_spec:
  "deframe 65536 (drop consumed buf) = (ps, rest, ok) \<Longrightarrow> consumed \<le> length buf \<Longrightarrow>
     \<exists>consumed'. parse_packets buf consumed out = (ok, consumed', out @ ps) \<and> drop consumed' buf = rest"
proof (induction buf consumed out arbitrary: ps rule: parse_packets.induct)
  case (1 buf consumed out)
  let ?xs = "drop consumed buf"
  let ?n = "unat (ReadLE16 ?xs 0)"
  have r: "ReadLE16 buf (consumed + i) = ReadLE16 ?xs i" if "i + 1 < length ?xs" for i
    using that by (simp add: ReadLE16_def)
  have b: "take m (drop (consumed + 4) buf) = take m (drop 4 ?xs)" for m by (simp add: add.commute)
  show ?case
  proof (cases "length ?xs < 4 \<or> length ?xs < ?n \<or> ?n < 4 \<or> 65536 < ?n")
    case True
    then have e: "ps = []" "rest = ?xs" "ok = (length ?xs < 4 \<or> 4 \<le> ?n \<and> ?n \<le> 65536)"
      using 1(2) by (auto simp: deframe.simps [of 65536 ?xs] Let_def split: if_splits)
    have "parse_packets buf consumed out = (ok, consumed, out)"
      using True r [of 0] unfolding parse_packets.simps [of buf consumed out] Let_def e(3) by auto
    then show ?thesis using e by simp
  next
    case False
    then have g: "4 \<le> length ?xs" "4 \<le> ?n" "?n \<le> 65536" "?n \<le> length ?xs" by auto
    have r': "ReadLE16 buf consumed = ReadLE16 ?xs 0" "ReadLE16 buf (consumed + 2) = ReadLE16 ?xs 2"
      using r [of 0] r [of 2] g(1) by simp_all
    let ?p = "(ReadLE16 ?xs 2, take (?n - 4) (drop 4 ?xs))"
    obtain ps1 rest1 ok1 where d: "deframe 65536 (drop ?n ?xs) = (ps1, rest1, ok1)" by (metis prod_cases3)
    have e: "ps = ?p # ps1" "rest1 = rest" "ok1 = ok" using deframe_cases(3) [OF g(1) refl g(2-4) d] 1(2) by auto
    have step: "parse_packets buf consumed out = parse_packets buf (consumed + ?n) (out @ [?p])"
      using g r' b unfolding parse_packets.simps [of buf consumed out] Let_def by auto
    have "\<exists>consumed'. parse_packets buf (consumed + ?n) (out @ [?p]) = (ok, consumed', (out @ [?p]) @ ps1) \<and> drop consumed' buf = rest"
    proof -
      have c: "\<not> length buf - consumed < 4" "\<not> (?n < 4 \<or> 65536 < ?n)" "\<not> length buf - consumed < ?n" using g by auto
      note ih = 1(1) [OF c(1) refl, unfolded r' b, OF c(2,3)]
      have "drop (consumed + ?n) buf = drop ?n ?xs" by (simp add: add.commute)
      then show ?thesis using ih [of ps1] d e g(4) 1(3) by simp
    qed
    then show ?thesis using step e by simp
  qed
qed

interpretation epoll: packet_reader 65536 ec_ok epoll_feed "\<lambda>s. ec_data (fst s)" "\<lambda>s. fst (snd s)" "\<lambda>s. snd (snd s)" ec_room 1
proof
  fix s d ps rest ok
  assume s: "ec_ok s" "\<not> snd (snd s)" "length d \<le> ec_room s" and d: "deframe 65536 (ec_data (fst s) @ d) = (ps, rest, ok)"
  obtain c out where c: "s = (c, out, False)" using s(2) by (cases s) auto
  let ?c = "if length (ec_data c @ d) \<ge> ec_buf_size c then c\<lparr>ec_data := ec_data c @ d, ec_buf_size := ec_buf_size c * 2\<rparr>
            else c\<lparr>ec_data := ec_data c @ d\<rparr>"
  have size: "ec_buf_size c = 65536 \<or> ec_buf_size c = 131072" "length (ec_data c) < 65536" using s(1) by (simp_all add: ec_ok_def c)
  have l: "length (ec_data c) + length d \<le> 65536" using s(3) size(2) by (simp add: ec_room_def c)
  have "read_all [RecvData d, RecvAgain] c = Some (?c, [])" using l size by (auto simp: Let_def)
  moreover obtain k where "parse_packets (ec_data c @ d) 0 [] = (ok, k, ps)" "drop k (ec_data c @ d) = rest"
    using parse_packets_spec [of 0 "ec_data c @ d" ps rest ok "[]"] d by (auto simp: c)
  moreover have "ec_data ?c = ec_data c @ d" by simp
  moreover have "ec_buf_size ?c = 65536 \<or> ec_buf_size ?c = 131072" using size l by auto
  moreover have "length rest < 65536" if ok using deframe_rest [of 65536 "ec_data c @ d" ps rest] d that by (simp add: c)
  ultimately show "ec_ok (epoll_feed d s) \<and> fst (snd (epoll_feed d s)) = fst (snd s) @ ps \<and> snd (snd (epoll_feed d s)) = (\<not> ok) \<and>
      (ok \<longrightarrow> ec_data (fst (epoll_feed d s)) = rest)"
    by (cases ok) (simp_all add: epoll_feed_def OnReadable_def ec_ok_def c)
next
  fix s :: epoll_state
  assume "deframe 65536 (ec_data (fst s)) = ([], ec_data (fst s), True)"
  from deframe_rest [OF this] have "length (ec_data (fst s)) < 65536" by simp
  then show "1 \<le> ec_room s" unfolding ec_room_def by linarith
qed

section \<open>Packets end to end\<close>

lemma Build_frame:
  assumes "pool_inv p live" and "length body + 4 + unat (chunk_size p) < 2 ^ 32"
    and "PacketBuilder_Build msg_id body p = (Some sb, p')"
  shows "sb_Data p' sb = frame_bytes (msg_id, body)" and "pool_inv p' (live @ [sb])"
proof -
  have l: "length (frame_bytes (msg_id, body)) = length body + 4" by (simp add: frame_bytes_def le16_def)
  have b: "build_buffer (frame_bytes (msg_id, body)) p = (Some sb, p')" using assms(3) by (simp add: PacketBuilder_Build_def)
  show "sb_Data p' sb = frame_bytes (msg_id, body)" and "pool_inv p' (live @ [sb])"
    using build_buffer_ok(1,2) [OF assms(1) _ _ b] assms(2) l by simp_all
qed

lemma packet_session_new_ok: "ps_ok packet_session_new" "ReadRegion (ps_recv_buf packet_session_new) = []"
  using recv_buffer_new_inv [of 65536]
  by (simp_all add: ps_ok_def packet_session_new_def recv_buffer_new_def ReadRegion_def mem_read_def)

text \<open>C4: packets survive the network: a packet built by \<^verbatim>\<open>PacketBuilder\<close>, anywhere in a stream of packets of at most the
  maximal size, and the stream cut into reads in any way, is handed to the game session exactly once, with its id and
  body, in its place among the others; the session is not disconnected and no byte is left over.\<close>

theorem game_packets_delivered:
  assumes "pool_reach csize maxc (p, live, rel)" and "length body + 4 + unat (chunk_size p) < 2 ^ 32"
    and "PacketBuilder_Build msg_id body p = (Some sb, p')"
    and "list_all (\<lambda>q. 4 + length (snd q) \<le> 8192) (before @ (msg_id, body) # after)"
    and "concat ds = concat (map frame_bytes before) @ sb_Data p' sb @ concat (map frame_bytes after)"
    and "list_all (\<lambda>d. length d \<le> 8192) ds"
  shows "ps_packets (fold PacketSession_OnRecv ds packet_session_new) = before @ (msg_id, body) # after \<and>
    \<not> ps_closed (fold PacketSession_OnRecv ds packet_session_new) \<and>
    ReadRegion (ps_recv_buf (fold PacketSession_OnRecv ds packet_session_new)) = []"
proof (rule game.packets_delivered)
  have "pool_inv p live" using pool_reach_inv [OF assms(1)] by simp
  then have "sb_Data p' sb = frame_bytes (msg_id, body)" by (rule Build_frame(1) [OF _ assms(2,3)])
  then show "concat ds = concat (map frame_bytes (before @ (msg_id, body) # after))" using assms(5) by simp
  show "list_all (\<lambda>q. 4 + length (snd q) \<le> 8192 \<and> 4 + length (snd q) < 65536) (before @ (msg_id, body) # after)"
    using assms(4) by (rule list.pred_mono_strong) simp
  show "list_all (\<lambda>d. length d \<le> 57345) ds" using assms(6) by (rule list.pred_mono_strong) simp
qed (simp_all add: packet_session_new_ok, simp_all add: packet_session_new_def)

theorem game_packets_delivered_witness:
  "\<exists>sb p'. PacketBuilder_Build 201 [7, 8] (buffer_pool_new 64 4) = (Some sb, p') \<and>
     ps_packets (fold PacketSession_OnRecv [take 3 (sb_Data p' sb), drop 3 (sb_Data p' sb)] packet_session_new) = [(201, [7, 8])]"
proof -
  have "fst (PacketBuilder_Build 201 [7, 8] (buffer_pool_new 64 4)) \<noteq> None" by code_simp
  then obtain sb p' where b: "PacketBuilder_Build 201 [7, 8] (buffer_pool_new 64 4) = (Some sb, p')"
    by (cases "PacketBuilder_Build 201 [7, 8] (buffer_pool_new 64 4)") auto
  have c: "chunk_size (buffer_pool_new 64 4) = 64" by (simp add: buffer_pool_new_def)
  have "sb_Data p' sb = frame_bytes (201, [7, 8])"
    by (rule Build_frame(1) [OF _ _ b, of "[]"]) (use pool_reach_inv [OF pool_reach.start] c in simp_all)
  then have l: "length (sb_Data p' sb) = 6" by (simp add: frame_bytes_def le16_def)
  show ?thesis
    using b game_packets_delivered [OF pool_reach.start _ b, of "[]" "[]" "[take 3 (sb_Data p' sb), drop 3 (sb_Data p' sb)]"] c l
    by simp
qed

text \<open>The benchmark reader admits packets as large as its buffer: a valid stream whose second read holds the last byte of
  such a packet and a few bytes of the next one closes the connection.\<close>

lemma bench_reader_overflow:
  assumes "length (frame_bytes big) = 65535" and "4 + length (snd big) < 65536" and "2 \<le> length extra" and "length extra \<le> 8192"
  shows "bs_closed (fold BenchSession_OnRecv [take 65534 (frame_bytes big), drop 65534 (frame_bytes big) @ extra] bench_session_new)"
proof -
  let ?xs = "take 65534 (frame_bytes big)" and ?ys = "drop 65534 (frame_bytes big) @ extra"
  let ?s = "BenchSession_OnRecv ?xs bench_session_new"
  have new: "bs_ok bench_session_new" "ReadRegion (bs_recv_buf bench_session_new) = []" "\<not> bs_closed bench_session_new"
    using recv_buffer_new_inv [of 65536]
    by (simp_all add: bs_ok_def bench_session_new_def recv_buffer_new_def ReadRegion_def mem_read_def)
  have l: "length ?xs = 65534" using assms(1) by simp
  have "length (snd big) = 65531" using assms(1) by (simp add: frame_bytes_def le16_def)
  then have "unat (ReadLE16 (frame_bytes big) 0) = 65535"
    using le16_read unat_of_nat16 [of 65535] by (simp add: frame_bytes_def)
  then have n: "unat (ReadLE16 ?xs 0) = 65535"
    using ReadLE16_append [of 0 ?xs "drop 65534 (frame_bytes big)"] l by simp
  have d: "deframe 65536 ?xs = ([], ?xs, True)" by (rule deframe_cases(2) [OF _ n [symmetric]]) (simp_all add: assms(1))
  have s: "bs_ok ?s" "\<not> bs_closed ?s" "ReadRegion (bs_recv_buf ?s) = ?xs"
    using bench.feed_law [OF new(1,3), of ?xs "[]" ?xs True] new(2) l d by simp_all
  have inv: "rb_inv (bs_recv_buf ?s)" "rb_capacity (bs_recv_buf ?s) = 65536" using s(1) by (simp_all add: bs_ok_def)
  have "length ?ys < 2 ^ 32" using assms(1,4) by simp
  moreover have "unat (rb_capacity (bs_recv_buf ?s)) < length (ReadRegion (bs_recv_buf ?s)) + length ?ys"
    using assms(1,3) inv(2) s(3) by simp
  ultimately obtain rb where "Append ?ys (bs_recv_buf ?s) = (Inl KResourceExhausted, rb)" using Append_failure [OF inv(1)] by blast
  then show ?thesis by (simp add: BenchSession_OnRecv_def [of ?ys ?s] DrainPackets_def)
qed

section \<open>What the echo server sends\<close>

lemma build_chunk_size: "build_buffer xs p = (r, p') \<Longrightarrow> chunk_size p' = chunk_size p"
  by (auto simp: build_buffer_def Allocate_def AcquireChunk_def fill_writable_def Let_def
      split: prod.splits sum.splits option.splits if_splits)

lemma echo_packet_length: "length (es_sent (echo_packet q s)) \<le> length (es_sent s) + 1"
  by (auto simp: echo_packet_def split: prod.split option.split)

lemma fold_echo_length: "length (es_sent (fold echo_packet pkts s)) \<le> length (es_sent s) + length pkts"
proof (induction pkts arbitrary: s)
  case (Cons q pkts)
  show ?case using Cons.IH [of "echo_packet q s"] echo_packet_length [of q s] by simp
qed simp

text \<open>When no packet was dropped for want of a buffer, the buffers sent hold the packets received, in order.\<close>

lemma fold_echo_sends:
  assumes "pool_inv (es_pool s) live" and "list_all (\<lambda>q. length (snd q) + 4 + unat (chunk_size (es_pool s)) < 2 ^ 32) pkts"
    and "length (es_sent (fold echo_packet pkts s)) = length (es_sent s) + length pkts"
  shows "\<exists>sbs. es_sent (fold echo_packet pkts s) = es_sent s @ sbs \<and>
    map (sb_Data (es_pool (fold echo_packet pkts s))) sbs = map frame_bytes pkts \<and>
    (\<forall>b \<in> set live. sb_Data (es_pool (fold echo_packet pkts s)) b = sb_Data (es_pool s) b)"
  using assms
proof (induction pkts arbitrary: s live)
  case (Cons q pkts)
  obtain r p1 where b: "build_buffer (frame_bytes q) (es_pool s) = (r, p1)" by fastforce
  have len: "length (es_sent (echo_packet q s)) = length (es_sent s) + 1"
    using Cons.prems(3) fold_echo_length [of pkts "echo_packet q s"] echo_packet_length [of q s] by simp
  then obtain sb where sb: "r = Some sb" using b by (cases r) (auto simp: echo_packet_def)
  let ?s = "echo_packet q s"
  have s1: "es_pool ?s = p1" "es_sent ?s = es_sent s @ [sb]" using b sb by (simp_all add: echo_packet_def)
  have l: "length (frame_bytes q) = length (snd q) + 4" by (simp add: frame_bytes_def le16_def)
  note built = build_buffer_ok [OF Cons.prems(1) _ _ b [unfolded sb]]
  have p1: "pool_inv p1 (live @ [sb])" "sb_Data p1 sb = frame_bytes q" "\<And>x. x \<in> set live \<Longrightarrow> sb_Data p1 x = sb_Data (es_pool s) x"
    using built Cons.prems(2) l by auto
  have c: "chunk_size (es_pool ?s) = chunk_size (es_pool s)" using build_chunk_size [OF b] s1(1) by simp
  obtain sbs where i: "es_sent (fold echo_packet pkts ?s) = es_sent ?s @ sbs"
    "map (sb_Data (es_pool (fold echo_packet pkts ?s))) sbs = map frame_bytes pkts"
    "\<forall>b \<in> set (live @ [sb]). sb_Data (es_pool (fold echo_packet pkts ?s)) b = sb_Data (es_pool ?s) b"
    using Cons.IH [of ?s "live @ [sb]"] p1(1) s1 c Cons.prems(2,3) len by auto
  then show ?case using s1 p1(2,3) by (intro exI [of _ "sb # sbs"]) simp
qed simp

section \<open>Sending over epoll\<close>

definition eo_pending :: "epoll_sender \<Rightarrow> bytes" where
  "eo_pending s = drop (eo_offset s) (concat (eo_queue s))"

definition eo_ok :: "epoll_sender \<Rightarrow> bool" where
  "eo_ok s = (case eo_queue s of [] \<Rightarrow> eo_offset s = 0 | front # _ \<Rightarrow> eo_offset s \<le> length front)"

lemma QueueSend_pending: "eo_ok s \<Longrightarrow> eo_ok (QueueSend pkt s) \<and> eo_pending (QueueSend pkt s) = eo_pending s @ pkt"
  by (cases "eo_queue s") (auto simp: eo_ok_def eo_pending_def QueueSend_def)

lemma send_front_wire:
  assumes "eo_ok s" and "eo_queue s = front # q"
  shows "eo_ok (send_front n s) \<and> eo_wire (send_front n s) @ eo_pending (send_front n s) = eo_wire s @ eo_pending s"
proof (cases "length front \<le> eo_offset s + min n (length front - eo_offset s)")
  case True
  then have m: "min n (length front - eo_offset s) = length front - eo_offset s"
    using assms by (simp add: eo_ok_def)
  then have "send_front n s = s\<lparr>eo_wire := eo_wire s @ drop (eo_offset s) front, eo_queue := q, eo_offset := 0\<rparr>"
    using True assms by (simp add: send_front_def Let_def)
  then show ?thesis using assms by (cases q) (auto simp: eo_ok_def eo_pending_def)
next
  case False
  let ?m = "min n (length front - eo_offset s)"
  have f: "send_front n s = s\<lparr>eo_wire := eo_wire s @ take ?m (drop (eo_offset s) front), eo_offset := eo_offset s + ?m\<rparr>"
    using False assms(2) by (simp add: send_front_def Let_def)
  have "take ?m (drop (eo_offset s) front) @ drop (eo_offset s + ?m) front = drop (eo_offset s) front"
    by (metis append_take_drop_id drop_drop add.commute)
  then show ?thesis using False assms unfolding f by (simp add: eo_ok_def eo_pending_def)
qed

text \<open>However the kernel accepts pieces, what it has accepted and what is pending are the bytes queued, in order.\<close>

lemma OnWritable_wire:
  "eo_ok s \<Longrightarrow> OnWritable rs s = (ok, s') \<Longrightarrow> eo_ok s' \<and> eo_wire s' @ eo_pending s' = eo_wire s @ eo_pending s"
proof (induction rs arbitrary: s)
  case (Cons r rs)
  show ?case
  proof (cases "eo_queue s")
    case Nil
    then show ?thesis using Cons.prems by simp
  next
    case q: (Cons front q)
    then show ?thesis
      using Cons.IH Cons.prems send_front_wire [OF Cons.prems(1) q] by (cases r) (simp_all split: if_splits, metis)
  qed
qed simp

end
