(* ===== verification/Bot_Path.thy ===== *)
theory Bot_Path
  imports Dungeon_Place
begin

text \<open>
  Path finding of the bots of the game server (\<^verbatim>\<open>AStarSearch\<close> of
  \<^verbatim>\<open>examples/GameServer/src/game/bot_manager.cpp\<close>) on the grid of the dungeon generator. The cost and parent arrays map cell
  indices to values. Costs are small whole numbers, which floats hold exactly, so they are natural numbers here and the
  tolerance of the stale test disappears. A priority queue leaves open which of several best nodes is on top: the
  argument \<^verbatim>\<open>tie\<close> decides it, anew in every round.
\<close>

section \<open>Model\<close>

definition FLT_MAX :: nat where
  "FLT_MAX = 2 ^ 128 - 2 ^ 104"

definition cell_index :: "coord \<Rightarrow> int" where
  "cell_index c = snd c * GRID_WIDTH + fst c"

definition heuristic :: "coord \<Rightarrow> coord \<Rightarrow> nat" where
  "heuristic goal c = nat (\<bar>fst c - fst goal\<bar> + \<bar>snd c - snd goal\<bar>)"

definition around :: "coord \<Rightarrow> coord list" where
  "around c = map (\<lambda>(dx, dy). (fst c + dx, snd c + dy)) [(0, 1), (0, -1), (1, 0), (-1, 0)]"

record search =
  se_g :: "int \<Rightarrow> nat"
  se_parent :: "int \<Rightarrow> int"
  se_open :: "(coord \<times> nat) list"

definition search_start :: "coord \<Rightarrow> coord \<Rightarrow> search" where
  "search_start s goal =
     \<lparr>se_g = (\<lambda>i. FLT_MAX)(cell_index s := 0), se_parent = (\<lambda>i. -1), se_open = [(s, heuristic goal s)]\<rparr>"

definition pop_top :: "nat \<Rightarrow> (coord \<times> nat) list \<Rightarrow> (coord \<times> nat) \<times> (coord \<times> nat) list" where
  "pop_top i q =
     (let best = filter (\<lambda>n. list_all (\<lambda>m. snd n \<le> snd m) q) q; n = best ! (i mod length best) in (n, remove1 n q))"

definition relax :: "grid \<Rightarrow> coord \<Rightarrow> coord \<Rightarrow> coord \<Rightarrow> search \<Rightarrow> search" where
  "relax dungeon goal c n st =
     (if \<not> IsInMapRange n then st
      else if GetTile dungeon n \<noteq> 0 then st
      else let ng = se_g st (cell_index c) + 1 in
           if ng < se_g st (cell_index n)
           then st\<lparr>se_g := (se_g st)(cell_index n := ng), se_parent := (se_parent st)(cell_index n := cell_index c),
                   se_open := se_open st @ [(n, ng + heuristic goal n)]\<rparr>
           else st)"

lemma cell_index_inj: "IsInMapRange c \<Longrightarrow> IsInMapRange d \<Longrightarrow> cell_index c = cell_index d \<longleftrightarrow> c = d"
proof -
  assume "IsInMapRange c" "IsInMapRange d"
  then have "cell_index c mod GRID_WIDTH = fst c \<and> cell_index c div GRID_WIDTH = snd c"
    "cell_index d mod GRID_WIDTH = fst d \<and> cell_index d div GRID_WIDTH = snd d"
    by (simp_all add: IsInMapRange_def cell_index_def GRID_WIDTH_def)
  then show ?thesis by (metis prod.collapse)
qed

text \<open>The loop ends: a round either lowers a cost or shortens the queue.\<close>

definition total_cost :: "search \<Rightarrow> nat" where
  "total_cost st = (\<Sum>c\<in>map_range. se_g st (cell_index c))"

lemma relax_total: "relax d goal c n st = st \<or> total_cost (relax d goal c n st) < total_cost st"
proof (cases "IsInMapRange n \<and> GetTile d n = 0 \<and> se_g st (cell_index c) + 1 < se_g st (cell_index n)")
  case True
  let ?g = "(se_g st)(cell_index n := se_g st (cell_index c) + 1)"
  have "(\<Sum>e\<in>map_range. ?g (cell_index e)) < (\<Sum>e\<in>map_range. se_g st (cell_index e))"
  proof (rule sum_strict_mono_ex1)
    show "\<forall>e\<in>map_range. ?g (cell_index e) \<le> se_g st (cell_index e)" using True by simp
    show "\<exists>e\<in>map_range. ?g (cell_index e) < se_g st (cell_index e)"
      using True by (intro bexI [of _ n]) (simp_all add: map_range_def)
  qed simp
  then show ?thesis using True by (simp add: relax_def total_cost_def Let_def)
qed (auto simp: relax_def Let_def)

lemma fold_relax_total:
  "fold (relax d goal c) ns st = st \<or> total_cost (fold (relax d goal c) ns st) < total_cost st"
proof (induction ns arbitrary: st)
  case (Cons n ns)
  show ?case using Cons [of "relax d goal c n st"] relax_total [of d goal c n st] by auto
qed simp

lemma pop_top_mem:
  assumes "q \<noteq> []" and "pop_top i q = (n, rest)"
  shows "n \<in> set q" and "\<And>m. m \<in> set q \<Longrightarrow> snd n \<le> snd m" and "rest = remove1 n q"
proof -
  let ?best = "filter (\<lambda>n. list_all (\<lambda>m. snd n \<le> snd m) q) q"
  have "Min (snd ` set q) \<in> snd ` set q" using assms(1) by simp
  then obtain m where "m \<in> set q" "snd m = Min (snd ` set q)" by auto
  then have "m \<in> set ?best" by (auto simp: list_all_iff)
  then have "0 < length ?best" by (rule length_pos_if_in_set)
  then have "?best ! (i mod length ?best) \<in> set ?best" by (intro nth_mem mod_less_divisor)
  moreover have "n = ?best ! (i mod length ?best)" "rest = remove1 n q" using assms(2) by (auto simp: pop_top_def Let_def)
  ultimately show "n \<in> set q" "\<And>m. m \<in> set q \<Longrightarrow> snd n \<le> snd m" "rest = remove1 n q" by (auto simp: list_all_iff)
qed

function astar_loop :: "(nat \<Rightarrow> nat) \<Rightarrow> grid \<Rightarrow> coord \<Rightarrow> nat \<Rightarrow> search \<Rightarrow> search" where
  "astar_loop tie dungeon goal k st =
     (if se_open st = [] then st
      else case pop_top (tie k) (se_open st) of (node, rest) \<Rightarrow>
        let c = fst node; st1 = st\<lparr>se_open := rest\<rparr> in
        if c = goal then st1
        else if int (snd node) - int (heuristic goal c) > int (se_g st1 (cell_index c))
        then astar_loop tie dungeon goal (Suc k) st1
        else astar_loop tie dungeon goal (Suc k) (fold (relax dungeon goal c) (around c) st1))"
  by pat_completeness auto
termination
proof (relation "inv_image (less_than <*lex*> less_than) (\<lambda>(tie, d, goal, k, st). (total_cost st, length (se_open st)))")
  fix tie :: "nat \<Rightarrow> nat" and dungeon :: grid and goal :: coord and k and st :: search and node rest c st1
  assume a: "se_open st \<noteq> []" "(node, rest) = pop_top (tie k) (se_open st)" "c = fst node" "st1 = st\<lparr>se_open := rest\<rparr>"
  have "length rest < length (se_open st)"
    using pop_top_mem(1,3) [OF a(1) a(2) [symmetric]] a(1) by (simp add: length_remove1)
  then have l: "total_cost st1 = total_cost st" "length (se_open st1) < length (se_open st)"
    using a(4) by (simp_all add: total_cost_def)
  then show "((tie, dungeon, goal, Suc k, st1), tie, dungeon, goal, k, st)
      \<in> inv_image (less_than <*lex*> less_than) (\<lambda>(tie, d, goal, k, st). (total_cost st, length (se_open st)))" by simp
  show "((tie, dungeon, goal, Suc k, fold (relax dungeon goal c) (around c) st1), tie, dungeon, goal, k, st)
      \<in> inv_image (less_than <*lex*> less_than) (\<lambda>(tie, d, goal, k, st). (total_cost st, length (se_open st)))"
    using l fold_relax_total [of dungeon goal c "around c" st1] by auto
qed (intro wf_inv_image wf_lex_prod wf_less_than)

declare astar_loop.simps [simp del]

text \<open>The loop that follows the parents back to the start; not returning is the value \<^const>\<open>None\<close>.\<close>

partial_function (option) walk_back :: "(int \<Rightarrow> int) \<Rightarrow> int \<Rightarrow> int \<Rightarrow> coord list \<Rightarrow> coord list option" where
  "walk_back parent s cur path =
     (if cur = s then Some (rev path)
      else if cur = -1 then Some []
      else walk_back parent s (parent cur) (path @ [(cur mod GRID_WIDTH, cur div GRID_WIDTH)]))"

definition AStarSearch :: "(nat \<Rightarrow> nat) \<Rightarrow> grid \<Rightarrow> coord \<Rightarrow> coord \<Rightarrow> coord list option" where
  "AStarSearch tie dungeon s goal =
     (if \<not> IsInMapRange s then Some []
      else if \<not> IsInMapRange goal then Some []
      else if GetTile dungeon goal \<noteq> 0 then Some []
      else if s = goal then Some []
      else let st = astar_loop tie dungeon goal 0 (search_start s goal) in
           if se_g st (cell_index goal) = FLT_MAX then Some []
           else walk_back (se_parent st) (cell_index s) (cell_index goal) [])"

section \<open>Routes\<close>

text \<open>A route steps from tile to tile of the floor; the tile it starts from is not listed.\<close>

fun route :: "grid \<Rightarrow> coord \<Rightarrow> coord list \<Rightarrow> coord \<Rightarrow> bool" where
  "route d a [] b = (a = b)"
| "route d a (c # r) b = (next_to a c \<and> is_floor d c \<and> route d c r b)"

lemma route_append: "route d a (xs @ ys) b \<longleftrightarrow> (\<exists>c. route d a xs c \<and> route d c ys b)"
  by (induction xs arbitrary: a) auto

lemma route_floor: "route d a r b \<Longrightarrow> c \<in> set r \<Longrightarrow> is_floor d c"
  by (induction r arbitrary: a) auto

lemma heuristic_admissible: "route d c r goal \<Longrightarrow> heuristic goal c \<le> length r"
proof (induction r arbitrary: c)
  case (Cons e r)
  then have "heuristic goal e \<le> length r" "next_to c e" by simp_all
  then show ?case by (auto simp: heuristic_def next_to_def)
qed (simp add: heuristic_def)

lemma around_iff: "n \<in> set (around c) \<longleftrightarrow> next_to c n"
  by (cases n; cases c) (auto simp: around_def next_to_def)

text \<open>A shortest route meets no tile twice, so its length is far below the initial cost.\<close>

lemma card_map_range: "card map_range \<le> 8400"
proof -
  have "map_range \<subseteq> {0..<GRID_WIDTH} \<times> {0..<GRID_HEIGHT}" by (auto simp: map_range_def IsInMapRange_def)
  then have "card map_range \<le> card ({0..<GRID_WIDTH} \<times> {0..<GRID_HEIGHT})" by (intro card_mono) auto
  then show ?thesis by (simp add: card_cartesian_product GRID_WIDTH_def GRID_HEIGHT_def)
qed

lemma short_route:
  assumes "route d a r b"
  shows "\<exists>r'. route d a r' b \<and> length r' \<le> 8400"
  using assms
proof (induction "length r" arbitrary: r rule: less_induct)
  case less
  show ?case
  proof (cases "distinct r")
    case True
    have "set r \<subseteq> map_range" using route_floor [OF less.prems] by (auto simp: map_range_def is_floor_def)
    then have "length r \<le> card map_range" using True by (metis card_mono distinct_card finite_map_range)
    then show ?thesis using less.prems card_map_range by (intro exI [of _ r]) simp
  next
    case False
    then obtain xs ys zs c where r: "r = xs @ [c] @ ys @ [c] @ zs" using not_distinct_decomp by blast
    then have "route d a (xs @ [c] @ zs) b" using less.prems by (auto simp: route_append)
    then show ?thesis using less.hyps [of "xs @ [c] @ zs"] r by simp
  qed
qed

section \<open>The search finds a shortest route\<close>

text \<open>The invariant of the search. Tiles with a cost hang together by their parents, with falling costs; queued nodes are
  not better than the costs say; and a tile with a cost is queued with it, or its neighbours have been seen to, unless it
  is one of the exempt tiles.\<close>

definition cost :: "search \<Rightarrow> coord \<Rightarrow> nat" where
  "cost st c = se_g st (cell_index c)"

definition seen_to :: "grid \<Rightarrow> search \<Rightarrow> coord \<Rightarrow> coord set \<Rightarrow> bool" where
  "seen_to d st c ns = (\<forall>n \<in> ns. is_floor d n \<longrightarrow> cost st n \<le> cost st c + 1)"

definition parents_ok :: "grid \<Rightarrow> coord \<Rightarrow> search \<Rightarrow> bool" where
  "parents_ok d s st = (\<forall>c. IsInMapRange c \<and> c \<noteq> s \<and> cost st c < FLT_MAX \<longrightarrow>
     (\<exists>p. IsInMapRange p \<and> se_parent st (cell_index c) = cell_index p \<and> next_to p c \<and> is_floor d c \<and> cost st p < cost st c))"

definition queue_ok :: "coord \<Rightarrow> search \<Rightarrow> bool" where
  "queue_ok goal st = (\<forall>c f. (c, f) \<in> set (se_open st) \<longrightarrow>
     IsInMapRange c \<and> cost st c < FLT_MAX \<and> cost st c + heuristic goal c \<le> f)"

definition search_inv :: "grid \<Rightarrow> coord \<Rightarrow> coord \<Rightarrow> coord set \<Rightarrow> search \<Rightarrow> bool" where
  "search_inv d s goal X st =
     (cost st s = 0 \<and> (\<forall>c. IsInMapRange c \<longrightarrow> cost st c \<le> FLT_MAX) \<and> parents_ok d s st \<and> queue_ok goal st \<and>
      (\<forall>c. IsInMapRange c \<and> cost st c < FLT_MAX \<and> c \<notin> X \<longrightarrow>
         (c, cost st c + heuristic goal c) \<in> set (se_open st) \<or> seen_to d st c {n. next_to c n}))"

lemma search_invD:
  assumes "search_inv d s goal X st"
  shows "cost st s = 0" and "\<And>c. IsInMapRange c \<Longrightarrow> cost st c \<le> FLT_MAX" and "parents_ok d s st" and "queue_ok goal st"
    and "\<And>c. IsInMapRange c \<Longrightarrow> cost st c < FLT_MAX \<Longrightarrow> c \<notin> X \<Longrightarrow>
      (c, cost st c + heuristic goal c) \<in> set (se_open st) \<or> seen_to d st c {n. next_to c n}"
  using assms unfolding search_inv_def by blast+

lemma FLT_MAX_big: "8400 < FLT_MAX"
  by (simp add: FLT_MAX_def)

lemma search_start_inv: "IsInMapRange s \<Longrightarrow> search_inv d s goal {} (search_start s goal)"
  using FLT_MAX_big
  by (auto simp: search_inv_def search_start_def cost_def parents_ok_def queue_ok_def cell_index_inj)

text \<open>Looking at one neighbour.\<close>

lemma relax_cases:
  assumes "is_floor d n \<and> cost st v + 1 < cost st n \<Longrightarrow>
      P (st\<lparr>se_g := (se_g st)(cell_index n := cost st v + 1), se_parent := (se_parent st)(cell_index n := cell_index v),
          se_open := se_open st @ [(n, cost st v + 1 + heuristic goal n)]\<rparr>)"
    and "\<not> (is_floor d n \<and> cost st v + 1 < cost st n) \<Longrightarrow> P st"
  shows "P (relax d goal v n st)"
  using assms by (auto simp: relax_def cost_def is_floor_def GetTile_def Let_def)

lemma lower_inv:
  assumes inv: "search_inv d s goal {v} st" and v: "IsInMapRange v" "cost st v < FLT_MAX" and n: "next_to v n" "is_floor d n"
    and lt: "cost st v + 1 < cost st n"
    and st': "st' = st\<lparr>se_g := (se_g st)(cell_index n := cost st v + 1), se_parent := (se_parent st)(cell_index n := cell_index v),
      se_open := se_open st @ [(n, cost st v + 1 + heuristic goal n)]\<rparr>"
  shows "search_inv d s goal {v} st'" and "\<And>c. IsInMapRange c \<Longrightarrow> cost st' c = (if c = n then cost st v + 1 else cost st c)"
proof -
  have rn: "IsInMapRange n" "n \<noteq> v" "n \<noteq> s" using n lt search_invD(1) [OF inv] by (auto simp: is_floor_def next_to_def)
  show c': "cost st' c = (if c = n then cost st v + 1 else cost st c)" if "IsInMapRange c" for c
    using that rn(1) by (simp add: st' cost_def cell_index_inj)
  have le: "cost st' c \<le> cost st c" if "IsInMapRange c" for c using c' [OF that] lt by simp
  have fin: "cost st' c < FLT_MAX" if "IsInMapRange c" "cost st c < FLT_MAX" for c using le [OF that(1)] that(2) by simp
  have nfin: "cost st v + 1 < FLT_MAX" using lt search_invD(2) [OF inv rn(1)] by simp
  have s: "cost st' s = 0"
    using search_invD(1) [OF inv] by (cases "cell_index s = cell_index n") (simp_all add: st' cost_def, metis cost_def lt not_less_zero)
  have "parents_ok d s st'"
    unfolding parents_ok_def
  proof (intro allI impI)
    fix c assume c: "IsInMapRange c \<and> c \<noteq> s \<and> cost st' c < FLT_MAX"
    show "\<exists>p. IsInMapRange p \<and> se_parent st' (cell_index c) = cell_index p \<and> next_to p c \<and> is_floor d c \<and> cost st' p < cost st' c"
    proof (cases "c = n")
      case True
      then show ?thesis using v n rn c' [OF v(1)] c' [OF rn(1)] by (intro exI [of _ v]) (simp add: st')
    next
      case False
      then have "cost st c < FLT_MAX" using c c' [of c] by simp
      then obtain p where p: "IsInMapRange p" "se_parent st (cell_index c) = cell_index p" "next_to p c" "is_floor d c"
        "cost st p < cost st c" using search_invD(3) [OF inv] c unfolding parents_ok_def by blast
      then show ?thesis using False c rn(1) le [OF p(1)] c' [of c] by (intro exI [of _ p]) (simp add: st' cell_index_inj)
    qed
  qed
  moreover have "queue_ok goal st'"
    unfolding queue_ok_def
  proof (intro allI impI)
    fix c f assume "(c, f) \<in> set (se_open st')"
    then consider "(c, f) \<in> set (se_open st)" | "c = n" "f = cost st v + 1 + heuristic goal n" by (auto simp: st')
    then show "IsInMapRange c \<and> cost st' c < FLT_MAX \<and> cost st' c + heuristic goal c \<le> f"
    proof cases
      case 1
      then have q: "IsInMapRange c" "cost st c < FLT_MAX" "cost st c + heuristic goal c \<le> f"
        using search_invD(4) [OF inv] unfolding queue_ok_def by blast+
      then show ?thesis using le [OF q(1)] by simp
    next
      case 2
      then show ?thesis using rn c' [OF rn(1)] nfin by simp
    qed
  qed
  moreover have "(c, cost st' c + heuristic goal c) \<in> set (se_open st') \<or> seen_to d st' c {n. next_to c n}"
    if c: "IsInMapRange c" "cost st' c < FLT_MAX" "c \<notin> {v}" for c
  proof (cases "c = n")
    case True
    then show ?thesis using c' [OF rn(1)] by (simp add: st')
  next
    case False
    then have eq: "cost st' c = cost st c" using c'(1) [OF c(1)] by simp
    then have "(c, cost st c + heuristic goal c) \<in> set (se_open st) \<or> seen_to d st c {n. next_to c n}"
      using search_invD(5) [OF inv c(1)] c by simp
    then show ?thesis
    proof
      assume "seen_to d st c {n. next_to c n}"
      then have "seen_to d st' c {n. next_to c n}"
        unfolding seen_to_def eq using le order_trans unfolding is_floor_def by blast
      then show ?thesis by simp
    qed (simp add: eq, simp add: st')
  qed
  ultimately show "search_inv d s goal {v} st'"
    unfolding search_inv_def using s le search_invD(2) [OF inv] order_trans by blast
qed

lemma relax_inv:
  assumes "search_inv d s goal {v} st" and "IsInMapRange v" and "cost st v < FLT_MAX" and "next_to v n" and "seen_to d st v ns"
  shows "search_inv d s goal {v} (relax d goal v n st) \<and> cost (relax d goal v n st) v = cost st v \<and>
    seen_to d (relax d goal v n st) v (insert n ns)"
proof (rule relax_cases)
  assume a: "is_floor d n \<and> cost st v + 1 < cost st n"
  let ?st = "st\<lparr>se_g := (se_g st)(cell_index n := cost st v + 1), se_parent := (se_parent st)(cell_index n := cell_index v),
      se_open := se_open st @ [(n, cost st v + 1 + heuristic goal n)]\<rparr>"
  have l: "search_inv d s goal {v} ?st" "\<And>c. IsInMapRange c \<Longrightarrow> cost ?st c = (if c = n then cost st v + 1 else cost st c)"
    using lower_inv [OF assms(1-4) _ _ refl] a by blast+
  have "v \<noteq> n" using assms(4) by (auto simp: next_to_def)
  then have v: "cost ?st v = cost st v" using l(2) [OF assms(2)] by simp
  have "cost ?st m \<le> cost ?st v + 1" if "m \<in> insert n ns" "is_floor d m" for m
    using that assms(5) l(2) [of m] unfolding v seen_to_def is_floor_def by auto
  then show "search_inv d s goal {v} ?st \<and> cost ?st v = cost st v \<and> seen_to d ?st v (insert n ns)"
    using l(1) v unfolding seen_to_def by blast
qed (use assms in \<open>auto simp: seen_to_def\<close>)

lemma fold_relax_inv:
  assumes "search_inv d s goal {v} st" and "IsInMapRange v" and "cost st v < FLT_MAX" and "\<forall>n \<in> set ns. next_to v n" and "seen_to d st v ms"
  shows "search_inv d s goal {v} (fold (relax d goal v) ns st) \<and> seen_to d (fold (relax d goal v) ns st) v (set ns \<union> ms)"
  using assms
proof (induction ns arbitrary: st ms)
  case (Cons n ns)
  have r: "search_inv d s goal {v} (relax d goal v n st)" "cost (relax d goal v n st) v = cost st v"
    "seen_to d (relax d goal v n st) v (insert n ms)"
    using relax_inv [OF Cons.prems(1,2,3) _ Cons.prems(5), of n] Cons.prems(4) by simp_all
  then show ?case using Cons.IH [OF r(1) Cons.prems(2) _ _ r(3)] Cons.prems(3,4) by simp
qed simp

text \<open>One round of the loop, and the state it ends in.\<close>

lemma cost_open [simp]: "cost (st\<lparr>se_open := q\<rparr>) = cost st"
  by (simp add: cost_def fun_eq_iff)

lemma search_inv_mono: "search_inv d s goal X st \<Longrightarrow> X \<subseteq> Y \<Longrightarrow> search_inv d s goal Y st"
  unfolding search_inv_def by blast

lemma take_top_inv:
  assumes inv: "search_inv d s goal {} st" and "(c, f) \<in> set (se_open st)" and st': "st' = st\<lparr>se_open := remove1 (c, f) (se_open st)\<rparr>"
  shows "search_inv d s goal {c} st'" and "cost st c + heuristic goal c < f \<Longrightarrow> search_inv d s goal {} st'"
proof -
  have sub: "set (se_open st') \<subseteq> set (se_open st)" unfolding st' using set_remove1_subset [of "(c, f)" "se_open st"] by simp
  have keep: "x \<in> set (se_open st')" if "x \<in> set (se_open st)" "x \<noteq> (c, f)" for x using that by (simp add: st')
  have same: "cost st' = cost st" "se_parent st' = se_parent st" "seen_to d st' = seen_to d st"
    by (simp_all add: st' seen_to_def fun_eq_iff)
  have base: "cost st' s = 0" "\<forall>e. IsInMapRange e \<longrightarrow> cost st' e \<le> FLT_MAX" "parents_ok d s st'" "queue_ok goal st'"
    using search_invD(1-4) [OF inv] sub unfolding same parents_ok_def queue_ok_def by blast+
  have old: "(e, cost st' e + heuristic goal e) \<in> set (se_open st) \<or> seen_to d st' e {n. next_to e n}"
    if "IsInMapRange e" "cost st' e < FLT_MAX" for e using search_invD(5) [OF inv that(1)] that(2) unfolding same by simp
  show "search_inv d s goal {c} st'"
    unfolding search_inv_def using base old keep by blast
  assume "cost st c + heuristic goal c < f"
  then have "(e, cost st' e + heuristic goal e) \<noteq> (c, f)" for e unfolding same by auto
  then show "search_inv d s goal {} st'"
    unfolding search_inv_def using base old keep by blast
qed

definition search_done :: "grid \<Rightarrow> coord \<Rightarrow> coord \<Rightarrow> search \<Rightarrow> bool" where
  "search_done d s goal st = (search_inv d s goal {goal} st \<and> (\<forall>c f. (c, f) \<in> set (se_open st) \<longrightarrow> cost st goal \<le> f))"

lemma expand_inv:
  assumes "search_inv d s goal {c} st" and "IsInMapRange c" and "cost st c < FLT_MAX"
  shows "search_inv d s goal {} (fold (relax d goal c) (around c) st)"
proof -
  let ?st = "fold (relax d goal c) (around c) st"
  have "search_inv d s goal {c} ?st \<and> seen_to d ?st c (set (around c) \<union> {})"
    by (rule fold_relax_inv [OF assms]) (simp_all add: around_iff seen_to_def)
  moreover have "set (around c) \<union> {} = {n. next_to c n}" by (auto simp: around_iff)
  ultimately have "search_inv d s goal {c} ?st" "seen_to d ?st c {n. next_to c n}" by simp_all
  then show ?thesis unfolding search_inv_def by blast
qed

lemma astar_loop_done: "search_inv d s goal {} st \<Longrightarrow> search_done d s goal (astar_loop tie d goal k st)"
proof (induction tie d goal k st rule: astar_loop.induct)
  case (1 tie d goal k st)
  show ?case
  proof (cases "se_open st = []")
    case True
    then show ?thesis
      using search_inv_mono [OF "1.prems", of "{goal}"] by (simp add: astar_loop.simps [of tie d goal k st] search_done_def)
  next
    case False
    obtain c f rest where pop: "pop_top (tie k) (se_open st) = ((c, f), rest)" by (metis prod.exhaust)
    note top = pop_top_mem [OF False pop]
    let ?st = "st\<lparr>se_open := rest\<rparr>"
    have q: "IsInMapRange c" "cost st c < FLT_MAX" "cost st c + heuristic goal c \<le> f"
      using search_invD(4) [OF "1.prems"] top(1) unfolding queue_ok_def by blast+
    have st: "?st = st\<lparr>se_open := remove1 (c, f) (se_open st)\<rparr>" using top(3) by simp
    note inv = take_top_inv [OF "1.prems" top(1) st]
    show ?thesis
    proof (cases "c = goal")
      case True
      have "cost ?st goal \<le> f'" if "(e, f') \<in> set rest" for e f'
        using that top(2) [of "(e, f')"] top(3) q(3) set_remove1_subset [of "(c, f)" "se_open st"] True by force
      then show ?thesis using inv(1) True False pop by (simp add: astar_loop.simps [of tie d goal k st] search_done_def)
    next
      case goal: False
      show ?thesis
      proof (cases "int f - int (heuristic goal c) > int (se_g st (cell_index c))")
        case True
        then have "search_inv d s goal {} ?st" using inv(2) by (simp add: cost_def)
        then show ?thesis
          using "1.IH"(1) [OF False pop [symmetric] refl refl] True goal False pop
          by (simp add: astar_loop.simps [of tie d goal k st])
      next
        case fresh: False
        have "search_inv d s goal {} (fold (relax d goal c) (around c) ?st)"
          using expand_inv [OF inv(1)] q by simp
        then show ?thesis
          using "1.IH"(2) [OF False pop [symmetric] refl refl] fresh goal False pop
          by (simp add: astar_loop.simps [of tie d goal k st])
      qed
    qed
  qed
qed

text \<open>No route is shorter than the cost of the goal.\<close>

lemma cost_lower:
  assumes done_: "search_done d s goal st" and "IsInMapRange goal"
  shows "route d c r goal \<Longrightarrow> IsInMapRange c \<Longrightarrow> cost st goal \<le> cost st c + length r"
proof (induction r arbitrary: c)
  case (Cons n r)
  have inv: "search_inv d s goal {goal} st" using done_ by (simp add: search_done_def)
  have n: "next_to c n" "is_floor d n" "route d n r goal" "IsInMapRange n" using Cons.prems(1) by (auto simp: is_floor_def)
  show ?case
  proof (cases "c = goal \<or> \<not> cost st c < FLT_MAX")
    case True
    then show ?thesis using search_invD(2) [OF inv assms(2)] by auto
  next
    case False
    then have "(c, cost st c + heuristic goal c) \<in> set (se_open st) \<or> seen_to d st c {n. next_to c n}"
      using search_invD(5) [OF inv Cons.prems(2)] by simp
    then show ?thesis
    proof
      assume "(c, cost st c + heuristic goal c) \<in> set (se_open st)"
      then have "cost st goal \<le> cost st c + heuristic goal c" using done_ unfolding search_done_def by blast
      then show ?thesis using heuristic_admissible [OF Cons.prems(1)] by simp
    next
      assume "seen_to d st c {n. next_to c n}"
      then have "cost st n \<le> cost st c + 1" using n unfolding seen_to_def by blast
      then show ?thesis using Cons.IH [OF n(3,4)] by simp
    qed
  qed
qed simp

text \<open>Following the parents ends at the start and gives a route that is not longer than the cost.\<close>

lemma walk_back_route:
  assumes "search_inv d s goal X st" and "IsInMapRange s"
  shows "IsInMapRange c \<Longrightarrow> cost st c < FLT_MAX \<Longrightarrow>
    \<exists>r. walk_back (se_parent st) (cell_index s) (cell_index c) path = Some (rev (path @ r)) \<and> route d s (rev r) c \<and> length r \<le> cost st c"
proof (induction "cost st c" arbitrary: c path rule: less_induct)
  case less
  show ?case
  proof (cases "c = s")
    case True
    then show ?thesis by (intro exI [of _ "[]"]) (simp add: walk_back.simps)
  next
    case False
    then obtain p where p: "IsInMapRange p" "se_parent st (cell_index c) = cell_index p" "next_to p c" "is_floor d c" "cost st p < cost st c"
      using search_invD(3) [OF assms(1)] less.prems unfolding parents_ok_def by blast
    have c: "cell_index c mod GRID_WIDTH = fst c" "cell_index c div GRID_WIDTH = snd c" "cell_index c \<noteq> -1"
      using less.prems(1) by (simp_all add: IsInMapRange_def cell_index_def GRID_WIDTH_def)
    have "walk_back (se_parent st) (cell_index s) (cell_index c) path = walk_back (se_parent st) (cell_index s) (cell_index p) (path @ [c])"
      using False c p(2) less.prems(1) assms(2) by (subst walk_back.simps) (simp add: cell_index_inj)
    moreover obtain r where r: "walk_back (se_parent st) (cell_index s) (cell_index p) (path @ [c]) = Some (rev ((path @ [c]) @ r))"
      "route d s (rev r) p" "length r \<le> cost st p"
      using less.hyps [OF p(5,1)] p(5) less.prems(2) by (meson order.strict_trans)
    moreover have "route d s (rev (c # r)) c" using r(2) p(3,4) unfolding rev.simps route_append route.simps by blast
    ultimately show ?thesis using p(5) by (intro exI [of _ "c # r"]) simp
  qed
qed

definition shortest :: "grid \<Rightarrow> coord \<Rightarrow> coord \<Rightarrow> nat" where
  "shortest d a b = (LEAST n. \<exists>r. route d a r b \<and> length r = n)"

lemma search_result:
  assumes "IsInMapRange s" and "is_floor d goal" and st: "st = astar_loop tie d goal 0 (search_start s goal)"
  shows "cost st goal = FLT_MAX \<longleftrightarrow> (\<nexists>r. route d s r goal)"
    and "cost st goal \<noteq> FLT_MAX \<Longrightarrow> \<exists>path. walk_back (se_parent st) (cell_index s) (cell_index goal) [] = Some path \<and>
      route d s path goal \<and> length path = shortest d s goal"
proof -
  have goal: "IsInMapRange goal" using assms(2) by (simp add: is_floor_def)
  have done_: "search_done d s goal st" unfolding st by (rule astar_loop_done [OF search_start_inv [OF assms(1)]])
  then have inv: "search_inv d s goal {goal} st" by (simp add: search_done_def)
  have low: "cost st goal \<le> length r" if "route d s r goal" for r
    using cost_lower [OF done_ goal that assms(1)] search_invD(1) [OF inv] by simp
  have found: "\<exists>path. walk_back (se_parent st) (cell_index s) (cell_index goal) [] = Some path \<and> route d s path goal \<and> length path \<le> cost st goal"
    if "cost st goal < FLT_MAX" using walk_back_route [OF inv assms(1) goal that, of "[]"] by force
  have lt: "cost st goal < FLT_MAX \<longleftrightarrow> cost st goal \<noteq> FLT_MAX" using search_invD(2) [OF inv goal] by linarith
  show "cost st goal = FLT_MAX \<longleftrightarrow> (\<nexists>r. route d s r goal)"
  proof
    assume max: "cost st goal = FLT_MAX"
    show "\<nexists>r. route d s r goal"
    proof
      assume "\<exists>r. route d s r goal"
      then obtain r where "route d s r goal" "length r \<le> 8400" using short_route by blast
      then show False using low [of r] max FLT_MAX_big by simp
    qed
  next
    assume "\<nexists>r. route d s r goal"
    then show "cost st goal = FLT_MAX" using found lt by blast
  qed
  assume "cost st goal \<noteq> FLT_MAX"
  then obtain path where path: "walk_back (se_parent st) (cell_index s) (cell_index goal) [] = Some path" "route d s path goal"
    "length path \<le> cost st goal" using found lt by blast
  have "shortest d s goal = length path"
    unfolding shortest_def by (rule Least_equality) (use path low in \<open>auto intro: order_trans\<close>)
  then show "\<exists>path. walk_back (se_parent st) (cell_index s) (cell_index goal) [] = Some path \<and>
      route d s path goal \<and> length path = shortest d s goal" using path by auto
qed

text \<open>C9: \<^verbatim>\<open>AStarSearch\<close> is correct however the queue breaks ties: it returns, for every start and goal. Asked for a way
  between different tiles, the goal on the floor, it gives a route over the floor from the start to the goal of the least
  possible length if there is one; in every other case it gives the empty path. The start must lie inside the map; whether
  its own tile is floor is not tested.\<close>

theorem astar_shortest:
  "\<exists>path. AStarSearch tie d s goal = Some path \<and>
     (if IsInMapRange s \<and> is_floor d goal \<and> s \<noteq> goal \<and> (\<exists>r. route d s r goal)
      then route d s path goal \<and> length path = shortest d s goal
      else path = [])"
proof (cases "IsInMapRange s \<and> is_floor d goal \<and> s \<noteq> goal")
  case True
  let ?st = "astar_loop tie d goal 0 (search_start s goal)"
  have a: "AStarSearch tie d s goal = (if cost ?st goal = FLT_MAX then Some []
      else walk_back (se_parent ?st) (cell_index s) (cell_index goal) [])"
    using True by (simp add: AStarSearch_def cost_def is_floor_def GetTile_def Let_def)
  show ?thesis
    using search_result [OF _ _ refl, of s d goal tie] True unfolding a by auto
qed (auto simp: AStarSearch_def is_floor_def GetTile_def)

lemma reach_route:
  assumes "(step_on d 0)\<^sup>*\<^sup>* a b"
  shows "\<exists>r. route d a r b"
  using assms
proof (induction rule: converse_rtranclp_induct)
  case base
  show ?case by (intro exI [of _ "[]"]) simp
next
  case (step a c)
  then obtain r where "route d c r b" by blast
  then have "route d a (c # r) b" using step(1) by (simp add: step_on_def is_floor_def)
  then show ?case by blast
qed

text \<open>C27: on a generated dungeon no bot is ever stuck: between any two tiles of the floor, so from wherever a bot stands on
  the floor to whichever waypoint it draws, the search returns a route.\<close>

theorem bots_find_way:
  assumes "sorts_rooms sort_rooms" and "d = Generate draw draw_real sort_rooms sort_portals rng numPortals depth"
    and "tiles = filter (is_floor (dg_grid d)) cells"
  shows "list_all (\<lambda>a. list_all (\<lambda>b. \<exists>path. AStarSearch tie (dg_grid d) a b = Some path \<and> route (dg_grid d) a path b) tiles) tiles"
proof -
  have "\<exists>path. AStarSearch tie (dg_grid d) a b = Some path \<and> route (dg_grid d) a path b"
    if "is_floor (dg_grid d) a" "is_floor (dg_grid d) b" for a b
  proof (cases "a = b")
    case True
    then show ?thesis by (simp add: AStarSearch_def)
  next
    case False
    have "(step_on (dg_grid d) 0)\<^sup>*\<^sup>* a b"
      using Generate_grid(1) [OF assms(1,2)] that unfolding connected_floor_def is_floor_def by blast
    then have "\<exists>r. route (dg_grid d) a r b" by (rule reach_route)
    then obtain r where r: "route (dg_grid d) a r b" by blast
    let ?st = "astar_loop tie (dg_grid d) b 0 (search_start a b)"
    have a: "IsInMapRange a" using that(1) by (simp add: is_floor_def)
    have "cost ?st b \<noteq> FLT_MAX" using search_result(1) [OF a that(2) refl] r by blast
    then show ?thesis
      using search_result(2) [OF a that(2) refl] False that
      by (auto simp: AStarSearch_def cost_def is_floor_def GetTile_def Let_def)
  qed
  then show ?thesis by (simp add: assms(3) list_all_iff)
qed

theorem bots_find_way_witness:
  "list_all (\<lambda>a. list_all (\<lambda>b. \<exists>path. AStarSearch (\<lambda>k. 0)
       (dg_grid (Generate (\<lambda>lo hi n. ((lo + n) mod (hi + 1), n + 7)) (\<lambda>lo hi n. (lo, n))
         (sort_key (\<lambda>r. - int (rm_size r))) (sort_key (\<lambda>c. - pc_dist c)) (3 :: int) 3 0)) a b = Some path \<and>
     route (dg_grid (Generate (\<lambda>lo hi n. ((lo + n) mod (hi + 1), n + 7)) (\<lambda>lo hi n. (lo, n))
         (sort_key (\<lambda>r. - int (rm_size r))) (sort_key (\<lambda>c. - pc_dist c)) (3 :: int) 3 0)) a path b)
     (filter (is_floor (dg_grid (Generate (\<lambda>lo hi n. ((lo + n) mod (hi + 1), n + 7)) (\<lambda>lo hi n. (lo, n))
         (sort_key (\<lambda>r. - int (rm_size r))) (sort_key (\<lambda>c. - pc_dist c)) (3 :: int) 3 0))) cells))
     (filter (is_floor (dg_grid (Generate (\<lambda>lo hi n. ((lo + n) mod (hi + 1), n + 7)) (\<lambda>lo hi n. (lo, n))
         (sort_key (\<lambda>r. - int (rm_size r))) (sort_key (\<lambda>c. - pc_dist c)) (3 :: int) 3 0))) cells)"
  by (rule bots_find_way [OF sort_key_sorts_rooms refl refl])

end
