(* ===== verification/Game_Room.thy ===== *)
theory Game_Room
  imports Dungeon_Place "HOL-Library.AList"
begin

text \<open>
  A room of the game server (\<^verbatim>\<open>examples/GameServer/src/game/room.h\<close> and \<^verbatim>\<open>room.cpp\<close>): the players in it, what it sends to
  them, entering, leaving, the scene-ready handshake and the items on the ground. A room is a job queue, so its operations
  run one at a time and are functions on its state. Health, gold, kills and deaths are integers: their members are signed
  (32 and 64 bits), so what is shown holds as long as the program's additions do not overflow, which C++ leaves undefined.
  Positions are real numbers; no theorem depends on how floats round.
  Times are nanoseconds of the steady clock, 0 the default time point; the clock is read once per job. A hash map is an
  association list, walked in its order. What is posted to the I/O workers is kept in \<^verbatim>\<open>gr_outbox\<close> as worker, session and
  message. The parameters of the environment are the random engine, whether the buffer pool has room for the n-th message,
  and the number of workers.
\<close>

section \<open>State\<close>

type_synonym vec3 = "real \<times> real \<times> real"

record player_state =
  pl_id :: nat
  pl_name :: string
  pl_hp :: int
  pl_max_hp :: int
  pl_level :: int
  pl_pos :: vec3
  pl_rotation_y :: real
  pl_vel :: vec3
  pl_move_state :: int
  pl_ring :: bool
  pl_session :: nat
  pl_worker :: nat
  pl_scene_ready :: bool
  pl_gold :: int
  pl_party :: nat
  pl_cooldowns :: "(int \<times> int) list"
  pl_is_dead :: bool
  pl_death_time :: int
  pl_kills :: int
  pl_deaths :: int

definition player_state_new :: player_state where
  "player_state_new =
     \<lparr>pl_id = 0, pl_name = [], pl_hp = 100, pl_max_hp = 100, pl_level = 1, pl_pos = (0, 0, 0), pl_rotation_y = 0,
      pl_vel = (0, 0, 0), pl_move_state = 0, pl_ring = False, pl_session = 0, pl_worker = 0, pl_scene_ready = False,
      pl_gold = 0, pl_party = 0, pl_cooldowns = [], pl_is_dead = False, pl_death_time = 0, pl_kills = 0, pl_deaths = 0\<rparr>"

record ground_item =
  gi_id :: nat
  gi_def :: int
  gi_pos :: vec3
  gi_label :: string
  gi_lifetime :: real

text \<open>What the server tells clients about a player, and the messages it sends.\<close>

record player_info =
  pi_id :: nat
  pi_name :: string
  pi_hp :: int
  pi_max_hp :: int
  pi_level :: int
  pi_pos :: vec3
  pi_rotation_y :: real

record party_member =
  pm_id :: nat
  pm_name :: string
  pm_hp :: int
  pm_max_hp :: int
  pm_level :: int
  pm_is_leader :: bool

datatype server_msg =
  S_PLAYER_LIST "player_info list"
| S_SPAWN player_info
| S_DESPAWN nat
| S_MOVE nat vec3 real vec3 int
| S_ATTACK nat nat int vec3 "vec3 option"
| S_DAMAGE nat nat int int int bool
| S_RESPAWN player_info
| S_FIRE nat vec3 vec3
| S_SCOREBOARD "(nat \<times> string \<times> int \<times> int \<times> int) list"
| S_GROUND_ITEM_SPAWN nat int vec3 string
| S_GROUND_ITEM_DESPAWN nat
| S_ITEM_ADD int int int
| S_PICKUP nat bool string
| S_USE_ITEM int string
| S_ITEM_REMOVE int
| S_CURRENCY_UPDATE int
| S_CHAT nat nat string string string
| S_CREATE_PARTY bool nat
| S_JOIN_PARTY bool nat
| S_LEAVE_PARTY bool
| S_PARTY_UPDATE nat nat "party_member list"

record projectile =
  pr_id :: nat
  pr_owner :: nat
  pr_pos :: vec3
  pr_dir :: vec3
  pr_traveled :: real
  pr_skill :: int

record bot_state =
  bt_id :: nat
  bt_name :: string
  bt_pos :: vec3
  bt_target :: "real \<times> real"
  bt_vel :: vec3
  bt_rotation_y :: real
  bt_hp :: int
  bt_max_hp :: int
  bt_is_dead :: bool
  bt_has_target :: bool
  bt_chase_target :: nat
  bt_death_time :: int
  bt_path :: "coord list"
  bt_path_idx :: nat
  bt_cooldowns :: "(int \<times> int) list"
  bt_aggro_origin :: "real \<times> real"
  bt_chase_start :: int
  bt_is_retreating :: bool

record 'r game_room =
  gr_id :: nat
  gr_name :: string
  gr_players :: "(nat \<times> player_state) list"
  gr_map_spawn :: "int \<times> int"
  gr_dungeon :: dungeon
  gr_ground_items :: "(nat \<times> ground_item) list"
  gr_next_ground :: nat
  gr_scoreboard :: nat
  gr_connections :: "(nat \<times> nat) list"
  gr_empty_since :: int
  gr_depth :: int
  gr_projectiles :: "projectile list"
  gr_next_projectile :: nat
  gr_bots :: "(nat \<times> bot_state) list"
  gr_next_bot :: nat
  gr_rng :: 'r
  gr_builds :: nat
  gr_outbox :: "(nat \<times> nat \<times> server_msg) list"

record 'r game_env =
  ev_draw :: "'r draw"
  ev_draw_real :: "'r draw_real"
  ev_raw :: "'r \<Rightarrow> nat \<times> 'r"
  ev_pool :: "nat \<Rightarrow> bool"
  ev_workers :: nat
  ev_tie :: "coord \<Rightarrow> coord \<Rightarrow> nat \<Rightarrow> nat"

record player_context =
  cx_session :: nat
  cx_player :: nat
  cx_username :: string
  cx_char :: nat
  cx_char_name :: string
  cx_level :: int
  cx_room :: "nat option"
  cx_worker :: nat

definition empty_dungeon :: dungeon where
  "empty_dungeon = \<lparr>dg_grid = (\<lambda>c. 0), dg_rooms = [], dg_props = [], dg_lights = [], dg_spawn = (0, 0), dg_portals = []\<rparr>"

definition Room :: "nat \<Rightarrow> string \<Rightarrow> 'r \<Rightarrow> 'r game_room" where
  "Room rid name rng =
     \<lparr>gr_id = rid, gr_name = name, gr_players = [], gr_map_spawn = (0, 0), gr_dungeon = empty_dungeon, gr_ground_items = [],
      gr_next_ground = 1, gr_scoreboard = 0, gr_connections = [], gr_empty_since = 0, gr_depth = 0, gr_projectiles = [],
      gr_next_projectile = 1, gr_bots = [], gr_next_bot = 900000, gr_rng = rng, gr_builds = 0, gr_outbox = []\<rparr>"

definition PlayerCount :: "'r game_room \<Rightarrow> nat" where
  "PlayerCount r = length (gr_players r)"

definition Room_IsEmpty :: "'r game_room \<Rightarrow> bool" where
  "Room_IsEmpty r = (gr_players r = [])"

definition IsFull :: "'r game_room \<Rightarrow> bool" where
  "IsFull r = (length (gr_players r) \<ge> 500)"

definition find_player :: "'r game_room \<Rightarrow> nat \<Rightarrow> player_state option" where
  "find_player r pid = map_of (gr_players r) pid"

definition upd_player :: "nat \<Rightarrow> (player_state \<Rightarrow> player_state) \<Rightarrow> 'r game_room \<Rightarrow> 'r game_room" where
  "upd_player pid f r = r\<lparr>gr_players := map (\<lambda>(k, p). (k, if k = pid then f p else p)) (gr_players r)\<rparr>"

section \<open>Sending\<close>

text \<open>\<^verbatim>\<open>PacketBuilder::Build\<close> takes the next buffer of the pool or fails; a message is posted if the player's worker exists.\<close>

definition post :: "'r game_env \<Rightarrow> server_msg \<Rightarrow> player_state \<Rightarrow> (nat \<times> nat \<times> server_msg) list" where
  "post env msg p = (if pl_worker p < ev_workers env then [(pl_worker p, pl_session p, msg)] else [])"

definition send :: "'r game_env \<Rightarrow> (nat \<times> nat \<times> server_msg) list \<Rightarrow> 'r game_room \<Rightarrow> 'r game_room" where
  "send env posts r =
     (let r1 = r\<lparr>gr_builds := gr_builds r + 1\<rparr> in
      if ev_pool env (gr_builds r) then r1\<lparr>gr_outbox := gr_outbox r @ posts\<rparr> else r1)"

definition SendTo :: "'r game_env \<Rightarrow> player_state \<Rightarrow> server_msg \<Rightarrow> 'r game_room \<Rightarrow> 'r game_room" where
  "SendTo env p msg r = send env (if pl_ring p then post env msg p else []) r"

definition gets_broadcasts :: "player_state \<Rightarrow> bool" where
  "gets_broadcasts p = (pl_session p \<noteq> 0 \<and> pl_scene_ready p)"

definition Room_BroadcastAll :: "'r game_env \<Rightarrow> server_msg \<Rightarrow> 'r game_room \<Rightarrow> 'r game_room" where
  "Room_BroadcastAll env msg r = send env (concat (map (\<lambda>(k, p). if gets_broadcasts p then post env msg p else []) (gr_players r))) r"

definition Room_BroadcastExcept :: "'r game_env \<Rightarrow> nat \<Rightarrow> server_msg \<Rightarrow> 'r game_room \<Rightarrow> 'r game_room" where
  "Room_BroadcastExcept env ex msg r =
     send env (concat (map (\<lambda>(k, p). if k \<noteq> ex \<and> gets_broadcasts p then post env msg p else []) (gr_players r))) r"

section \<open>Entering, getting ready and leaving\<close>

definition trunc :: "real \<Rightarrow> int" where
  "trunc x = (if x \<ge> 0 then \<lfloor>x\<rfloor> else \<lceil>x\<rceil>)"

definition spawn_cell :: "real \<Rightarrow> real \<Rightarrow> coord" where
  "spawn_cell x z = (trunc (x + of_int GRID_WIDTH / 2), trunc (z + of_int GRID_HEIGHT / 2))"

definition AddPlayer :: "'r game_env \<Rightarrow> player_context \<Rightarrow> vec3 \<Rightarrow> 'r game_room \<Rightarrow> 'r game_room" where
  "AddPlayer env ctx spawn r =
     (case spawn of (sx, sy, sz) \<Rightarrow>
      case ev_draw_real env (-2) 2 (gr_rng r) of (dx, rng1) \<Rightarrow>
      case ev_draw_real env (-2) 2 rng1 of (dz, rng2) \<Rightarrow>
      let (jx, jz) = (if GetTile (dg_grid (gr_dungeon r)) (spawn_cell (sx + dx) (sz + dz)) \<noteq> 0
                      then (sx, sz) else (sx + dx, sz + dz));
          ps = player_state_new\<lparr>pl_id := cx_player ctx, pl_name := cx_char_name ctx, pl_level := cx_level ctx, pl_hp := 100,
                 pl_max_hp := 100, pl_pos := (jx, sy, jz), pl_ring := True, pl_session := cx_session ctx,
                 pl_worker := cx_worker ctx\<rparr>
      in r\<lparr>gr_rng := rng2, gr_players := AList.update (pl_id ps) ps (gr_players r), gr_empty_since := 0\<rparr>)"

definition info_of :: "player_state \<Rightarrow> player_info" where
  "info_of p = \<lparr>pi_id = pl_id p, pi_name = pl_name p, pi_hp = pl_hp p, pi_max_hp = pl_max_hp p, pi_level = pl_level p,
     pi_pos = pl_pos p, pi_rotation_y = pl_rotation_y p\<rparr>"

definition HandleSceneReady :: "'r game_env \<Rightarrow> nat \<Rightarrow> 'r game_room \<Rightarrow> 'r game_room" where
  "HandleSceneReady env pid r =
     (case find_player r pid of
        None \<Rightarrow> r
      | Some p \<Rightarrow>
          if pl_scene_ready p then r
          else let r1 = upd_player pid (pl_scene_ready_update (\<lambda>_. True)) r;
                   r2 = SendTo env p (S_PLAYER_LIST (map (info_of \<circ> snd) (filter (\<lambda>(k, q). k \<noteq> pid) (gr_players r1)))) r1
               in Room_BroadcastExcept env pid (S_SPAWN (info_of p)) r2)"

definition RemovePlayer :: "'r game_env \<Rightarrow> int \<Rightarrow> nat \<Rightarrow> 'r game_room \<Rightarrow> 'r game_room" where
  "RemovePlayer env now pid r =
     (case find_player r pid of
        None \<Rightarrow> r
      | Some p \<Rightarrow>
          let r1 = r\<lparr>gr_players := AList.delete pid (gr_players r)\<rparr>;
              r2 = Room_BroadcastAll env (S_DESPAWN pid) r1
          in if gr_players r2 = [] then r2\<lparr>gr_empty_since := now\<rparr> else r2)"

section \<open>Items on the ground\<close>

definition SpawnGroundItem :: "'r game_env \<Rightarrow> int \<Rightarrow> vec3 \<Rightarrow> string \<Rightarrow> 'r game_room \<Rightarrow> 'r game_room" where
  "SpawnGroundItem env item_def pos label r =
     (let gid = gr_next_ground r;
          gi = \<lparr>gi_id = gid, gi_def = item_def, gi_pos = pos, gi_label = label, gi_lifetime = 15\<rparr>
      in Room_BroadcastAll env (S_GROUND_ITEM_SPAWN gid item_def pos label)
           (r\<lparr>gr_next_ground := gid + 1, gr_ground_items := AList.update gid gi (gr_ground_items r)\<rparr>))"

definition raw :: "'r game_env \<Rightarrow> 'r game_room \<Rightarrow> nat \<times> 'r game_room" where
  "raw env r = (case ev_raw env (gr_rng r) of (v, rng) \<Rightarrow> (v, r\<lparr>gr_rng := rng\<rparr>))"

definition TryPickup :: "'r game_env \<Rightarrow> nat \<Rightarrow> nat \<Rightarrow> 'r game_room \<Rightarrow> bool \<times> 'r game_room" where
  "TryPickup env pid ground_id r =
     (case map_of (gr_ground_items r) ground_id of
        None \<Rightarrow> (False, r)
      | Some gi \<Rightarrow>
        (case find_player r pid of
           None \<Rightarrow> (False, r)
         | Some p \<Rightarrow>
           let dx = fst (pl_pos p) - fst (gi_pos gi); dz = snd (snd (pl_pos p)) - snd (snd (gi_pos gi)) in
           if dx * dx + dz * dz > 9 then (False, r)
           else case raw env r of (inst, r1) \<Rightarrow>
                case raw env r1 of (slot, r2) \<Rightarrow>
                let r3 = SendTo env p (S_ITEM_ADD (int inst) (gi_def gi) (int slot mod 100)) r2;
                    r4 = Room_BroadcastAll env (S_GROUND_ITEM_DESPAWN ground_id) r3
                in (True, r4\<lparr>gr_ground_items := AList.delete ground_id (gr_ground_items r4)\<rparr>)))"

section \<open>Operations that leave the roster alone\<close>

text \<open>What most operations have in common. They keep who is in the room and how to reach them, they keep every player's health
  sound, they change the number of kills minus deaths by a known amount, and none of the messages they send makes
  a client add or drop an entity. They rely on bots that are dead or have full health in their own state, and keep them so.\<close>

definition sound :: "player_state \<Rightarrow> bool" where
  "sound p = (pl_max_hp p = 100 \<and> 0 \<le> pl_hp p \<and> pl_hp p \<le> pl_max_hp p \<and> (pl_is_dead p \<longleftrightarrow> pl_hp p = 0))"

record contact_info =
  ct_id :: nat
  ct_session :: nat
  ct_ring :: bool
  ct_worker :: nat
  ct_ready :: bool

definition contact :: "player_state \<Rightarrow> contact_info" where
  "contact p = \<lparr>ct_id = pl_id p, ct_session = pl_session p, ct_ring = pl_ring p, ct_worker = pl_worker p, ct_ready = pl_scene_ready p\<rparr>"

definition roster :: "(nat \<times> player_state) list \<Rightarrow> (nat \<times> contact_info) list" where
  "roster ps = map (\<lambda>(k, p). (k, contact p)) ps"

definition score :: "(nat \<times> player_state) list \<Rightarrow> int" where
  "score ps = sum_list (map (\<lambda>(k, p). pl_kills p - pl_deaths p) ps)"

definition all_sound :: "(nat \<times> player_state) list \<Rightarrow> bool" where
  "all_sound ps = list_all (\<lambda>(k, p). sound p) ps"

definition calm_by :: "int \<Rightarrow> (nat \<times> player_state) list \<Rightarrow> (nat \<times> player_state) list \<Rightarrow> bool" where
  "calm_by d ps ps' =
     (roster ps' = roster ps \<and> (distinct (map fst ps) \<longrightarrow> score ps' = score ps + d \<and> (all_sound ps \<longrightarrow> all_sound ps')))"

fun entity_free :: "server_msg \<Rightarrow> bool" where
  "entity_free (S_PLAYER_LIST ps) = False"
| "entity_free (S_SPAWN p) = False"
| "entity_free (S_DESPAWN k) = False"
| "entity_free m = True"

text \<open>What only entering, leaving, adding bots and the room manager change.\<close>

definition room_frame :: "'r game_room \<Rightarrow> nat \<times> dungeon \<times> (nat \<times> nat) list \<times> int \<times> int \<times> nat" where
  "room_frame r = (gr_id r, gr_dungeon r, gr_connections r, gr_empty_since r, gr_depth r, gr_next_bot r)"

lemma room_frame_update [simp]:
  "room_frame (r\<lparr>gr_players := ps\<rparr>) = room_frame r" "room_frame (r\<lparr>gr_bots := bs\<rparr>) = room_frame r" "room_frame (r\<lparr>gr_rng := g\<rparr>) = room_frame r"
  "room_frame (r\<lparr>gr_ground_items := gs\<rparr>) = room_frame r" "room_frame (r\<lparr>gr_next_ground := n\<rparr>) = room_frame r"
  "room_frame (r\<lparr>gr_scoreboard := n\<rparr>) = room_frame r" "room_frame (r\<lparr>gr_projectiles := pr\<rparr>) = room_frame r"
  "room_frame (r\<lparr>gr_next_projectile := n\<rparr>) = room_frame r" "room_frame (r\<lparr>gr_builds := n\<rparr>) = room_frame r" "room_frame (r\<lparr>gr_outbox := ob\<rparr>) = room_frame r"
  by (simp_all add: room_frame_def)

lemma room_frame_ops [simp]:
  "room_frame (send env posts r) = room_frame r" "room_frame (SendTo env p msg r) = room_frame r" "room_frame (Room_BroadcastAll env msg r) = room_frame r"
  "room_frame (Room_BroadcastExcept env ex msg r) = room_frame r" "room_frame (upd_player pid f r) = room_frame r"
  by (simp_all add: send_def SendTo_def Room_BroadcastAll_def Room_BroadcastExcept_def upd_player_def Let_def)

definition sends_more :: "'r game_room \<Rightarrow> 'r game_room \<Rightarrow> bool" where
  "sends_more r r' =
     (room_frame r' = room_frame r \<and> (\<exists>sent. gr_outbox r' = gr_outbox r @ sent \<and> list_all (\<lambda>(w, s, m). entity_free m) sent))"

definition bot_ok :: "nat \<Rightarrow> bot_state \<Rightarrow> bool" where
  "bot_ok k b = (bt_id b = k \<and> bt_max_hp b = 100 \<and> (bt_is_dead b \<or> bt_hp b = 100))"

definition bots_ok :: "(nat \<times> bot_state) list \<Rightarrow> bool" where
  "bots_ok bs = list_all (\<lambda>(k, b). bot_ok k b) bs"

definition calm :: "'r game_room \<Rightarrow> 'r game_room \<Rightarrow> bool" where
  "calm r r' = (bots_ok (gr_bots r) \<longrightarrow> calm_by 0 (gr_players r) (gr_players r') \<and> sends_more r r' \<and> bots_ok (gr_bots r'))"

definition upd_list :: "nat \<Rightarrow> (player_state \<Rightarrow> player_state) \<Rightarrow> (nat \<times> player_state) list \<Rightarrow> (nat \<times> player_state) list" where
  "upd_list pid f ps = map (\<lambda>(k, p). (k, if k = pid then f p else p)) ps"

lemma roster_keys: "roster ps' = roster ps \<Longrightarrow> map fst ps' = map fst ps"
proof -
  have "map fst ps = map fst (roster ps)" for ps by (simp add: roster_def comp_def case_prod_beta)
  then show "roster ps' = roster ps \<Longrightarrow> map fst ps' = map fst ps" by simp
qed

lemma calm_by_refl [simp]: "calm_by 0 ps ps"
  by (simp add: calm_by_def)

lemma calm_by_trans: "calm_by d ps ps' \<Longrightarrow> calm_by e ps' ps'' \<Longrightarrow> d + e = f \<Longrightarrow> calm_by f ps ps''"
proof -
  assume a: "calm_by d ps ps'" and b: "calm_by e ps' ps''" and f: "d + e = f"
  have r: "roster ps' = roster ps" "roster ps'' = roster ps'" using a b unfolding calm_by_def by blast+
  have "distinct (map fst ps') = distinct (map fst ps)" unfolding roster_keys [OF r(1)] ..
  then show "calm_by f ps ps''" using a b r f unfolding calm_by_def by (simp add: algebra_simps)
qed

lemma sends_more_refl [simp]: "sends_more r r"
  by (simp add: sends_more_def)

lemma sends_more_trans: "sends_more r r' \<Longrightarrow> sends_more r' r'' \<Longrightarrow> sends_more r r''"
proof -
  assume "sends_more r r'" and "sends_more r' r''"
  then obtain a b where "room_frame r'' = room_frame r" "gr_outbox r' = gr_outbox r @ a" "list_all (\<lambda>(w, s, m). entity_free m) a"
    "gr_outbox r'' = gr_outbox r' @ b" "list_all (\<lambda>(w, s, m). entity_free m) b" unfolding sends_more_def by auto
  then show "sends_more r r''" unfolding sends_more_def by (intro conjI exI [of _ "a @ b"]) simp_all
qed

lemma calm_refl [simp, intro]: "calm r r"
  by (simp add: calm_def)

lemma calm_trans [trans]: "calm r r' \<Longrightarrow> calm r' r'' \<Longrightarrow> calm r r''"
proof -
  assume a: "calm r r'" "calm r' r''"
  show "calm r r''"
    unfolding calm_def
  proof
    assume "bots_ok (gr_bots r)"
    then have c: "calm_by 0 (gr_players r) (gr_players r')" "calm_by 0 (gr_players r') (gr_players r'')" "sends_more r r'"
      "sends_more r' r''" "bots_ok (gr_bots r'')" using a by (simp_all add: calm_def)
    show "calm_by 0 (gr_players r) (gr_players r'') \<and> sends_more r r'' \<and> bots_ok (gr_bots r'')"
      using calm_by_trans [OF c(1,2)] sends_more_trans [OF c(3,4)] c(5) by simp
  qed
qed

lemma calmI: "calm_by 0 (gr_players r) (gr_players r') \<Longrightarrow> sends_more r r' \<Longrightarrow> gr_bots r' = gr_bots r \<Longrightarrow> calm r r'"
  by (simp add: calm_def)

lemma calm_same:
  "gr_players r' = gr_players r \<Longrightarrow> gr_outbox r' = gr_outbox r \<Longrightarrow> gr_bots r' = gr_bots r \<Longrightarrow> room_frame r' = room_frame r \<Longrightarrow> calm r r'"
  by (simp add: calm_def sends_more_def)

lemma calm_fold: "(\<And>x r. x \<in> set xs \<Longrightarrow> calm r (f x r)) \<Longrightarrow> calm r (fold f xs r)"
proof (induction xs arbitrary: r)
  case (Cons x xs)
  have "calm r (f x r)" using Cons.prems by simp
  also have "calm \<dots> (fold f xs (f x r))" using Cons by simp
  finally show ?case by simp
qed simp

lemma players_upd [simp]: "gr_players (upd_player pid f r) = upd_list pid f (gr_players r)"
  by (simp add: upd_player_def upd_list_def)

lemma outbox_upd [simp]: "gr_outbox (upd_player pid f r) = gr_outbox r" "gr_bots (upd_player pid f r) = gr_bots r"
  by (simp_all add: upd_player_def)

lemma players_send [simp]:
  "gr_players (send env posts r) = gr_players r" "gr_players (SendTo env p msg r) = gr_players r"
  "gr_players (Room_BroadcastAll env msg r) = gr_players r" "gr_players (Room_BroadcastExcept env ex msg r) = gr_players r"
  by (simp_all add: send_def SendTo_def Room_BroadcastAll_def Room_BroadcastExcept_def Let_def)

lemma bots_send [simp]:
  "gr_bots (send env posts r) = gr_bots r" "gr_bots (SendTo env p msg r) = gr_bots r"
  "gr_bots (Room_BroadcastAll env msg r) = gr_bots r" "gr_bots (Room_BroadcastExcept env ex msg r) = gr_bots r"
  by (simp_all add: send_def SendTo_def Room_BroadcastAll_def Room_BroadcastExcept_def Let_def)

lemma sends_more_send:
  assumes "entity_free msg"
  shows "sends_more r (SendTo env p msg r)" and "sends_more r (Room_BroadcastAll env msg r)" and "sends_more r (Room_BroadcastExcept env ex msg r)"
  using assms
  by (auto simp: sends_more_def send_def SendTo_def Room_BroadcastAll_def Room_BroadcastExcept_def Let_def post_def list_all_iff split: if_splits)

lemma calm_send:
  assumes "entity_free msg"
  shows "calm r (SendTo env p msg r)" and "calm r (Room_BroadcastAll env msg r)" and "calm r (Room_BroadcastExcept env ex msg r)"
  by (rule calmI, simp, rule sends_more_send [OF assms], simp)+

lemma calm_raw: "raw env r = (v, r') \<Longrightarrow> calm r r'"
  by (rule calm_same) (auto simp: raw_def split: prod.splits)

lemma players_raw: "raw env r = (v, r') \<Longrightarrow> gr_players r' = gr_players r"
  by (auto simp: raw_def split: prod.splits)

text \<open>Changing one player.\<close>

lemma upd_list_other: "pid \<notin> set (map fst ps) \<Longrightarrow> upd_list pid f ps = ps"
  by (induction ps) (auto simp: upd_list_def)

lemma calm_by_upd:
  assumes "map_of ps pid = Some p" and "contact (f p) = contact p" and "sound p \<Longrightarrow> sound (f p)"
    and "pl_kills (f p) - pl_deaths (f p) = pl_kills p - pl_deaths p + d"
    and "\<And>q. contact (f q) = contact q"
  shows "calm_by d ps (upd_list pid f ps)"
proof -
  have "roster (upd_list pid f ps) = roster ps" using assms(5) by (auto simp: roster_def upd_list_def)
  moreover have "score (upd_list pid f ps) = score ps + d \<and> (all_sound ps \<longrightarrow> all_sound (upd_list pid f ps))"
    if "distinct (map fst ps)" using assms(1) that
  proof (induction ps)
    case (Cons e ps)
    obtain k q where e: "e = (k, q)" by fastforce
    show ?case
    proof (cases "k = pid")
      case True
      then have "q = p" "upd_list pid f ps = ps" using Cons.prems e upd_list_other [of pid ps f] by auto
      moreover have "upd_list pid f (e # ps) = (k, f q) # upd_list pid f ps" using e True by (simp add: upd_list_def)
      ultimately show ?thesis using assms(3,4) e by (simp add: score_def all_sound_def)
    next
      case False
      then have "score (upd_list pid f ps) = score ps + d \<and> (all_sound ps \<longrightarrow> all_sound (upd_list pid f ps))" using Cons e by simp
      moreover have "upd_list pid f (e # ps) = e # upd_list pid f ps" using e False by (simp add: upd_list_def)
      ultimately show ?thesis using e by (simp add: score_def all_sound_def)
    qed
  qed simp
  ultimately show ?thesis by (simp add: calm_by_def)
qed

lemma calm_upd:
  assumes "\<And>q. contact (f q) = contact q" and "\<And>q. sound q \<Longrightarrow> sound (f q)"
    and "\<And>q. pl_kills (f q) - pl_deaths (f q) = pl_kills q - pl_deaths q"
  shows "calm r (upd_player pid f r)"
proof (cases "map_of (gr_players r) pid")
  case None
  then have "pid \<notin> set (map fst (gr_players r))" by (simp add: map_of_eq_None_iff)
  then show ?thesis by (intro calm_same) (simp_all add: upd_list_other)
next
  case (Some p)
  then have "calm_by 0 (gr_players r) (upd_list pid f (gr_players r))" using assms by (intro calm_by_upd) simp_all
  then show ?thesis by (intro calmI) (simp_all add: sends_more_def)
qed

lemma map_of_upd_list: "map_of (upd_list pid f ps) k = map_option (\<lambda>p. if k = pid then f p else p) (map_of ps k)"
  by (induction ps) (auto simp: upd_list_def)

lemma calm_SpawnGroundItem: "calm r (SpawnGroundItem env d pos label r)"
  unfolding SpawnGroundItem_def Let_def by (rule calm_trans [OF _ calm_send(2)], rule calm_same) simp_all

lemma calm_ground: "calm r r' \<Longrightarrow> calm r (r'\<lparr>gr_ground_items := gs\<rparr>)"
  by (erule calm_trans, rule calm_same) simp_all

lemma calm_TryPickup: "calm r (snd (TryPickup env pid gid r))"
proof (cases "map_of (gr_ground_items r) gid")
  case (Some gi)
  then show ?thesis
  proof (cases "find_player r pid")
    case p: (Some p)
    obtain i r1 where r1: "raw env r = (i, r1)" by fastforce
    obtain j r2 where r2: "raw env r1 = (j, r2)" by fastforce
    let ?r3 = "SendTo env p (S_ITEM_ADD (int i) (gi_def gi) (int j mod 100)) r2"
    have "calm r r2" using calm_raw [OF r1] calm_raw [OF r2] by (rule calm_trans)
    also have "calm r2 ?r3" by (rule calm_send) simp
    also have "calm ?r3 (Room_BroadcastAll env (S_GROUND_ITEM_DESPAWN gid) ?r3)" by (rule calm_send) simp
    finally show ?thesis using Some p r1 r2 by (simp add: TryPickup_def Let_def calm_ground)
  qed (simp add: TryPickup_def Some)
qed (simp add: TryPickup_def)

end
