(* ===== verification/Game_Combat.thy ===== *)
theory Game_Combat
  imports Game_Room
begin

text \<open>
  Fighting in a room of the game server: the skill table and \<^verbatim>\<open>CombatSystem\<close>
  (\<^verbatim>\<open>examples/GameServer/src/system/combat_system.cpp\<close>) and the projectiles (\<^verbatim>\<open>game/projectile_manager.cpp\<close>).
\<close>

section \<open>Skills\<close>

record skill_data =
  sk_id :: int
  sk_name :: string
  sk_damage :: int
  sk_range :: real
  sk_cooldown_ms :: int
  sk_is_self_target :: bool

definition kSkills :: "skill_data list" where
  "kSkills =
     [\<lparr>sk_id = 0, sk_name = ''Basic Attack'', sk_damage = 10, sk_range = 2, sk_cooldown_ms = 500, sk_is_self_target = False\<rparr>,
      \<lparr>sk_id = 1, sk_name = ''Power Strike'', sk_damage = 25, sk_range = 5 / 2, sk_cooldown_ms = 2000, sk_is_self_target = False\<rparr>,
      \<lparr>sk_id = 2, sk_name = ''Fireball'', sk_damage = 40, sk_range = 8, sk_cooldown_ms = 3000, sk_is_self_target = False\<rparr>,
      \<lparr>sk_id = 3, sk_name = ''Heal'', sk_damage = -30, sk_range = 0, sk_cooldown_ms = 5000, sk_is_self_target = True\<rparr>]"

definition valid_skill :: "int \<Rightarrow> bool" where
  "valid_skill sid = (0 \<le> sid \<and> sid < int (length kSkills))"

definition skill :: "int \<Rightarrow> skill_data" where
  "skill sid = kSkills ! nat sid"

definition milliseconds :: "int \<Rightarrow> int" where
  "milliseconds n = n * 1000000"

definition cooling :: "(int \<times> int) list \<Rightarrow> int \<Rightarrow> int \<Rightarrow> bool" where
  "cooling cds sid now = (case map_of cds sid of None \<Rightarrow> False | Some t \<Rightarrow> now < t)"

section \<open>A hit\<close>

definition GrantKillReward :: "'r game_env \<Rightarrow> nat \<Rightarrow> 'r game_room \<Rightarrow> 'r game_room" where
  "GrantKillReward env attacker r =
     (case raw env r of (v, r1) \<Rightarrow>
      let r2 = upd_player attacker (\<lambda>p. p\<lparr>pl_gold := pl_gold p + (10 + int v mod 41)\<rparr>) r1 in
      case find_player r2 attacker of
        None \<Rightarrow> r2
      | Some a \<Rightarrow>
        let r3 = (if pl_session a \<noteq> 0 then SendTo env a (S_CURRENCY_UPDATE (pl_gold a)) r2 else r2) in
        case raw env r3 of (chance, r4) \<Rightarrow>
        if chance mod 100 < 30 \<and> pl_session a \<noteq> 0
        then case raw env r4 of (d, r5) \<Rightarrow>
             case raw env r5 of (slot, r6) \<Rightarrow>
             case raw env r6 of (inst, r7) \<Rightarrow>
               SendTo env a (S_ITEM_ADD (int inst) (1 + int d mod 15) (int slot mod 100)) r7
        else r4)"

definition take_damage :: "int \<Rightarrow> player_state \<Rightarrow> player_state" where
  "take_damage damage p =
     (let hp = pl_hp p - damage;
          hp = (if hp > pl_max_hp p then pl_max_hp p else hp);
          hp = (if hp < 0 then 0 else hp)
      in p\<lparr>pl_hp := hp\<rparr>)"

definition DogTag :: "player_state \<Rightarrow> string" where
  "DogTag p = pl_name p @ [CHR 0x27] @ ''s Dog Tag''"

text \<open>The part that an attack and the hit of a projectile share, from the broadcast of the attack on: the target loses
  health, and a death is counted and rewarded.\<close>

definition kill :: "'r game_env \<Rightarrow> int \<Rightarrow> nat \<Rightarrow> nat \<Rightarrow> 'r game_room \<Rightarrow> 'r game_room" where
  "kill env now attacker target r =
     (let r1 = upd_player target (\<lambda>p. p\<lparr>pl_is_dead := True, pl_death_time := now, pl_deaths := pl_deaths p + 1\<rparr>) r;
          r2 = upd_player attacker (\<lambda>p. p\<lparr>pl_kills := pl_kills p + 1\<rparr>) r1;
          r3 = GrantKillReward env attacker r2
      in case (find_player r3 attacker, find_player r3 target) of
           (Some a, Some t) \<Rightarrow>
             if pl_session a \<noteq> 0
             then SpawnGroundItem env 100 (fst (pl_pos t), 1 / 2, snd (snd (pl_pos t))) (DogTag t) r3
             else r3
         | _ \<Rightarrow> r3)"

definition strike :: "'r game_env \<Rightarrow> int \<Rightarrow> nat \<Rightarrow> nat \<Rightarrow> nat \<Rightarrow> int \<Rightarrow> server_msg \<Rightarrow> 'r game_room \<Rightarrow> 'r game_room" where
  "strike env now attacker target shown_id sid attack_msg r =
     (let r1 = Room_BroadcastAll env attack_msg r;
          r2 = upd_player target (take_damage (sk_damage (skill sid))) r1
      in case find_player r2 target of
           None \<Rightarrow> r2
         | Some t \<Rightarrow>
             let r3 = Room_BroadcastAll env (S_DAMAGE attacker shown_id (sk_damage (skill sid)) (pl_hp t) sid (pl_hp t \<le> 0)) r2
             in if pl_hp t \<le> 0 then kill env now attacker target r3 else r3)"

section \<open>Attacks\<close>

definition norm2 :: "real \<Rightarrow> real \<Rightarrow> real" where
  "norm2 x z = sqrt (x * x + z * z)"

definition norm3 :: "vec3 \<Rightarrow> real" where
  "norm3 v = (case v of (x, y, z) \<Rightarrow> sqrt (x * x + y * y + z * z))"

definition vec_diff :: "vec3 \<Rightarrow> vec3 \<Rightarrow> vec3" where
  "vec_diff a b = (fst a - fst b, fst (snd a) - fst (snd b), snd (snd a) - snd (snd b))"

text \<open>The ray cast: the living player nearest along the ray and within 1.5 of it.\<close>

definition ray_candidate :: "nat \<Rightarrow> real \<Rightarrow> vec3 \<Rightarrow> real \<Rightarrow> real \<Rightarrow> nat \<times> player_state \<Rightarrow> real \<times> nat \<Rightarrow> real \<times> nat" where
  "ray_candidate attacker max_dist fire ndx ndz entry best =
     (case entry of (pid, p) \<Rightarrow>
      if pid = attacker \<or> pl_is_dead p then best
      else let vx = fst (pl_pos p) - fst fire; vz = snd (snd (pl_pos p)) - snd (snd fire);
               proj = vx * ndx + vz * ndz
           in if proj < 0 \<or> proj > max_dist then best
              else if (vx * vx + vz * vz) - proj * proj > 3 / 2 * (3 / 2) then best
              else if proj < fst best then (proj, pid) else best)"

definition ray_cast :: "nat \<Rightarrow> real \<Rightarrow> vec3 \<Rightarrow> vec3 \<Rightarrow> (nat \<times> player_state) list \<Rightarrow> nat" where
  "ray_cast attacker max_dist fire dir players =
     (let dir_len = norm2 (fst dir) (snd (snd dir));
          ndx = (if dir_len > 1 / 1000 then fst dir / dir_len else 0);
          ndz = (if dir_len > 1 / 1000 then snd (snd dir) / dir_len else 1)
      in snd (fold (ray_candidate attacker max_dist fire ndx ndz) players (max_dist, 0)))"

definition resolve_target :: "'r game_room \<Rightarrow> nat \<Rightarrow> nat \<Rightarrow> int \<Rightarrow> vec3 \<Rightarrow> vec3 \<Rightarrow> nat option" where
  "resolve_target r attacker target sid fire dir =
     (if sk_is_self_target (skill sid) then Some attacker
      else let resolved = (if target = 0 then ray_cast attacker (sk_range (skill sid)) fire dir (gr_players r) else target) in
           if resolved = 0 then None
           else case (find_player r attacker, find_player r resolved) of
                  (Some a, Some t) \<Rightarrow>
                    if pl_is_dead t then None
                    else if norm3 (vec_diff (pl_pos t) (pl_pos a)) > sk_range (skill sid) then None
                    else Some resolved
                | _ \<Rightarrow> None)"

definition ProcessAttack :: "'r game_env \<Rightarrow> int \<Rightarrow> nat \<Rightarrow> nat \<Rightarrow> int \<Rightarrow> vec3 \<Rightarrow> vec3 \<Rightarrow> 'r game_room \<Rightarrow> bool \<times> 'r game_room" where
  "ProcessAttack env now attacker target sid fire dir r =
     (if \<not> valid_skill sid then (False, r)
      else case find_player r attacker of
        None \<Rightarrow> (False, r)
      | Some a \<Rightarrow>
        if pl_is_dead a then (False, r)
        else if cooling (pl_cooldowns a) sid now then (False, r)
        else let r1 = upd_player attacker
                   (\<lambda>p. p\<lparr>pl_cooldowns := AList.update sid (now + milliseconds (sk_cooldown_ms (skill sid))) (pl_cooldowns p)\<rparr>) r in
             case resolve_target r1 attacker target sid fire dir of
               None \<Rightarrow> (False, r1)
             | Some tid \<Rightarrow>
               let shown = (case find_player r1 tid of None \<Rightarrow> tid | Some t \<Rightarrow> pl_id t)
               in (True, strike env now attacker tid shown sid (S_ATTACK attacker shown sid fire (Some dir)) r1))"

definition ProcessProjectileHit :: "'r game_env \<Rightarrow> int \<Rightarrow> nat \<Rightarrow> nat \<Rightarrow> int \<Rightarrow> 'r game_room \<Rightarrow> bool \<times> 'r game_room" where
  "ProcessProjectileHit env now attacker target sid r =
     (if \<not> valid_skill sid then (False, r)
      else case find_player r attacker of
        None \<Rightarrow> (False, r)
      | Some a \<Rightarrow>
        if pl_is_dead a then (False, r)
        else case find_player r target of
          None \<Rightarrow> (False, r)
        | Some t \<Rightarrow>
          if pl_is_dead t then (False, r)
          else (True, strike env now attacker target target sid (S_ATTACK attacker target sid (pl_pos a) None) r))"

text \<open>Dead players come back after five seconds, on a random tile of the floor.\<close>

definition random_floor :: "'r game_env \<Rightarrow> 'r game_room \<Rightarrow> (real \<times> real) \<times> 'r game_room" where
  "random_floor env r =
     (case GetRandomFloorPosition (ev_draw env) (dg_grid (gr_dungeon r)) (dg_rooms (gr_dungeon r)) (gr_rng r) of
        (None, rng) \<Rightarrow> ((of_int (fst (gr_map_spawn r)), of_int (snd (gr_map_spawn r))), r\<lparr>gr_rng := rng\<rparr>)
      | (Some pos, rng) \<Rightarrow> ((of_int (fst pos), of_int (snd pos)), r\<lparr>gr_rng := rng\<rparr>))"

definition revive :: "real \<times> real \<Rightarrow> player_state \<Rightarrow> player_state" where
  "revive pos p = p\<lparr>pl_is_dead := False, pl_hp := pl_max_hp p, pl_pos := (fst pos, 1 / 2, snd pos)\<rparr>"

definition respawn_one :: "'r game_env \<Rightarrow> int \<Rightarrow> nat \<Rightarrow> 'r game_room \<Rightarrow> 'r game_room" where
  "respawn_one env now pid r =
     (case find_player r pid of
        None \<Rightarrow> r
      | Some p \<Rightarrow>
        if \<not> pl_is_dead p then r
        else if now - pl_death_time p < milliseconds 5000 then r
        else case random_floor env r of (pos, r1) \<Rightarrow>
             Room_BroadcastAll env (S_RESPAWN ((info_of (revive pos p))\<lparr>pi_rotation_y := 0\<rparr>)) (upd_player pid (revive pos) r1))"

definition CheckRespawns :: "'r game_env \<Rightarrow> int \<Rightarrow> 'r game_room \<Rightarrow> 'r game_room" where
  "CheckRespawns env now r = fold (respawn_one env now) (map fst (gr_players r)) r"

section \<open>Projectiles\<close>

definition SpawnProjectile :: "nat \<Rightarrow> vec3 \<Rightarrow> vec3 \<Rightarrow> int \<Rightarrow> 'r game_room \<Rightarrow> 'r game_room" where
  "SpawnProjectile owner pos dir sid r =
     (if norm3 dir < 1 / 1000 then r
      else r\<lparr>gr_next_projectile := gr_next_projectile r + 1,
             gr_projectiles := gr_projectiles r @
               [\<lparr>pr_id = gr_next_projectile r, pr_owner = owner, pr_pos = pos,
                 pr_dir = (fst dir / norm3 dir, fst (snd dir) / norm3 dir, snd (snd dir) / norm3 dir),
                 pr_traveled = 0, pr_skill = sid\<rparr>]\<rparr>)"

definition round_away :: "real \<Rightarrow> int" where
  "round_away x = (if x \<ge> 0 then \<lfloor>x + 1 / 2\<rfloor> else \<lceil>x - 1 / 2\<rceil>)"

definition WorldToGrid :: "real \<Rightarrow> real \<Rightarrow> coord" where
  "WorldToGrid wx wz = (round_away (wx + of_int GRID_WIDTH / 2), round_away (wz + of_int GRID_HEIGHT / 2))"

definition CheckWallCollision :: "grid \<Rightarrow> real \<times> real \<Rightarrow> real \<times> real \<Rightarrow> bool" where
  "CheckWallCollision g old new =
     (let dx = fst new - fst old; dz = snd new - snd old; steps = nat (trunc (norm2 dx dz / (1 / 2))) + 1
      in list_ex (\<lambda>i. let t = real i / real steps
                      in GetTile g (WorldToGrid (fst old + dx * t) (snd old + dz * t)) \<noteq> 0) [1..<Suc steps])"

definition advance :: "real \<Rightarrow> projectile \<Rightarrow> projectile" where
  "advance dt p =
     (let move = 80 * dt in
      p\<lparr>pr_pos := (fst (pr_pos p) + fst (pr_dir p) * move, fst (snd (pr_pos p)) + fst (snd (pr_dir p)) * move,
                   snd (snd (pr_pos p)) + snd (snd (pr_dir p)) * move),
        pr_traveled := pr_traveled p + move\<rparr>)"

definition hit_player :: "projectile \<Rightarrow> 'r game_room \<Rightarrow> nat option" where
  "hit_player p r =
     map_option fst (find (\<lambda>(pid, ps). \<not> (pid = pr_owner p \<or> pl_is_dead ps) \<and>
       norm2 (fst (pl_pos ps) - fst (pr_pos p)) (snd (snd (pl_pos ps)) - snd (snd (pr_pos p))) < 3 / 2) (gr_players r))"

text \<open>The loop goes from the last projectile to the first: the first argument is what is left, the last one first.\<close>

fun projectile_loop :: "'r game_env \<Rightarrow> int \<Rightarrow> real \<Rightarrow> projectile list \<Rightarrow> projectile list \<Rightarrow> 'r game_room \<Rightarrow> 'r game_room" where
  "projectile_loop env now dt [] kept r = r\<lparr>gr_projectiles := kept\<rparr>"
| "projectile_loop env now dt (p # ps) kept r =
     (let p' = advance dt p in
      if pr_traveled p' > 50 then projectile_loop env now dt ps kept r
      else if CheckWallCollision (dg_grid (gr_dungeon r)) (fst (pr_pos p), snd (snd (pr_pos p))) (fst (pr_pos p'), snd (snd (pr_pos p')))
      then projectile_loop env now dt ps kept r
      else case hit_player p' r of
             Some pid \<Rightarrow> projectile_loop env now dt ps kept (snd (ProcessProjectileHit env now (pr_owner p') pid (pr_skill p') r))
           | None \<Rightarrow> projectile_loop env now dt ps (p' # kept) r)"

definition ProjectileUpdate :: "'r game_env \<Rightarrow> int \<Rightarrow> real \<Rightarrow> 'r game_room \<Rightarrow> 'r game_room" where
  "ProjectileUpdate env now dt r = projectile_loop env now dt (rev (gr_projectiles r)) [] r"

section \<open>Fighting is calm\<close>

lemma contact_fields [simp]:
  "contact (p\<lparr>pl_gold := g\<rparr>) = contact p" "contact (p\<lparr>pl_kills := k\<rparr>) = contact p" "contact (p\<lparr>pl_cooldowns := c\<rparr>) = contact p"
  "contact (p\<lparr>pl_hp := h\<rparr>) = contact p" "contact (p\<lparr>pl_is_dead := b, pl_death_time := t, pl_deaths := d\<rparr>) = contact p"
  by (simp_all add: contact_def)

lemma sound_fields [simp]:
  "sound (p\<lparr>pl_gold := g\<rparr>) = sound p" "sound (p\<lparr>pl_kills := k\<rparr>) = sound p" "sound (p\<lparr>pl_cooldowns := c\<rparr>) = sound p"
  by (simp_all add: sound_def)

lemma calm_GrantKillReward: "calm r (GrantKillReward env a r)"
proof -
  obtain v r1 where r1: "raw env r = (v, r1)" by fastforce
  let ?r2 = "upd_player a (\<lambda>p. p\<lparr>pl_gold := pl_gold p + (10 + int v mod 41)\<rparr>) r1"
  have c2: "calm r ?r2" using calm_raw [OF r1] by (rule calm_trans) (rule calm_upd, simp_all)
  show ?thesis
  proof (cases "find_player ?r2 a")
    case (Some p)
    let ?r3 = "if pl_session p \<noteq> 0 then SendTo env p (S_CURRENCY_UPDATE (pl_gold p)) ?r2 else ?r2"
    have "calm ?r2 ?r3" by (simp add: calm_send)
    then have c3: "calm r ?r3" using c2 by (rule calm_trans [rotated])
    obtain w r4 where r4: "raw env ?r3 = (w, r4)" by fastforce
    obtain d r5 where r5: "raw env r4 = (d, r5)" by fastforce
    obtain s r6 where r6: "raw env r5 = (s, r6)" by fastforce
    obtain i r7 where r7: "raw env r6 = (i, r7)" by fastforce
    have c4: "calm r r4" by (rule calm_trans [OF c3 calm_raw [OF r4]])
    have c7: "calm r r7" by (rule calm_trans [OF calm_trans [OF calm_trans [OF c4 calm_raw [OF r5]] calm_raw [OF r6]] calm_raw [OF r7]])
    have "calm r (SendTo env p (S_ITEM_ADD (int i) (1 + int d mod 15) (int s mod 100)) r7)" by (rule calm_trans [OF c7 calm_send(1)]) simp
    then show ?thesis using c4 Some r1 r4 r5 r6 r7 by (simp add: GrantKillReward_def Let_def)
  qed (use c2 r1 in \<open>simp add: GrantKillReward_def Let_def\<close>)
qed

lemma take_damage_fields [simp]:
  "contact (take_damage d p) = contact p" "pl_kills (take_damage d p) = pl_kills p" "pl_deaths (take_damage d p) = pl_deaths p"
  "pl_is_dead (take_damage d p) = pl_is_dead p" "pl_max_hp (take_damage d p) = pl_max_hp p"
  by (simp_all add: take_damage_def Let_def contact_def)

lemma take_damage_hp: "pl_max_hp p = 100 \<Longrightarrow> 0 \<le> pl_hp (take_damage d p) \<and> pl_hp (take_damage d p) \<le> pl_max_hp p"
  by (simp add: take_damage_def Let_def)

text \<open>The changes a death makes, up to the reward.\<close>

lemma calm_by_kill:
  assumes t: "map_of ps target = Some t" and a: "map_of ps attacker = Some a" and dead: "pl_hp (take_damage d t) \<le> 0"
    and ps': "ps' = upd_list attacker (\<lambda>p. p\<lparr>pl_kills := pl_kills p + 1\<rparr>)
      (upd_list target (\<lambda>p. p\<lparr>pl_is_dead := True, pl_death_time := now, pl_deaths := pl_deaths p + 1\<rparr>) (upd_list target (take_damage d) ps))"
  shows "calm_by 0 ps ps'"
proof -
  let ?f = "\<lambda>p. (take_damage d p)\<lparr>pl_is_dead := True, pl_death_time := now, pl_deaths := pl_deaths (take_damage d p) + 1\<rparr>"
  have s: "sound (?f t)" if "sound t"
    using that dead take_damage_hp [of t d] by (auto simp: sound_def)
  have one: "upd_list target (\<lambda>p. p\<lparr>pl_is_dead := True, pl_death_time := now, pl_deaths := pl_deaths p + 1\<rparr>) (upd_list target (take_damage d) ps)
      = upd_list target ?f ps" by (simp add: upd_list_def comp_def case_prod_beta)
  have "calm_by (-1) ps (upd_list target ?f ps)" using t s by (intro calm_by_upd) auto
  moreover obtain b where "map_of (upd_list target ?f ps) attacker = Some b" using a by (auto simp: map_of_upd_list)
  then have "calm_by 1 (upd_list target ?f ps) ps'" unfolding ps' one by (intro calm_by_upd) auto
  ultimately show ?thesis by (rule calm_by_trans) simp
qed

lemma outbox_kill_start: "sends_more r r' \<Longrightarrow> sends_more r (upd_player k f r')"
  by (simp add: sends_more_def)

lemma calm_strike:
  assumes t: "find_player r target = Some t" "\<not> pl_is_dead t" and a: "find_player r attacker = Some a" and m: "entity_free attack_msg"
  shows "calm r (strike env now attacker target shown sid attack_msg r)"
proof -
  let ?d = "sk_damage (skill sid)"
  let ?r2 = "upd_player target (take_damage ?d) (Room_BroadcastAll env attack_msg r)"
  have f2: "find_player ?r2 target = Some (take_damage ?d t)" using t by (simp add: find_player_def map_of_upd_list)
  let ?t = "take_damage ?d t"
  let ?r3 = "Room_BroadcastAll env (S_DAMAGE attacker shown ?d (pl_hp ?t) sid (pl_hp ?t \<le> 0)) ?r2"
  have more: "sends_more r ?r3"
    by (rule sends_more_trans [OF outbox_kill_start [OF sends_more_send(2) [OF m]] sends_more_send(2)]) simp
  show ?thesis
  proof (cases "pl_hp ?t \<le> 0")
    case False
    have "sound ?t" if "sound t" using that False t(2) take_damage_hp [of t ?d] by (auto simp: sound_def)
    then have "calm_by 0 (gr_players r) (upd_list target (take_damage ?d) (gr_players r))"
      using t(1) by (intro calm_by_upd) (auto simp: find_player_def)
    then have "calm r ?r3" using more by (simp add: calm_def)
    then show ?thesis using False f2 by (simp add: strike_def Let_def)
  next
    case True
    let ?r5 = "upd_player attacker (\<lambda>p. p\<lparr>pl_kills := pl_kills p + 1\<rparr>)
      (upd_player target (\<lambda>p. p\<lparr>pl_is_dead := True, pl_death_time := now, pl_deaths := pl_deaths p + 1\<rparr>) ?r3)"
    have "calm_by 0 (gr_players r) (gr_players ?r5)"
      using t(1) a True by (intro calm_by_kill) (auto simp: find_player_def)
    then have "calm r ?r5" by (rule calmI [OF _ outbox_kill_start [OF outbox_kill_start [OF more]]]) simp
    also have "calm ?r5 (GrantKillReward env attacker ?r5)" by (rule calm_GrantKillReward)
    finally have g: "calm r (GrantKillReward env attacker ?r5)" .
    have "calm r (kill env now attacker target ?r3)"
      unfolding kill_def Let_def using g calm_trans [OF g calm_SpawnGroundItem] by (auto split: option.splits)
    then show ?thesis using True f2 by (simp add: strike_def Let_def)
  qed
qed

lemma resolve_targetD:
  assumes "resolve_target r attacker target sid fire dir = Some tid" and "find_player r attacker = Some a" and "\<not> pl_is_dead a"
  shows "\<exists>t. find_player r tid = Some t \<and> \<not> pl_is_dead t"
  using assms by (auto simp: resolve_target_def Let_def split: if_splits option.splits)

lemma calm_ProcessAttack: "calm r (snd (ProcessAttack env now attacker target sid fire dir r))"
proof (cases "find_player r attacker")
  case (Some a)
  let ?r1 = "upd_player attacker (\<lambda>p. p\<lparr>pl_cooldowns := AList.update sid (now + milliseconds (sk_cooldown_ms (skill sid))) (pl_cooldowns p)\<rparr>) r"
  have c1: "calm r ?r1" by (rule calm_upd) simp_all
  show ?thesis
  proof (cases "valid_skill sid \<and> \<not> pl_is_dead a \<and> \<not> cooling (pl_cooldowns a) sid now")
    case True
    have a: "\<exists>b. find_player ?r1 attacker = Some b \<and> \<not> pl_is_dead b" using Some True by (simp add: find_player_def map_of_upd_list)
    then obtain b where b: "find_player ?r1 attacker = Some b" "\<not> pl_is_dead b" by blast
    show ?thesis
    proof (cases "resolve_target ?r1 attacker target sid fire dir")
      case None
      then show ?thesis using Some True c1 by (simp add: ProcessAttack_def Let_def)
    next
      case tid: (Some tid)
      obtain t where t: "find_player ?r1 tid = Some t" "\<not> pl_is_dead t" using resolve_targetD [OF tid b] by blast
      have "calm ?r1 (strike env now attacker tid (pl_id t) sid (S_ATTACK attacker (pl_id t) sid fire (Some dir)) ?r1)"
        by (rule calm_strike [OF t b(1)]) simp
      then have "calm r (strike env now attacker tid (pl_id t) sid (S_ATTACK attacker (pl_id t) sid fire (Some dir)) ?r1)"
        by (rule calm_trans [OF c1])
      then show ?thesis using Some True tid t(1) by (simp add: ProcessAttack_def Let_def)
    qed
  qed (use Some in \<open>auto simp: ProcessAttack_def\<close>)
qed (auto simp: ProcessAttack_def)

lemma calm_ProcessProjectileHit: "calm r (snd (ProcessProjectileHit env now attacker target sid r))"
  using calm_strike by (fastforce simp: ProcessProjectileHit_def split: option.splits)

lemma random_floor_same:
  "random_floor env r = (pos, r') \<Longrightarrow> gr_players r' = gr_players r \<and> gr_outbox r' = gr_outbox r \<and> gr_bots r' = gr_bots r \<and> room_frame r' = room_frame r"
  by (auto simp: random_floor_def split: prod.splits option.splits)

lemma calm_respawn_one: "calm r (respawn_one env now pid r)"
proof (cases "find_player r pid")
  case (Some p)
  obtain pos r1 where r1: "random_floor env r = (pos, r1)" by fastforce
  have "calm r r1" using random_floor_same [OF r1] by (intro calm_same) simp_all
  also have "calm r1 (upd_player pid (revive pos) r1)" by (rule calm_upd) (simp_all add: revive_def contact_def sound_def)
  also have "calm \<dots> (Room_BroadcastAll env (S_RESPAWN ((info_of (revive pos p))\<lparr>pi_rotation_y := 0\<rparr>)) (upd_player pid (revive pos) r1))"
    by (rule calm_send) simp
  finally show ?thesis using Some r1 by (simp add: respawn_one_def)
qed (simp add: respawn_one_def)

lemma calm_CheckRespawns: "calm r (CheckRespawns env now r)"
  unfolding CheckRespawns_def by (rule calm_fold) (rule calm_respawn_one)

lemma calm_SpawnProjectile: "calm r (SpawnProjectile owner pos dir sid r)"
  by (rule calm_same) (simp_all add: SpawnProjectile_def)

lemma calm_projectile_loop: "calm r (projectile_loop env now dt ps kept r)"
proof (induction ps arbitrary: kept r)
  case Nil
  show ?case by (rule calm_same) simp_all
next
  case (Cons p ps)
  have "calm r (projectile_loop env now dt ps kept (snd (ProcessProjectileHit env now o' pid sid r)))" for o' pid sid
    by (rule calm_trans [OF calm_ProcessProjectileHit Cons.IH])
  then show ?case using Cons.IH by (simp add: Let_def split: option.split)
qed

lemma calm_ProjectileUpdate: "calm r (ProjectileUpdate env now dt r)"
  unfolding ProjectileUpdate_def by (rule calm_projectile_loop)

end
