(* ===== verification/Game_Bots.thy ===== *)
theory Game_Bots
  imports Text_Lib Bot_Path Game_Combat
begin

text \<open>
  The bots of a room (\<^verbatim>\<open>examples/GameServer/src/game/bot_manager.cpp\<close>): spawning, fighting, walking along the paths of
  \<^verbatim>\<open>AStarSearch\<close>, and coming back after death. A bot has an entry among the players of its room, without a session, and a
  state of its own in \<^verbatim>\<open>gr_bots\<close>.
\<close>

section \<open>Spawning\<close>

definition bot_state_new :: "nat \<Rightarrow> vec3 \<Rightarrow> bot_state" where
  "bot_state_new bid pos =
     \<lparr>bt_id = bid, bt_name = ''Bot_'' @ show_nat bid, bt_pos = pos, bt_target = (fst pos, snd (snd pos)), bt_vel = (0, 0, 0),
      bt_rotation_y = 0, bt_hp = 100, bt_max_hp = 100, bt_is_dead = False, bt_has_target = False, bt_chase_target = 0,
      bt_death_time = 0, bt_path = [], bt_path_idx = 0, bt_cooldowns = [], bt_aggro_origin = (0, 0), bt_chase_start = 0,
      bt_is_retreating = False\<rparr>"

definition bot_player :: "bot_state \<Rightarrow> player_state" where
  "bot_player b = player_state_new\<lparr>pl_id := bt_id b, pl_name := bt_name b, pl_hp := bt_hp b, pl_max_hp := bt_max_hp b,
     pl_level := 1, pl_pos := bt_pos b, pl_ring := False, pl_session := 0, pl_worker := 0\<rparr>"

primrec spawn_loop :: "'r game_env \<Rightarrow> nat \<Rightarrow> player_info list \<Rightarrow> 'r game_room \<Rightarrow> player_info list \<times> 'r game_room" where
  "spawn_loop env 0 batch r = (batch, r)"
| "spawn_loop env (Suc n) batch r =
     (let bid = gr_next_bot r in
      case ev_draw_real env (-3) 3 (gr_rng r) of (ox, rng1) \<Rightarrow>
      case ev_draw_real env (-3) 3 rng1 of (oz, rng2) \<Rightarrow>
      let b = bot_state_new bid (of_int (fst (gr_map_spawn r)) + ox, 1 / 2, of_int (snd (gr_map_spawn r)) + oz)
      in spawn_loop env n (batch @ [info_of (bot_player b)])
           (r\<lparr>gr_next_bot := bid + 1, gr_rng := rng2, gr_players := AList.update bid (bot_player b) (gr_players r),
              gr_bots := AList.update bid b (gr_bots r)\<rparr>))"

definition SpawnBots :: "'r game_env \<Rightarrow> nat \<Rightarrow> 'r game_room \<Rightarrow> 'r game_room" where
  "SpawnBots env cnt r =
     (let session_count_before = length (filter (\<lambda>(k, p). pl_session p \<noteq> 0) (gr_players r)) in
      case spawn_loop env cnt [] r of (batch, r1) \<Rightarrow>
        if batch \<noteq> [] \<and> session_count_before > 0 then Room_BroadcastAll env (S_PLAYER_LIST batch) r1 else r1)"

section \<open>Walking\<close>

definition atan2 :: "real \<Rightarrow> real \<Rightarrow> real" where
  "atan2 y x =
     (if x > 0 then arctan (y / x)
      else if x < 0 then (if y \<ge> 0 then arctan (y / x) + pi else arctan (y / x) - pi)
      else if y > 0 then pi / 2 else if y < 0 then - (pi / 2) else 0)"

definition to_degrees :: "real \<Rightarrow> real" where
  "to_degrees a = a * (180 / (314159265 / 100000000))"

primrec waypoint_loop :: "'r game_env \<Rightarrow> grid \<Rightarrow> nat \<Rightarrow> bot_state \<Rightarrow> 'r \<Rightarrow> bot_state \<times> 'r" where
  "waypoint_loop env g 0 b rng = (b, rng)"
| "waypoint_loop env g (Suc n) b rng =
     (case ev_draw env 0 (GRID_WIDTH - 1) rng of (gx, rng1) \<Rightarrow>
      case ev_draw env 0 (GRID_HEIGHT - 1) rng1 of (gy, rng2) \<Rightarrow>
      if GetTile g (gx, gy) = 0
      then let w = GridToWorld (gx, gy); wx = real_of_int (fst w); wz = real_of_int (snd w);
               dx = wx - fst (bt_pos b); dz = wz - snd (snd (bt_pos b))
           in if dx * dx + dz * dz > 15 * 15 then waypoint_loop env g n b rng2
              else (b\<lparr>bt_target := (wx, wz), bt_has_target := True, bt_chase_target := 0\<rparr>, rng2)
      else waypoint_loop env g n b rng2)"

definition PickNewWaypoint :: "'r game_env \<Rightarrow> bot_state \<Rightarrow> 'r game_room \<Rightarrow> bot_state \<times> 'r game_room" where
  "PickNewWaypoint env b r =
     (case waypoint_loop env (dg_grid (gr_dungeon r)) 50 b (gr_rng r) of (b', rng) \<Rightarrow> (b', r\<lparr>gr_rng := rng\<rparr>))"

definition stop_walking :: "bot_state \<Rightarrow> bot_state" where
  "stop_walking b = b\<lparr>bt_has_target := False, bt_vel := (0, fst (snd (bt_vel b)), 0)\<rparr>"

definition find_path :: "'r game_env \<Rightarrow> grid \<Rightarrow> bot_state \<Rightarrow> coord list" where
  "find_path env g b =
     (let s = WorldToGrid (fst (bt_pos b)) (snd (snd (bt_pos b))); t = WorldToGrid (fst (bt_target b)) (snd (bt_target b))
      in the (AStarSearch (ev_tie env s t) g s t))"

definition walk_on :: "real \<Rightarrow> bot_state \<Rightarrow> bot_state" where
  "walk_on dt b =
     (let w = GridToWorld (bt_path b ! bt_path_idx b);
          dx = of_int (fst w) - fst (bt_pos b); dz = of_int (snd w) - snd (snd (bt_pos b)); dist = norm2 dx dz
      in if dist < 3 / 10
         then let b1 = b\<lparr>bt_path_idx := bt_path_idx b + 1\<rparr>
              in if bt_path_idx b1 \<ge> length (bt_path b1) then stop_walking b1 else b1
         else let nx = dx / dist; nz = dz / dist; vx = nx * 3; vz = nz * 3
              in b\<lparr>bt_vel := (vx, fst (snd (bt_vel b)), vz),
                   bt_pos := (fst (bt_pos b) + vx * dt, fst (snd (bt_pos b)), snd (snd (bt_pos b)) + vz * dt),
                   bt_rotation_y := to_degrees (atan2 nx nz)\<rparr>)"

definition UpdateMovement :: "'r game_env \<Rightarrow> grid \<Rightarrow> real \<Rightarrow> bot_state \<Rightarrow> bot_state" where
  "UpdateMovement env g dt b =
     (if \<not> bt_has_target b \<and> bt_chase_target b = 0 then b
      else if bt_path b = [] \<or> bt_path_idx b \<ge> length (bt_path b)
      then let b1 = b\<lparr>bt_path := find_path env g b, bt_path_idx := 0\<rparr>
           in if bt_path b1 = [] then stop_walking b1 else walk_on dt b1
      else walk_on dt b)"

section \<open>Fighting\<close>

definition bot_cooldown :: "int \<Rightarrow> int \<Rightarrow> bot_state \<Rightarrow> bot_state" where
  "bot_cooldown sid until b = b\<lparr>bt_cooldowns := AList.update sid until (bt_cooldowns b)\<rparr>"

definition low_hp :: "real \<Rightarrow> bot_state \<Rightarrow> bool" where
  "low_hp ratio b = (bt_hp b < trunc (of_int (bt_max_hp b) * ratio))"

definition try_heal :: "'r game_env \<Rightarrow> int \<Rightarrow> bot_state \<Rightarrow> 'r game_room \<Rightarrow> bot_state \<times> 'r game_room" where
  "try_heal env now b r =
     (if low_hp (3 / 10) b \<and> \<not> cooling (bt_cooldowns b) 3 now
      then let r1 = snd (ProcessAttack env now (bt_id b) (bt_id b) 3 (bt_pos b) (0, 0, 0) r);
               b1 = bot_cooldown 3 (now + milliseconds 5000) b
           in (case find_player r1 (bt_id b) of None \<Rightarrow> b1 | Some p \<Rightarrow> b1\<lparr>bt_hp := pl_hp p\<rparr>, r1)
      else (b, r))"

definition nearer :: "bot_state \<Rightarrow> nat \<times> player_state \<Rightarrow> real \<times> nat \<times> real \<times> real \<Rightarrow> real \<times> nat \<times> real \<times> real" where
  "nearer b entry best =
     (case entry of (pid, p) \<Rightarrow>
      if pid = bt_id b \<or> pl_is_dead p then best
      else let x = fst (pl_pos p); z = snd (snd (pl_pos p)); dist = norm2 (x - fst (bt_pos b)) (z - snd (snd (bt_pos b)))
           in if dist < fst best then (dist, pid, x, z) else best)"

definition aggro_reset :: "int \<Rightarrow> bot_state \<Rightarrow> bool" where
  "aggro_reset now b =
     (norm2 (fst (bt_pos b) - fst (bt_aggro_origin b)) (snd (snd (bt_pos b)) - snd (bt_aggro_origin b)) > 15 \<or>
      (now - bt_chase_start b) div milliseconds 1000 > 10)"

definition fireball :: "'r game_env \<Rightarrow> int \<Rightarrow> real \<Rightarrow> real \<Rightarrow> bot_state \<Rightarrow> 'r game_room \<Rightarrow> bot_state \<times> 'r game_room" where
  "fireball env now dx dz b r =
     (if cooling (bt_cooldowns b) 2 now then (b, r)
      else (bot_cooldown 2 (now + milliseconds 3000) b,
            Room_BroadcastAll env (S_FIRE (bt_id b) (bt_pos b) (dx, 0, dz)) (SpawnProjectile (bt_id b) (bt_pos b) (dx, 0, dz) 2 r)))"

definition melee :: "'r game_env \<Rightarrow> int \<Rightarrow> nat \<Rightarrow> real \<Rightarrow> real \<Rightarrow> bot_state \<Rightarrow> 'r game_room \<Rightarrow> bot_state \<times> 'r game_room" where
  "melee env now nearest_id dx dz b r =
     (let b1 = stop_walking b; use_skill = (if cooling (bt_cooldowns b) 1 now then 0 else 1) in
      if cooling (bt_cooldowns b1) use_skill now then (b1, r)
      else (bot_cooldown use_skill (now + milliseconds (if use_skill = 1 then 2000 else 500)) b1,
            snd (ProcessAttack env now (bt_id b) nearest_id use_skill (bt_pos b) (dx, 0, dz) r)))"

definition chase :: "int \<Rightarrow> nat \<Rightarrow> real \<times> real \<Rightarrow> bot_state \<Rightarrow> bot_state" where
  "chase now nearest_id target b =
     (let b1 = (if bt_chase_target b = 0
                then b\<lparr>bt_aggro_origin := (fst (bt_pos b), snd (snd (bt_pos b))), bt_chase_start := now\<rparr> else b)
      in b1\<lparr>bt_chase_target := nearest_id, bt_target := target, bt_has_target := True\<rparr>)"

definition engage :: "'r game_env \<Rightarrow> int \<Rightarrow> real \<Rightarrow> nat \<Rightarrow> real \<times> real \<Rightarrow> bot_state \<Rightarrow> 'r game_room \<Rightarrow> bot_state \<times> 'r game_room" where
  "engage env now nearest_dist nearest_id target b r =
     (let x = fst target - fst (bt_pos b); z = snd target - snd (snd (bt_pos b)); len = norm2 x z;
          dx = (if len > 0 then x / len else x); dz = (if len > 0 then z / len else z);
          b1 = b\<lparr>bt_rotation_y := to_degrees (atan2 dx dz)\<rparr>
      in if low_hp (4 / 10) b1 \<and> nearest_dist < 3
         then fireball env now dx dz
                (b1\<lparr>bt_is_retreating := True, bt_target := (fst (bt_pos b) - dx * 8, snd (snd (bt_pos b)) - dz * 8),
                    bt_has_target := True, bt_chase_target := 0\<rparr>) r
         else let b2 = b1\<lparr>bt_is_retreating := False\<rparr> in
              if nearest_dist \<le> 2 then melee env now nearest_id dx dz b2 r
              else if nearest_dist \<le> 8
              then case fireball env now dx dz b2 r of (b3, r3) \<Rightarrow> (chase now nearest_id target b3, r3)
              else (chase now nearest_id target b2, r))"

definition UpdateCombat :: "'r game_env \<Rightarrow> int \<Rightarrow> bot_state \<Rightarrow> 'r game_room \<Rightarrow> bot_state \<times> 'r game_room" where
  "UpdateCombat env now b0 r0 =
     (case try_heal env now b0 r0 of (b, r) \<Rightarrow>
      case fold (nearer b) (gr_players r) (8, 0, 0, 0) of (nearest_dist, nearest_id, target) \<Rightarrow>
      if nearest_id = 0 then (b\<lparr>bt_chase_target := 0, bt_is_retreating := False\<rparr>, r)
      else if bt_chase_target b \<noteq> 0 \<and> aggro_reset now b
      then (b\<lparr>bt_chase_target := 0, bt_has_target := False, bt_is_retreating := False\<rparr>, r)
      else engage env now nearest_dist nearest_id target b r)"

section \<open>The tick of the bots\<close>

definition BroadcastBotMove :: "'r game_env \<Rightarrow> bot_state \<Rightarrow> 'r game_room \<Rightarrow> 'r game_room" where
  "BroadcastBotMove env b r =
     (case find_player r (bt_id b) of
        None \<Rightarrow> r
      | Some p \<Rightarrow>
        let vel = (fst (bt_vel b), 0, snd (snd (bt_vel b)));
            state = (if bt_is_retreating b \<or> bt_chase_target b \<noteq> 0 then 2
                     else if fst (bt_vel b) \<noteq> 0 \<or> snd (snd (bt_vel b)) \<noteq> 0 then 1 else 0)
        in Room_BroadcastAll env (S_MOVE (bt_id b) (bt_pos b) (bt_rotation_y b) vel state)
             (upd_player (bt_id b) (\<lambda>p. p\<lparr>pl_pos := bt_pos b, pl_vel := vel, pl_rotation_y := bt_rotation_y b\<rparr>) r))"

definition upd_bot :: "nat \<Rightarrow> (bot_state \<Rightarrow> bot_state) \<Rightarrow> 'r game_room \<Rightarrow> 'r game_room" where
  "upd_bot bid f r = r\<lparr>gr_bots := map (\<lambda>(k, b). (k, if k = bid then f b else b)) (gr_bots r)\<rparr>"

definition sync_bot :: "(nat \<times> player_state) list \<Rightarrow> nat \<times> bot_state \<Rightarrow> nat \<times> bot_state" where
  "sync_bot players entry =
     (case entry of (bid, b) \<Rightarrow>
      case map_of players bid of
        None \<Rightarrow> (bid, b)
      | Some p \<Rightarrow>
          if pl_is_dead p \<and> \<not> bt_is_dead b
          then (bid, b\<lparr>bt_is_dead := True, bt_death_time := pl_death_time p, bt_hp := 0, bt_vel := (0, fst (snd (bt_vel b)), 0),
                       bt_has_target := False, bt_chase_target := 0, bt_path := [], bt_path_idx := 0\<rparr>)
          else (bid, b))"

definition run_bot :: "'r game_env \<Rightarrow> int \<Rightarrow> real \<Rightarrow> nat \<Rightarrow> 'r game_room \<Rightarrow> 'r game_room" where
  "run_bot env now dt bid r =
     (case map_of (gr_bots r) bid of
        None \<Rightarrow> r
      | Some b \<Rightarrow>
        if bt_is_dead b then r
        else case UpdateCombat env now b r of (b1, r1) \<Rightarrow>
             case (if \<not> bt_has_target b1 \<and> bt_chase_target b1 = 0 then PickNewWaypoint env b1 r1 else (b1, r1)) of (b2, r2) \<Rightarrow>
             let b3 = UpdateMovement env (dg_grid (gr_dungeon r2)) dt b2
             in upd_bot bid (\<lambda>_. b3) (BroadcastBotMove env b3 r2))"

definition bot_respawn :: "'r game_env \<Rightarrow> int \<Rightarrow> nat \<Rightarrow> 'r game_room \<Rightarrow> 'r game_room" where
  "bot_respawn env now bid r =
     (case map_of (gr_bots r) bid of
        None \<Rightarrow> r
      | Some b \<Rightarrow>
        if \<not> bt_is_dead b then r
        else if (now - bt_death_time b) div milliseconds 1000 < 5 then r
        else case random_floor env r of (pos, r1) \<Rightarrow>
             let b' = b\<lparr>bt_is_dead := False, bt_hp := bt_max_hp b, bt_pos := (fst pos, 1 / 2, snd pos), bt_has_target := False,
                        bt_chase_target := 0, bt_vel := (0, fst (snd (bt_vel b)), 0)\<rparr>;
                 r2 = upd_player bid (\<lambda>p. p\<lparr>pl_hp := bt_hp b', pl_is_dead := False, pl_pos := bt_pos b'\<rparr>) (upd_bot bid (\<lambda>_. b') r1)
             in Room_BroadcastAll env (S_RESPAWN \<lparr>pi_id = bid, pi_name = bt_name b', pi_hp = bt_hp b', pi_max_hp = bt_max_hp b',
                  pi_level = 1, pi_pos = bt_pos b', pi_rotation_y = 0\<rparr>) r2)"

definition BotUpdate :: "'r game_env \<Rightarrow> int \<Rightarrow> real \<Rightarrow> 'r game_room \<Rightarrow> 'r game_room" where
  "BotUpdate env now dt r =
     (let r1 = r\<lparr>gr_bots := map (sync_bot (gr_players r)) (gr_bots r)\<rparr>;
          r2 = fold (run_bot env now dt) (map fst (gr_bots r1)) r1
      in fold (bot_respawn env now) (map fst (gr_bots r2)) r2)"

section \<open>A living bot has full health in its own state\<close>

definition vitals :: "bot_state \<Rightarrow> nat \<times> int \<times> int \<times> bool" where
  "vitals b = (bt_id b, bt_hp b, bt_max_hp b, bt_is_dead b)"

lemma bot_ok_vitals: "vitals b' = vitals b \<Longrightarrow> bot_ok k b' = bot_ok k b"
  by (simp add: vitals_def bot_ok_def)

lemma vitals_waypoint: "waypoint_loop env g n b rng = (b', rng') \<Longrightarrow> vitals b' = vitals b"
  by (induction n arbitrary: rng) (auto simp: vitals_def Let_def split: prod.splits if_splits)

lemma vitals_PickNewWaypoint: "PickNewWaypoint env b r = (b', r') \<Longrightarrow> vitals b' = vitals b \<and> calm r r'"
  by (auto simp: PickNewWaypoint_def dest: vitals_waypoint intro!: calm_same split: prod.splits)

lemma vitals_simps [simp]:
  "vitals (stop_walking b) = vitals b" "vitals (walk_on dt b) = vitals b" "vitals (bot_cooldown sid t b) = vitals b"
  "vitals (chase now k target b) = vitals b"
  by (simp_all add: vitals_def stop_walking_def walk_on_def bot_cooldown_def chase_def Let_def)

lemma vitals_UpdateMovement: "vitals (UpdateMovement env g dt b) = vitals b"
  by (simp add: UpdateMovement_def Let_def) (simp add: vitals_def)

lemma low_hp_full: "bot_ok k b \<Longrightarrow> \<not> bt_is_dead b \<Longrightarrow> \<not> low_hp (3 / 10) b \<and> \<not> low_hp (4 / 10) b"
  by (simp add: bot_ok_def low_hp_def trunc_def)

lemma fireball_calm: "fireball env now dx dz b r = (b', r') \<Longrightarrow> vitals b' = vitals b \<and> calm r r'"
  unfolding fireball_def by (auto split: if_splits intro!: calm_trans [OF calm_SpawnProjectile calm_send(2)])

lemma melee_calm: "melee env now k dx dz b r = (b', r') \<Longrightarrow> vitals b' = vitals b \<and> calm r r'"
  unfolding melee_def Let_def by (auto split: if_splits intro: calm_ProcessAttack)

lemma engage_calm: "engage env now d k target b r = (b', r') \<Longrightarrow> vitals b' = vitals b \<and> calm r r'"
  unfolding engage_def Let_def
  by (auto dest!: fireball_calm melee_calm split: if_splits prod.splits) (simp_all add: vitals_def)

lemma UpdateCombat_calm:
  assumes "UpdateCombat env now b r = (b', r')" and "bot_ok k b" and "\<not> bt_is_dead b"
  shows "vitals b' = vitals b \<and> calm r r'"
proof -
  have "try_heal env now b r = (b, r)" using low_hp_full [OF assms(2,3)] by (simp add: try_heal_def)
  then show ?thesis
    using assms(1) by (auto simp: UpdateCombat_def vitals_def dest: engage_calm split: if_splits prod.splits)
qed

lemma calm_BroadcastBotMove: "calm r (BroadcastBotMove env b r)"
proof (cases "find_player r (bt_id b)")
  case (Some p)
  have "calm r (Room_BroadcastAll env (S_MOVE k pos rot v st)
      (upd_player (bt_id b) (\<lambda>p. p\<lparr>pl_pos := bt_pos b, pl_vel := v, pl_rotation_y := bt_rotation_y b\<rparr>) r))" for k pos rot v st
    by (rule calm_trans [OF calm_upd calm_send(2)]) (simp_all add: contact_def sound_def)
  then show ?thesis unfolding BroadcastBotMove_def Let_def Some option.case .
qed (simp add: BroadcastBotMove_def)

lemma bots_upd: "bots_ok (gr_bots r) \<Longrightarrow> (\<And>b. bot_ok k b \<Longrightarrow> bot_ok k (f b)) \<Longrightarrow> bots_ok (gr_bots (upd_bot k f r))"
  by (fastforce simp: bots_ok_def upd_bot_def list_all_iff)

lemma calm_upd_bot: "(\<And>b. bot_ok k b \<Longrightarrow> bot_ok k (f b)) \<Longrightarrow> calm r (upd_bot k f r)"
  using bots_upd [of r k f] by (simp add: calm_def sends_more_def upd_bot_def)

lemma calm_run_bot: "calm r (run_bot env now dt k r)"
proof -
  have "calm r (run_bot env now dt k r)" if ok: "bots_ok (gr_bots r)" and b: "map_of (gr_bots r) k = Some b" and alive: "\<not> bt_is_dead b" for b
  proof -
    have bk: "bot_ok k b" using ok map_of_SomeD [OF b] by (auto simp: bots_ok_def list_all_iff)
    obtain b1 r1 where c: "UpdateCombat env now b r = (b1, r1)" by fastforce
    note c1 = UpdateCombat_calm [OF c bk alive]
    obtain b2 r2 where p: "(if \<not> bt_has_target b1 \<and> bt_chase_target b1 = 0 then PickNewWaypoint env b1 r1 else (b1, r1)) = (b2, r2)" by fastforce
    then have c2: "vitals b2 = vitals b1 \<and> calm r1 r2" by (auto split: if_splits dest!: vitals_PickNewWaypoint)
    let ?b3 = "UpdateMovement env (dg_grid (gr_dungeon r2)) dt b2"
    have "vitals ?b3 = vitals b" using c1 c2 by (simp add: vitals_UpdateMovement)
    then have "bot_ok k ?b3" using bk bot_ok_vitals by blast
    then have "calm (BroadcastBotMove env ?b3 r2) (upd_bot k (\<lambda>_. ?b3) (BroadcastBotMove env ?b3 r2))" by (intro calm_upd_bot)
    then have "calm r (upd_bot k (\<lambda>_. ?b3) (BroadcastBotMove env ?b3 r2))"
      by (rule calm_trans [OF calm_trans [OF calm_trans [OF conjunct2 [OF c1] conjunct2 [OF c2]] calm_BroadcastBotMove]])
    then show ?thesis using b alive c p by (simp add: run_bot_def Let_def)
  qed
  then show ?thesis unfolding calm_def by (cases "map_of (gr_bots r) k") (auto simp: run_bot_def sends_more_def)
qed

lemma calm_bot_respawn: "calm r (bot_respawn env now k r)"
proof -
  have "calm r (bot_respawn env now k r)" if ok: "bots_ok (gr_bots r)" and b: "map_of (gr_bots r) k = Some b"
    and due: "bt_is_dead b" "\<not> (now - bt_death_time b) div milliseconds 1000 < 5" for b
  proof -
    have max: "bt_max_hp b = 100" "bt_id b = k" using ok map_of_SomeD [OF b] by (auto simp: bots_ok_def bot_ok_def list_all_iff)
    obtain pos r1 where r1: "random_floor env r = (pos, r1)" by fastforce
    let ?b = "b\<lparr>bt_is_dead := False, bt_hp := bt_max_hp b, bt_pos := (fst pos, 1 / 2, snd pos), bt_has_target := False,
                bt_chase_target := 0, bt_vel := (0, fst (snd (bt_vel b)), 0)\<rparr>"
    let ?r3 = "upd_player k (\<lambda>p. p\<lparr>pl_hp := bt_hp ?b, pl_is_dead := False, pl_pos := bt_pos ?b\<rparr>) (upd_bot k (\<lambda>_. ?b) r1)"
    have "calm r r1" using random_floor_same [OF r1] by (intro calm_same) simp_all
    also have "calm r1 (upd_bot k (\<lambda>_. ?b) r1)" using max by (intro calm_upd_bot) (simp add: bot_ok_def)
    also have "calm \<dots> ?r3" using max by (intro calm_upd) (simp_all add: contact_def sound_def)
    also have "calm ?r3 (Room_BroadcastAll env (S_RESPAWN \<lparr>pi_id = k, pi_name = bt_name ?b, pi_hp = bt_hp ?b, pi_max_hp = bt_max_hp ?b,
        pi_level = 1, pi_pos = bt_pos ?b, pi_rotation_y = 0\<rparr>) ?r3)" by (rule calm_send) simp
    finally show ?thesis using b due r1 by (simp add: bot_respawn_def Let_def)
  qed
  then show ?thesis unfolding calm_def by (cases "map_of (gr_bots r) k") (auto simp: bot_respawn_def sends_more_def)
qed

lemma sync_bot_ok: "bot_ok (fst e) (snd e) \<Longrightarrow> bot_ok (fst (sync_bot ps e)) (snd (sync_bot ps e))"
  by (cases e) (auto simp: sync_bot_def bot_ok_def split: option.splits)

lemma calm_BotUpdate: "calm r (BotUpdate env now dt r)"
proof -
  let ?r1 = "r\<lparr>gr_bots := map (sync_bot (gr_players r)) (gr_bots r)\<rparr>"
  have "bots_ok (gr_bots ?r1)" if "bots_ok (gr_bots r)"
    using that sync_bot_ok by (auto simp: bots_ok_def list_all_iff case_prod_beta)
  then have c1: "calm r ?r1" by (simp add: calm_def sends_more_def)
  let ?r2 = "fold (run_bot env now dt) (map fst (gr_bots ?r1)) ?r1"
  have c2: "calm ?r1 ?r2" by (rule calm_fold) (rule calm_run_bot)
  have "calm ?r2 (fold (bot_respawn env now) (map fst (gr_bots ?r2)) ?r2)" by (rule calm_fold) (rule calm_bot_respawn)
  then show ?thesis using calm_trans [OF calm_trans [OF c1 c2]] by (simp add: BotUpdate_def Let_def)
qed

end
