(* ===== verification/Party_System.thy ===== *)
theory Party_System
  imports Game_Room
begin

text \<open>
  Parties and chat of the game server (\<^verbatim>\<open>examples/GameServer/src/system/party_system.cpp\<close> and \<^verbatim>\<open>chat_system.cpp\<close>). All
  rooms share one party system, so its operations work on the pair of it and the room they are called from.
\<close>

section \<open>Model\<close>

record party =
  py_id :: nat
  py_leader :: nat
  py_members :: "nat list"

record party_system =
  sy_parties :: "(nat \<times> party) list"
  sy_next :: nat

definition party_system_new :: party_system where
  "party_system_new = \<lparr>sy_parties = [], sy_next = 1\<rparr>"

definition member_info :: "'r game_room \<Rightarrow> nat \<Rightarrow> nat \<Rightarrow> party_member list" where
  "member_info r leader mid =
     (case find_player r mid of
        None \<Rightarrow> []
      | Some p \<Rightarrow> [\<lparr>pm_id = pl_id p, pm_name = pl_name p, pm_hp = pl_hp p, pm_max_hp = pl_max_hp p, pm_level = pl_level p,
          pm_is_leader = (mid = leader)\<rparr>])"

definition BroadcastPartyUpdate :: "'r game_env \<Rightarrow> party_system \<Rightarrow> nat \<Rightarrow> 'r game_room \<Rightarrow> 'r game_room" where
  "BroadcastPartyUpdate env ps party_id r =
     (case map_of (sy_parties ps) party_id of
        None \<Rightarrow> r
      | Some party \<Rightarrow>
        let update = S_PARTY_UPDATE party_id (py_leader party) (concat (map (member_info r (py_leader party)) (py_members party)))
        in fold (\<lambda>mid r1. case find_player r1 mid of None \<Rightarrow> r1 | Some p \<Rightarrow> SendTo env p update r1) (py_members party) r)"

definition CreateParty :: "'r game_env \<Rightarrow> nat \<Rightarrow> party_system \<times> 'r game_room \<Rightarrow> party_system \<times> 'r game_room" where
  "CreateParty env leader st =
     (case st of (ps, r) \<Rightarrow>
      case find_player r leader of
        None \<Rightarrow> (ps, r)
      | Some p \<Rightarrow>
        if pl_party p \<noteq> 0 then (ps, r)
        else let pid = sy_next ps;
                 ps1 = ps\<lparr>sy_next := pid + 1,
                   sy_parties := AList.update pid \<lparr>py_id = pid, py_leader = leader, py_members = [leader]\<rparr> (sy_parties ps)\<rparr>;
                 r1 = upd_player leader (pl_party_update (\<lambda>_. pid)) r;
                 r2 = SendTo env p (S_CREATE_PARTY True pid) r1
             in (ps1, BroadcastPartyUpdate env ps1 pid r2))"

definition JoinParty :: "'r game_env \<Rightarrow> nat \<Rightarrow> nat \<Rightarrow> party_system \<times> 'r game_room \<Rightarrow> party_system \<times> 'r game_room" where
  "JoinParty env player party_id st =
     (case st of (ps, r) \<Rightarrow>
      case find_player r player of
        None \<Rightarrow> (ps, r)
      | Some p \<Rightarrow>
        if pl_party p \<noteq> 0 then (ps, r)
        else case map_of (sy_parties ps) party_id of
          None \<Rightarrow> (ps, SendTo env p (S_JOIN_PARTY False 0) r)
        | Some party \<Rightarrow>
          let ps1 = ps\<lparr>sy_parties := AList.update party_id (party\<lparr>py_members := py_members party @ [player]\<rparr>) (sy_parties ps)\<rparr>;
              r1 = upd_player player (pl_party_update (\<lambda>_. party_id)) r;
              r2 = SendTo env p (S_JOIN_PARTY True party_id) r1
          in (ps1, BroadcastPartyUpdate env ps1 party_id r2))"

definition LeaveParty :: "'r game_env \<Rightarrow> nat \<Rightarrow> party_system \<times> 'r game_room \<Rightarrow> party_system \<times> 'r game_room" where
  "LeaveParty env player st =
     (case st of (ps, r) \<Rightarrow>
      case find_player r player of
        None \<Rightarrow> (ps, r)
      | Some p \<Rightarrow>
        if pl_party p = 0 then (ps, r)
        else let r1 = upd_player player (pl_party_update (\<lambda>_. 0)) r;
                 r2 = SendTo env p (S_LEAVE_PARTY True) r1
             in case map_of (sy_parties ps) (pl_party p) of
                  None \<Rightarrow> (ps, r2)
                | Some party \<Rightarrow>
                  let members = filter (\<lambda>m. m \<noteq> player) (py_members party) in
                  if members = [] then (ps\<lparr>sy_parties := AList.delete (pl_party p) (sy_parties ps)\<rparr>, r2)
                  else let leader = (if py_leader party = player then hd members else py_leader party);
                           ps1 = ps\<lparr>sy_parties := AList.update (pl_party p)
                                   (party\<lparr>py_members := members, py_leader := leader\<rparr>) (sy_parties ps)\<rparr>
                       in (ps1, BroadcastPartyUpdate env ps1 (pl_party p) r2))"

definition OnPlayerLeave :: "'r game_env \<Rightarrow> nat \<Rightarrow> party_system \<times> 'r game_room \<Rightarrow> party_system \<times> 'r game_room" where
  "OnPlayerLeave env player st =
     (case find_player (snd st) player of
        None \<Rightarrow> st
      | Some p \<Rightarrow> if pl_party p \<noteq> 0 then LeaveParty env player st else st)"

text \<open>Chat: to the room, to the party of the sender, or to a player of the room by name.\<close>

datatype chat_type = CHAT_ALL | CHAT_ZONE | CHAT_PARTY | CHAT_WHISPER | CHAT_OTHER nat

record c_chat =
  ch_type :: chat_type
  ch_message :: string
  ch_target_name :: string

fun chat_code :: "chat_type \<Rightarrow> nat" where
  "chat_code CHAT_ALL = 0"
| "chat_code CHAT_ZONE = 1"
| "chat_code CHAT_PARTY = 2"
| "chat_code CHAT_WHISPER = 3"
| "chat_code (CHAT_OTHER n) = n"

definition ProcessChat :: "'r game_env \<Rightarrow> player_state \<Rightarrow> c_chat \<Rightarrow> 'r game_room \<Rightarrow> 'r game_room" where
  "ProcessChat env sender msg r =
     (let reply = S_CHAT (chat_code (ch_type msg)) (pl_id sender) (pl_name sender) (ch_message msg) (ch_target_name msg) in
      case ch_type msg of
        CHAT_ALL \<Rightarrow> Room_BroadcastAll env reply r
      | CHAT_ZONE \<Rightarrow> Room_BroadcastAll env reply r
      | CHAT_PARTY \<Rightarrow>
          if pl_party sender = 0 then r
          else fold (\<lambda>(k, p) r1. if pl_party p = pl_party sender then SendTo env p reply r1 else r1) (gr_players r) r
      | CHAT_WHISPER \<Rightarrow>
          (case find (\<lambda>(k, p). pl_name p = ch_target_name msg) (gr_players r) of
             None \<Rightarrow> r
           | Some (k, p) \<Rightarrow> SendTo env sender reply (SendTo env p reply r))
      | CHAT_OTHER n \<Rightarrow> r)"

section \<open>Parties and chat are calm\<close>

lemma calm_BroadcastPartyUpdate: "calm r (BroadcastPartyUpdate env ps k r)"
proof (cases "map_of (sy_parties ps) k")
  case (Some party)
  then show ?thesis
    unfolding BroadcastPartyUpdate_def Let_def by (auto intro!: calm_fold calm_send split: option.splits)
qed (simp add: BroadcastPartyUpdate_def)

lemma calm_party_upd: "calm r (upd_player k (pl_party_update (\<lambda>_. party)) r)"
  by (rule calm_upd) (simp_all add: contact_def sound_def)

lemma calm_join: "entity_free msg \<Longrightarrow>
    calm r (BroadcastPartyUpdate env ps party (SendTo env p msg (upd_player k (pl_party_update (\<lambda>_. party)) r)))"
  by (rule calm_trans [OF calm_trans [OF calm_party_upd calm_send(1)] calm_BroadcastPartyUpdate])

lemma calm_CreateParty: "calm (snd st) (snd (CreateParty env leader st))"
  by (cases st) (auto simp: CreateParty_def Let_def intro!: calm_join split: option.splits)

lemma calm_JoinParty: "calm (snd st) (snd (JoinParty env player party_id st))"
  by (cases st) (auto simp: JoinParty_def Let_def intro!: calm_join calm_send split: option.splits)

lemma calm_LeaveParty: "calm (snd st) (snd (LeaveParty env player st))"
proof -
  have l: "calm r (SendTo env p (S_LEAVE_PARTY True) (upd_player k (pl_party_update (\<lambda>_. 0)) r))" for p r k
    by (rule calm_trans [OF calm_party_upd calm_send(1)]) simp
  show ?thesis
    by (cases st) (auto simp: LeaveParty_def Let_def intro!: l calm_trans [OF l calm_BroadcastPartyUpdate] split: option.splits)
qed

lemma calm_ProcessChat: "calm r (ProcessChat env sender msg r)"
proof -
  have *: "calm r (SendTo env sender m (SendTo env p m r))" if "entity_free m" for m p
    by (rule calm_trans [OF calm_send(1) [OF that] calm_send(1) [OF that]])
  show ?thesis
    by (cases "ch_type msg") (auto simp: ProcessChat_def Let_def intro!: calm_send calm_fold * split: option.splits)
qed

end
