(* ===== verification/Game_Handlers.thy ===== *)
theory Game_Handlers
  imports Game_Bots Party_System
begin

text \<open>
  What a room does with the packets of its players and on every tick (\<^verbatim>\<open>handler/game_handler.cpp\<close>,
  \<^verbatim>\<open>handler/social_handler.cpp\<close>, \<^verbatim>\<open>Room::HandlePacket\<close> and \<^verbatim>\<open>Room::OnTick\<close> of \<^verbatim>\<open>examples/GameServer/src\<close>), and what holds
  of a room over all its jobs. A packet is the message protobuf decodes from its bytes, \<^const>\<open>None\<close> where decoding fails.
\<close>

section \<open>Packets\<close>

record c_move =
  mv_pos :: vec3
  mv_rotation_y :: real
  mv_velocity :: "vec3 option"
  mv_state :: int

record c_attack =
  ca_target :: nat
  ca_skill :: int
  ca_fire_pos :: "vec3 option"
  ca_fire_dir :: "vec3 option"

record c_fire =
  cf_fire_pos :: vec3
  cf_fire_dir :: vec3

datatype client_packet =
  C_SCENE_READY
| C_MOVE "c_move option"
| C_ATTACK "c_attack option"
| C_FIRE "c_fire option"
| C_CHAT "c_chat option"
| C_CREATE_PARTY
| C_JOIN_PARTY "nat option"
| C_LEAVE_PARTY
| C_PICKUP "nat option"
| C_USE_ITEM "int option"
| C_UNKNOWN nat

definition HandleMove :: "'r game_env \<Rightarrow> nat \<Rightarrow> c_move option \<Rightarrow> 'r game_room \<Rightarrow> 'r game_room" where
  "HandleMove env pid pkt r =
     (case pkt of
        None \<Rightarrow> r
      | Some m \<Rightarrow>
        if GetTile (dg_grid (gr_dungeon r)) (WorldToGrid (fst (mv_pos m)) (snd (snd (mv_pos m)))) \<noteq> 0 then r
        else let r1 = upd_player pid (\<lambda>p. p\<lparr>pl_pos := mv_pos m, pl_rotation_y := mv_rotation_y m,
                   pl_vel := (case mv_velocity m of None \<Rightarrow> pl_vel p | Some v \<Rightarrow> v), pl_move_state := mv_state m\<rparr>) r
             in case find_player r1 pid of
                  None \<Rightarrow> r1
                | Some p \<Rightarrow> Room_BroadcastExcept env (pl_id p) (S_MOVE (pl_id p) (pl_pos p) (pl_rotation_y p) (pl_vel p) (pl_move_state p)) r1)"

definition or_zero :: "vec3 option \<Rightarrow> vec3" where
  "or_zero v = (case v of None \<Rightarrow> (0, 0, 0) | Some w \<Rightarrow> w)"

definition HandleAttack :: "'r game_env \<Rightarrow> int \<Rightarrow> player_state \<Rightarrow> c_attack option \<Rightarrow> 'r game_room \<Rightarrow> 'r game_room" where
  "HandleAttack env now p pkt r =
     (case pkt of
        None \<Rightarrow> r
      | Some a \<Rightarrow> snd (ProcessAttack env now (pl_id p) (ca_target a) (ca_skill a) (or_zero (ca_fire_pos a)) (or_zero (ca_fire_dir a)) r))"

definition HandleFire :: "'r game_env \<Rightarrow> int \<Rightarrow> nat \<Rightarrow> player_state \<Rightarrow> c_fire option \<Rightarrow> 'r game_room \<Rightarrow> 'r game_room" where
  "HandleFire env now pid p pkt r =
     (case pkt of
        None \<Rightarrow> r
      | Some f \<Rightarrow>
        if cooling (pl_cooldowns p) 0 now then r
        else let r1 = upd_player pid (\<lambda>q. q\<lparr>pl_cooldowns := AList.update 0 (now + milliseconds 500) (pl_cooldowns q)\<rparr>) r;
                 r2 = Room_BroadcastExcept env (pl_id p) (S_FIRE (pl_id p) (cf_fire_pos f) (cf_fire_dir f)) r1
             in SpawnProjectile (pl_id p) (cf_fire_pos f) (cf_fire_dir f) 0 r2)"

definition HandlePickup :: "'r game_env \<Rightarrow> player_state \<Rightarrow> nat option \<Rightarrow> 'r game_room \<Rightarrow> 'r game_room" where
  "HandlePickup env p pkt r =
     (case pkt of
        None \<Rightarrow> r
      | Some gid \<Rightarrow>
        case TryPickup env (pl_id p) gid r of (ok, r1) \<Rightarrow>
          SendTo env p (S_PICKUP gid ok (if ok then [] else ''Cannot pick up'')) r1)"

definition HandleUseItem :: "'r game_env \<Rightarrow> nat \<Rightarrow> player_state \<Rightarrow> int option \<Rightarrow> 'r game_room \<Rightarrow> 'r game_room" where
  "HandleUseItem env pid p pkt r =
     (case pkt of
        None \<Rightarrow> r
      | Some inst \<Rightarrow>
        let r1 = upd_player pid (\<lambda>q. q\<lparr>pl_gold := pl_gold q + 50\<rparr>) r;
            r2 = SendTo env p (S_USE_ITEM inst ''Dog Tag redeemed: +50 Gold'') r1;
            r3 = SendTo env p (S_CURRENCY_UPDATE (pl_gold p + 50)) r2
        in SendTo env p (S_ITEM_REMOVE inst) r3)"

definition HandlePacket :: "'r game_env \<Rightarrow> int \<Rightarrow> nat \<Rightarrow> client_packet \<Rightarrow> party_system \<times> 'r game_room \<Rightarrow> party_system \<times> 'r game_room" where
  "HandlePacket env now pid pkt st =
     (case st of (ps, r) \<Rightarrow>
      case find_player r pid of
        None \<Rightarrow> (ps, r)
      | Some p \<Rightarrow>
        case pkt of
          C_SCENE_READY \<Rightarrow> (ps, HandleSceneReady env pid r)
        | C_MOVE m \<Rightarrow> (ps, HandleMove env pid m r)
        | C_ATTACK a \<Rightarrow> (ps, HandleAttack env now p a r)
        | C_FIRE f \<Rightarrow> (ps, HandleFire env now pid p f r)
        | C_CHAT c \<Rightarrow> (ps, case c of None \<Rightarrow> r | Some msg \<Rightarrow> ProcessChat env p msg r)
        | C_CREATE_PARTY \<Rightarrow> CreateParty env (pl_id p) (ps, r)
        | C_JOIN_PARTY k \<Rightarrow> (case k of None \<Rightarrow> (ps, r) | Some party_id \<Rightarrow> JoinParty env (pl_id p) party_id (ps, r))
        | C_LEAVE_PARTY \<Rightarrow> LeaveParty env (pl_id p) (ps, r)
        | C_PICKUP g \<Rightarrow> (ps, HandlePickup env p g r)
        | C_USE_ITEM i \<Rightarrow> (ps, HandleUseItem env pid p i r)
        | C_UNKNOWN n \<Rightarrow> (ps, r))"

section \<open>The tick\<close>

definition decay_item :: "'r game_env \<Rightarrow> nat \<times> ground_item \<Rightarrow> 'r game_room \<Rightarrow> 'r game_room" where
  "decay_item env entry r =
     (case entry of (gid, gi) \<Rightarrow>
      let life = gi_lifetime gi - 5 / 100 in
      if life \<le> 0
      then let r1 = Room_BroadcastAll env (S_GROUND_ITEM_DESPAWN gid) r in r1\<lparr>gr_ground_items := AList.delete gid (gr_ground_items r1)\<rparr>
      else r\<lparr>gr_ground_items := AList.update gid (gi\<lparr>gi_lifetime := life\<rparr>) (gr_ground_items r)\<rparr>)"

definition scoreboard_tick :: "'r game_env \<Rightarrow> 'r game_room \<Rightarrow> 'r game_room" where
  "scoreboard_tick env r =
     (let r1 = r\<lparr>gr_scoreboard := gr_scoreboard r + 1\<rparr> in
      if gr_scoreboard r1 \<ge> 100
      then Room_BroadcastAll env (S_SCOREBOARD (map (\<lambda>(pid, p). (pid, pl_name p, pl_kills p, pl_deaths p, pl_level p)) (gr_players r1)))
             (r1\<lparr>gr_scoreboard := 0\<rparr>)
      else r1)"

definition OnTick :: "'r game_env \<Rightarrow> int \<Rightarrow> 'r game_room \<Rightarrow> 'r game_room" where
  "OnTick env now r =
     (let r1 = CheckRespawns env now r;
          r2 = ProjectileUpdate env now (5 / 100) r1;
          r3 = BotUpdate env now (5 / 100) r2;
          r4 = fold (decay_item env) (gr_ground_items r3) r3
      in scoreboard_tick env r4)"

section \<open>Packets and ticks are calm\<close>

lemma calm_HandleMove: "calm r (HandleMove env pid pkt r)"
proof -
  have u: "calm r (upd_player pid (\<lambda>p. p\<lparr>pl_pos := mv_pos m, pl_rotation_y := mv_rotation_y m,
      pl_vel := (case mv_velocity m of None \<Rightarrow> pl_vel p | Some v \<Rightarrow> v), pl_move_state := mv_state m\<rparr>) r)" for m
    by (rule calm_upd) (simp_all add: contact_def sound_def)
  show ?thesis
    unfolding HandleMove_def Let_def by (auto intro!: u calm_trans [OF u calm_send(3)] split: option.splits)
qed

lemma calm_HandleAttack: "calm r (HandleAttack env now p pkt r)"
  unfolding HandleAttack_def by (auto intro: calm_ProcessAttack split: option.splits)

lemma calm_HandleFire: "calm r (HandleFire env now pid p pkt r)"
proof -
  have u: "calm r (upd_player pid (\<lambda>q. q\<lparr>pl_cooldowns := AList.update 0 (now + milliseconds 500) (pl_cooldowns q)\<rparr>) r)"
    by (rule calm_upd) simp_all
  show ?thesis
    unfolding HandleFire_def Let_def
    by (auto intro!: calm_trans [OF calm_trans [OF u calm_send(3)] calm_SpawnProjectile] split: option.splits)
qed

lemma calm_HandlePickup: "calm r (HandlePickup env p pkt r)"
proof (cases pkt)
  case (Some gid)
  obtain ok r1 where t: "TryPickup env (pl_id p) gid r = (ok, r1)" by fastforce
  have "calm r r1" using calm_TryPickup [of r env "pl_id p" gid] t by simp
  also have "calm r1 (SendTo env p (S_PICKUP gid ok (if ok then [] else ''Cannot pick up'')) r1)" by (rule calm_send) simp
  finally show ?thesis using Some t by (simp add: HandlePickup_def)
qed (simp add: HandlePickup_def)

lemma calm_HandleUseItem: "calm r (HandleUseItem env pid p pkt r)"
proof -
  have u: "calm r (upd_player pid (\<lambda>q. q\<lparr>pl_gold := pl_gold q + 50\<rparr>) r)" by (rule calm_upd) simp_all
  show ?thesis
    unfolding HandleUseItem_def Let_def
    by (auto intro!: calm_trans [OF calm_trans [OF calm_trans [OF u calm_send(1)] calm_send(1)] calm_send(1)] split: option.splits)
qed

lemma calm_HandlePacket:
  assumes "pkt \<noteq> C_SCENE_READY"
  shows "calm (snd st) (snd (HandlePacket env now pid pkt st))"
proof (cases st)
  case (Pair ps r)
  show ?thesis
  proof (cases "find_player r pid")
    case (Some p)
    then show ?thesis
      using assms calm_CreateParty [of "(ps, r)"] calm_JoinParty [of "(ps, r)"] calm_LeaveParty [of "(ps, r)"]
      by (cases pkt) (auto simp: Pair HandlePacket_def calm_HandleMove calm_HandleAttack calm_HandleFire calm_HandlePickup
          calm_HandleUseItem calm_ProcessChat split: option.splits)
  qed (simp add: Pair HandlePacket_def)
qed

lemma calm_decay_item: "calm r (decay_item env e r)"
proof (cases e)
  case (Pair gid gi)
  have "calm r (Room_BroadcastAll env (S_GROUND_ITEM_DESPAWN gid) r)" by (rule calm_send) simp
  then show ?thesis using calm_ground [OF calm_refl] by (simp add: Pair decay_item_def Let_def calm_ground)
qed

lemma calm_scoreboard_tick: "calm r (scoreboard_tick env r)"
proof -
  have "calm r (r\<lparr>gr_scoreboard := n\<rparr>)" for n by (rule calm_same) simp_all
  then show ?thesis
    unfolding scoreboard_tick_def Let_def by (auto intro!: calm_trans [OF _ calm_send(2)])
qed

lemma calm_OnTick: "calm r (OnTick env now r)"
proof -
  let ?r2 = "ProjectileUpdate env now (5 / 100) (CheckRespawns env now r)"
  let ?r3 = "BotUpdate env now (5 / 100) ?r2"
  have "calm r ?r2" by (rule calm_trans [OF calm_CheckRespawns calm_ProjectileUpdate])
  also have "calm ?r2 ?r3" by (rule calm_BotUpdate)
  also have "calm ?r3 (fold (decay_item env) (gr_ground_items ?r3) ?r3)" by (rule calm_fold) (rule calm_decay_item)
  also have "calm \<dots> (scoreboard_tick env (fold (decay_item env) (gr_ground_items ?r3) ?r3))" by (rule calm_scoreboard_tick)
  finally show ?thesis by (simp add: OnTick_def Let_def)
qed

end
