(* ===== verification/Game_Jobs.thy ===== *)
theory Game_Jobs
  imports Game_Handlers
begin

text \<open>
  A room over all its jobs: players enter and leave, packets are handled, the timer ticks and bots are added, in any order.
  The theorems say what holds in every state a room can reach, and what its clients are told.
\<close>

section \<open>Jobs\<close>

datatype room_job =
  AddJob player_context vec3
| RemoveJob int nat
| PacketJob int nat client_packet party_system
| TickJob int
| BotsJob nat

fun run_job :: "'r game_env \<Rightarrow> room_job \<Rightarrow> 'r game_room \<Rightarrow> 'r game_room" where
  "run_job env (AddJob ctx spawn) r = AddPlayer env ctx spawn r"
| "run_job env (RemoveJob now pid) r = RemovePlayer env now pid r"
| "run_job env (PacketJob now pid pkt ps) r = snd (HandlePacket env now pid pkt (ps, r))"
| "run_job env (TickJob now) r = OnTick env now r"
| "run_job env (BotsJob n) r = SpawnBots env n r"

text \<open>A player who enters has a session of their own, on a worker that exists.\<close>

fun admissible :: "'r game_env \<Rightarrow> room_job \<Rightarrow> 'r game_room \<Rightarrow> bool" where
  "admissible env (AddJob ctx spawn) r =
     (cx_session ctx \<noteq> 0 \<and> cx_worker ctx < ev_workers env \<and>
      list_all (\<lambda>(k, p). k = cx_player ctx \<or> pl_session p \<noteq> cx_session ctx) (gr_players r))"
| "admissible env job r = True"

text \<open>The client loads a new scene when its player enters: from then on it counts what the room sends to its session.\<close>

fun joins :: "room_job \<Rightarrow> 'r game_room \<Rightarrow> (nat \<Rightarrow> nat) \<Rightarrow> nat \<Rightarrow> nat" where
  "joins (AddJob ctx spawn) r joined = joined(cx_session ctx := length (gr_outbox r))"
| "joins job r joined = joined"

inductive room_reach :: "'r game_env \<Rightarrow> 'r game_room \<Rightarrow> (nat \<Rightarrow> nat) \<Rightarrow> bool" for env where
  start: "room_reach env ((Room rid name rng)\<lparr>gr_dungeon := d, gr_map_spawn := spawn, gr_depth := depth\<rparr>) (\<lambda>_. 0)"
| job: "room_reach env r joined \<Longrightarrow> admissible env j r \<Longrightarrow> room_reach env (run_job env j r) (joins j r joined)"
| link: "room_reach env r joined \<Longrightarrow> room_reach env (r\<lparr>gr_connections := cs\<rparr>) joined"

section \<open>The roster\<close>

lemma set_update_distinct:
  "distinct (map fst al) \<Longrightarrow> x \<in> set (AList.update k v al) \<longleftrightarrow> x = (k, v) \<or> (fst x \<noteq> k \<and> x \<in> set al)"
  by (induction al) (auto simp: image_iff)

lemma set_delete: "x \<in> set (AList.delete k al) \<longleftrightarrow> fst x \<noteq> k \<and> x \<in> set al"
  by (auto simp: AList.delete_eq)

lemma roster_update: "roster (AList.update k p ps) = AList.update k (contact p) (roster ps)"
  by (induction ps) (auto simp: roster_def)

lemma roster_delete: "roster (AList.delete k ps) = AList.delete k (roster ps)"
  by (induction ps) (auto simp: roster_def)

lemma fst_roster: "map fst (roster ps) = map fst ps"
  by (simp add: roster_def comp_def case_prod_beta)

lemma roster_mem: "(k, p) \<in> set ps \<Longrightarrow> (k, contact p) \<in> set (roster ps)"
  by (force simp: roster_def)

definition contacts_ok :: "nat \<Rightarrow> (nat \<times> contact_info) list \<Rightarrow> bool" where
  "contacts_ok workers ro =
     (distinct (map fst ro) \<and>
      (\<forall>k c. (k, c) \<in> set ro \<longrightarrow> ct_id c = k \<and> (ct_session c \<noteq> 0 \<longrightarrow> ct_ring c \<and> ct_worker c < workers)) \<and>
      (\<forall>k c l d. (k, c) \<in> set ro \<longrightarrow> (l, d) \<in> set ro \<longrightarrow> ct_session c \<noteq> 0 \<longrightarrow> ct_session d = ct_session c \<longrightarrow> l = k))"

lemma contacts_okD:
  assumes "contacts_ok workers ro"
  shows "distinct (map fst ro)" and "\<And>k c. (k, c) \<in> set ro \<Longrightarrow> ct_id c = k"
    and "\<And>k c. (k, c) \<in> set ro \<Longrightarrow> ct_session c \<noteq> 0 \<Longrightarrow> ct_ring c \<and> ct_worker c < workers"
    and "\<And>k c l d. (k, c) \<in> set ro \<Longrightarrow> (l, d) \<in> set ro \<Longrightarrow> ct_session c \<noteq> 0 \<Longrightarrow> ct_session d = ct_session c \<Longrightarrow> l = k"
  using assms unfolding contacts_ok_def by blast+

definition lobby_ok :: "'r game_env \<Rightarrow> 'r game_room \<Rightarrow> bool" where
  "lobby_ok env r = (contacts_ok (ev_workers env) (roster (gr_players r)) \<and> all_sound (gr_players r) \<and> bots_ok (gr_bots r))"

lemma lobby_ok_calm: "calm r r' \<Longrightarrow> lobby_ok env r \<Longrightarrow> lobby_ok env r'"
  unfolding lobby_ok_def calm_def calm_by_def using contacts_okD(1) fst_roster by metis

lemma all_sound_update: "all_sound ps \<Longrightarrow> sound p \<Longrightarrow> all_sound (AList.update k p ps)"
  unfolding all_sound_def by (induction ps) auto

lemma lobby_ok_start: "gr_players r = [] \<Longrightarrow> gr_bots r = [] \<Longrightarrow> lobby_ok env r"
  by (simp add: lobby_ok_def contacts_ok_def roster_def all_sound_def bots_ok_def)

text \<open>Entering.\<close>

lemma AddPlayer_shape:
  "\<exists>p. gr_players (AddPlayer env ctx spawn r) = AList.update (cx_player ctx) p (gr_players r) \<and> sound p \<and>
     contact p = \<lparr>ct_id = cx_player ctx, ct_session = cx_session ctx, ct_ring = True, ct_worker = cx_worker ctx, ct_ready = False\<rparr> \<and>
     gr_outbox (AddPlayer env ctx spawn r) = gr_outbox r \<and> gr_bots (AddPlayer env ctx spawn r) = gr_bots r"
proof -
  obtain sx sy sz where s: "spawn = (sx, sy, sz)" by (metis prod.exhaust)
  obtain dx g1 where d1: "ev_draw_real env (-2) 2 (gr_rng r) = (dx, g1)" by fastforce
  obtain dz g2 where d2: "ev_draw_real env (-2) 2 g1 = (dz, g2)" by fastforce
  show ?thesis
    by (simp add: AddPlayer_def s d1 d2 Let_def player_state_new_def) (auto simp: sound_def contact_def)
qed

lemma update_mem:
  "contacts_ok n ro \<Longrightarrow> (l, d) \<in> set (AList.update k c ro) \<longleftrightarrow> (l = k \<and> d = c) \<or> (l \<noteq> k \<and> (l, d) \<in> set ro)"
  using set_update_distinct [of ro "(l, d)" k c] contacts_okD(1) by auto

lemma contacts_ok_add:
  assumes ok: "contacts_ok n ro" and "ct_id c = k" and "ct_session c \<noteq> 0 \<Longrightarrow> ct_ring c \<and> ct_worker c < n"
    and free: "\<And>l d. (l, d) \<in> set ro \<Longrightarrow> ct_session c \<noteq> 0 \<Longrightarrow> ct_session d = ct_session c \<Longrightarrow> l = k"
  shows "contacts_ok n (AList.update k c ro)"
proof -
  have "distinct (map fst (AList.update k c ro))" using contacts_okD(1) [OF ok] by (rule AList.distinct_update)
  moreover have "ct_id d = l \<and> (ct_session d \<noteq> 0 \<longrightarrow> ct_ring d \<and> ct_worker d < n)" if "(l, d) \<in> set (AList.update k c ro)" for l d
    using that contacts_okD(2,3) [OF ok] assms(2,3) unfolding update_mem [OF ok] by blast
  moreover have "l' = l" if m: "(l, d) \<in> set (AList.update k c ro)" "(l', d') \<in> set (AList.update k c ro)"
    "ct_session d \<noteq> 0" "ct_session d' = ct_session d" for l d l' d'
  proof -
    consider "l = k" "l' = k" | "l = k" "d = c" "(l', d') \<in> set ro" | "l' = k" "d' = c" "(l, d) \<in> set ro"
      | "(l, d) \<in> set ro" "(l', d') \<in> set ro" using m(1,2) unfolding update_mem [OF ok] by blast
    then show ?thesis using m(3,4) free contacts_okD(4) [OF ok] by cases (simp, metis, metis, metis)
  qed
  ultimately show ?thesis unfolding contacts_ok_def by blast
qed

lemma contacts_ok_delete:
  assumes "contacts_ok n ro"
  shows "contacts_ok n (AList.delete k ro)"
proof -
  have "distinct (map fst (AList.delete k ro))" using contacts_okD(1) [OF assms] by (rule AList.distinct_delete)
  then show ?thesis using contacts_okD(2-4) [OF assms] unfolding contacts_ok_def set_delete by simp blast
qed

text \<open>Bots.\<close>

definition bot_contact :: "nat \<Rightarrow> contact_info" where
  "bot_contact k = \<lparr>ct_id = k, ct_session = 0, ct_ring = False, ct_worker = 0, ct_ready = False\<rparr>"

definition add_bots :: "nat \<Rightarrow> nat \<Rightarrow> (nat \<times> contact_info) list \<Rightarrow> (nat \<times> contact_info) list" where
  "add_bots k n ro = fold (\<lambda>b. AList.update b (bot_contact b)) [k..<k + n] ro"

lemma bots_ok_update: "bots_ok bs \<Longrightarrow> bot_ok k b \<Longrightarrow> bots_ok (AList.update k b bs)"
  unfolding bots_ok_def by (induction bs) auto

lemma spawn_loop_shape:
  assumes "spawn_loop env n batch r = (batch', r')"
  shows "roster (gr_players r') = add_bots (gr_next_bot r) n (roster (gr_players r)) \<and> gr_outbox r' = gr_outbox r \<and>
    map pi_id batch' = map pi_id batch @ [gr_next_bot r..<gr_next_bot r + n] \<and>
    (all_sound (gr_players r) \<longrightarrow> all_sound (gr_players r')) \<and> (bots_ok (gr_bots r) \<longrightarrow> bots_ok (gr_bots r'))"
  using assms
proof (induction n arbitrary: batch r)
  case (Suc n)
  let ?k = "gr_next_bot r"
  obtain ox g1 where d1: "ev_draw_real env (-3) 3 (gr_rng r) = (ox, g1)" by fastforce
  obtain oz g2 where d2: "ev_draw_real env (-3) 3 g1 = (oz, g2)" by fastforce
  let ?b = "bot_state_new ?k (of_int (fst (gr_map_spawn r)) + ox, 1 / 2, of_int (snd (gr_map_spawn r)) + oz)"
  let ?r1 = "r\<lparr>gr_next_bot := ?k + 1, gr_rng := g2, gr_players := AList.update ?k (bot_player ?b) (gr_players r),
              gr_bots := AList.update ?k ?b (gr_bots r)\<rparr>"
  have b: "contact (bot_player ?b) = bot_contact ?k" "sound (bot_player ?b)" "bot_ok ?k ?b" "pi_id (info_of (bot_player ?b)) = ?k"
    by (simp_all add: contact_def bot_contact_def bot_player_def bot_state_new_def player_state_new_def sound_def bot_ok_def info_of_def)
  have run: "spawn_loop env n (batch @ [info_of (bot_player ?b)]) ?r1 = (batch', r')"
    using Suc.prems d1 d2 by (simp add: Let_def)
  have u: "[?k..<?k + Suc n] = ?k # [Suc ?k..<Suc ?k + n]" by (simp add: upt_rec)
  show ?case
    using Suc.IH [OF run] b all_sound_update [of "gr_players r" "bot_player ?b" ?k] bots_ok_update [of "gr_bots r" ?k ?b]
    unfolding add_bots_def u by (simp add: roster_update)
qed (simp add: add_bots_def)

lemma add_bots_ok:
  "contacts_ok n ro \<Longrightarrow> contacts_ok n (add_bots k m ro) \<and>
    (\<forall>l d. (l, d) \<in> set (add_bots k m ro) \<longleftrightarrow> (k \<le> l \<and> l < k + m \<and> d = bot_contact l) \<or> (\<not> (k \<le> l \<and> l < k + m) \<and> (l, d) \<in> set ro))"
proof (induction m)
  case (Suc m)
  have s: "add_bots k (Suc m) ro = AList.update (k + m) (bot_contact (k + m)) (add_bots k m ro)" by (simp add: add_bots_def)
  have ok: "contacts_ok n (add_bots k m ro)" using Suc by blast
  have "contacts_ok n (add_bots k (Suc m) ro)" unfolding s by (rule contacts_ok_add [OF ok]) (simp_all add: bot_contact_def)
  moreover have "(l, d) \<in> set (add_bots k (Suc m) ro) \<longleftrightarrow>
      (k \<le> l \<and> l < k + Suc m \<and> d = bot_contact l) \<or> (\<not> (k \<le> l \<and> l < k + Suc m) \<and> (l, d) \<in> set ro)" for l d
    unfolding s update_mem [OF ok] using Suc by (cases "l = k + m") auto
  ultimately show ?case by blast
qed (auto simp: add_bots_def)

lemma SpawnBots_shape:
  assumes "lobby_ok env r"
  shows "roster (gr_players (SpawnBots env n r)) = add_bots (gr_next_bot r) n (roster (gr_players r))"
    and "lobby_ok env (SpawnBots env n r)"
proof -
  obtain batch r1 where s: "spawn_loop env n [] r = (batch, r1)" by fastforce
  note shape = spawn_loop_shape [OF s]
  show ro: "roster (gr_players (SpawnBots env n r)) = add_bots (gr_next_bot r) n (roster (gr_players r))"
    using shape s by (simp add: SpawnBots_def Let_def)
  have "all_sound (gr_players (SpawnBots env n r))" "bots_ok (gr_bots (SpawnBots env n r))"
    using shape s assms by (simp_all add: SpawnBots_def Let_def lobby_ok_def)
  then show "lobby_ok env (SpawnBots env n r)"
    using add_bots_ok [of "ev_workers env" "roster (gr_players r)" "gr_next_bot r" n] assms unfolding lobby_ok_def ro by blast
qed

text \<open>Getting ready and leaving.\<close>

definition make_ready :: "nat \<Rightarrow> (nat \<times> contact_info) list \<Rightarrow> (nat \<times> contact_info) list" where
  "make_ready k ro = map (\<lambda>(l, c). (l, if l = k then c\<lparr>ct_ready := True\<rparr> else c)) ro"

lemma make_ready_mem:
  "(l, d) \<in> set (make_ready k ro) \<longleftrightarrow> (if l = k then \<exists>c. (k, c) \<in> set ro \<and> d = c\<lparr>ct_ready := True\<rparr> else (l, d) \<in> set ro)"
  by (force simp: make_ready_def)

lemma contacts_ok_ready:
  assumes "contacts_ok n ro"
  shows "contacts_ok n (make_ready k ro)"
proof -
  have "map fst (make_ready k ro) = map fst ro" by (simp add: make_ready_def comp_def case_prod_beta)
  moreover have "\<exists>c. (l, c) \<in> set ro \<and> ct_id d = ct_id c \<and> ct_session d = ct_session c \<and> ct_ring d = ct_ring c \<and> ct_worker d = ct_worker c"
    if "(l, d) \<in> set (make_ready k ro)" for l d using that by (auto simp: make_ready_mem split: if_splits)
  ultimately show ?thesis
    using contacts_okD(1) [OF assms] contacts_okD(2-4) [OF assms] unfolding contacts_ok_def by metis
qed

lemma roster_ready: "roster (upd_list k (pl_scene_ready_update (\<lambda>_. True)) ps) = make_ready k (roster ps)"
  by (auto simp: roster_def upd_list_def make_ready_def contact_def)

lemma lobby_ok_ready:
  assumes "lobby_ok env r"
  shows "lobby_ok env (HandleSceneReady env k r)"
proof (cases "find_player r k")
  case (Some p)
  have "all_sound (upd_list k (pl_scene_ready_update (\<lambda>_. True)) (gr_players r))"
    using assms by (auto simp: lobby_ok_def all_sound_def upd_list_def list_all_iff sound_def split: if_splits)
  then show ?thesis
    using assms contacts_ok_ready Some
    by (auto simp: HandleSceneReady_def Let_def lobby_ok_def roster_ready)
qed (simp add: HandleSceneReady_def assms)

lemma RemovePlayer_fields:
  assumes "find_player r k = Some p"
  shows "gr_players (RemovePlayer env now k r) = AList.delete k (gr_players r)" and "gr_bots (RemovePlayer env now k r) = gr_bots r"
    and "gr_outbox (RemovePlayer env now k r) = gr_outbox (Room_BroadcastAll env (S_DESPAWN k) (r\<lparr>gr_players := AList.delete k (gr_players r)\<rparr>))"
  using assms by (simp_all add: RemovePlayer_def Let_def)

lemma lobby_ok_remove:
  assumes "lobby_ok env r"
  shows "lobby_ok env (RemovePlayer env now k r)"
proof (cases "find_player r k")
  case (Some p)
  have "all_sound (AList.delete k (gr_players r))"
    using assms by (auto simp: lobby_ok_def all_sound_def list_all_iff set_delete)
  then show ?thesis
    using assms contacts_ok_delete unfolding lobby_ok_def RemovePlayer_fields [OF Some] roster_delete by blast
qed (simp add: RemovePlayer_def assms)

lemma lobby_ok_add:
  assumes "lobby_ok env r" and "admissible env (AddJob ctx spawn) r"
  shows "lobby_ok env (AddPlayer env ctx spawn r)"
proof -
  obtain p where p: "gr_players (AddPlayer env ctx spawn r) = AList.update (cx_player ctx) p (gr_players r)" "sound p"
    "contact p = \<lparr>ct_id = cx_player ctx, ct_session = cx_session ctx, ct_ring = True, ct_worker = cx_worker ctx, ct_ready = False\<rparr>"
    "gr_bots (AddPlayer env ctx spawn r) = gr_bots r" using AddPlayer_shape [of env ctx spawn r] by blast
  have "l = cx_player ctx" if "(l, d) \<in> set (roster (gr_players r))" "ct_session d = cx_session ctx" for l d
    using that assms(2) by (auto simp: roster_def list_all_iff contact_def)
  then have "contacts_ok (ev_workers env) (AList.update (cx_player ctx) (contact p) (roster (gr_players r)))"
    using assms p(3) by (intro contacts_ok_add) (auto simp: lobby_ok_def)
  then show ?thesis
    using assms(1) all_sound_update [OF _ p(2)] unfolding lobby_ok_def p(1,4) roster_update by blast
qed

lemma lobby_ok_job:
  assumes "lobby_ok env r" and "admissible env j r"
  shows "lobby_ok env (run_job env j r)"
proof (cases j)
  case (PacketJob now pid pkt ps)
  show ?thesis
  proof (cases "pkt = C_SCENE_READY")
    case True
    then show ?thesis
      using lobby_ok_ready [OF assms(1)] assms(1) by (cases "find_player r pid") (simp_all add: PacketJob HandlePacket_def)
  next
    case False
    then show ?thesis using lobby_ok_calm [OF calm_HandlePacket, of pkt env "(ps, r)"] assms(1) by (simp add: PacketJob)
  qed
next
  case (AddJob ctx spawn)
  then show ?thesis using lobby_ok_add assms by simp
qed (use assms(1) in \<open>simp_all add: lobby_ok_remove lobby_ok_calm [OF calm_OnTick] SpawnBots_shape(2)\<close>)

lemma room_reach_ok: "room_reach env r joined \<Longrightarrow> lobby_ok env r"
proof (induction rule: room_reach.induct)
  case (start rid name rng d spawn depth)
  show ?case by (rule lobby_ok_start) (simp_all add: Room_def)
next
  case (job r joined j)
  then show ?case using lobby_ok_job by blast
next
  case (link r joined cs)
  then show ?case by (simp add: lobby_ok_def)
qed

section \<open>What clients see\<close>

text \<open>A client adds the entities of a list or a spawn message and drops those of a despawn message.\<close>

fun see :: "server_msg \<Rightarrow> nat set \<Rightarrow> nat set" where
  "see (S_PLAYER_LIST ps) V = V \<union> set (map pi_id ps)"
| "see (S_SPAWN p) V = insert (pi_id p) V"
| "see (S_DESPAWN k) V = V - {k}"
| "see m V = V"

definition client_view :: "nat \<Rightarrow> (nat \<times> nat \<times> server_msg) list \<Rightarrow> nat set \<Rightarrow> nat set" where
  "client_view s msgs V = fold (\<lambda>(w, s', m) V. if s' = s then see m V else V) msgs V"

lemma client_view_append: "client_view s (xs @ ys) V = client_view s ys (client_view s xs V)"
  by (simp add: client_view_def)

lemma see_free: "entity_free m \<Longrightarrow> see m V = V"
  by (cases m) auto

lemma see_twice: "see m (see m V) = see m V"
  by (cases m) auto

lemma client_view_free: "list_all (\<lambda>(w, s, m). entity_free m) msgs \<Longrightarrow> client_view s msgs V = V"
  by (induction msgs arbitrary: V) (simp_all add: client_view_def see_free case_prod_beta)

lemma client_view_posts:
  assumes "\<And>x. x \<in> set posts \<Longrightarrow> snd (snd x) = m"
  shows "client_view s posts V = (if s \<in> (fst \<circ> snd) ` set posts then see m V else V)"
  using assms
proof (induction posts arbitrary: V)
  case (Cons x posts)
  obtain w s' where x: "x = (w, s', m)" using Cons.prems [of x] by (cases x) auto
  have "client_view s (x # posts) V = client_view s posts (if s' = s then see m V else V)" by (simp add: client_view_def x)
  then show ?case using Cons by (auto simp: x see_twice)
qed (simp add: client_view_def)

definition hears :: "'r game_env \<Rightarrow> nat option \<Rightarrow> (nat \<times> contact_info) list \<Rightarrow> nat \<Rightarrow> bool" where
  "hears env ex ro s = (\<exists>k c. (k, c) \<in> set ro \<and> ct_session c = s \<and> Some k \<noteq> ex \<and> s \<noteq> 0 \<and> ct_ready c \<and> ct_worker c < ev_workers env)"

lemma broadcast_view:
  assumes "\<And>n. ev_pool env n" and "j \<le> length (gr_outbox r)"
  shows "client_view s (drop j (gr_outbox (Room_BroadcastAll env m r))) V =
      (let V' = client_view s (drop j (gr_outbox r)) V in if hears env None (roster (gr_players r)) s then see m V' else V')"
    and "client_view s (drop j (gr_outbox (Room_BroadcastExcept env k m r))) V =
      (let V' = client_view s (drop j (gr_outbox r)) V in if hears env (Some k) (roster (gr_players r)) s then see m V' else V')"
proof -
  let ?a = "concat (map (\<lambda>(k, p). if gets_broadcasts p then post env m p else []) (gr_players r))"
  let ?b = "concat (map (\<lambda>(l, p). if l \<noteq> k \<and> gets_broadcasts p then post env m p else []) (gr_players r))"
  have "s \<in> (fst \<circ> snd) ` set ?a \<longleftrightarrow> hears env None (roster (gr_players r)) s"
    by (force simp: hears_def roster_def contact_def gets_broadcasts_def post_def split: if_splits)
  moreover have "s \<in> (fst \<circ> snd) ` set ?b \<longleftrightarrow> hears env (Some k) (roster (gr_players r)) s"
    by (force simp: hears_def roster_def contact_def gets_broadcasts_def post_def split: if_splits)
  moreover have "client_view s ?a V = (if s \<in> (fst \<circ> snd) ` set ?a then see m V else V)"
      "client_view s ?b V = (if s \<in> (fst \<circ> snd) ` set ?b then see m V else V)" for V
    by (rule client_view_posts; auto simp: post_def split: if_splits)+
  ultimately show "client_view s (drop j (gr_outbox (Room_BroadcastAll env m r))) V =
      (let V' = client_view s (drop j (gr_outbox r)) V in if hears env None (roster (gr_players r)) s then see m V' else V')"
    "client_view s (drop j (gr_outbox (Room_BroadcastExcept env k m r))) V =
      (let V' = client_view s (drop j (gr_outbox r)) V in if hears env (Some k) (roster (gr_players r)) s then see m V' else V')"
    using assms by (simp_all add: Room_BroadcastAll_def Room_BroadcastExcept_def send_def client_view_append Let_def)
qed

lemma hears_ready:
  assumes "contacts_ok (ev_workers env) ro" and "(k, c) \<in> set ro" and "ct_session c \<noteq> 0"
  shows "hears env ex ro (ct_session c) \<longleftrightarrow> Some k \<noteq> ex \<and> ct_ready c"
proof
  assume "hears env ex ro (ct_session c)"
  then obtain l d where d: "(l, d) \<in> set ro" "ct_session d = ct_session c" "Some l \<noteq> ex" "ct_ready d" by (auto simp: hears_def)
  then have "l = k" using contacts_okD(4) [OF assms(1,2) d(1) assms(3)] by simp
  then have "d = c" using eq_key_imp_eq_value [OF contacts_okD(1) [OF assms(1)]] d(1) assms(2) by blast
  then show "Some k \<noteq> ex \<and> ct_ready c" using d \<open>l = k\<close> by simp
next
  assume "Some k \<noteq> ex \<and> ct_ready c"
  then show "hears env ex ro (ct_session c)" using assms contacts_okD(3) [OF assms] unfolding hears_def by blast
qed

text \<open>The agreement between a room and its clients: a client that is ready sees every player who is ready and every bot, and
  nobody who is not in the room; a client that is not ready has not been told of anybody.\<close>

definition others :: "(nat \<times> contact_info) list \<Rightarrow> nat \<Rightarrow> nat set" where
  "others ro k = fst ` set ro - {k}"

definition must_see :: "(nat \<times> contact_info) list \<Rightarrow> nat \<Rightarrow> nat set" where
  "must_see ro k = fst ` set (filter (\<lambda>(l, c). l \<noteq> k \<and> (ct_ready c \<or> ct_session c = 0)) ro)"

definition view_of :: "'r game_room \<Rightarrow> (nat \<Rightarrow> nat) \<Rightarrow> nat \<Rightarrow> nat set" where
  "view_of r joined s = client_view s (drop (joined s) (gr_outbox r)) {}"

definition view_right :: "(nat \<times> contact_info) list \<Rightarrow> nat \<Rightarrow> bool \<Rightarrow> nat set \<Rightarrow> bool" where
  "view_right ro k ready V = (if ready then must_see ro k \<subseteq> V \<and> V \<subseteq> others ro k else V = {})"

definition views_ok :: "'r game_room \<Rightarrow> (nat \<Rightarrow> nat) \<Rightarrow> bool" where
  "views_ok r joined = (\<forall>k c. (k, c) \<in> set (roster (gr_players r)) \<longrightarrow> ct_session c \<noteq> 0 \<longrightarrow>
     joined (ct_session c) \<le> length (gr_outbox r) \<and>
     view_right (roster (gr_players r)) k (ct_ready c) (view_of r joined (ct_session c)))"

lemma views_okD:
  assumes "views_ok r joined" and "(k, c) \<in> set (roster (gr_players r))" and "ct_session c \<noteq> 0"
  shows "joined (ct_session c) \<le> length (gr_outbox r)"
    and "view_right (roster (gr_players r)) k (ct_ready c) (view_of r joined (ct_session c))"
  using assms unfolding views_ok_def by blast+

lemma views_ok_calm:
  assumes "views_ok r joined" and "calm r r'" and "bots_ok (gr_bots r)"
  shows "views_ok r' joined"
proof -
  obtain sent where s: "roster (gr_players r') = roster (gr_players r)" "gr_outbox r' = gr_outbox r @ sent"
    "list_all (\<lambda>(w, s, m). entity_free m) sent" using assms(2,3) unfolding calm_def calm_by_def sends_more_def by blast
  have "view_of r' joined s' = view_of r joined s'" if "joined s' \<le> length (gr_outbox r)" for s'
    using that s(3) by (simp add: view_of_def s(2) client_view_append client_view_free)
  then show ?thesis using assms(1) unfolding views_ok_def s(1,2) by (simp add: trans_le_add1)
qed

lemma must_see_iff: "l \<in> must_see ro k \<longleftrightarrow> l \<noteq> k \<and> (\<exists>c. (l, c) \<in> set ro \<and> (ct_ready c \<or> ct_session c = 0))"
  by (force simp: must_see_def)

lemma others_iff: "l \<in> others ro k \<longleftrightarrow> l \<noteq> k \<and> (\<exists>c. (l, c) \<in> set ro)"
  by (force simp: others_def)

lemma view_rightI:
  assumes "ready \<Longrightarrow> must_see ro k \<subseteq> V" and "ready \<Longrightarrow> V \<subseteq> others ro k" and "\<not> ready \<Longrightarrow> V = {}"
  shows "view_right ro k ready V"
  using assms by (simp add: view_right_def)

lemma views_ok_add:
  assumes ok: "lobby_ok env r" and adm: "admissible env (AddJob ctx spawn) r" and v: "views_ok r joined"
  shows "views_ok (AddPlayer env ctx spawn r) (joins (AddJob ctx spawn) r joined)"
proof -
  let ?ro = "roster (gr_players r)" and ?k = "cx_player ctx"
  obtain p where p: "gr_players (AddPlayer env ctx spawn r) = AList.update ?k p (gr_players r)"
    "contact p = \<lparr>ct_id = ?k, ct_session = cx_session ctx, ct_ring = True, ct_worker = cx_worker ctx, ct_ready = False\<rparr>"
    "gr_outbox (AddPlayer env ctx spawn r) = gr_outbox r" using AddPlayer_shape [of env ctx spawn r] by blast
  have c: "contacts_ok (ev_workers env) ?ro" using ok by (simp add: lobby_ok_def)
  let ?ro' = "AList.update ?k (contact p) ?ro"
  note mem = update_mem [OF c, of _ _ ?k "contact p"]
  have sess: "ct_session d \<noteq> cx_session ctx" if "(l, d) \<in> set ?ro" "l \<noteq> ?k" for l d
    using that adm by (auto simp: roster_def list_all_iff contact_def)
  show ?thesis
    unfolding views_ok_def p(1,3) roster_update
  proof (intro allI impI)
    fix l d assume l: "(l, d) \<in> set ?ro'" and s: "ct_session d \<noteq> 0"
    let ?j = "joins (AddJob ctx spawn) r joined"
    show "?j (ct_session d) \<le> length (gr_outbox r) \<and>
        view_right ?ro' l (ct_ready d) (view_of (AddPlayer env ctx spawn r) ?j (ct_session d))"
    proof (cases "l = ?k")
      case True
      then have "d = contact p" using l unfolding mem by blast
      then show ?thesis by (simp add: p(2,3) view_of_def client_view_def view_right_def)
    next
      case False
      then have l': "(l, d) \<in> set ?ro" using l unfolding mem by blast
      have j: "?j (ct_session d) = joined (ct_session d)" using sess [OF l' False] by simp
      have V: "view_of (AddPlayer env ctx spawn r) ?j (ct_session d) = view_of r joined (ct_session d)"
        by (simp add: view_of_def p(3) j del: joins.simps)
      have "\<not> ct_ready (contact p)" "ct_session (contact p) \<noteq> 0" using adm by (simp_all add: p(2))
      then have "must_see ?ro' l \<subseteq> must_see ?ro l" unfolding must_see_iff subset_iff mem by blast
      moreover have "others ?ro l \<subseteq> others ?ro' l" unfolding others_iff subset_iff mem by blast
      ultimately have "view_right ?ro' l (ct_ready d) (view_of r joined (ct_session d))"
        using views_okD(2) [OF v l' s] unfolding view_right_def by (auto split: if_splits)
      then show ?thesis using views_okD(1) [OF v l' s] unfolding V j by simp
    qed
  qed
qed

lemma views_ok_remove:
  assumes ok: "lobby_ok env r" and pool: "\<And>n. ev_pool env n" and v: "views_ok r joined"
  shows "views_ok (RemovePlayer env now k r) joined"
proof (cases "find_player r k")
  case (Some p)
  let ?ro = "roster (gr_players r)" and ?r1 = "r\<lparr>gr_players := AList.delete k (gr_players r)\<rparr>"
  let ?ro' = "AList.delete k ?ro"
  have c: "contacts_ok (ev_workers env) ?ro'" using ok contacts_ok_delete by (simp add: lobby_ok_def)
  show ?thesis
    unfolding views_ok_def RemovePlayer_fields [OF Some] roster_delete
  proof (intro allI impI)
    fix l d assume l: "(l, d) \<in> set ?ro'" and s: "ct_session d \<noteq> 0"
    have l': "(l, d) \<in> set ?ro" "l \<noteq> k" using l by (simp_all add: set_delete)
    note old = views_okD [OF v l'(1) s]
    have V: "view_of (RemovePlayer env now k r) joined (ct_session d) =
        (if ct_ready d then view_of r joined (ct_session d) - {k} else view_of r joined (ct_session d))"
      using broadcast_view(1) [OF pool, of "joined (ct_session d)" ?r1 "ct_session d" "S_DESPAWN k" "{}"] old(1) hears_ready [OF c l s]
      unfolding view_of_def RemovePlayer_fields [OF Some] by (simp add: roster_delete Let_def)
    have "view_right ?ro' l (ct_ready d) (view_of (RemovePlayer env now k r) joined (ct_session d))"
    proof (rule view_rightI)
      assume ready: "ct_ready d"
      then have o: "must_see ?ro l \<subseteq> view_of r joined (ct_session d)" "view_of r joined (ct_session d) \<subseteq> others ?ro l"
        using old(2) by (simp_all add: view_right_def)
      show "must_see ?ro' l \<subseteq> view_of (RemovePlayer env now k r) joined (ct_session d)"
        using o(1) ready unfolding V by (auto simp: must_see_iff set_delete subset_iff)
      show "view_of (RemovePlayer env now k r) joined (ct_session d) \<subseteq> others ?ro' l"
        using o(2) ready unfolding V by (auto simp: others_iff set_delete subset_iff)
    qed (use old(2) in \<open>simp add: V view_right_def\<close>)
    moreover have "length (gr_outbox r) \<le> length (gr_outbox (Room_BroadcastAll env (S_DESPAWN k) ?r1))"
      by (simp add: Room_BroadcastAll_def send_def Let_def)
    ultimately show "joined (ct_session d) \<le> length (gr_outbox (Room_BroadcastAll env (S_DESPAWN k) ?r1)) \<and>
        view_right ?ro' l (ct_ready d) (view_of (RemovePlayer env now k r) joined (ct_session d))" using old(1) by simp
  qed
qed (simp add: RemovePlayer_def v)

lemma ready_snapshot:
  assumes c: "contacts_ok n (make_ready k (roster ps))" and ps': "ps' = upd_list k (pl_scene_ready_update (\<lambda>_. True)) ps"
  shows "see (S_PLAYER_LIST (map (info_of \<circ> snd) (filter (\<lambda>(l, q). l \<noteq> k) ps'))) V = V \<union> others (make_ready k (roster ps)) k"
proof -
  have ro: "make_ready k (roster ps) = roster ps'" by (simp add: ps' roster_ready)
  have "pl_id q = l" if "(l, q) \<in> set ps'" for l q
    using contacts_okD(2) [OF c [unfolded ro] roster_mem [OF that]] by (simp add: contact_def)
  then have "set (map pi_id (map (info_of \<circ> snd) (filter (\<lambda>(l, q). l \<noteq> k) ps'))) = fst ` set ps' - {k}"
    by (force simp: info_of_def)
  moreover have "fst ` set ps' = fst ` set (roster ps')" using fst_roster [of ps'] by (metis list.set_map)
  ultimately show ?thesis by (simp add: others_def ro)
qed

text \<open>What getting ready changes in the view of the player with key \<^verbatim>\<open>l\<close>.\<close>

lemma ready_views:
  assumes ok: "lobby_ok env r" and pool: "\<And>n. ev_pool env n" and p: "find_player r k = Some p" "\<not> pl_scene_ready p"
    and l: "(l, d) \<in> set (make_ready k (roster (gr_players r)))" "ct_session d \<noteq> 0" and j: "joined (ct_session d) \<le> length (gr_outbox r)"
  shows "view_of (HandleSceneReady env k r) joined (ct_session d) =
    (if l = k then view_of r joined (ct_session d) \<union> others (make_ready k (roster (gr_players r))) k
     else if ct_ready d then insert k (view_of r joined (ct_session d)) else view_of r joined (ct_session d))"
proof -
  let ?ro = "roster (gr_players r)" and ?s = "ct_session d"
  define r1 where "r1 = upd_player k (pl_scene_ready_update (\<lambda>_. True)) r"
  define msg where "msg = S_PLAYER_LIST (map (info_of \<circ> snd) (filter (\<lambda>(l, q). l \<noteq> k) (gr_players r1)))"
  define r2 where "r2 = SendTo env p msg r1"
  have r': "HandleSceneReady env k r = Room_BroadcastExcept env k (S_SPAWN (info_of p)) r2"
    using p by (simp add: HandleSceneReady_def r1_def r2_def msg_def Let_def)
  have out: "gr_outbox r2 = gr_outbox r @ (if pl_ring p \<and> pl_worker p < ev_workers env then [(pl_worker p, pl_session p, msg)] else [])"
    using pool by (simp add: r2_def r1_def SendTo_def send_def post_def Let_def)
  have pk: "(k, contact p) \<in> set ?ro" using map_of_SomeD [of "gr_players r" k p] p(1) roster_mem by (simp add: find_player_def)
  have co: "contacts_ok (ev_workers env) ?ro" using ok by (simp add: lobby_ok_def)
  note c = contacts_ok_ready [OF co, of k]
  have idk: "pl_id p = k" using contacts_okD(2) [OF co pk] by (simp add: contact_def)
  have ro': "roster (gr_players r2) = make_ready k ?ro" by (simp add: r2_def r1_def roster_ready)
  have seen: "see msg V = V \<union> others (make_ready k ?ro) k" for V
    unfolding msg_def by (rule ready_snapshot [OF c]) (simp add: r1_def)
  have pk': "(k, (contact p)\<lparr>ct_ready := True\<rparr>) \<in> set (make_ready k ?ro)" using pk by (auto simp: make_ready_mem)
  have mine: "pl_session p = ?s \<longleftrightarrow> l = k"
    using contacts_okD(4) [OF c l(1) pk' l(2)] eq_key_imp_eq_value [OF contacts_okD(1) [OF c] l(1)] pk' by (auto simp: contact_def)
  have "client_view ?s (drop (joined ?s) (gr_outbox r2)) {} =
      (if l = k then view_of r joined ?s \<union> others (make_ready k ?ro) k else view_of r joined ?s)"
  proof (cases "l = k")
    case True
    then have "pl_ring p \<and> pl_worker p < ev_workers env" using contacts_okD(3) [OF co pk] l(2) mine by (simp add: contact_def)
    then show ?thesis using True mine j out seen by (simp add: view_of_def client_view_append) (simp add: client_view_def)
  next
    case False
    then show ?thesis using mine j out by (simp add: view_of_def client_view_append) (simp add: client_view_def)
  qed
  then show ?thesis
    using broadcast_view(2) [OF pool, of "joined ?s" r2 ?s k "S_SPAWN (info_of p)" "{}"] hears_ready [OF c l, of "Some k"] idk j out
    unfolding view_of_def r' ro' by (simp add: Let_def info_of_def)
qed

lemma views_ok_ready:
  assumes ok: "lobby_ok env r" and pool: "\<And>n. ev_pool env n" and v: "views_ok r joined"
  shows "views_ok (HandleSceneReady env k r) joined"
proof (cases "\<exists>p. find_player r k = Some p \<and> \<not> pl_scene_ready p")
  case True
  then obtain p where p: "find_player r k = Some p" "\<not> pl_scene_ready p" by blast
  let ?ro = "roster (gr_players r)" and ?r' = "HandleSceneReady env k r"
  have pk: "(k, contact p) \<in> set ?ro" using map_of_SomeD [of "gr_players r" k p] p(1) roster_mem by (simp add: find_player_def)
  have co: "contacts_ok (ev_workers env) ?ro" using ok by (simp add: lobby_ok_def)
  have ro': "roster (gr_players ?r') = make_ready k ?ro" using p by (simp add: HandleSceneReady_def roster_ready Let_def)
  have len: "length (gr_outbox r) \<le> length (gr_outbox ?r')"
    using p by (simp add: HandleSceneReady_def Room_BroadcastExcept_def SendTo_def send_def Let_def)
  have "joined (ct_session d) \<le> length (gr_outbox ?r') \<and> view_right (make_ready k ?ro) l (ct_ready d) (view_of ?r' joined (ct_session d))"
    if l: "(l, d) \<in> set (make_ready k ?ro)" and s: "ct_session d \<noteq> 0" for l d
  proof -
    obtain e where e: "(l, e) \<in> set ?ro" "ct_session e = ct_session d" "l \<noteq> k \<Longrightarrow> e = d"
      using l by (auto simp: make_ready_mem split: if_splits)
    note old = views_okD [OF v e(1), unfolded e(2), OF s]
    note V = ready_views [where joined = joined, OF ok pool p l s old(1)]
    have "view_right (make_ready k ?ro) l (ct_ready d) (view_of ?r' joined (ct_session d))"
    proof (cases "l = k")
      case True
      have "e = contact p" using True eq_key_imp_eq_value [OF contacts_okD(1) [OF co]] e(1) pk by blast
      then have "view_of r joined (ct_session d) = {}" using old(2) p(2) by (simp add: view_right_def contact_def)
      moreover have "must_see (make_ready k ?ro) k \<subseteq> others (make_ready k ?ro) k" by (auto simp: must_see_iff others_iff)
      moreover have "ct_ready d" using l True by (auto simp: make_ready_mem)
      ultimately show ?thesis using V True by (simp add: view_right_def)
    next
      case False
      have "others (make_ready k ?ro) l = others ?ro l" by (force simp: others_def make_ready_def)
      moreover have "must_see (make_ready k ?ro) l \<subseteq> insert k (must_see ?ro l)" by (auto simp: must_see_iff make_ready_mem split: if_splits)
      moreover have "k \<in> others ?ro l" using pk False by (auto simp: others_iff)
      ultimately show ?thesis using old(2) V False unfolding e(3) [OF False] view_right_def by (auto split: if_splits)
    qed
    then show ?thesis using old(1) len by simp
  qed
  then show ?thesis unfolding views_ok_def ro' by blast
next
  case False
  then have "HandleSceneReady env k r = r" by (auto simp: HandleSceneReady_def split: option.splits)
  then show ?thesis using v by simp
qed

lemma views_ok_bots:
  assumes ok: "lobby_ok env r" and pool: "\<And>n. ev_pool env n" and v: "views_ok r joined"
  shows "views_ok (SpawnBots env n r) joined"
proof -
  let ?ro = "roster (gr_players r)" and ?r' = "SpawnBots env n r" and ?k = "gr_next_bot r"
  let ?ro' = "add_bots ?k n ?ro"
  note ro' = SpawnBots_shape(1) [OF ok, of n]
  have c: "contacts_ok (ev_workers env) ?ro'"
    and mem: "\<And>l d. (l, d) \<in> set ?ro' \<longleftrightarrow> (?k \<le> l \<and> l < ?k + n \<and> d = bot_contact l) \<or> (\<not> (?k \<le> l \<and> l < ?k + n) \<and> (l, d) \<in> set ?ro)"
    using add_bots_ok [of "ev_workers env" ?ro ?k n] ok unfolding lobby_ok_def by blast+
  obtain batch r1 where s: "spawn_loop env n [] r = (batch, r1)" by fastforce
  note shape = spawn_loop_shape [OF s]
  have "joined (ct_session d) \<le> length (gr_outbox ?r') \<and> view_right ?ro' l (ct_ready d) (view_of ?r' joined (ct_session d))"
    if l: "(l, d) \<in> set ?ro'" and sd: "ct_session d \<noteq> 0" for l d
  proof -
    have l': "(l, d) \<in> set ?ro" "\<not> (?k \<le> l \<and> l < ?k + n)" using l sd unfolding mem by (auto simp: bot_contact_def)
    note old = views_okD [OF v l'(1) sd]
    have "filter (\<lambda>(k, p). pl_session p \<noteq> 0) (gr_players r) \<noteq> []"
      using l'(1) sd by (force simp: roster_def contact_def filter_empty_conv)
    then have r': "?r' = (if n = 0 then r1 else Room_BroadcastAll env (S_PLAYER_LIST batch) r1)"
      using s shape by (cases n) (auto simp: SpawnBots_def Let_def)
    have ids: "set (map pi_id batch) = {?k..<?k + n}" using shape by simp
    have V: "view_of ?r' joined (ct_session d) =
        (if ct_ready d then view_of r joined (ct_session d) \<union> {?k..<?k + n} else view_of r joined (ct_session d))"
      using broadcast_view(1) [OF pool, of "joined (ct_session d)" r1 "ct_session d" "S_PLAYER_LIST batch" "{}"] old(1)
        hears_ready [OF c l sd, of None] shape ids unfolding r' view_of_def by (auto simp: Let_def)
    have "others ?ro l \<union> {?k..<?k + n} \<subseteq> others ?ro' l" using l'(2) unfolding others_iff subset_iff mem Un_iff by auto
    moreover have "must_see ?ro' l \<subseteq> must_see ?ro l \<union> {?k..<?k + n}" unfolding must_see_iff subset_iff mem Un_iff by auto
    ultimately have "view_right ?ro' l (ct_ready d) (view_of ?r' joined (ct_session d))"
      using old(2) V unfolding view_right_def by (auto split: if_splits)
    moreover have "length (gr_outbox r) \<le> length (gr_outbox ?r')"
      using shape unfolding r' by (simp add: Room_BroadcastAll_def send_def Let_def)
    ultimately show ?thesis using old(1) by simp
  qed
  then show ?thesis unfolding views_ok_def ro' by blast
qed

lemma views_ok_job:
  assumes ok: "lobby_ok env r" and adm: "admissible env j r" and pool: "\<And>n. ev_pool env n" and v: "views_ok r joined"
  shows "views_ok (run_job env j r) (joins j r joined)"
proof (cases j)
  case (AddJob ctx spawn)
  then show ?thesis using views_ok_add [OF ok _ v] adm by simp
next
  case (RemoveJob now pid)
  then show ?thesis using views_ok_remove [OF ok pool v] by simp
next
  case (PacketJob now pid pkt ps)
  show ?thesis
  proof (cases "pkt = C_SCENE_READY")
    case True
    then show ?thesis
      using views_ok_ready [OF ok pool v] v by (cases "find_player r pid") (simp_all add: PacketJob HandlePacket_def)
  next
    case False
    then show ?thesis
      using views_ok_calm [OF v calm_HandlePacket [of pkt "(ps, r)", simplified]] ok by (simp add: PacketJob lobby_ok_def)
  qed
next
  case (TickJob now)
  then show ?thesis using views_ok_calm [OF v calm_OnTick] ok by (simp add: lobby_ok_def)
next
  case (BotsJob n)
  then show ?thesis using views_ok_bots [OF ok pool v] by simp
qed

lemma room_reach_views:
  assumes "room_reach env r joined" and pool: "\<And>n. ev_pool env n"
  shows "views_ok r joined"
  using assms(1)
proof (induction rule: room_reach.induct)
  case (start rid name rng d spawn depth)
  show ?case by (simp add: views_ok_def roster_def Room_def)
next
  case (job r joined j)
  then show ?case using views_ok_job [OF room_reach_ok _ pool] by blast
next
  case (link r joined cs)
  then show ?case by (simp add: views_ok_def view_of_def)
qed

text \<open>A small room: a player enters, gets ready, and two bots are added.\<close>

definition demo_game_env :: "nat game_env" where
  "demo_game_env = \<lparr>ev_draw = (\<lambda>lo hi n. (lo, n)), ev_draw_real = (\<lambda>lo hi n. (0, n)), ev_raw = (\<lambda>n. (n, n + 1)), ev_pool = (\<lambda>n. True),
     ev_workers = 2, ev_tie = (\<lambda>s t n. 0)\<rparr>"

definition demo_ctx :: player_context where
  "demo_ctx = \<lparr>cx_session = 7, cx_player = 1, cx_username = ''ann'', cx_char = 1, cx_char_name = ''Ann'', cx_level = 1, cx_room = None,
     cx_worker = 0\<rparr>"

definition demo_jobs :: "room_job list" where
  "demo_jobs = [AddJob demo_ctx (0, 0, 0), PacketJob 0 1 C_SCENE_READY party_system_new, BotsJob 2]"

definition demo_room :: "nat game_room" where
  "demo_room = fold (run_job demo_game_env) demo_jobs ((Room 1 ''Cave'' 0)\<lparr>gr_dungeon := empty_dungeon, gr_map_spawn := (0, 0), gr_depth := 0\<rparr>)"

definition demo_joined :: "nat \<Rightarrow> nat" where
  "demo_joined = (\<lambda>_. 0)(7 := 0)"

lemma demo_room_reach: "room_reach demo_game_env demo_room demo_joined"
proof -
  let ?r = "(Room 1 ''Cave'' (0 :: nat))\<lparr>gr_dungeon := empty_dungeon, gr_map_spawn := (0, 0), gr_depth := 0\<rparr>"
  have "room_reach demo_game_env ?r (\<lambda>_. 0)" by (rule room_reach.start)
  then have "room_reach demo_game_env (run_job demo_game_env (AddJob demo_ctx (0, 0, 0)) ?r) (joins (AddJob demo_ctx (0, 0, 0)) ?r (\<lambda>_. 0))"
    by (rule room_reach.job) (simp add: demo_ctx_def demo_game_env_def Room_def)
  moreover have "joins (AddJob demo_ctx (0, 0, 0)) ?r (\<lambda>_. 0) = demo_joined" by (simp add: demo_ctx_def demo_joined_def Room_def)
  ultimately show ?thesis
    using room_reach.job [of demo_game_env _ demo_joined "PacketJob 0 1 C_SCENE_READY party_system_new"]
      room_reach.job [of demo_game_env _ demo_joined "BotsJob 2"] by (simp add: demo_room_def demo_jobs_def)
qed

lemma demo_players: "length (gr_players demo_room) = 3"
  by (simp add: demo_room_def demo_jobs_def demo_game_env_def demo_ctx_def Room_def AddPlayer_def player_state_new_def empty_dungeon_def
      HandlePacket_def find_player_def HandleSceneReady_def Let_def SpawnBots_def numeral_2_eq_2 upd_list_def bot_player_def
      Room_BroadcastExcept_def SendTo_def send_def upd_player_def)

section \<open>Properties\<close>

text \<open>C5: rooms and clients agree on who is there. Whatever jobs a room has run, in whatever order, as long as the pool had
  buffers for its messages: a client whose player has announced a ready scene knows of every other ready player and of
  every bot in the room, and of nobody who is not another entity of the room (a player that has joined and not announced
  a ready scene may or may not be known); a client that has not announced it has been told of nobody.\<close>

theorem clients_see_room:
  assumes "room_reach env r joined" and "\<And>n. ev_pool env n"
  shows "list_all (\<lambda>(k, p). pl_session p = 0 \<or>
    (if pl_scene_ready p
     then must_see (roster (gr_players r)) k \<subseteq> view_of r joined (pl_session p) \<and>
          view_of r joined (pl_session p) \<subseteq> others (roster (gr_players r)) k
     else view_of r joined (pl_session p) = {})) (gr_players r)"
proof -
  have "view_right (roster (gr_players r)) k (pl_scene_ready p) (view_of r joined (pl_session p))"
    if "(k, p) \<in> set (gr_players r)" "pl_session p \<noteq> 0" for k p
    using views_okD(2) [OF room_reach_views [OF assms] roster_mem [OF that(1)]] that(2) by (simp add: contact_def)
  then show ?thesis unfolding list_all_iff view_right_def by fast
qed

theorem clients_see_room_witness:
  "length (gr_players demo_room) = 3 \<and> list_all (\<lambda>(k, p). pl_session p = 0 \<or>
    (if pl_scene_ready p
     then must_see (roster (gr_players demo_room)) k \<subseteq> view_of demo_room demo_joined (pl_session p) \<and>
          view_of demo_room demo_joined (pl_session p) \<subseteq> others (roster (gr_players demo_room)) k
     else view_of demo_room demo_joined (pl_session p) = {})) (gr_players demo_room)"
  by (rule conjI [OF demo_players clients_see_room [OF demo_room_reach]]) (simp add: demo_game_env_def)

text \<open>C21: health stays sound in every state a room can reach: between 0 and 100, and 0 exactly for the dead.
  Every player is filed under their own id, and nobody twice.\<close>

theorem health_sound:
  assumes "room_reach env r joined"
  shows "distinct (map fst (gr_players r)) \<and>
    list_all (\<lambda>(k, p). pl_id p = k \<and> pl_max_hp p = 100 \<and> 0 \<le> pl_hp p \<and> pl_hp p \<le> 100 \<and> (pl_is_dead p \<longleftrightarrow> pl_hp p = 0)) (gr_players r)"
proof -
  have ok: "contacts_ok (ev_workers env) (roster (gr_players r))" "all_sound (gr_players r)"
    using room_reach_ok [OF assms] by (simp_all add: lobby_ok_def)
  have "pl_id p = k" if "(k, p) \<in> set (gr_players r)" for k p
    using contacts_okD(2) [OF ok(1) roster_mem [OF that]] by (simp add: contact_def)
  then show ?thesis
    using contacts_okD(1) [OF ok(1)] ok(2) unfolding fst_roster all_sound_def list_all_iff sound_def by fastforce
qed

theorem health_sound_witness:
  "distinct (map fst (gr_players demo_room)) \<and>
    list_all (\<lambda>(k, p). pl_id p = k \<and> pl_max_hp p = 100 \<and> 0 \<le> pl_hp p \<and> pl_hp p \<le> 100 \<and> (pl_is_dead p \<longleftrightarrow> pl_hp p = 0)) (gr_players demo_room)"
  by (rule health_sound [OF demo_room_reach])

text \<open>Every kill is somebody's death. Handling a packet, of whatever kind, and running a tick, with its projectiles,
  bots and respawns, leave the sum of kills minus the sum of deaths over the players of the room as it was.\<close>

theorem kills_match_deaths:
  assumes "room_reach env r joined"
  shows "score (gr_players (snd (HandlePacket env now pid pkt (ps, r)))) = score (gr_players r) \<and>
    score (gr_players (OnTick env now r)) = score (gr_players r)"
proof -
  have ok: "distinct (map fst (gr_players r))" "bots_ok (gr_bots r)"
    using room_reach_ok [OF assms] contacts_okD(1) by (force simp: lobby_ok_def fst_roster [symmetric])+
  have calm: "score (gr_players r') = score (gr_players r)" if "calm r r'" for r'
    using that ok unfolding calm_def calm_by_def by simp
  have "score (gr_players (HandleSceneReady env pid r)) = score (gr_players r)"
    by (auto simp: HandleSceneReady_def Let_def score_def upd_list_def comp_def case_prod_beta split: option.splits intro!: arg_cong [of _ _ sum_list])
  moreover have "snd (HandlePacket env now pid C_SCENE_READY (ps, r)) \<in> {r, HandleSceneReady env pid r}"
    by (auto simp: HandlePacket_def split: option.splits)
  ultimately have "score (gr_players (snd (HandlePacket env now pid C_SCENE_READY (ps, r)))) = score (gr_players r)" by auto
  then show ?thesis
    using calm [OF calm_OnTick] calm [OF calm_HandlePacket [of pkt "(ps, r)", simplified]] by (cases "pkt = C_SCENE_READY") auto
qed

theorem kills_match_deaths_witness:
  "score (gr_players (snd (HandlePacket demo_game_env 0 1 C_LEAVE_PARTY (party_system_new, demo_room)))) = score (gr_players demo_room) \<and>
    score (gr_players (OnTick demo_game_env 0 demo_room)) = score (gr_players demo_room)"
  by (rule kills_match_deaths [OF demo_room_reach])

text \<open>C37: a bot never heals and never retreats. The state in which a bot keeps its own health does not follow the damage
  it takes, so in every reachable room a living bot holds full health there: both tests for low health fail, and the
  attempt to heal does nothing, however badly the bot is hurt.\<close>

theorem bots_never_heal:
  assumes "room_reach env r joined"
  shows "list_all (\<lambda>(k, b). bt_is_dead b \<or>
    (\<not> low_hp (3 / 10) b \<and> \<not> low_hp (4 / 10) b \<and> try_heal env now b r = (b, r))) (gr_bots r)"
proof -
  have "\<not> low_hp (3 / 10) b \<and> \<not> low_hp (4 / 10) b \<and> try_heal env now b r = (b, r)"
    if "(k, b) \<in> set (gr_bots r)" "\<not> bt_is_dead b" for k b
  proof -
    have "bot_ok k b" using that(1) room_reach_ok [OF assms] by (auto simp: lobby_ok_def bots_ok_def list_all_iff)
    then show ?thesis using low_hp_full that(2) by (auto simp: try_heal_def)
  qed
  then show ?thesis by (auto simp: list_all_iff)
qed

theorem bots_never_heal_witness:
  "list_all (\<lambda>(k, b). bt_is_dead b \<or>
    (\<not> low_hp (3 / 10) b \<and> \<not> low_hp (4 / 10) b \<and> try_heal demo_game_env 0 b demo_room = (b, demo_room))) (gr_bots demo_room)"
  by (rule bots_never_heal [OF demo_room_reach])

end
