(* ===== verification/Game_Db.thy ===== *)
theory Game_Db
  imports Main "HOL-Library.AList"
begin

text \<open>
  The account and character storage of the game server (\<^verbatim>\<open>examples/GameServer/src/db\<close>): the interface \<^verbatim>\<open>DbService\<close> and its
  three implementations, in memory, on SQLite and on PostgreSQL. A call takes the state to the answer handed to its
  callback. SQLite and PostgreSQL are known by what their SQL statements document: a unique column refuses a second
  equal value, a generated id is new. Whether a statement of a call succeeds is part of the call: a flag for each. On
  PostgreSQL a login is two statements with other calls in between.
\<close>

section \<open>Interface\<close>

record char_info =
  cr_id :: nat
  cr_name :: string
  cr_level :: int

record item_data =
  it_instance :: int
  it_def :: int
  it_slot :: int
  it_quantity :: int
  it_durability :: int

datatype db_call =
  LoginCall string string bool bool
| LoginInsertCall string string bool
| RegisterCall string string bool
| GetCharListCall nat bool
| CreateCharCall nat string bool bool
| LoadInventoryCall nat bool
| LoadCurrencyCall nat bool bool

datatype db_answer =
  LoginAnswer bool nat
| LoginPending
| RegisterAnswer bool string
| CharListAnswer "char_info list"
| CreateCharAnswer bool string "char_info option"
| InventoryAnswer "item_data list"
| CurrencyAnswer int

section \<open>In memory\<close>

record memory_db =
  me_accounts :: "(string \<times> nat \<times> string) list"
  me_characters :: "(nat \<times> char_info list) list"
  me_next_player :: nat
  me_next_char :: nat

definition memory_db_new :: memory_db where
  "memory_db_new = \<lparr>me_accounts = [], me_characters = [], me_next_player = 1, me_next_char = 1\<rparr>"

definition chars_of :: "memory_db \<Rightarrow> nat \<Rightarrow> char_info list" where
  "chars_of db pid = (case map_of (me_characters db) pid of None \<Rightarrow> [] | Some cs \<Rightarrow> cs)"

definition push_char :: "nat \<Rightarrow> string \<Rightarrow> memory_db \<Rightarrow> char_info \<times> memory_db" where
  "push_char pid name db =
     (let ch = \<lparr>cr_id = me_next_char db, cr_name = name, cr_level = 1\<rparr>
      in (ch, db\<lparr>me_next_char := me_next_char db + 1,
                 me_characters := AList.update pid (chars_of db pid @ [ch]) (me_characters db)\<rparr>))"

definition Memory_Login :: "string \<Rightarrow> string \<Rightarrow> memory_db \<Rightarrow> memory_db \<times> db_answer" where
  "Memory_Login username password db =
     (case map_of (me_accounts db) username of
        None \<Rightarrow>
          let pid = me_next_player db;
              db1 = db\<lparr>me_next_player := pid + 1, me_accounts := AList.update username (pid, password) (me_accounts db)\<rparr>
          in (snd (push_char pid username db1), LoginAnswer True pid)
      | Some (pid, pw) \<Rightarrow> if pw \<noteq> password then (db, LoginAnswer False 0) else (db, LoginAnswer True pid))"

definition Memory_Register :: "string \<Rightarrow> string \<Rightarrow> memory_db \<Rightarrow> memory_db \<times> db_answer" where
  "Memory_Register username password db =
     (case map_of (me_accounts db) username of
        Some a \<Rightarrow> (db, RegisterAnswer False ''Username already exists'')
      | None \<Rightarrow>
          (db\<lparr>me_next_player := me_next_player db + 1,
              me_accounts := AList.update username (me_next_player db, password) (me_accounts db)\<rparr>, RegisterAnswer True []))"

definition Memory_CreateChar :: "nat \<Rightarrow> string \<Rightarrow> memory_db \<Rightarrow> memory_db \<times> db_answer" where
  "Memory_CreateChar pid name db =
     (if list_ex (\<lambda>(k, cs). list_ex (\<lambda>c. cr_name c = name) cs) (me_characters db)
      then (db, CreateCharAnswer False ''Character name already exists'' None)
      else case push_char pid name db of (ch, db1) \<Rightarrow> (db1, CreateCharAnswer True [] (Some ch)))"

fun memory_step :: "memory_db \<Rightarrow> db_call \<Rightarrow> memory_db \<times> db_answer" where
  "memory_step db (LoginCall u p r w) = Memory_Login u p db"
| "memory_step db (LoginInsertCall u p w) = (db, LoginPending)"
| "memory_step db (RegisterCall u p w) = Memory_Register u p db"
| "memory_step db (GetCharListCall pid r) = (db, CharListAnswer (chars_of db pid))"
| "memory_step db (CreateCharCall pid name v w) = Memory_CreateChar pid name db"
| "memory_step db (LoadInventoryCall cid r) = (db, InventoryAnswer [])"
| "memory_step db (LoadCurrencyCall cid r w) = (db, CurrencyAnswer 1000)"

section \<open>Tables\<close>

record sql_tables =
  tb_accounts :: "(nat \<times> string \<times> string) list"
  tb_characters :: "(nat \<times> nat \<times> string \<times> int) list"
  tb_currency :: "(nat \<times> int) list"
  tb_inventory :: "(nat \<times> item_data) list"
  tb_account_seq :: nat
  tb_character_seq :: nat
  tb_last_rowid :: nat

definition sql_tables_new :: sql_tables where
  "sql_tables_new = \<lparr>tb_accounts = [], tb_characters = [], tb_currency = [], tb_inventory = [], tb_account_seq = 1,
     tb_character_seq = 1, tb_last_rowid = 0\<rparr>"

text \<open>A text is bound as a C string, so it ends at its first zero byte.\<close>

definition c_str :: "string \<Rightarrow> string" where
  "c_str t = takeWhile (\<lambda>c. c \<noteq> CHR 0x00) t"

definition select_account :: "string \<Rightarrow> sql_tables \<Rightarrow> (nat \<times> string) option" where
  "select_account u t = map_option (\<lambda>(i, u', p). (i, p)) (find (\<lambda>(i, u', p). u' = c_str u) (tb_accounts t))"

definition insert_account :: "string \<Rightarrow> string \<Rightarrow> bool \<Rightarrow> sql_tables \<Rightarrow> nat option \<times> sql_tables" where
  "insert_account u p written t =
     (if \<not> written \<or> select_account u t \<noteq> None then (None, t)
      else let i = tb_account_seq t
           in (Some i, t\<lparr>tb_accounts := tb_accounts t @ [(i, c_str u, c_str p)], tb_account_seq := i + 1, tb_last_rowid := i\<rparr>))"

definition insert_character :: "nat \<Rightarrow> string \<Rightarrow> bool \<Rightarrow> sql_tables \<Rightarrow> nat option \<times> sql_tables" where
  "insert_character pid name written t =
     (if \<not> written \<or> list_ex (\<lambda>(i, pid', n, l). n = c_str name) (tb_characters t) then (None, t)
      else let i = tb_character_seq t
           in (Some i, t\<lparr>tb_characters := tb_characters t @ [(i, pid, c_str name, 1)], tb_character_seq := i + 1, tb_last_rowid := i\<rparr>))"

definition insert_currency :: "nat \<Rightarrow> bool \<Rightarrow> sql_tables \<Rightarrow> sql_tables" where
  "insert_currency cid written t =
     (if \<not> written \<or> map_of (tb_currency t) cid \<noteq> None then t
      else t\<lparr>tb_currency := tb_currency t @ [(cid, 1000)], tb_last_rowid := cid\<rparr>)"

definition select_characters :: "nat \<Rightarrow> sql_tables \<Rightarrow> char_info list" where
  "select_characters pid t =
     map (\<lambda>(i, pid', n, l). \<lparr>cr_id = i, cr_name = n, cr_level = l\<rparr>) (filter (\<lambda>(i, pid', n, l). pid' = pid) (tb_characters t))"

definition select_inventory :: "nat \<Rightarrow> sql_tables \<Rightarrow> item_data list" where
  "select_inventory cid t = map snd (filter (\<lambda>(c, it). c = cid) (tb_inventory t))"

section \<open>SQLite\<close>

definition Sqlite_Login :: "string \<Rightarrow> string \<Rightarrow> bool \<Rightarrow> bool \<Rightarrow> sql_tables \<Rightarrow> sql_tables \<times> db_answer" where
  "Sqlite_Login username password found written t =
     (case (if found then select_account username t else None) of
        Some (i, pw) \<Rightarrow> (t, LoginAnswer (password = pw) (if password = pw then i else 0))
      | None \<Rightarrow> let t1 = snd (insert_account username password written t) in (t1, LoginAnswer True (tb_last_rowid t1)))"

definition Sqlite_Register :: "string \<Rightarrow> string \<Rightarrow> bool \<Rightarrow> sql_tables \<Rightarrow> sql_tables \<times> db_answer" where
  "Sqlite_Register username password written t =
     (case insert_account username password written t of
        (None, t1) \<Rightarrow> (t1, RegisterAnswer False ''Username already exists'')
      | (Some i, t1) \<Rightarrow> (t1, RegisterAnswer True []))"

definition Sqlite_CreateChar :: "nat \<Rightarrow> string \<Rightarrow> bool \<Rightarrow> bool \<Rightarrow> sql_tables \<Rightarrow> sql_tables \<times> db_answer" where
  "Sqlite_CreateChar pid name written seeded t =
     (case insert_character pid name written t of
        (None, t1) \<Rightarrow> (t1, CreateCharAnswer False ''Character name already exists'' None)
      | (Some i, t1) \<Rightarrow>
          (insert_currency i seeded t1, CreateCharAnswer True [] (Some \<lparr>cr_id = i, cr_name = name, cr_level = 1\<rparr>)))"

definition Sqlite_LoadCurrency :: "nat \<Rightarrow> bool \<Rightarrow> bool \<Rightarrow> sql_tables \<Rightarrow> sql_tables \<times> db_answer" where
  "Sqlite_LoadCurrency cid found written t =
     (case (if found then map_of (tb_currency t) cid else None) of
        Some gold \<Rightarrow> (t, CurrencyAnswer gold)
      | None \<Rightarrow> (insert_currency cid written t, CurrencyAnswer 1000))"

definition Sqlite_SaveCurrency :: "nat \<Rightarrow> int \<Rightarrow> sql_tables \<Rightarrow> sql_tables" where
  "Sqlite_SaveCurrency cid gold t = t\<lparr>tb_currency := AList.update cid gold (tb_currency t), tb_last_rowid := cid\<rparr>"

definition Sqlite_SaveInventorySlot :: "nat \<Rightarrow> int \<Rightarrow> int \<Rightarrow> int \<Rightarrow> int \<Rightarrow> sql_tables \<Rightarrow> sql_tables" where
  "Sqlite_SaveInventorySlot cid inst item_def slot qty t =
     t\<lparr>tb_inventory := filter (\<lambda>(c, it). it_instance it \<noteq> inst) (tb_inventory t) @
          [(cid, \<lparr>it_instance = inst, it_def = item_def, it_slot = slot, it_quantity = qty, it_durability = 100\<rparr>)],
       tb_last_rowid := nat inst\<rparr>"

fun sqlite_step :: "sql_tables \<Rightarrow> db_call \<Rightarrow> sql_tables \<times> db_answer" where
  "sqlite_step t (LoginCall u p r w) = Sqlite_Login u p r w t"
| "sqlite_step t (LoginInsertCall u p w) = (t, LoginPending)"
| "sqlite_step t (RegisterCall u p w) = Sqlite_Register u p w t"
| "sqlite_step t (GetCharListCall pid r) = (t, CharListAnswer (if r then select_characters pid t else []))"
| "sqlite_step t (CreateCharCall pid name v w) = Sqlite_CreateChar pid name v w t"
| "sqlite_step t (LoadInventoryCall cid r) = (t, InventoryAnswer (if r then select_inventory cid t else []))"
| "sqlite_step t (LoadCurrencyCall cid r w) = Sqlite_LoadCurrency cid r w t"

section \<open>PostgreSQL\<close>

text \<open>The select of a login, and the insert that follows it when there is no such account.\<close>

definition Pg_Login :: "string \<Rightarrow> string \<Rightarrow> bool \<Rightarrow> sql_tables \<Rightarrow> sql_tables \<times> db_answer" where
  "Pg_Login username password answered t =
     (if \<not> answered then (t, LoginAnswer False 0)
      else case select_account username t of
        Some (i, stored) \<Rightarrow> (t, LoginAnswer (stored = password) (if stored = password then i else 0))
      | None \<Rightarrow> (t, LoginPending))"

definition Pg_LoginInsert :: "string \<Rightarrow> string \<Rightarrow> bool \<Rightarrow> sql_tables \<Rightarrow> sql_tables \<times> db_answer" where
  "Pg_LoginInsert username password written t =
     (case insert_account username password written t of
        (None, t1) \<Rightarrow> (t1, LoginAnswer False 0)
      | (Some i, t1) \<Rightarrow> (t1, LoginAnswer True i))"

definition Pg_Register :: "string \<Rightarrow> string \<Rightarrow> bool \<Rightarrow> sql_tables \<Rightarrow> sql_tables \<times> db_answer" where
  "Pg_Register username password written t =
     (case insert_account username password written t of
        (None, t1) \<Rightarrow> (t1, RegisterAnswer False ''Username already exists'')
      | (Some i, t1) \<Rightarrow> (t1, RegisterAnswer True []))"

definition Pg_CreateChar :: "nat \<Rightarrow> string \<Rightarrow> bool \<Rightarrow> bool \<Rightarrow> sql_tables \<Rightarrow> sql_tables \<times> db_answer" where
  "Pg_CreateChar pid name written seeded t =
     (case insert_character pid name written t of
        (None, t1) \<Rightarrow> (t1, CreateCharAnswer False ''Character name already exists'' None)
      | (Some i, t1) \<Rightarrow>
          (insert_currency i seeded t1, CreateCharAnswer True [] (Some \<lparr>cr_id = i, cr_name = name, cr_level = 1\<rparr>)))"

definition Pg_LoadCurrency :: "nat \<Rightarrow> bool \<Rightarrow> bool \<Rightarrow> sql_tables \<Rightarrow> sql_tables \<times> db_answer" where
  "Pg_LoadCurrency cid found written t =
     (case (if found then map_of (tb_currency t) cid else None) of
        Some gold \<Rightarrow> (t, CurrencyAnswer gold)
      | None \<Rightarrow> (insert_currency cid written t, CurrencyAnswer 1000))"

fun postgres_step :: "sql_tables \<Rightarrow> db_call \<Rightarrow> sql_tables \<times> db_answer" where
  "postgres_step t (LoginCall u p r w) = Pg_Login u p r t"
| "postgres_step t (LoginInsertCall u p w) = Pg_LoginInsert u p w t"
| "postgres_step t (RegisterCall u p w) = Pg_Register u p w t"
| "postgres_step t (GetCharListCall pid r) = (t, CharListAnswer (if r then select_characters pid t else []))"
| "postgres_step t (CreateCharCall pid name v w) = Pg_CreateChar pid name v w t"
| "postgres_step t (LoadInventoryCall cid r) = (t, InventoryAnswer (if r then select_inventory cid t else []))"
| "postgres_step t (LoadCurrencyCall cid r w) = Pg_LoadCurrency cid r w t"

section \<open>The contract of an account store\<close>

fun login_of :: "db_call \<Rightarrow> (string \<times> string) option" where
  "login_of (LoginCall u p r w) = Some (u, p)"
| "login_of (LoginInsertCall u p w) = Some (u, p)"
| "login_of c = None"

text \<open>The successful logins of a run: user name, password and the player id they were given.\<close>

fun logins :: "('s \<Rightarrow> db_call \<Rightarrow> 's \<times> db_answer) \<Rightarrow> 's \<Rightarrow> db_call list \<Rightarrow> (string \<times> string \<times> nat) list" where
  "logins step s [] = []"
| "logins step s (c # cs) =
     (case (login_of c, snd (step s c)) of
        (Some (u, p), LoginAnswer ok i) \<Rightarrow> if ok then [(u, p, i)] else []
      | _ \<Rightarrow> []) @ logins step (fst (step s c)) cs"

definition same_identity :: "(string \<times> string \<times> nat) list \<Rightarrow> bool" where
  "same_identity es = list_all (\<lambda>(u, p, i). list_all (\<lambda>(v, q, j). (i = j \<longleftrightarrow> u = v) \<and> (u \<noteq> v \<or> p = q)) es) es"

locale account_store =
  fixes step :: "'s \<Rightarrow> db_call \<Rightarrow> 's \<times> db_answer"
    and accounts :: "'s \<Rightarrow> string \<Rightarrow> (nat \<times> string) option"
    and invar :: "'s \<Rightarrow> bool"
    and legal :: "db_call \<Rightarrow> bool"
  assumes keeps: "invar s \<Longrightarrow> legal c \<Longrightarrow> accounts s u = Some a \<Longrightarrow> accounts (fst (step s c)) u = Some a"
    and one_name: "invar s \<Longrightarrow> accounts s u = Some (i, p) \<Longrightarrow> accounts s v = Some (i, q) \<Longrightarrow> u = v"
    and invar_step: "invar s \<Longrightarrow> legal c \<Longrightarrow> invar (fst (step s c))"
    and login_stored: "invar s \<Longrightarrow> legal c \<Longrightarrow> login_of c = Some (u, p) \<Longrightarrow> snd (step s c) = LoginAnswer True i \<Longrightarrow>
      accounts (fst (step s c)) u = Some (i, p)"
begin

lemma run_keeps:
  "invar s \<Longrightarrow> list_all legal cs \<Longrightarrow> accounts s u = Some a \<Longrightarrow> accounts (fold (\<lambda>c s. fst (step s c)) cs s) u = Some a"
  by (induction cs arbitrary: s) (auto intro: keeps invar_step)

lemma run_invar: "invar s \<Longrightarrow> list_all legal cs \<Longrightarrow> invar (fold (\<lambda>c s. fst (step s c)) cs s)"
  by (induction cs arbitrary: s) (auto intro: invar_step)

lemma logins_stored:
  "invar s \<Longrightarrow> list_all legal cs \<Longrightarrow> (u, p, i) \<in> set (logins step s cs) \<Longrightarrow>
     accounts (fold (\<lambda>c s. fst (step s c)) cs s) u = Some (i, p)"
proof (induction cs arbitrary: s)
  case (Cons c cs)
  have l: "invar (fst (step s c))" "list_all legal cs" using Cons.prems invar_step by auto
  show ?case
  proof (cases "(u, p, i) \<in> set (logins step (fst (step s c)) cs)")
    case True
    then show ?thesis using Cons.IH [OF l] by simp
  next
    case False
    then have "login_of c = Some (u, p)" "snd (step s c) = LoginAnswer True i"
      using Cons.prems(3) by (auto split: option.splits db_answer.splits if_splits)
    then have "accounts (fst (step s c)) u = Some (i, p)" using login_stored Cons.prems by simp
    then show ?thesis using run_keeps [OF l] by simp
  qed
qed simp

lemma identity:
  assumes "invar s" and "list_all legal cs"
  shows "same_identity (logins step s cs)"
proof -
  let ?last = "fold (\<lambda>c s. fst (step s c)) cs s"
  have "(i = j \<longleftrightarrow> u = v) \<and> (u \<noteq> v \<or> p = q)" if m: "(u, p, i) \<in> set (logins step s cs)" "(v, q, j) \<in> set (logins step s cs)" for u p i v q j
  proof -
    have "accounts ?last u = Some (i, p)" "accounts ?last v = Some (j, q)" using logins_stored [OF assms] m by blast+
    then show ?thesis using one_name [OF run_invar [OF assms], of u i p v q] by auto
  qed
  then show ?thesis unfolding same_identity_def list_all_iff by fast
qed

end

section \<open>The three stores keep it\<close>

text \<open>In memory.\<close>

definition memory_accounts :: "memory_db \<Rightarrow> string \<Rightarrow> (nat \<times> string) option" where
  "memory_accounts db = map_of (me_accounts db)"

definition memory_ok :: "memory_db \<Rightarrow> bool" where
  "memory_ok db =
     ((\<forall>u i p. memory_accounts db u = Some (i, p) \<longrightarrow> i < me_next_player db) \<and>
      (\<forall>u v i p q. memory_accounts db u = Some (i, p) \<longrightarrow> memory_accounts db v = Some (i, q) \<longrightarrow> u = v))"

lemma memory_push [simp]:
  "memory_accounts (snd (push_char pid name db)) = memory_accounts db" "me_next_player (snd (push_char pid name db)) = me_next_player db"
  by (simp_all add: push_char_def memory_accounts_def Let_def)

lemma memory_step_accounts:
  "\<exists>u p. fst (memory_step db c) = db \<or>
     (memory_accounts (fst (memory_step db c)) = memory_accounts db \<and> me_next_player (fst (memory_step db c)) = me_next_player db) \<or>
     (memory_accounts db u = None \<and> memory_accounts (fst (memory_step db c)) = (memory_accounts db)(u \<mapsto> (me_next_player db, p)) \<and>
      me_next_player (fst (memory_step db c)) = me_next_player db + 1)"
proof (cases c)
  case (LoginCall u p r w)
  show ?thesis
    by (rule exI [of _ u], rule exI [of _ p], cases "map_of (me_accounts db) u")
      (auto simp: LoginCall Memory_Login_def memory_accounts_def AList.update_conv' Let_def push_char_def)
next
  case (RegisterCall u p w)
  show ?thesis
    by (rule exI [of _ u], rule exI [of _ p], cases "map_of (me_accounts db) u")
      (auto simp: RegisterCall Memory_Register_def memory_accounts_def AList.update_conv')
next
  case (CreateCharCall pid name v w)
  have "snd (push_char pid name db) = fst (memory_step db c) \<or> fst (memory_step db c) = db"
    by (auto simp: CreateCharCall Memory_CreateChar_def split: prod.splits)
  then show ?thesis by (metis memory_push)
qed auto

lemma memory_step_ok:
  assumes "memory_ok db"
  shows "memory_ok (fst (memory_step db c))" and "memory_accounts db u = Some a \<Longrightarrow> memory_accounts (fst (memory_step db c)) u = Some a"
proof -
  obtain v p where *: "fst (memory_step db c) = db \<or>
     (memory_accounts (fst (memory_step db c)) = memory_accounts db \<and> me_next_player (fst (memory_step db c)) = me_next_player db) \<or>
     (memory_accounts db v = None \<and> memory_accounts (fst (memory_step db c)) = (memory_accounts db)(v \<mapsto> (me_next_player db, p)) \<and>
      me_next_player (fst (memory_step db c)) = me_next_player db + 1)" using memory_step_accounts [of db c] by blast
  have bound: "i \<noteq> me_next_player db" if "memory_accounts db w = Some (i, q)" for w i q
    using that assms unfolding memory_ok_def by blast
  show "memory_accounts (fst (memory_step db c)) u = Some a" if "memory_accounts db u = Some a" using * that by auto
  show "memory_ok (fst (memory_step db c))"
    using * assms bound unfolding memory_ok_def by (elim disjE) (auto split: if_splits simp: less_Suc_eq)
qed

interpretation memory: account_store memory_step memory_accounts memory_ok "\<lambda>c. True"
proof
  fix s :: memory_db and c u p i
  assume "memory_ok s" and l: "login_of c = Some (u, p)" "snd (memory_step s c) = LoginAnswer True i"
  then obtain r w where "c = LoginCall u p r w" by (cases c) auto
  then show "memory_accounts (fst (memory_step s c)) u = Some (i, p)"
    using l(2) by (auto simp: Memory_Login_def memory_accounts_def AList.update_conv' Let_def push_char_def split: option.splits if_splits)
next
  fix s u i p v q
  assume "memory_ok s" "memory_accounts s u = Some (i, p)" "memory_accounts s v = Some (i, q)"
  then show "u = v" unfolding memory_ok_def by blast
qed (use memory_step_ok in auto)

text \<open>On tables, for texts without zero bytes.\<close>

definition plain :: "string \<Rightarrow> bool" where
  "plain t = (CHR 0x00 \<notin> set t)"

lemma c_str_plain [simp]: "plain t \<Longrightarrow> c_str t = t"
  by (auto simp: plain_def c_str_def takeWhile_eq_all_conv)

definition sql_accounts :: "sql_tables \<Rightarrow> string \<Rightarrow> (nat \<times> string) option" where
  "sql_accounts t u = (if plain u then select_account u t else None)"

definition sql_ok :: "sql_tables \<Rightarrow> bool" where
  "sql_ok t = (distinct (map fst (tb_accounts t)) \<and> list_all (\<lambda>i. i < tb_account_seq t) (map fst (tb_accounts t)))"

definition added :: "sql_tables \<Rightarrow> sql_tables \<Rightarrow> bool" where
  "added t t' = (\<exists>u p. (tb_accounts t' = tb_accounts t \<or> tb_accounts t' = tb_accounts t @ [(tb_account_seq t, u, p)]) \<and>
     tb_account_seq t' = tb_account_seq t + (length (tb_accounts t') - length (tb_accounts t)))"

lemma find_append: "find P (xs @ ys) = (case find P xs of None \<Rightarrow> find P ys | Some x \<Rightarrow> Some x)"
  by (induction xs) auto

lemma added_refl: "tb_accounts t' = tb_accounts t \<Longrightarrow> tb_account_seq t' = tb_account_seq t \<Longrightarrow> added t t'"
  by (simp add: added_def)

lemma added_ok:
  assumes "sql_ok t" and "added t t'"
  shows "sql_ok t'" and "sql_accounts t u = Some a \<Longrightarrow> sql_accounts t' u = Some a"
proof -
  show "sql_ok t'"
    using assms by (fastforce simp: sql_ok_def added_def list_all_iff simp del: set_map dest: bspec)
  show "sql_accounts t u = Some a \<Longrightarrow> sql_accounts t' u = Some a"
    using assms(2) by (auto simp: added_def sql_accounts_def select_account_def find_append split: if_splits option.splits)
qed

lemma insert_account_added: "added t (snd (insert_account u p w t))"
  by (auto simp: insert_account_def added_def Let_def)

lemma sqlite_step_added: "added t (fst (sqlite_step t c))"
proof -
  have *: "added t (fst (case insert_account u p w t of (None, t1) \<Rightarrow> (t1, a) | (Some i, t1) \<Rightarrow> (t1, b)))" for u p w and a b :: db_answer
    using insert_account_added [of t u p w] by (auto split: prod.splits option.splits)
  show ?thesis
    using insert_account_added
    by (cases c) (auto simp: Sqlite_Login_def Sqlite_Register_def Sqlite_CreateChar_def Sqlite_LoadCurrency_def insert_character_def
        insert_currency_def Let_def * intro!: added_refl split: option.splits)
qed

lemma postgres_step_added: "added t (fst (postgres_step t c))"
proof -
  have *: "added t (fst (case insert_account u p w t of (None, t1) \<Rightarrow> (t1, a) | (Some i, t1) \<Rightarrow> (t1, b i)))" for u p w a and b :: "nat \<Rightarrow> db_answer"
    using insert_account_added [of t u p w] by (auto split: prod.splits option.splits)
  show ?thesis
    by (cases c) (auto simp: Pg_Login_def Pg_LoginInsert_def Pg_Register_def Pg_CreateChar_def Pg_LoadCurrency_def insert_character_def
        insert_currency_def Let_def * intro!: added_refl split: option.splits)
qed

lemma sql_one_name:
  assumes "sql_ok t" and "sql_accounts t u = Some (i, p)" and "sql_accounts t v = Some (i, q)"
  shows "u = v"
proof -
  have "\<exists>p. (i, u, p) \<in> set (tb_accounts t)" if "sql_accounts t u = Some (i, p')" for u p'
    using that by (auto simp: sql_accounts_def select_account_def find_Some_iff split: if_splits) (metis nth_mem)
  then obtain a b where "(i, u, a) \<in> set (tb_accounts t)" "(i, v, b) \<in> set (tb_accounts t)" using assms(2,3) by metis
  then show ?thesis using assms(1) eq_key_imp_eq_value unfolding sql_ok_def by fastforce
qed

fun sql_plain :: "db_call \<Rightarrow> bool" where
  "sql_plain (LoginCall u p r w) = (plain u \<and> plain p)"
| "sql_plain (LoginInsertCall u p w) = (plain u \<and> plain p)"
| "sql_plain c = True"

text \<open>Both statements of a login on SQLite succeed.\<close>

fun login_written :: "db_call \<Rightarrow> bool" where
  "login_written (LoginCall u p r w) = (r \<and> w)"
| "login_written c = True"

lemma inserted_select:
  "insert_account u p w t = (Some i, t') \<Longrightarrow> plain u \<Longrightarrow> plain p \<Longrightarrow> sql_accounts t' u = Some (i, p) \<and> tb_last_rowid t' = i"
  by (auto simp: insert_account_def sql_accounts_def select_account_def find_append Let_def split: if_splits option.splits)

interpretation sqlite: account_store sqlite_step sql_accounts sql_ok "\<lambda>c. sql_plain c \<and> login_written c"
proof
  fix s :: sql_tables and c u p i
  assume l: "sql_plain c \<and> login_written c" "login_of c = Some (u, p)" "snd (sqlite_step s c) = LoginAnswer True i"
  then obtain r w where c: "c = LoginCall u p r w" by (cases c) auto
  then have w: w r "plain u" "plain p" using l(1) by simp_all
  show "sql_accounts (fst (sqlite_step s c)) u = Some (i, p)"
  proof (cases "select_account u s")
    case None
    then have "insert_account u p w s = (Some (tb_account_seq s), snd (insert_account u p w s))" using w by (simp add: insert_account_def Let_def)
    from inserted_select [OF this w(3,4)] show ?thesis using l(3) None w by (simp add: c Sqlite_Login_def Let_def)
  next
    case (Some a)
    then show ?thesis using l(3) w by (auto simp: c Sqlite_Login_def sql_accounts_def split: prod.splits if_splits)
  qed
qed (use added_ok [OF _ sqlite_step_added] sql_one_name in auto)

interpretation postgres: account_store postgres_step sql_accounts sql_ok sql_plain
proof
  fix s :: sql_tables and c u p i
  assume l: "sql_plain c" "login_of c = Some (u, p)" "snd (postgres_step s c) = LoginAnswer True i"
  show "sql_accounts (fst (postgres_step s c)) u = Some (i, p)"
  proof (cases c)
    case (LoginCall u' p' r w)
    then show ?thesis using l by (auto simp: Pg_Login_def sql_accounts_def split: option.splits prod.splits if_splits)
  next
    case (LoginInsertCall u' p' w)
    then show ?thesis using l inserted_select [of u p w s i] by (auto simp: Pg_LoginInsert_def split: prod.splits option.splits)
  qed (use l(2) in auto)
qed (use added_ok [OF _ postgres_step_added] sql_one_name in auto)

section \<open>Properties\<close>

text \<open>C20: an account is one player. In every run of calls, from empty tables, on the store in memory, on SQLite and on PostgreSQL, where the two
  statements of a login may be separated by any other calls: two successful logins got the same player id exactly if they
  gave the same user name, and then they gave the same password. Names and passwords are free of zero bytes, and what a
  login reads and writes on SQLite succeeds.\<close>

theorem login_identity:
  assumes "list_all (\<lambda>c. sql_plain c \<and> login_written c) cs"
  shows "same_identity (logins memory_step memory_db_new cs) \<and> same_identity (logins sqlite_step sql_tables_new cs) \<and>
    same_identity (logins postgres_step sql_tables_new cs)"
proof (intro conjI)
  show "same_identity (logins memory_step memory_db_new cs)"
    by (rule memory.identity) (simp_all add: memory_ok_def memory_accounts_def memory_db_new_def list_all_iff)
  show "same_identity (logins sqlite_step sql_tables_new cs)"
    by (rule sqlite.identity [OF _ assms]) (simp add: sql_ok_def sql_tables_new_def)
  have "list_all sql_plain cs" using assms by (simp add: list_all_iff)
  then show "same_identity (logins postgres_step sql_tables_new cs)"
    by (intro postgres.identity) (simp_all add: sql_ok_def sql_tables_new_def)
qed

theorem login_identity_witness:
  "logins sqlite_step sql_tables_new [LoginCall ''ann'' ''x'' True True, LoginCall ''bob'' ''y'' True True, LoginCall ''ann'' ''z'' True True, LoginCall ''ann'' ''x'' True True]
     = [(''ann'', ''x'', 1), (''bob'', ''y'', 2), (''ann'', ''x'', 1)] \<and>
   same_identity (logins sqlite_step sql_tables_new
     [LoginCall ''ann'' ''x'' True True, LoginCall ''bob'' ''y'' True True, LoginCall ''ann'' ''z'' True True, LoginCall ''ann'' ''x'' True True])"
proof
  show "logins sqlite_step sql_tables_new [LoginCall ''ann'' ''x'' True True, LoginCall ''bob'' ''y'' True True, LoginCall ''ann'' ''z'' True True, LoginCall ''ann'' ''x'' True True]
     = [(''ann'', ''x'', 1), (''bob'', ''y'', 2), (''ann'', ''x'', 1)]" by code_simp
  show "same_identity (logins sqlite_step sql_tables_new
     [LoginCall ''ann'' ''x'' True True, LoginCall ''bob'' ''y'' True True, LoginCall ''ann'' ''z'' True True, LoginCall ''ann'' ''x'' True True])"
    using login_identity [of "[LoginCall ''ann'' ''x'' True True, LoginCall ''bob'' ''y'' True True, LoginCall ''ann'' ''z'' True True, LoginCall ''ann'' ''x'' True True]"]
    by (simp add: plain_def)
qed



text \<open>The store in memory gives a new account a character of its name without looking whether the name is taken.\<close>

lemma memory_duplicate_name:
  "concat (map (map cr_name \<circ> snd) (me_characters (fst (memory_step (fst (memory_step (fst (memory_step memory_db_new
     (LoginCall ''ann'' ''x'' True True))) (CreateCharCall 1 ''bob'' True True))) (LoginCall ''bob'' ''y'' True True))))) = [''ann'', ''bob'', ''bob'']"
  by code_simp

end
