(* ===== verification/Game_Lobby.thy ===== *)
theory Game_Lobby
  imports Game_Jobs Game_Db
begin

text \<open>
  What surrounds the rooms of the game server (\<^verbatim>\<open>examples/GameServer/src\<close>): the player manager
  (\<^verbatim>\<open>game/player_context.cpp\<close>), the room manager (\<^verbatim>\<open>game/room_manager.cpp\<close>), the session with its states
  (\<^verbatim>\<open>net/game_session.cpp\<close>) and the handlers of login, characters and rooms (\<^verbatim>\<open>handler/auth_handler.cpp\<close>,
  \<^verbatim>\<open>char_handler.cpp\<close>, \<^verbatim>\<open>room_handler.cpp\<close>).

  A player context is an object: the player manager owns it, sessions and queued jobs hold its address. Reading a context
  or a room that no longer exists has the value \<^term>\<open>None\<close>. Calls to the store, tasks posted to the ring of a session and
  jobs of rooms wait in lists of the state; theory \<^verbatim>\<open>Game_Server\<close> lets them happen in any order. The random engine of
  the calling thread and the one a new room is given are arguments.
\<close>

section \<open>Player manager\<close>

record player_manager =
  pm_contexts :: "(nat \<times> player_context) list"
  pm_next :: nat
  pm_by_session :: "(nat \<times> nat) list"
  pm_by_player :: "(nat \<times> nat) list"
  pm_by_name :: "(string \<times> nat) list"

definition player_manager_new :: player_manager where
  "player_manager_new = \<lparr>pm_contexts = [], pm_next = 0, pm_by_session = [], pm_by_player = [], pm_by_name = []\<rparr>"

definition player_context_new :: "nat \<Rightarrow> nat \<Rightarrow> nat \<Rightarrow> player_context" where
  "player_context_new sid pid wid =
     \<lparr>cx_session = sid, cx_player = pid, cx_username = [], cx_char = 0, cx_char_name = [], cx_level = 1, cx_room = None, cx_worker = wid\<rparr>"

definition context_at :: "player_manager \<Rightarrow> nat \<Rightarrow> player_context option" where
  "context_at pm a = map_of (pm_contexts pm) a"

definition upd_context :: "nat \<Rightarrow> (player_context \<Rightarrow> player_context) \<Rightarrow> player_manager \<Rightarrow> player_manager" where
  "upd_context a f pm = pm\<lparr>pm_contexts := map (\<lambda>(b, c). (b, if b = a then f c else c)) (pm_contexts pm)\<rparr>"

text \<open>A session that registers again gives up its former context.\<close>

definition PlayerManager_Register :: "nat \<Rightarrow> nat \<Rightarrow> nat \<Rightarrow> player_manager \<Rightarrow> nat \<times> player_manager" where
  "PlayerManager_Register sid pid wid pm =
     (let a = pm_next pm;
          kept = (case map_of (pm_by_session pm) sid of None \<Rightarrow> pm_contexts pm | Some b \<Rightarrow> AList.delete b (pm_contexts pm))
      in (a, pm\<lparr>pm_contexts := (a, player_context_new sid pid wid) # kept, pm_next := a + 1,
               pm_by_session := AList.update sid a (pm_by_session pm), pm_by_player := AList.update pid a (pm_by_player pm)\<rparr>))"

definition PlayerManager_Unregister :: "nat \<Rightarrow> player_manager \<Rightarrow> player_manager" where
  "PlayerManager_Unregister sid pm =
     (case map_of (pm_by_session pm) sid of
        None \<Rightarrow> pm
      | Some a \<Rightarrow>
        (case context_at pm a of
           None \<Rightarrow> pm
         | Some ctx \<Rightarrow>
             pm\<lparr>pm_by_player := AList.delete (cx_player ctx) (pm_by_player pm),
                pm_by_name := (if cx_char_name ctx \<noteq> [] then AList.delete (cx_char_name ctx) (pm_by_name pm) else pm_by_name pm),
                pm_contexts := AList.delete a (pm_contexts pm), pm_by_session := AList.delete sid (pm_by_session pm)\<rparr>))"

definition FindBySession :: "nat \<Rightarrow> player_manager \<Rightarrow> nat option" where
  "FindBySession sid pm = map_of (pm_by_session pm) sid"

definition FindByPlayer :: "nat \<Rightarrow> player_manager \<Rightarrow> nat option" where
  "FindByPlayer pid pm = map_of (pm_by_player pm) pid"

definition FindByName :: "string \<Rightarrow> player_manager \<Rightarrow> nat option" where
  "FindByName name pm = map_of (pm_by_name pm) name"

section \<open>Room manager\<close>

record 'r room_manager =
  rm_rooms :: "(nat \<times> 'r game_room) list"
  rm_next_id :: nat

definition CreateRoom :: "string \<Rightarrow> 'r \<Rightarrow> 'r room_manager \<Rightarrow> nat \<times> 'r room_manager" where
  "CreateRoom name g rm =
     (let i = rm_next_id rm in (i, rm\<lparr>rm_next_id := i + 1, rm_rooms := AList.update i (Room i name g) (rm_rooms rm)\<rparr>))"

definition FindRoom :: "nat \<Rightarrow> 'r room_manager \<Rightarrow> 'r game_room option" where
  "FindRoom i rm = map_of (rm_rooms rm) i"

definition RemoveRoom :: "nat \<Rightarrow> 'r room_manager \<Rightarrow> 'r room_manager" where
  "RemoveRoom i rm = rm\<lparr>rm_rooms := AList.delete i (rm_rooms rm)\<rparr>"

definition upd_room :: "nat \<Rightarrow> ('r game_room \<Rightarrow> 'r game_room) \<Rightarrow> 'r room_manager \<Rightarrow> 'r room_manager" where
  "upd_room i f rm = rm\<lparr>rm_rooms := map (\<lambda>(j, r). (j, if j = i then f r else r)) (rm_rooms rm)\<rparr>"

definition expired_room :: "int \<Rightarrow> nat \<times> 'r game_room \<Rightarrow> bool" where
  "expired_room now e =
     (case e of (i, r) \<Rightarrow>
      i > 1 \<and> Room_IsEmpty r \<and> gr_empty_since r \<noteq> 0 \<and> now - gr_empty_since r \<ge> milliseconds 30000)"

definition unlink_room :: "nat \<Rightarrow> (nat \<times> 'r game_room) list \<Rightarrow> (nat \<times> 'r game_room) list" where
  "unlink_room i rooms = AList.delete i (map (\<lambda>(j, r). (j, r\<lparr>gr_connections := filter (\<lambda>(p, t). t \<noteq> i) (gr_connections r)\<rparr>)) rooms)"

definition CleanupEmptyRooms :: "int \<Rightarrow> 'r room_manager \<Rightarrow> 'r room_manager" where
  "CleanupEmptyRooms now rm =
     (let to_remove = map fst (filter (expired_room now) (rm_rooms rm)) in rm\<lparr>rm_rooms := fold unlink_room to_remove (rm_rooms rm)\<rparr>)"

definition GetRoomList :: "'r room_manager \<Rightarrow> (nat \<times> string \<times> nat) list" where
  "GetRoomList rm =
     map (\<lambda>(i, r). (i, gr_name r, PlayerCount r)) (filter (\<lambda>(i, r). \<not> (i > 1 \<and> take 5 (gr_name r) = ''Zone_'')) (rm_rooms rm))"

section \<open>State of the server\<close>

datatype session_state = Connected | Authenticated | CharSelect | InLobby | InRoom

record game_session =
  ss_state :: session_state
  ss_ctx :: "nat option"
  ss_worker :: nat
  ss_open :: bool

datatype client_request =
  C_LOGIN "(string \<times> string) option"
| C_REGISTER "(string \<times> string) option"
| C_CHAR_LIST
| C_CREATE_CHAR "string option"
| C_SELECT_CHAR "nat option"
| C_ROOM_LIST
| C_CREATE_ROOM "string option"
| C_JOIN_ROOM "nat option"
| C_PORTAL "nat option"
| C_GAME client_packet

record room_entry =
  re_zone :: nat
  re_player :: player_info
  re_map :: map_data

datatype session_reply =
  S_LOGIN bool nat
| S_REGISTER bool string
| S_CHAR_LIST "char_info list"
| S_CREATE_CHAR bool string "char_info option"
| S_SELECT_CHAR bool nat string int
| S_INVENTORY_INIT "item_data list"
| S_CURRENCY_INIT int
| S_ROOM_LIST "(nat \<times> string \<times> nat \<times> nat) list"
| S_SKILL_DATA "(int \<times> string \<times> int \<times> real \<times> int \<times> bool) list"
| S_CREATE_ROOM "room_entry option"
| S_JOIN_ROOM string "room_entry option"
| S_PORTAL string "room_entry option"

text \<open>Jobs waiting for a room.\<close>

datatype room_task =
  AddTask nat real real
| BotsAddTask nat nat real real
| BotsTask nat
| RemoveTask nat
| PacketTask nat client_packet

text \<open>Statements waiting for the store, with the callback of each, and tasks posted to the ring of a session.\<close>

datatype db_request =
  LoginReq string string
| LoginInsertReq string string
| RegisterReq string string
| CharListReq nat
| CreateCharReq nat string
| InventoryReq nat
| CurrencyReq nat

datatype db_callback =
  LoginCb string
| RegisterCb
| CharListCb
| CreateCharCb
| SelectCb nat
| InventoryCb nat
| CurrencyCb

datatype ring_task =
  LoginTask bool nat string
| RegisterTask bool string
| CharListTask "char_info list"
| CreateCharTask bool string "char_info option"
| SelectFailedTask
| SelectTask char_info nat
| InventoryTask nat "item_data list"
| CurrencyTask int

record ('r, 's) game_server =
  sv_sessions :: "(nat \<times> game_session) list"
  sv_next_sid :: nat
  sv_players :: player_manager
  sv_rooms :: "'r room_manager"
  sv_jobs :: "(nat \<times> room_task) list"
  sv_db :: 's
  sv_calls :: "(nat \<times> db_request \<times> db_callback) list"
  sv_tasks :: "(nat \<times> ring_task) list"
  sv_replies :: "(nat \<times> session_reply) list"
  sv_logins :: "(nat \<times> string \<times> nat) list"

text \<open>The last field is a ghost: the successful login answers of the store, with the session each was for.\<close>

definition game_server_new :: "'s \<Rightarrow> ('r, 's) game_server" where
  "game_server_new db =
     \<lparr>sv_sessions = [], sv_next_sid = 1, sv_players = player_manager_new, sv_rooms = \<lparr>rm_rooms = [], rm_next_id = 1\<rparr>, sv_jobs = [],
      sv_db = db, sv_calls = [], sv_tasks = [], sv_replies = [], sv_logins = []\<rparr>"

record 'r lobby_env =
  le_game :: "'r game_env"
  le_seed :: "string \<Rightarrow> 'r"
  le_sort_rooms :: "room list \<Rightarrow> room list"
  le_sort_portals :: "portal_cand list \<Rightarrow> portal_cand list"

definition upd_session :: "nat \<Rightarrow> (game_session \<Rightarrow> game_session) \<Rightarrow> ('r, 's) game_server \<Rightarrow> ('r, 's) game_server" where
  "upd_session sid f s = s\<lparr>sv_sessions := map (\<lambda>(k, x). (k, if k = sid then f x else x)) (sv_sessions s)\<rparr>"

definition set_state :: "nat \<Rightarrow> session_state \<Rightarrow> ('r, 's) game_server \<Rightarrow> ('r, 's) game_server" where
  "set_state sid st = upd_session sid (ss_state_update (\<lambda>_. st))"

definition reply :: "nat \<Rightarrow> session_reply \<Rightarrow> ('r, 's) game_server \<Rightarrow> ('r, 's) game_server" where
  "reply sid m s = s\<lparr>sv_replies := sv_replies s @ [(sid, m)]\<rparr>"

definition push_job :: "nat \<Rightarrow> room_task \<Rightarrow> ('r, 's) game_server \<Rightarrow> ('r, 's) game_server" where
  "push_job rid t s = s\<lparr>sv_jobs := sv_jobs s @ [(rid, t)]\<rparr>"

definition issue :: "nat \<Rightarrow> db_request \<Rightarrow> db_callback \<Rightarrow> ('r, 's) game_server \<Rightarrow> ('r, 's) game_server" where
  "issue sid q cb s = s\<lparr>sv_calls := sv_calls s @ [(sid, q, cb)]\<rparr>"

definition post_task :: "nat \<Rightarrow> ring_task \<Rightarrow> ('r, 's) game_server \<Rightarrow> ('r, 's) game_server" where
  "post_task sid t s = s\<lparr>sv_tasks := sv_tasks s @ [(sid, t)]\<rparr>"

text \<open>Following the pointer of a session to its context, and the one of a context to its room.\<close>

definition with_ctx :: "game_session \<Rightarrow> ('r, 's) game_server \<Rightarrow>
    (nat \<Rightarrow> player_context \<Rightarrow> ('r, 's) game_server option) \<Rightarrow> ('r, 's) game_server option" where
  "with_ctx x s k =
     (case ss_ctx x of
        None \<Rightarrow> Some s
      | Some a \<Rightarrow> (case context_at (sv_players s) a of None \<Rightarrow> None | Some ctx \<Rightarrow> k a ctx))"

definition with_room :: "player_context \<Rightarrow> ('r, 's) game_server \<Rightarrow>
    (nat \<Rightarrow> 'r game_room \<Rightarrow> ('r, 's) game_server option) \<Rightarrow> ('r, 's) game_server option" where
  "with_room ctx s k =
     (case cx_room ctx of
        None \<Rightarrow> Some s
      | Some rid \<Rightarrow> (case FindRoom rid (sv_rooms s) of None \<Rightarrow> None | Some r \<Rightarrow> k rid r))"

section \<open>Login and characters\<close>

definition HandleLogin :: "nat \<Rightarrow> game_session \<Rightarrow> (string \<times> string) option \<Rightarrow> ('r, 's) game_server \<Rightarrow> ('r, 's) game_server option" where
  "HandleLogin sid x pkt s =
     (if ss_state x \<noteq> Connected then Some s
      else case pkt of None \<Rightarrow> Some s | Some (u, p) \<Rightarrow> Some (issue sid (LoginReq u p) (LoginCb u) s))"

definition HandleRegister :: "nat \<Rightarrow> game_session \<Rightarrow> (string \<times> string) option \<Rightarrow> ('r, 's) game_server \<Rightarrow> ('r, 's) game_server option" where
  "HandleRegister sid x pkt s =
     (if ss_state x \<noteq> Connected then Some s
      else case pkt of None \<Rightarrow> Some s | Some (u, p) \<Rightarrow> Some (issue sid (RegisterReq u p) RegisterCb s))"

definition choosing :: "game_session \<Rightarrow> bool" where
  "choosing x = (ss_state x = Authenticated \<or> ss_state x = CharSelect \<or> ss_state x = InLobby)"

definition HandleCharList :: "nat \<Rightarrow> game_session \<Rightarrow> ('r, 's) game_server \<Rightarrow> ('r, 's) game_server option" where
  "HandleCharList sid x s =
     (if \<not> choosing x then Some s else with_ctx x s (\<lambda>a ctx. Some (issue sid (CharListReq (cx_player ctx)) CharListCb s)))"

definition HandleCreateChar :: "nat \<Rightarrow> game_session \<Rightarrow> string option \<Rightarrow> ('r, 's) game_server \<Rightarrow> ('r, 's) game_server option" where
  "HandleCreateChar sid x pkt s =
     (if \<not> choosing x then Some s
      else case pkt of
             None \<Rightarrow> Some s
           | Some name \<Rightarrow> with_ctx x s (\<lambda>a ctx. Some (issue sid (CreateCharReq (cx_player ctx) name) CreateCharCb s)))"

definition HandleSelectChar :: "nat \<Rightarrow> game_session \<Rightarrow> nat option \<Rightarrow> ('r, 's) game_server \<Rightarrow> ('r, 's) game_server option" where
  "HandleSelectChar sid x pkt s =
     (if \<not> choosing x then Some s
      else case pkt of
             None \<Rightarrow> Some s
           | Some cid \<Rightarrow> with_ctx x s (\<lambda>a ctx. Some (issue sid (CharListReq (cx_player ctx)) (SelectCb cid) s)))"

text \<open>The callbacks, on the thread of the store: they post a task to the ring of the session.\<close>

fun call_of :: "db_request \<Rightarrow> bool \<Rightarrow> bool \<Rightarrow> db_call" where
  "call_of (LoginReq u p) v w = LoginCall u p v w"
| "call_of (LoginInsertReq u p) v w = LoginInsertCall u p v"
| "call_of (RegisterReq u p) v w = RegisterCall u p v"
| "call_of (CharListReq pid) v w = GetCharListCall pid v"
| "call_of (CreateCharReq pid name) v w = CreateCharCall pid name v w"
| "call_of (InventoryReq cid) v w = LoadInventoryCall cid v"
| "call_of (CurrencyReq cid) v w = LoadCurrencyCall cid v w"

definition login_callback :: "nat \<Rightarrow> db_request \<Rightarrow> string \<Rightarrow> db_answer \<Rightarrow> ('r, 's) game_server \<Rightarrow> ('r, 's) game_server" where
  "login_callback sid q n ans s =
     (case ans of
        LoginPending \<Rightarrow> (case q of LoginReq u p \<Rightarrow> issue sid (LoginInsertReq u p) (LoginCb n) s | _ \<Rightarrow> s)
      | LoginAnswer ok pid \<Rightarrow>
          post_task sid (LoginTask ok pid n) (if ok then s\<lparr>sv_logins := sv_logins s @ [(sid, n, pid)]\<rparr> else s)
      | _ \<Rightarrow> s)"

definition select_callback :: "nat \<Rightarrow> nat \<Rightarrow> char_info list \<Rightarrow> ('r, 's) game_server \<Rightarrow> ('r, 's) game_server" where
  "select_callback sid cid cs s =
     (case find (\<lambda>c. cr_id c = cid) cs of
        None \<Rightarrow> post_task sid SelectFailedTask s
      | Some c \<Rightarrow> post_task sid (SelectTask c cid) s)"

definition db_callback_run :: "nat \<Rightarrow> db_request \<Rightarrow> db_callback \<Rightarrow> db_answer \<Rightarrow> ('r, 's) game_server \<Rightarrow> ('r, 's) game_server" where
  "db_callback_run sid q cb ans s =
     (case cb of
        LoginCb n \<Rightarrow> login_callback sid q n ans s
      | RegisterCb \<Rightarrow> (case ans of RegisterAnswer ok err \<Rightarrow> post_task sid (RegisterTask ok err) s | _ \<Rightarrow> s)
      | CharListCb \<Rightarrow> (case ans of CharListAnswer cs \<Rightarrow> post_task sid (CharListTask cs) s | _ \<Rightarrow> s)
      | CreateCharCb \<Rightarrow> (case ans of CreateCharAnswer ok err ch \<Rightarrow> post_task sid (CreateCharTask ok err ch) s | _ \<Rightarrow> s)
      | SelectCb cid \<Rightarrow> (case ans of CharListAnswer cs \<Rightarrow> select_callback sid cid cs s | _ \<Rightarrow> s)
      | InventoryCb cid \<Rightarrow> (case ans of InventoryAnswer its \<Rightarrow> post_task sid (InventoryTask cid its) s | _ \<Rightarrow> s)
      | CurrencyCb \<Rightarrow> (case ans of CurrencyAnswer gold \<Rightarrow> post_task sid (CurrencyTask gold) s | _ \<Rightarrow> s))"

text \<open>The tasks, on the thread of the session.\<close>

fun ring_task_run :: "nat \<Rightarrow> game_session \<Rightarrow> ring_task \<Rightarrow> ('r, 's) game_server \<Rightarrow> ('r, 's) game_server option" where
  "ring_task_run sid x (LoginTask ok pid username) s =
     (let s1 = (if ok
                then case PlayerManager_Register sid pid (ss_worker x) (sv_players s) of (a, pm) \<Rightarrow>
                       upd_session sid (\<lambda>x. x\<lparr>ss_ctx := Some a, ss_state := Authenticated\<rparr>)
                         (s\<lparr>sv_players := upd_context a (cx_username_update (\<lambda>_. username)) pm\<rparr>)
                else s)
      in Some (reply sid (S_LOGIN ok (if ok then pid else 0)) s1))"
| "ring_task_run sid x (RegisterTask ok err) s = Some (reply sid (S_REGISTER ok err) s)"
| "ring_task_run sid x (CharListTask cs) s = Some (set_state sid CharSelect (reply sid (S_CHAR_LIST cs) s))"
| "ring_task_run sid x (CreateCharTask ok err ch) s = Some (reply sid (S_CREATE_CHAR ok err (if ok then ch else None)) s)"
| "ring_task_run sid x SelectFailedTask s = Some (reply sid (S_SELECT_CHAR False 0 [] 0) s)"
| "ring_task_run sid x (SelectTask c cid) s =
     with_ctx x s (\<lambda>a ctx.
       Some (issue sid (InventoryReq cid) (InventoryCb cid)
         (reply sid (S_SELECT_CHAR True (cx_player ctx) (cr_name c) (cr_level c))
           (s\<lparr>sv_players := upd_context a (\<lambda>ctx. ctx\<lparr>cx_char := cid, cx_char_name := cr_name c, cx_level := cr_level c\<rparr>) (sv_players s)\<rparr>))))"
| "ring_task_run sid x (InventoryTask cid its) s =
     Some (issue sid (CurrencyReq cid) CurrencyCb (reply sid (S_INVENTORY_INIT its) s))"
| "ring_task_run sid x (CurrencyTask gold) s = Some (set_state sid InLobby (reply sid (S_CURRENCY_INIT gold) s))"

section \<open>Rooms\<close>

definition HandleRoomList :: "nat \<Rightarrow> game_session \<Rightarrow> ('r, 's) game_server \<Rightarrow> ('r, 's) game_server option" where
  "HandleRoomList sid x s =
     (if ss_state x \<noteq> InLobby then Some s
      else Some (reply sid (S_ROOM_LIST (map (\<lambda>(i, name, n). (i, name, n, 500)) (GetRoomList (sv_rooms s)))) s))"

definition BuildSkillDataPacket :: session_reply where
  "BuildSkillDataPacket =
     S_SKILL_DATA (map (\<lambda>sk. (sk_id sk, sk_name sk, sk_damage sk, sk_range sk, sk_cooldown_ms sk, sk_is_self_target sk)) kSkills)"

definition GenerateMapForRoom :: "'r lobby_env \<Rightarrow> 'r game_room \<Rightarrow> 'r game_room" where
  "GenerateMapForRoom env r =
     (let d = Generate (ev_draw (le_game env)) (ev_draw_real (le_game env)) (le_sort_rooms env) (le_sort_portals env)
                (le_seed env (show_nat (gr_id r) @ ''_'' @ gr_name r)) 3 (gr_depth r)
      in r\<lparr>gr_dungeon := d, gr_map_spawn := dg_spawn d\<rparr>)"

text \<open>A random floor position, drawn with the engine of the calling thread.\<close>

definition entry_position :: "'r lobby_env \<Rightarrow> 'r \<Rightarrow> 'r game_room \<Rightarrow> real \<times> real" where
  "entry_position env g r =
     (case fst (GetRandomFloorPosition (ev_draw (le_game env)) (dg_grid (gr_dungeon r)) (dg_rooms (gr_dungeon r)) g) of
        None \<Rightarrow> (of_int (fst (gr_map_spawn r)), of_int (snd (gr_map_spawn r)))
      | Some pos \<Rightarrow> (of_int (fst pos), of_int (snd pos)))"

definition entry_reply :: "player_context \<Rightarrow> nat \<Rightarrow> real \<times> real \<Rightarrow> 'r game_room \<Rightarrow> room_entry" where
  "entry_reply ctx zone pos r =
     \<lparr>re_zone = zone,
      re_player = \<lparr>pi_id = cx_player ctx, pi_name = cx_char_name ctx, pi_hp = 100, pi_max_hp = 100, pi_level = cx_level ctx,
                   pi_pos = (fst pos, 1 / 2, snd pos), pi_rotation_y = 0\<rparr>,
      re_map = FillMapData (gr_dungeon r)\<rparr>"

definition set_ctx_room :: "nat \<Rightarrow> nat \<Rightarrow> ('r, 's) game_server \<Rightarrow> ('r, 's) game_server" where
  "set_ctx_room a rid s = s\<lparr>sv_players := upd_context a (cx_room_update (\<lambda>_. Some rid)) (sv_players s)\<rparr>"

text \<open>One action, like every handler here. In the source the new room is visible to other threads from \<^verbatim>\<open>CreateRoom\<close> on, before
  its map and its first job exist; a join that another thread handles in between races with the writes of this one and
  is not covered.\<close>

definition HandleCreateRoom :: "'r lobby_env \<Rightarrow> 'r \<Rightarrow> 'r \<Rightarrow> nat \<Rightarrow> game_session \<Rightarrow> string option \<Rightarrow>
    ('r, 's) game_server \<Rightarrow> ('r, 's) game_server option" where
  "HandleCreateRoom env g h sid x pkt s =
     (if ss_state x \<noteq> InLobby then Some s
      else case pkt of
             None \<Rightarrow> Some s
           | Some name \<Rightarrow> with_ctx x s (\<lambda>a ctx.
               case CreateRoom name h (sv_rooms s) of (rid, rm) \<Rightarrow>
               let room = GenerateMapForRoom env (Room rid name h);
                   pos = entry_position env g room;
                   s1 = s\<lparr>sv_rooms := upd_room rid (\<lambda>_. room) rm\<rparr>;
                   s2 = reply sid (S_CREATE_ROOM (Some (entry_reply ctx rid pos room))) (reply sid BuildSkillDataPacket s1);
                   s3 = set_state sid InRoom (set_ctx_room a rid s2)
               in Some (push_job rid (BotsAddTask 15 a (fst pos) (snd pos)) s3)))"

definition HandleJoinRoom :: "'r lobby_env \<Rightarrow> 'r \<Rightarrow> nat \<Rightarrow> game_session \<Rightarrow> nat option \<Rightarrow> ('r, 's) game_server \<Rightarrow> ('r, 's) game_server option" where
  "HandleJoinRoom env g sid x pkt s =
     (if ss_state x \<noteq> InLobby then Some s
      else case pkt of
             None \<Rightarrow> Some s
           | Some zone \<Rightarrow> with_ctx x s (\<lambda>a ctx.
               case FindRoom zone (sv_rooms s) of
                 None \<Rightarrow> Some (reply sid (S_JOIN_ROOM ''Room not found'' None) s)
               | Some room \<Rightarrow>
                   if IsFull room then Some (reply sid (S_JOIN_ROOM ''Room is full'' None) s)
                   else let pos = entry_position env g room;
                            s1 = reply sid (S_JOIN_ROOM [] (Some (entry_reply ctx (gr_id room) pos room))) (reply sid BuildSkillDataPacket s);
                            s2 = set_state sid InRoom (set_ctx_room a zone s1)
                        in Some (push_job zone (AddTask a (fst pos) (snd pos)) s2)))"

section \<open>Portals\<close>

definition first_free :: "nat \<Rightarrow> (nat \<times> nat) list \<Rightarrow> nat option" where
  "first_free n conns = find (\<lambda>i. map_of conns i = None) [0..<n]"

text \<open>The room behind a portal that leads nowhere yet: one level deeper, linked both ways.\<close>

definition open_portal :: "'r lobby_env \<Rightarrow> 'r \<Rightarrow> nat \<Rightarrow> nat \<Rightarrow> 'r game_room \<Rightarrow> ('r, 's) game_server \<Rightarrow> nat \<times> ('r, 's) game_server" where
  "open_portal env h portal_id old_id old s =
     (let depth = gr_depth old + 1; name = ''Zone_'' @ show_nat (rm_next_id (sv_rooms s)) in
      case CreateRoom name h (sv_rooms s) of (rid, rm) \<Rightarrow>
      let room = GenerateMapForRoom env ((Room rid name h)\<lparr>gr_depth := depth\<rparr>);
          back = (case first_free (length (dg_portals (gr_dungeon room))) (gr_connections room) of
                    None \<Rightarrow> gr_connections room
                  | Some i \<Rightarrow> AList.update i (gr_id old) (gr_connections room));
          rm1 = upd_room rid (\<lambda>_. room\<lparr>gr_connections := back\<rparr>) rm;
          rm2 = upd_room old_id (\<lambda>r. r\<lparr>gr_connections := AList.update portal_id rid (gr_connections r)\<rparr>) rm1
      in (rid, push_job rid (BotsTask (nat (min (10 + depth * 3) 30))) (s\<lparr>sv_rooms := rm2\<rparr>)))"

definition portal_position :: "'r lobby_env \<Rightarrow> 'r \<Rightarrow> nat \<Rightarrow> 'r game_room \<Rightarrow> real \<times> real" where
  "portal_position env g old_id r =
     (case find (\<lambda>i. map_of (gr_connections r) i = Some old_id) [0..<length (dg_portals (gr_dungeon r))] of
        None \<Rightarrow> entry_position env g r
      | Some i \<Rightarrow>
          case ev_draw_real (le_game env) (-2) 2 g of (ox, g1) \<Rightarrow>
          case ev_draw_real (le_game env) (-2) 2 g1 of (oz, g2) \<Rightarrow>
          (of_int (fst (po_pos (dg_portals (gr_dungeon r) ! i))) + ox, of_int (snd (po_pos (dg_portals (gr_dungeon r) ! i))) + oz))"

text \<open>The room a portal leads to. A connection to a room that is gone is dropped and a new room opened.\<close>

definition portal_target :: "'r lobby_env \<Rightarrow> 'r \<Rightarrow> nat \<Rightarrow> nat \<Rightarrow> 'r game_room \<Rightarrow> ('r, 's) game_server \<Rightarrow> nat \<times> ('r, 's) game_server" where
  "portal_target env h portal_id old_id old s =
     (case map_of (gr_connections old) portal_id of
        None \<Rightarrow> open_portal env h portal_id old_id old s
      | Some target \<Rightarrow>
          if FindRoom target (sv_rooms s) \<noteq> None then (target, s)
          else open_portal env h portal_id old_id old
                 (s\<lparr>sv_rooms := upd_room old_id (\<lambda>r. r\<lparr>gr_connections := AList.delete portal_id (gr_connections r)\<rparr>) (sv_rooms s)\<rparr>))"

definition HandlePortal :: "'r lobby_env \<Rightarrow> 'r \<Rightarrow> 'r \<Rightarrow> nat \<Rightarrow> game_session \<Rightarrow> nat option \<Rightarrow> ('r, 's) game_server \<Rightarrow> ('r, 's) game_server option" where
  "HandlePortal env g h sid x pkt s =
     (if ss_state x \<noteq> InRoom then Some s
      else case pkt of
             None \<Rightarrow> Some s
           | Some portal_id \<Rightarrow> with_ctx x s (\<lambda>a ctx. with_room ctx s (\<lambda>old_id old.
               if portal_id \<ge> length (dg_portals (gr_dungeon old)) then Some s
               else case portal_target env h portal_id old_id old s of (new_id, s1) \<Rightarrow>
                    case FindRoom new_id (sv_rooms s1) of
                      None \<Rightarrow> None
                    | Some new_room \<Rightarrow>
                        let s2 = push_job old_id (RemoveTask (cx_player ctx)) s1;
                            pos = portal_position env g old_id new_room;
                            s3 = reply sid (S_PORTAL [] (Some (entry_reply ctx (gr_id new_room) pos new_room))) s2
                        in Some (push_job new_id (AddTask a (fst pos) (snd pos)) (set_ctx_room a new_id s3)))))"

section \<open>Session\<close>

definition HandlePreRoomPacket :: "'r lobby_env \<Rightarrow> 'r \<Rightarrow> 'r \<Rightarrow> nat \<Rightarrow> game_session \<Rightarrow> client_request \<Rightarrow> ('r, 's) game_server \<Rightarrow> ('r, 's) game_server option" where
  "HandlePreRoomPacket env g h sid x req s =
     (case req of
        C_LOGIN pkt \<Rightarrow> HandleLogin sid x pkt s
      | C_REGISTER pkt \<Rightarrow> HandleRegister sid x pkt s
      | C_CHAR_LIST \<Rightarrow> HandleCharList sid x s
      | C_CREATE_CHAR pkt \<Rightarrow> HandleCreateChar sid x pkt s
      | C_SELECT_CHAR pkt \<Rightarrow> HandleSelectChar sid x pkt s
      | C_ROOM_LIST \<Rightarrow> HandleRoomList sid x s
      | C_CREATE_ROOM pkt \<Rightarrow> HandleCreateRoom env g h sid x pkt s
      | C_JOIN_ROOM pkt \<Rightarrow> HandleJoinRoom env g sid x pkt s
      | C_PORTAL pkt \<Rightarrow> Some s
      | C_GAME pkt \<Rightarrow> Some s)"

text \<open>Anything but a portal is queued for the room; a room ignores the identifiers of the lobby.\<close>

definition HandleInRoomPacket :: "game_session \<Rightarrow> client_request \<Rightarrow> ('r, 's) game_server \<Rightarrow> ('r, 's) game_server option" where
  "HandleInRoomPacket x req s =
     with_ctx x s (\<lambda>a ctx. with_room ctx s (\<lambda>rid r.
       Some (push_job rid (PacketTask (cx_player ctx) (case req of C_GAME pkt \<Rightarrow> pkt | _ \<Rightarrow> C_UNKNOWN 0)) s)))"

definition OnPacket :: "'r lobby_env \<Rightarrow> 'r \<Rightarrow> 'r \<Rightarrow> nat \<Rightarrow> game_session \<Rightarrow> client_request \<Rightarrow> ('r, 's) game_server \<Rightarrow> ('r, 's) game_server option" where
  "OnPacket env g h sid x req s =
     (case req of
        C_PORTAL pkt \<Rightarrow> HandlePortal env g h sid x pkt s
      | _ \<Rightarrow> if ss_state x = InRoom then HandleInRoomPacket x req s else HandlePreRoomPacket env g h sid x req s)"

definition OnDisconnected :: "nat \<Rightarrow> game_session \<Rightarrow> ('r, 's) game_server \<Rightarrow> ('r, 's) game_server option" where
  "OnDisconnected sid x s =
     (let closed = upd_session sid (\<lambda>x. x\<lparr>ss_ctx := None, ss_open := False\<rparr>);
          forget = (\<lambda>s. closed (s\<lparr>sv_players := PlayerManager_Unregister sid (sv_players s)\<rparr>)) in
      if ss_ctx x = None then Some (closed s)
      else with_ctx x s (\<lambda>a ctx.
        if cx_room ctx = None then Some (forget s)
        else with_room ctx s (\<lambda>rid r. Some (forget (push_job rid (RemoveTask (cx_player ctx)) s)))))"

end
