(* ===== verification/Game_Server.thy ===== *)
theory Game_Server
  imports Game_Lobby
begin

text \<open>
  The game server over everything that can happen to it: clients connect, send and disconnect, the store answers, tasks and
  jobs run, rooms tick and the main thread cleans up, in any order. One action is one handler, callback, task or job; the
  tasks of a session and the jobs of a room run in the order they were posted.
\<close>

section \<open>Actions\<close>

fun pop_for :: "'k \<Rightarrow> ('k \<times> 'v) list \<Rightarrow> ('v \<times> ('k \<times> 'v) list) option" where
  "pop_for k [] = None"
| "pop_for k ((j, v) # xs) = (if j = k then Some (v, xs) else map_option (\<lambda>(w, ys). (w, (j, v) # ys)) (pop_for k xs))"

datatype 'r server_action =
  Accept nat
| Receive nat 'r 'r client_request
| Disconnect nat
| Destroy nat
| DbReturn nat bool bool
| RunTask nat
| RunJob nat int party_system
| Tick nat int
| Cleanup int

text \<open>A job that enters a player reads the context behind the address it was given.\<close>

fun room_task_run :: "'r lobby_env \<Rightarrow> int \<Rightarrow> party_system \<Rightarrow> player_manager \<Rightarrow> room_task \<Rightarrow> 'r game_room \<Rightarrow> 'r game_room option" where
  "room_task_run env now ps pm (AddTask a x z) r =
     map_option (\<lambda>ctx. run_job (le_game env) (AddJob ctx (x, 1 / 2, z)) r) (context_at pm a)"
| "room_task_run env now ps pm (BotsAddTask n a x z) r =
     map_option (\<lambda>ctx. run_job (le_game env) (AddJob ctx (x, 1 / 2, z)) (run_job (le_game env) (BotsJob n) r)) (context_at pm a)"
| "room_task_run env now ps pm (BotsTask n) r = Some (run_job (le_game env) (BotsJob n) r)"
| "room_task_run env now ps pm (RemoveTask pid) r = Some (run_job (le_game env) (RemoveJob now pid) r)"
| "room_task_run env now ps pm (PacketTask pid pkt) r = Some (run_job (le_game env) (PacketJob now pid pkt ps) r)"

definition accept :: "nat \<Rightarrow> ('r, 's) game_server \<Rightarrow> ('r, 's) game_server" where
  "accept w s =
     s\<lparr>sv_next_sid := sv_next_sid s + 1,
       sv_sessions := AList.update (sv_next_sid s) \<lparr>ss_state = Connected, ss_ctx = None, ss_worker = w, ss_open = True\<rparr> (sv_sessions s)\<rparr>"

fun server_step :: "'r lobby_env \<Rightarrow> ('s \<Rightarrow> db_call \<Rightarrow> 's \<times> db_answer) \<Rightarrow> 'r server_action \<Rightarrow> ('r, 's) game_server \<Rightarrow> ('r, 's) game_server option" where
  "server_step env store (Accept w) s = Some (accept w s)"
| "server_step env store (Receive sid g h req) s =
     (case map_of (sv_sessions s) sid of
        None \<Rightarrow> Some s
      | Some x \<Rightarrow> if ss_open x then OnPacket env g h sid x req s else Some s)"
| "server_step env store (Disconnect sid) s =
     (case map_of (sv_sessions s) sid of
        None \<Rightarrow> Some s
      | Some x \<Rightarrow> if ss_open x then OnDisconnected sid x s else Some s)"
| "server_step env store (Destroy sid) s =
     (case map_of (sv_sessions s) sid of
        None \<Rightarrow> Some s
      | Some x \<Rightarrow> Some (if ss_open x then s else s\<lparr>sv_sessions := AList.delete sid (sv_sessions s)\<rparr>))"
| "server_step env store (DbReturn i v w) s =
     (if i < length (sv_calls s)
      then case sv_calls s ! i of (sid, q, cb) \<Rightarrow>
           case store (sv_db s) (call_of q v w) of (db, ans) \<Rightarrow>
           Some (db_callback_run sid q cb ans (s\<lparr>sv_db := db, sv_calls := take i (sv_calls s) @ drop (Suc i) (sv_calls s)\<rparr>))
      else Some s)"
| "server_step env store (RunTask sid) s =
     (case pop_for sid (sv_tasks s) of
        None \<Rightarrow> Some s
      | Some (t, ts) \<Rightarrow>
          (case map_of (sv_sessions s) sid of
             None \<Rightarrow> Some (s\<lparr>sv_tasks := ts\<rparr>)
           | Some x \<Rightarrow> ring_task_run sid x t (s\<lparr>sv_tasks := ts\<rparr>)))"
| "server_step env store (RunJob rid now ps) s =
     (case pop_for rid (sv_jobs s) of
        None \<Rightarrow> Some s
      | Some (t, js) \<Rightarrow>
          (case FindRoom rid (sv_rooms s) of
             None \<Rightarrow> None
           | Some r \<Rightarrow>
               map_option (\<lambda>r'. s\<lparr>sv_jobs := js, sv_rooms := upd_room rid (\<lambda>_. r') (sv_rooms s)\<rparr>)
                 (room_task_run env now ps (sv_players s) t r)))"
| "server_step env store (Tick rid now) s = Some (s\<lparr>sv_rooms := upd_room rid (OnTick (le_game env) now) (sv_rooms s)\<rparr>)"
| "server_step env store (Cleanup now) s = Some (s\<lparr>sv_rooms := CleanupEmptyRooms now (sv_rooms s)\<rparr>)"

text \<open>Two assumptions on a run that the program does not enforce: the calls of the store are legal (a parameter of the run,
  such as texts without zero bytes), and the account ids it gives are below 900000, the id of the first bot of a room.\<close>

fun small_answer :: "db_answer \<Rightarrow> bool" where
  "small_answer (LoginAnswer ok pid) = (pid < 900000)"
| "small_answer ans = True"

fun allowed :: "('s \<Rightarrow> db_call \<Rightarrow> 's \<times> db_answer) \<Rightarrow> (db_call \<Rightarrow> bool) \<Rightarrow> 'r server_action \<Rightarrow> ('r, 's) game_server \<Rightarrow> bool" where
  "allowed store legal (DbReturn i v w) s =
     (i < length (sv_calls s) \<longrightarrow>
      (let c = call_of (fst (snd (sv_calls s ! i))) v w in legal c \<and> small_answer (snd (store (sv_db s) c))))"
| "allowed store legal a s = True"

inductive server_reach :: "'r lobby_env \<Rightarrow> ('s \<Rightarrow> db_call \<Rightarrow> 's \<times> db_answer) \<Rightarrow> (db_call \<Rightarrow> bool) \<Rightarrow> 's \<Rightarrow> ('r, 's) game_server \<Rightarrow> bool"
  for env store legal db where
  start: "server_reach env store legal db (game_server_new db)"
| act: "server_reach env store legal db s \<Longrightarrow> allowed store legal a s \<Longrightarrow> server_step env store a s = Some s' \<Longrightarrow>
    server_reach env store legal db s'"

section \<open>What jobs leave alone\<close>

definition steady :: "'r game_room \<Rightarrow> nat \<times> int \<times> (nat \<times> nat) list \<times> nat" where
  "steady r = (gr_id r, gr_depth r, gr_connections r, length (dg_portals (gr_dungeon r)))"

text \<open>A bot is among the players of the room.\<close>

definition tenanted :: "'r game_room \<Rightarrow> bool" where
  "tenanted r = (\<exists>k \<in> fst ` set (gr_players r). 900000 \<le> k)"

lemma steady_frame: "room_frame r' = room_frame r \<Longrightarrow> steady r' = steady r"
  by (simp add: room_frame_def steady_def)

lemma steady_update [simp]:
  "steady (r\<lparr>gr_players := ps\<rparr>) = steady r" "steady (r\<lparr>gr_empty_since := t\<rparr>) = steady r"
  "steady (Room_BroadcastAll env msg r) = steady r"
  using steady_frame [OF room_frame_ops(3)] by (simp_all add: steady_def)

definition quiet :: "'r game_room \<Rightarrow> 'r game_room \<Rightarrow> bool" where
  "quiet r r' = (bots_ok (gr_bots r) \<longrightarrow>
     bots_ok (gr_bots r') \<and> map fst (gr_players r') = map fst (gr_players r) \<and> room_frame r' = room_frame r)"

lemma quiet_calm: "calm r r' \<Longrightarrow> quiet r r'"
  using roster_keys unfolding calm_def calm_by_def sends_more_def quiet_def by blast

lemma quiet_ready: "quiet r (HandleSceneReady env pid r)"
  by (auto simp: quiet_def HandleSceneReady_def Let_def upd_list_def comp_def case_prod_beta split: option.splits)

lemma quiet_packet: "quiet r (run_job env (PacketJob now pid pkt ps) r)"
proof (cases "pkt = C_SCENE_READY")
  case True
  then show ?thesis using quiet_ready [of r env pid] by (auto simp: HandlePacket_def quiet_def split: option.splits)
next
  case False
  then show ?thesis using quiet_calm [OF calm_HandlePacket [OF False, of "(ps, r)"]] by simp
qed

lemma tenanted_keys: "map fst (gr_players r') = map fst (gr_players r) \<Longrightarrow> tenanted r' = tenanted r"
  unfolding tenanted_def list.set_map [symmetric] by simp

lemma AddPlayer_room:
  "gr_bots (AddPlayer env ctx spawn r) = gr_bots r \<and> steady (AddPlayer env ctx spawn r) = steady r \<and>
   (tenanted r \<longrightarrow> tenanted (AddPlayer env ctx spawn r))"
proof -
  obtain p where p: "gr_players (AddPlayer env ctx spawn r) = AList.update (cx_player ctx) p (gr_players r)"
    "gr_bots (AddPlayer env ctx spawn r) = gr_bots r" using AddPlayer_shape [of env ctx spawn r] by blast
  have "steady (AddPlayer env ctx spawn r) = steady r" by (simp add: AddPlayer_def steady_def Let_def split: prod.splits)
  then show ?thesis using p by (auto simp: tenanted_def dom_update)
qed

lemma RemovePlayer_room:
  assumes "pid < 900000"
  shows "gr_bots (RemovePlayer env now pid r) = gr_bots r \<and> steady (RemovePlayer env now pid r) = steady r \<and>
    (tenanted r \<longrightarrow> tenanted (RemovePlayer env now pid r))"
proof (cases "find_player r pid")
  case (Some p)
  then have "steady (RemovePlayer env now pid r) = steady r" by (simp add: RemovePlayer_def Let_def)
  then show ?thesis
    using RemovePlayer_fields(1,2) [OF Some] assms by (force simp: tenanted_def set_delete)
qed (simp add: RemovePlayer_def)

lemma spawn_loop_room:
  assumes "spawn_loop env n batch r = (batch', r')"
  shows "steady r' = steady r \<and> fst ` set (gr_players r') = fst ` set (gr_players r) \<union> {gr_next_bot r..<gr_next_bot r + n}"
  using assms
proof (induction n arbitrary: batch r)
  case (Suc n)
  obtain ox g1 where d1: "ev_draw_real env (-3) 3 (gr_rng r) = (ox, g1)" by fastforce
  obtain oz g2 where d2: "ev_draw_real env (-3) 3 g1 = (oz, g2)" by fastforce
  have u: "{k..<k + Suc n} = insert k {Suc k..<Suc k + n}" for k :: nat by auto
  show ?case using Suc.prems Suc.IH d1 d2 unfolding u by (auto simp: Let_def steady_def dom_update)
qed simp

lemma SpawnBots_room:
  assumes "bots_ok (gr_bots r)"
  shows "bots_ok (gr_bots (SpawnBots env n r)) \<and> steady (SpawnBots env n r) = steady r \<and>
    (tenanted r \<or> (900000 \<le> gr_next_bot r \<and> 0 < n) \<longrightarrow> tenanted (SpawnBots env n r))"
proof -
  obtain batch r1 where s: "spawn_loop env n [] r = (batch, r1)" by fastforce
  have "gr_players (SpawnBots env n r) = gr_players r1 \<and> gr_bots (SpawnBots env n r) = gr_bots r1 \<and> steady (SpawnBots env n r) = steady r1"
    by (simp add: SpawnBots_def s Let_def)
  then show ?thesis using spawn_loop_room [OF s] spawn_loop_shape [OF s] assms by (force simp: tenanted_def)
qed

fun brings_bots :: "room_task \<Rightarrow> bool" where
  "brings_bots (BotsTask n) = (0 < n)"
| "brings_bots (BotsAddTask n a x z) = (0 < n)"
| "brings_bots t = False"

fun small_task :: "room_task \<Rightarrow> bool" where
  "small_task (RemoveTask pid) = (pid < 900000)"
| "small_task t = True"

lemma room_task_keeps:
  assumes "room_task_run env now ps pm t r = Some r'" and "bots_ok (gr_bots r)" and "small_task t"
  shows "bots_ok (gr_bots r') \<and> steady r' = steady r \<and> (tenanted r \<or> (900000 \<le> gr_next_bot r \<and> brings_bots t) \<longrightarrow> tenanted r')"
proof (cases t)
  case (AddTask a x z)
  then show ?thesis using assms AddPlayer_room [of "le_game env" _ _ r] by auto
next
  case (BotsAddTask n a x z)
  then show ?thesis
    using assms SpawnBots_room [OF assms(2), of "le_game env" n] AddPlayer_room [of "le_game env" _ _ "SpawnBots (le_game env) n r"] by auto
next
  case (BotsTask n)
  then show ?thesis using assms SpawnBots_room [OF assms(2), of "le_game env" n] by auto
next
  case (RemoveTask pid)
  then show ?thesis using assms RemovePlayer_room [of pid "le_game env" now r] by auto
next
  case (PacketTask pid pkt)
  then show ?thesis
    using assms quiet_packet [of r "le_game env" now pid pkt ps] steady_frame tenanted_keys unfolding quiet_def by force
qed

section \<open>Rooms\<close>

definition occupied :: "(nat \<times> room_task) list \<Rightarrow> nat \<Rightarrow> 'r game_room \<Rightarrow> bool" where
  "occupied jobs i r =
     (tenanted r \<or>
      (gr_players r = [] \<and> gr_empty_since r = 0 \<and> 900000 \<le> gr_next_bot r \<and> (\<exists>t. map_of jobs i = Some t \<and> brings_bots t)))"

text \<open>Every connection is behind a portal and leads to a room one level up or down.\<close>

definition links_ok :: "(nat \<Rightarrow> 'r game_room option) \<Rightarrow> 'r game_room \<Rightarrow> bool" where
  "links_ok rooms r =
     (\<forall>p t. (p, t) \<in> set (gr_connections r) \<longrightarrow> p < length (dg_portals (gr_dungeon r)) \<and>
        (\<exists>r'. rooms t = Some r' \<and> \<bar>gr_depth r' - gr_depth r\<bar> = 1))"

definition room_good :: "(nat \<Rightarrow> 'r game_room option) \<Rightarrow> (nat \<times> room_task) list \<Rightarrow> nat \<Rightarrow> 'r game_room \<Rightarrow> bool" where
  "room_good rooms jobs i r = (gr_id r = i \<and> 0 \<le> gr_depth r \<and> bots_ok (gr_bots r) \<and> occupied jobs i r \<and> links_ok rooms r)"

fun small_ring :: "ring_task \<Rightarrow> bool" where
  "small_ring (LoginTask ok pid n) = (ok \<longrightarrow> pid < 900000)"
| "small_ring t = True"

definition manager_inv :: "'r room_manager \<Rightarrow> (nat \<times> room_task) list \<Rightarrow> (nat \<Rightarrow> player_context option) \<Rightarrow> (nat \<times> ring_task) list \<Rightarrow> bool" where
  "manager_inv rm jobs ctxs tasks =
     (distinct (map fst (rm_rooms rm)) \<and> (\<forall>i r. FindRoom i rm = Some r \<longrightarrow> i < rm_next_id rm \<and> room_good (\<lambda>j. FindRoom j rm) jobs i r) \<and>
      (\<forall>i t. (i, t) \<in> set jobs \<longrightarrow> FindRoom i rm \<noteq> None \<and> small_task t) \<and>
      (\<forall>a c. ctxs a = Some c \<longrightarrow> cx_player c < 900000 \<and> (\<forall>i. cx_room c = Some i \<longrightarrow> FindRoom i rm \<noteq> None)) \<and>
      (\<forall>k t. (k, t) \<in> set tasks \<longrightarrow> small_ring t))"

lemma pop_for_facts:
  "pop_for k xs = Some (t, ys) \<Longrightarrow>
     map_of xs k = Some t \<and> (\<forall>j. j \<noteq> k \<longrightarrow> map_of ys j = map_of xs j) \<and> set ys \<subseteq> set xs \<and> (k, t) \<in> set xs"
proof (induction xs arbitrary: ys)
  case (Cons e xs)
  then show ?case by (cases e) (auto split: if_splits)
qed simp

lemma find_upd_room [simp]: "FindRoom j (upd_room i f rm) = map_option (\<lambda>r. if j = i then f r else r) (FindRoom j rm)"
proof -
  have "map_of (map (\<lambda>(j, r). (j, if j = i then f r else r)) rs) j = map_option (\<lambda>r. if j = i then f r else r) (map_of rs j)" for rs
    by (induction rs) auto
  then show ?thesis by (simp add: FindRoom_def upd_room_def)
qed

lemma upd_room_fields [simp]:
  "map fst (rm_rooms (upd_room i f rm)) = map fst (rm_rooms rm)" "rm_next_id (upd_room i f rm) = rm_next_id rm"
  by (simp_all add: upd_room_def comp_def case_prod_beta)

lemma upd_room_at:
  assumes "distinct (map fst (rm_rooms rm))" and "FindRoom i rm = Some r"
  shows "upd_room i f rm = upd_room i (\<lambda>_. f r) rm"
proof -
  have "b = r" if "(i, b) \<in> set (rm_rooms rm)" for b using that assms by (simp add: FindRoom_def)
  then show ?thesis unfolding upd_room_def by (auto intro!: arg_cong [of _ _ "\<lambda>rs. rm\<lparr>rm_rooms := rs\<rparr>"])
qed

lemma links_ok_cong:
  assumes "links_ok rooms r" and "steady r' = steady r"
    and "\<And>t r. rooms t = Some r \<Longrightarrow> \<exists>r'. rooms' t = Some r' \<and> gr_depth r' = gr_depth r"
  shows "links_ok rooms' r'"
  using assms unfolding links_ok_def steady_def by (metis Pair_inject)

text \<open>Another content for one room, and jobs of that room taken from the queue.\<close>

lemma manager_inv_upd:
  assumes inv: "manager_inv rm jobs ctxs tasks" and r: "FindRoom i rm = Some r"
    and r': "bots_ok (gr_bots r')" "steady r' = steady r" "occupied jobs' i r'"
    and jobs: "set jobs' \<subseteq> set jobs" "\<And>j. j \<noteq> i \<Longrightarrow> map_of jobs' j = map_of jobs j"
  shows "manager_inv (upd_room i (\<lambda>_. r') rm) jobs' ctxs tasks"
proof -
  let ?rm = "upd_room i (\<lambda>_. r') rm"
  have depth: "\<exists>r2. FindRoom t ?rm = Some r2 \<and> gr_depth r2 = gr_depth r1" if "FindRoom t rm = Some r1" for t r1
    using that r r'(2) by (auto simp: steady_def)
  have "room_good (\<lambda>j. FindRoom j ?rm) jobs' j q'" if q: "FindRoom j ?rm = Some q'" for j q'
  proof -
    obtain q where q0: "FindRoom j rm = Some q" "q' = (if j = i then r' else q)" using q by auto
    have g: "room_good (\<lambda>j. FindRoom j rm) jobs j q" using inv q0(1) unfolding manager_inv_def by blast
    have s: "steady q' = steady q" using q0 r r'(2) by auto
    have "links_ok (\<lambda>j. FindRoom j ?rm) q'" by (rule links_ok_cong [OF _ s depth]) (use g in \<open>simp_all add: room_good_def\<close>)
    moreover have "occupied jobs' j q'" using q0 r'(3) g jobs(2) [of j] by (auto simp: room_good_def occupied_def)
    ultimately show ?thesis using g s q0 r'(1) by (auto simp: room_good_def steady_def)
  qed
  moreover have "j < rm_next_id rm" if "FindRoom j ?rm = Some q'" for j q'
    using that inv unfolding manager_inv_def by auto
  ultimately show ?thesis using inv jobs(1) unfolding manager_inv_def by (auto 0 3)
qed

lemma manager_inv_job:
  assumes "manager_inv (sv_rooms s) (sv_jobs s) ctxs tasks" and "pop_for i (sv_jobs s) = Some (t, js)"
    and "FindRoom i (sv_rooms s) = Some r" and "room_task_run env now ps pm t r = Some r'"
  shows "manager_inv (upd_room i (\<lambda>_. r') (sv_rooms s)) js ctxs tasks"
proof -
  note pop = pop_for_facts [OF assms(2)]
  have g: "bots_ok (gr_bots r)" "occupied (sv_jobs s) i r" "small_task t"
    using assms(1,3) pop unfolding manager_inv_def room_good_def by blast+
  note k = room_task_keeps [OF assms(4) g(1,3)]
  have "tenanted r'" using g(2) k pop unfolding occupied_def by force
  then show ?thesis using k pop by (intro manager_inv_upd [OF assms(1,3)]) (auto simp: occupied_def)
qed

lemma manager_inv_tick:
  assumes "manager_inv rm jobs ctxs tasks"
  shows "manager_inv (upd_room i (OnTick env now) rm) jobs ctxs tasks"
proof (cases "FindRoom i rm")
  case None
  then have "upd_room i (OnTick env now) rm = rm"
    unfolding upd_room_def FindRoom_def by (cases rm) (force simp: map_of_eq_None_iff intro!: map_idI)
  then show ?thesis using assms by simp
next
  case (Some r)
  have e: "upd_room i (OnTick env now) rm = upd_room i (\<lambda>_. OnTick env now r) rm"
    by (rule upd_room_at [OF _ Some]) (use assms in \<open>simp add: manager_inv_def\<close>)
  have g: "bots_ok (gr_bots r)" "occupied jobs i r" using assms Some unfolding manager_inv_def room_good_def by blast+
  then have q: "bots_ok (gr_bots (OnTick env now r))" "map fst (gr_players (OnTick env now r)) = map fst (gr_players r)"
    "room_frame (OnTick env now r) = room_frame r" using quiet_calm [OF calm_OnTick] unfolding quiet_def by blast+
  have "occupied jobs i (OnTick env now r)"
    using g(2) tenanted_keys [OF q(2)] q(2,3) by (auto simp: occupied_def room_frame_def)
  then show ?thesis unfolding e using q steady_frame [OF q(3)] by (intro manager_inv_upd [OF assms Some]) simp_all
qed

text \<open>No room ever meets the conditions for its removal.\<close>

lemma manager_inv_cleanup:
  assumes "manager_inv rm jobs ctxs tasks"
  shows "CleanupEmptyRooms now rm = rm"
proof -
  have "\<not> expired_room now (i, r)" if "(i, r) \<in> set (rm_rooms rm)" for i r
  proof -
    have "FindRoom i rm = Some r" using that assms unfolding FindRoom_def manager_inv_def by simp
    then have "occupied jobs i r" using assms unfolding manager_inv_def room_good_def by blast
    then show ?thesis by (auto simp: occupied_def tenanted_def expired_room_def Room_IsEmpty_def)
  qed
  then have "filter (expired_room now) (rm_rooms rm) = []" by (auto simp: filter_empty_conv)
  then show ?thesis by (simp add: CleanupEmptyRooms_def)
qed

text \<open>More jobs, other tasks and other contexts.\<close>

lemma manager_inv_push:
  assumes "manager_inv rm jobs ctxs tasks" and "FindRoom i rm \<noteq> None" and "small_task t"
  shows "manager_inv rm (jobs @ [(i, t)]) ctxs tasks"
proof -
  have "occupied (jobs @ [(i, t)]) j r" if "occupied jobs j r" for j and r :: "'a game_room"
    using that by (auto simp: occupied_def)
  then have "room_good rooms (jobs @ [(i, t)]) j r" if "room_good rooms jobs j r" for rooms j and r :: "'a game_room"
    using that unfolding room_good_def by blast
  then show ?thesis using assms unfolding manager_inv_def by auto
qed

lemma manager_inv_tasks:
  "manager_inv rm jobs ctxs tasks \<Longrightarrow> (\<And>k t. (k, t) \<in> set tasks' \<Longrightarrow> (k, t) \<in> set tasks \<or> small_ring t) \<Longrightarrow> manager_inv rm jobs ctxs tasks'"
  unfolding manager_inv_def by blast

lemma manager_inv_ctxs:
  "manager_inv rm jobs ctxs tasks \<Longrightarrow>
     (\<And>a c. ctxs' a = Some c \<Longrightarrow> cx_player c < 900000 \<and> (\<forall>i. cx_room c = Some i \<longrightarrow> FindRoom i rm \<noteq> None)) \<Longrightarrow> manager_inv rm jobs ctxs' tasks"
  unfolding manager_inv_def by blast

text \<open>A new room, whose first job brings its bots.\<close>

definition new_room :: "nat \<Rightarrow> 'r game_room \<Rightarrow> bool" where
  "new_room i r = (gr_id r = i \<and> 0 \<le> gr_depth r \<and> gr_bots r = [] \<and> gr_players r = [] \<and> gr_empty_since r = 0 \<and> gr_next_bot r = 900000)"

lemma manager_inv_new:
  assumes inv: "manager_inv rm jobs ctxs tasks" and fresh: "new_room (rm_next_id rm) room"
    and rm1: "distinct (map fst (rm_rooms rm1))" "rm_next_id rm1 = Suc (rm_next_id rm)"
      "\<And>j. FindRoom j rm1 = ((\<lambda>j. FindRoom j rm)(rm_next_id rm \<mapsto> room)) j"
    and links: "links_ok (\<lambda>j. FindRoom j rm) room" and t: "brings_bots t" "small_task t"
  shows "manager_inv rm1 (jobs @ [(rm_next_id rm, t)]) ctxs tasks"
proof -
  let ?i = "rm_next_id rm" and ?jobs = "jobs @ [(rm_next_id rm, t)]"
  have none: "FindRoom ?i rm = None" using inv unfolding manager_inv_def by (metis not_None_eq less_irrefl)
  have jobs: "map_of jobs ?i = None" using inv none unfolding manager_inv_def by (metis map_of_SomeD not_None_eq)
  have l: "links_ok (\<lambda>j. FindRoom j rm1) r" if "links_ok (\<lambda>j. FindRoom j rm) r" for r
    by (rule links_ok_cong [OF that]) (use none rm1(3) in auto)
  have "room_good (\<lambda>j. FindRoom j rm1) ?jobs j r" if r: "FindRoom j rm1 = Some r" for j r
  proof (cases "j = ?i")
    case True
    then have "r = room" using r rm1(3) by simp
    then show ?thesis using fresh l [OF links] jobs t(1) True
      by (auto simp: room_good_def new_room_def occupied_def bots_ok_def map_add_def)
  next
    case False
    then have g: "room_good (\<lambda>j. FindRoom j rm) jobs j r" using r rm1(3) inv unfolding manager_inv_def by simp
    have "occupied ?jobs j r" using g by (auto simp: room_good_def occupied_def)
    then show ?thesis using g l unfolding room_good_def by blast
  qed
  moreover have "j < rm_next_id rm1" if "FindRoom j rm1 = Some r" for j r
    using that rm1 inv unfolding manager_inv_def by (cases "j = ?i") (auto simp: less_Suc_eq)
  ultimately show ?thesis
    using inv rm1 t(2) none unfolding manager_inv_def by (auto split: if_splits)
qed

text \<open>A new connection.\<close>

lemma update_subset: "set (AList.update k v al) \<subseteq> insert (k, v) (set al)"
  by (induction al) auto

lemma manager_inv_link:
  assumes inv: "manager_inv rm jobs ctxs tasks" and old: "FindRoom i rm = Some r" "p < length (dg_portals (gr_dungeon r))"
    and t: "FindRoom t rm = Some r2" "\<bar>gr_depth r2 - gr_depth r\<bar> = 1"
  shows "manager_inv (upd_room i (\<lambda>r. r\<lparr>gr_connections := AList.update p t (gr_connections r)\<rparr>) rm) jobs ctxs tasks"
proof -
  let ?f = "\<lambda>r :: 'a game_room. r\<lparr>gr_connections := AList.update p t (gr_connections r)\<rparr>" and ?rm = "upd_room i (\<lambda>r. r\<lparr>gr_connections := AList.update p t (gr_connections r)\<rparr>) rm"
  have f: "\<exists>q'. FindRoom j ?rm = Some q' \<and> gr_depth q' = gr_depth q" if "FindRoom j rm = Some q" for j q using that by auto
  have "room_good (\<lambda>j. FindRoom j ?rm) jobs j q'" if q: "FindRoom j ?rm = Some q'" for j q'
  proof -
    obtain q where q0: "FindRoom j rm = Some q" "q' = (if j = i then ?f q else q)" using q by auto
    have g: "room_good (\<lambda>j. FindRoom j rm) jobs j q" using inv q0(1) unfolding manager_inv_def by blast
    have l: "links_ok (\<lambda>j. FindRoom j ?rm) q" by (rule links_ok_cong [OF _ refl f]) (use g in \<open>simp_all add: room_good_def\<close>)
    have "links_ok (\<lambda>j. FindRoom j ?rm) (?f q)" if "j = i"
      unfolding links_ok_def
    proof (intro allI impI)
      fix p' t'
      assume "(p', t') \<in> set (gr_connections (?f q))"
      then consider "p' = p" "t' = t" | "(p', t') \<in> set (gr_connections q)" using update_subset [of p t "gr_connections q"] by auto
      then show "p' < length (dg_portals (gr_dungeon (?f q))) \<and> (\<exists>r'. FindRoom t' ?rm = Some r' \<and> \<bar>gr_depth r' - gr_depth (?f q)\<bar> = 1)"
      proof cases
        case 1
        then show ?thesis using old t that q0(1) by auto
      next
        case 2
        then show ?thesis using l unfolding links_ok_def by simp
      qed
    qed
    then show ?thesis using g l q0(2) by (auto simp: room_good_def occupied_def tenanted_def)
  qed
  then show ?thesis using inv unfolding manager_inv_def by (auto 0 3)
qed

section \<open>Every action keeps the rooms in order\<close>

definition rooms_ok :: "('r, 's) game_server \<Rightarrow> bool" where
  "rooms_ok s = manager_inv (sv_rooms s) (sv_jobs s) (context_at (sv_players s)) (sv_tasks s)"

lemma rooms_ok_same [simp]:
  "rooms_ok (reply sid m s) = rooms_ok s" "rooms_ok (issue sid q cb s) = rooms_ok s" "rooms_ok (set_state sid st s) = rooms_ok s"
  "rooms_ok (upd_session sid f s) = rooms_ok s" "rooms_ok (s\<lparr>sv_logins := ls\<rparr>) = rooms_ok s"
  "rooms_ok (s\<lparr>sv_db := db, sv_calls := cs\<rparr>) = rooms_ok s"
  by (simp_all add: rooms_ok_def reply_def issue_def set_state_def upd_session_def)

lemma server_fields [simp]:
  "sv_rooms (reply sid m s) = sv_rooms s" "sv_rooms (issue sid q cb s) = sv_rooms s" "sv_rooms (set_state sid st s) = sv_rooms s"
  "sv_rooms (push_job i t s) = sv_rooms s" "sv_rooms (set_ctx_room a i s) = sv_rooms s" "sv_players (push_job i t s) = sv_players s"
  by (simp_all add: reply_def issue_def set_state_def upd_session_def push_job_def set_ctx_room_def)

lemma rooms_ok_push: "rooms_ok s \<Longrightarrow> FindRoom i (sv_rooms s) \<noteq> None \<Longrightarrow> small_task t \<Longrightarrow> rooms_ok (push_job i t s)"
  using manager_inv_push by (simp add: rooms_ok_def push_job_def)

lemma rooms_ok_post: "rooms_ok s \<Longrightarrow> small_ring t \<Longrightarrow> rooms_ok (post_task sid t s)"
  unfolding rooms_ok_def post_task_def by simp (erule manager_inv_tasks, auto)

lemma context_at_upd [simp]: "context_at (upd_context a f pm) b = map_option (\<lambda>c. if b = a then f c else c) (context_at pm b)"
proof -
  have "map_of (map (\<lambda>(b, c). (b, if b = a then f c else c)) cs) b = map_option (\<lambda>c. if b = a then f c else c) (map_of cs b)" for cs
    by (induction cs) auto
  then show ?thesis by (simp add: context_at_def upd_context_def)
qed

lemma rooms_ok_context:
  assumes "rooms_ok s" and "context_at (sv_players s) a = Some c"
  shows "cx_player c < 900000" and "cx_room c = Some i \<Longrightarrow> FindRoom i (sv_rooms s) \<noteq> None"
  using assms unfolding rooms_ok_def manager_inv_def by blast+

lemma rooms_ok_ctx_room: "rooms_ok s \<Longrightarrow> FindRoom rid (sv_rooms s) \<noteq> None \<Longrightarrow> rooms_ok (set_ctx_room a rid s)"
proof -
  assume a: "rooms_ok s" "FindRoom rid (sv_rooms s) \<noteq> None"
  have "cx_player c' < 900000 \<and> (\<forall>i. cx_room c' = Some i \<longrightarrow> FindRoom i (sv_rooms s) \<noteq> None)"
    if "map_option (\<lambda>c. if b = a then c\<lparr>cx_room := Some rid\<rparr> else c) (context_at (sv_players s) b) = Some c'" for b c'
    using that rooms_ok_context [OF a(1)] a(2) by (auto split: if_splits)
  then show ?thesis
    using a(1) unfolding rooms_ok_def set_ctx_room_def by (auto intro: manager_inv_ctxs)
qed

lemma with_ctxE:
  assumes "with_ctx x s k = Some s'"
  obtains "ss_ctx x = None" "s' = s" | a c where "ss_ctx x = Some a" "context_at (sv_players s) a = Some c" "k a c = Some s'"
  using assms by (auto simp: with_ctx_def split: option.splits)

lemma with_roomE:
  assumes "with_room c s k = Some s'"
  obtains "cx_room c = None" "s' = s" | i r where "cx_room c = Some i" "FindRoom i (sv_rooms s) = Some r" "k i r = Some s'"
  using assms by (auto simp: with_room_def split: option.splits)

text \<open>Opening a room.\<close>

lemma find_created:
  assumes "CreateRoom name h rm = (rid, rm1)"
  shows "rid = rm_next_id rm" and "FindRoom j rm1 = ((\<lambda>j. FindRoom j rm)(rid \<mapsto> Room rid name h)) j"
    and "rm_next_id rm1 = Suc (rm_next_id rm)" and "distinct (map fst (rm_rooms rm)) \<Longrightarrow> distinct (map fst (rm_rooms rm1))"
  using assms by (auto simp: CreateRoom_def Let_def FindRoom_def update_conv' distinct_update)

lemma fresh_Room: "new_room rid (GenerateMapForRoom env (Room rid name h))"
  "0 \<le> d \<Longrightarrow> new_room rid (GenerateMapForRoom env ((Room rid name h)\<lparr>gr_depth := d\<rparr>))"
  by (simp_all add: new_room_def GenerateMapForRoom_def Room_def Let_def)

lemma Room_connections [simp]: "gr_connections (Room rid name h) = []"
  by (simp add: Room_def)

lemma GenerateMapForRoom_fields [simp]:
  "gr_connections (GenerateMapForRoom env r) = gr_connections r" "gr_depth (GenerateMapForRoom env r) = gr_depth r"
  by (simp_all add: GenerateMapForRoom_def Let_def)

lemma rooms_ok_create:
  assumes ok: "rooms_ok s" and "HandleCreateRoom env g h sid x pkt s = Some s'"
  shows "rooms_ok s'"
proof -
  consider "s' = s" | name a c where "ss_ctx x = Some a" "context_at (sv_players s) a = Some c"
    "pkt = Some name" "ss_state x = InLobby"
    using assms(2) by (auto simp: HandleCreateRoom_def elim!: with_ctxE split: if_splits option.splits)
  then show ?thesis
  proof cases
    case (2 name a c)
    obtain rid rm where cr: "CreateRoom name h (sv_rooms s) = (rid, rm)" by fastforce
    note f = find_created [OF cr]
    let ?room = "GenerateMapForRoom env (Room rid name h)"
    let ?pos = "entry_position env g ?room" and ?rm = "upd_room rid (\<lambda>_. ?room) rm"
    have "manager_inv ?rm (sv_jobs s @ [(rm_next_id (sv_rooms s), BotsAddTask 15 a (fst ?pos) (snd ?pos))]) (context_at (sv_players s)) (sv_tasks s)"
      using ok f fresh_Room(1) by (intro manager_inv_new [of "sv_rooms s"]) (auto simp: rooms_ok_def links_ok_def manager_inv_def option.map_ident)
    then have "rooms_ok (push_job rid (BotsAddTask 15 a (fst ?pos) (snd ?pos)) (s\<lparr>sv_rooms := ?rm\<rparr>))"
      using f(1) by (simp add: rooms_ok_def push_job_def)
    then have "rooms_ok (set_ctx_room a rid (push_job rid (BotsAddTask 15 a (fst ?pos) (snd ?pos)) (s\<lparr>sv_rooms := ?rm\<rparr>)))"
      by (rule rooms_ok_ctx_room) (simp add: push_job_def f(2))
    then show ?thesis
      using assms(2) 2 cr by (auto simp: HandleCreateRoom_def with_ctx_def Let_def rooms_ok_def push_job_def set_ctx_room_def reply_def set_state_def upd_session_def)
  qed (use ok in simp)
qed

lemma rooms_ok_join:
  assumes ok: "rooms_ok s" and "HandleJoinRoom env g sid x pkt s = Some s'"
  shows "rooms_ok s'"
proof -
  have push: "rooms_ok (push_job zone (AddTask a u v) (set_state sid InRoom (set_ctx_room a zone (reply sid m (reply sid n s)))))"
    if "FindRoom zone (sv_rooms s) = Some r" for zone a u v m n r
  proof (rule rooms_ok_push)
    show "rooms_ok (set_state sid InRoom (set_ctx_room a zone (reply sid m (reply sid n s))))"
      unfolding rooms_ok_same(3) using that ok by (intro rooms_ok_ctx_room) simp_all
  qed (use that in \<open>simp_all add: reply_def set_state_def upd_session_def set_ctx_room_def\<close>)
  show ?thesis
    using assms(2) ok
    by (auto simp: HandleJoinRoom_def Let_def push elim!: with_ctxE split: if_splits option.splits)
qed

text \<open>Portals. A connection always leads to a room that exists.\<close>

lemma find_upt: "find P [0..<n] = Some i \<Longrightarrow> i < n"
  by (metis find_Some_iff nth_mem atLeastLessThan_iff set_upt)

lemma rooms_ok_open_portal:
  assumes ok: "rooms_ok s" and old: "FindRoom i (sv_rooms s) = Some old" "p < length (dg_portals (gr_dungeon old))"
    and "open_portal env h p i old s = (rid, s1)"
  shows "rooms_ok s1 \<and> FindRoom rid (sv_rooms s1) \<noteq> None \<and> FindRoom i (sv_rooms s1) \<noteq> None \<and> sv_players s1 = sv_players s"
proof -
  let ?d = "gr_depth old + 1" and ?name = "''Zone_'' @ show_nat (rm_next_id (sv_rooms s))"
  obtain rid' rm where cr: "CreateRoom ?name h (sv_rooms s) = (rid', rm)" by fastforce
  note f = find_created [OF cr]
  define room where "room = GenerateMapForRoom env ((Room rid' ?name h)\<lparr>gr_depth := ?d\<rparr>)"
  define home where "home = (case first_free (length (dg_portals (gr_dungeon room))) (gr_connections room) of
                    None \<Rightarrow> gr_connections room | Some j \<Rightarrow> AList.update j (gr_id old) (gr_connections room))"
  let ?rm1 = "upd_room rid' (\<lambda>_. room\<lparr>gr_connections := home\<rparr>) rm" and ?t = "BotsTask (nat (min (10 + ?d * 3) 30))"
  let ?rm2 = "upd_room i (\<lambda>r. r\<lparr>gr_connections := AList.update p rid' (gr_connections r)\<rparr>) ?rm1"
  have g: "gr_id old = i" "0 \<le> gr_depth old" "distinct (map fst (rm_rooms (sv_rooms s)))" "i < rm_next_id (sv_rooms s)"
    using ok old(1) unfolding rooms_ok_def manager_inv_def room_good_def by blast+
  have new: "new_room rid' (room\<lparr>gr_connections := home\<rparr>)" "gr_depth room = ?d" "gr_connections room = []"
    using fresh_Room(2) [of ?d rid' env ?name h] g(2) by (simp_all add: new_room_def room_def)
  have "links_ok (\<lambda>j. FindRoom j (sv_rooms s)) (room\<lparr>gr_connections := home\<rparr>)"
    using find_upt old(1) g(1) new(2,3) by (auto simp: links_ok_def home_def first_free_def split: option.splits)
  then have inv: "manager_inv ?rm1 (sv_jobs s @ [(rm_next_id (sv_rooms s), ?t)]) (context_at (sv_players s)) (sv_tasks s)"
    using ok f new(1) g(2,3) by (intro manager_inv_new [of "sv_rooms s"]) (auto simp: rooms_ok_def option.map_ident)
  have old1: "FindRoom i ?rm1 = Some old" using old(1) f(1,2) g(4) by simp
  have "manager_inv ?rm2 (sv_jobs s @ [(rm_next_id (sv_rooms s), ?t)]) (context_at (sv_players s)) (sv_tasks s)"
    by (rule manager_inv_link [OF inv old1 old(2), of _ "room\<lparr>gr_connections := home\<rparr>"]) (simp_all add: f(2) new(2))
  moreover have "(rid, s1) = (rid', push_job rid' ?t (s\<lparr>sv_rooms := ?rm2\<rparr>))"
    using assms(4) unfolding open_portal_def Let_def cr prod.case room_def home_def by (rule sym)
  ultimately show ?thesis using f(1,2) old1 by (auto simp: rooms_ok_def push_job_def)
qed

lemma rooms_ok_portal:
  assumes ok: "rooms_ok s" and "HandlePortal env g h sid x pkt s = Some s'"
  shows "rooms_ok s'"
proof -
  have enter: "rooms_ok (push_job j (AddTask a u v) (set_ctx_room a j (reply sid m (push_job i (RemoveTask (cx_player c)) s1))))"
    if "rooms_ok s1" "FindRoom j (sv_rooms s1) \<noteq> None" "FindRoom i (sv_rooms s1) \<noteq> None" "cx_player c < 900000" for s1 a u v m i j c
    using that by (intro rooms_ok_push rooms_ok_ctx_room) (simp_all add: rooms_ok_push)
  have target: "rooms_ok s1 \<and> FindRoom j (sv_rooms s1) \<noteq> None \<and> FindRoom i (sv_rooms s1) \<noteq> None"
    if t: "portal_target env h p i old s = (j, s1)" and old: "FindRoom i (sv_rooms s) = Some old" "p < length (dg_portals (gr_dungeon old))" for p i old j s1
  proof (cases "map_of (gr_connections old) p")
    case None
    then show ?thesis using t rooms_ok_open_portal [OF ok old] by (simp add: portal_target_def)
  next
    case (Some tgt)
    have "links_ok (\<lambda>j. FindRoom j (sv_rooms s)) old" using ok old(1) unfolding rooms_ok_def manager_inv_def room_good_def by blast
    then obtain r' where "FindRoom tgt (sv_rooms s) = Some r'" using map_of_SomeD [OF Some] unfolding links_ok_def by blast
    then show ?thesis using t ok old(1) Some by (auto simp: portal_target_def)
  qed
  show ?thesis
  proof (cases "ss_state x = InRoom \<and> pkt \<noteq> None")
    case True
    then obtain p where p: "pkt = Some p" "ss_state x = InRoom" by blast
    show ?thesis
      using assms(2) ok unfolding HandlePortal_def p
      by (auto simp: Let_def elim!: with_ctxE with_roomE intro!: enter dest!: target rooms_ok_context(1) [OF ok] split: if_splits prod.splits option.splits)
  qed (use assms in \<open>auto simp: HandlePortal_def split: if_splits option.splits\<close>)
qed

text \<open>The other handlers.\<close>

lemma rooms_ok_in_room: "rooms_ok s \<Longrightarrow> HandleInRoomPacket x req s = Some s' \<Longrightarrow> rooms_ok s'"
  by (auto simp: HandleInRoomPacket_def elim!: with_ctxE with_roomE intro!: rooms_ok_push)

lemma rooms_ok_packet:
  assumes "rooms_ok s" and "OnPacket env g h sid x req s = Some s'"
  shows "rooms_ok s'"
proof (cases req)
  case (C_PORTAL pkt)
  then show ?thesis using assms rooms_ok_portal by (simp add: OnPacket_def)
next
  case (C_CREATE_ROOM pkt)
  then show ?thesis using assms rooms_ok_create rooms_ok_in_room by (auto simp: OnPacket_def HandlePreRoomPacket_def split: if_splits)
next
  case (C_JOIN_ROOM pkt)
  then show ?thesis using assms rooms_ok_join rooms_ok_in_room by (auto simp: OnPacket_def HandlePreRoomPacket_def split: if_splits)
qed (use assms rooms_ok_in_room in \<open>auto simp: OnPacket_def HandlePreRoomPacket_def HandleLogin_def HandleRegister_def HandleCharList_def
      HandleCreateChar_def HandleSelectChar_def HandleRoomList_def elim!: with_ctxE split: if_splits option.splits\<close>)

lemma context_unregister: "context_at (PlayerManager_Unregister sid pm) a = Some c \<Longrightarrow> context_at pm a = Some c"
  by (auto simp: PlayerManager_Unregister_def context_at_def AList.delete_conv' split: option.splits if_splits)

lemma rooms_ok_contexts:
  assumes "rooms_ok s"
    and "\<And>a c. context_at pm a = Some c \<Longrightarrow> cx_player c < 900000 \<and> (\<forall>i. cx_room c = Some i \<longrightarrow> FindRoom i (sv_rooms s) \<noteq> None)"
  shows "rooms_ok (s\<lparr>sv_players := pm\<rparr>)"
  using manager_inv_ctxs [OF assms(1) [unfolded rooms_ok_def] assms(2)] by (simp add: rooms_ok_def)

lemma rooms_ok_unregister: "rooms_ok s \<Longrightarrow> rooms_ok (s\<lparr>sv_players := PlayerManager_Unregister sid (sv_players s)\<rparr>)"
  using rooms_ok_context context_unregister by (intro rooms_ok_contexts) blast+

lemma rooms_ok_leave:
  "rooms_ok s \<Longrightarrow> FindRoom i (sv_rooms s) \<noteq> None \<Longrightarrow> pid < 900000 \<Longrightarrow>
     rooms_ok ((push_job i (RemoveTask pid) s)\<lparr>sv_players := PlayerManager_Unregister sid (sv_players s)\<rparr>)"
  using rooms_ok_unregister [of "push_job i (RemoveTask pid) s" sid] rooms_ok_push [of s i "RemoveTask pid"] by simp

lemma rooms_ok_disconnect: "rooms_ok s \<Longrightarrow> OnDisconnected sid x s = Some s' \<Longrightarrow> rooms_ok s'"
  using rooms_ok_context(1) [of s]
  by (auto simp: OnDisconnected_def Let_def elim!: with_ctxE with_roomE split: if_splits intro!: rooms_ok_unregister rooms_ok_leave)

lemma rooms_ok_callback: "rooms_ok s \<Longrightarrow> small_answer ans \<Longrightarrow> rooms_ok (db_callback_run sid q cb ans s)"
  by (auto simp: db_callback_run_def login_callback_def select_callback_def intro!: rooms_ok_post
      split: db_callback.splits db_answer.splits db_request.splits option.splits)

lemma context_register:
  assumes "PlayerManager_Register sid pid w pm = (a, pm')"
  shows "context_at pm' b = Some c \<Longrightarrow> context_at pm b = Some c \<or> c = player_context_new sid pid w"
  using assms by (auto simp: PlayerManager_Register_def Let_def context_at_def AList.delete_conv' split: option.splits if_splits)

lemma rooms_ok_ring:
  assumes ok: "rooms_ok s" and "small_ring t" and "ring_task_run sid x t s = Some s'"
  shows "rooms_ok s'"
proof (cases t)
  case (LoginTask ok pid n)
  obtain a pm where reg: "PlayerManager_Register sid pid (ss_worker x) (sv_players s) = (a, pm)" by fastforce
  have "rooms_ok (s\<lparr>sv_players := upd_context a (cx_username_update (\<lambda>_. n)) pm\<rparr>)" if "ok"
    using assms(2) rooms_ok_context [OF assms(1)] that unfolding LoginTask
    by (intro rooms_ok_contexts [OF assms(1)]) (auto simp: player_context_new_def dest!: context_register [OF reg] split: if_splits)
  then show ?thesis using assms reg by (auto simp: LoginTask Let_def split: if_splits)
next
  case (SelectTask ch cid)
  have "rooms_ok (s\<lparr>sv_players := upd_context a (\<lambda>ctx. ctx\<lparr>cx_char := cid, cx_char_name := cr_name ch, cx_level := cr_level ch\<rparr>) (sv_players s)\<rparr>)" for a
    using rooms_ok_context [OF ok] by (intro rooms_ok_contexts [OF ok]) (auto split: if_splits)
  then show ?thesis using assms by (auto simp: SelectTask elim!: with_ctxE)
qed (use assms in auto)

lemma rooms_ok_step:
  assumes ok: "rooms_ok s" and "allowed store legal a s" and step: "server_step env store a s = Some s'"
  shows "rooms_ok s'"
proof (cases a)
  case (DbReturn i v w)
  then show ?thesis
    using assms by (auto simp: Let_def split: if_splits prod.splits intro!: rooms_ok_callback)
next
  case (RunTask sid)
  have pop: "rooms_ok (s\<lparr>sv_tasks := ts\<rparr>) \<and> small_ring t" if "pop_for sid (sv_tasks s) = Some (t, ts)" for t ts
    using pop_for_facts [OF that] ok unfolding rooms_ok_def manager_inv_def by auto
  then show ?thesis
    using step ok rooms_ok_ring unfolding RunTask by (auto split: option.splits)
next
  case (RunJob i now ps)
  then show ?thesis
    using step ok manager_inv_job by (auto simp: rooms_ok_def split: option.splits)
next
  case (Tick i now)
  then show ?thesis using step ok manager_inv_tick by (auto simp: rooms_ok_def)
next
  case (Cleanup now)
  then show ?thesis using step ok manager_inv_cleanup [OF ok [unfolded rooms_ok_def]] by (auto simp: rooms_ok_def)
next
  case (Receive sid g h req)
  then show ?thesis using step ok rooms_ok_packet by (auto split: option.splits if_splits)
next
  case (Disconnect sid)
  then show ?thesis using step ok rooms_ok_disconnect by (auto split: option.splits if_splits)
qed (use step ok in \<open>auto simp: accept_def rooms_ok_def split: option.splits\<close>)

lemma rooms_ok_reach: "server_reach env store legal db s \<Longrightarrow> rooms_ok s"
proof (induction rule: server_reach.induct)
  case start
  show ?case by (simp add: game_server_new_def rooms_ok_def manager_inv_def FindRoom_def context_at_def player_manager_new_def)
qed (rule rooms_ok_step)

end
