(* ===== verification/Game_Sessions.thy ===== *)
theory Game_Sessions
  imports Game_Server
begin

text \<open>
  What holds of the sessions of the game server in every state it can reach: which context a session has, who is logged in on
  it, and that two sessions share a player exactly if they share a user name.
\<close>

section \<open>Sessions\<close>

text \<open>A session that has a context owns it: it is registered for the session and was logged in on it. Past the first state an
  open session has one, and in a room its context has a room.\<close>

definition session_good :: "(nat \<Rightarrow> nat option) \<Rightarrow> (nat \<Rightarrow> player_context option) \<Rightarrow> (nat \<times> string \<times> nat) list \<Rightarrow> nat \<Rightarrow> game_session \<Rightarrow> bool" where
  "session_good B C L sid x =
     ((\<forall>a. ss_ctx x = Some a \<longrightarrow> B sid = Some a \<and>
         (\<exists>c. C a = Some c \<and> (sid, cx_username c, cx_player c) \<in> set L \<and> (ss_state x = InRoom \<longrightarrow> cx_room c \<noteq> None))) \<and>
      (ss_open x \<and> ss_state x \<noteq> Connected \<longrightarrow> ss_ctx x \<noteq> None))"

definition has_ctx :: "(nat \<Rightarrow> game_session option) \<Rightarrow> nat \<Rightarrow> bool" where
  "has_ctx S sid = (\<forall>x. S sid = Some x \<longrightarrow> ss_open x \<longrightarrow> ss_ctx x \<noteq> None)"

definition task_good :: "(nat \<Rightarrow> game_session option) \<Rightarrow> (nat \<times> string \<times> nat) list \<Rightarrow> nat \<Rightarrow> ring_task \<Rightarrow> bool" where
  "task_good S L sid t =
     (case t of LoginTask ok pid n \<Rightarrow> ok \<longrightarrow> (sid, n, pid) \<in> set L | RegisterTask ok err \<Rightarrow> True | _ \<Rightarrow> has_ctx S sid)"

definition call_good :: "(nat \<Rightarrow> game_session option) \<Rightarrow> nat \<Rightarrow> db_request \<Rightarrow> db_callback \<Rightarrow> bool" where
  "call_good S sid q cb =
     (case cb of LoginCb n \<Rightarrow> (\<exists>p. q = LoginReq n p \<or> q = LoginInsertReq n p) | RegisterCb \<Rightarrow> True | _ \<Rightarrow> has_ctx S sid)"

definition sess_inv :: "(nat \<Rightarrow> game_session option) \<Rightarrow> nat \<Rightarrow> (nat \<Rightarrow> nat option) \<Rightarrow> (nat \<Rightarrow> player_context option) \<Rightarrow> nat \<Rightarrow>
    (nat \<times> db_request \<times> db_callback) list \<Rightarrow> (nat \<times> ring_task) list \<Rightarrow> (nat \<times> string \<times> nat) list \<Rightarrow> bool" where
  "sess_inv S n B C m calls tasks L =
     ((\<forall>k x. S k = Some x \<longrightarrow> k < n \<and> session_good B C L k x) \<and>
      (\<forall>k a. B k = Some a \<longrightarrow> (\<exists>c. C a = Some c \<and> cx_session c = k)) \<and> (\<forall>a c. C a = Some c \<longrightarrow> a < m) \<and>
      (\<forall>k t. (k, t) \<in> set tasks \<longrightarrow> k < n \<and> task_good S L k t) \<and>
      (\<forall>k q cb. (k, q, cb) \<in> set calls \<longrightarrow> k < n \<and> call_good S k q cb))"

lemma good_mono:
  assumes "\<And>k. has_ctx S k \<Longrightarrow> has_ctx S' k" and "set L \<subseteq> set L'"
  shows "task_good S L k t \<Longrightarrow> task_good S' L' k t" and "call_good S k q cb \<Longrightarrow> call_good S' k q cb"
  using assms by (auto simp: task_good_def call_good_def split: ring_task.splits db_callback.splits)

lemma sess_inv_calls:
  "sess_inv S n B C m calls tasks L \<Longrightarrow> (\<And>k q cb. (k, q, cb) \<in> set calls' \<Longrightarrow> (k, q, cb) \<in> set calls \<or> (k < n \<and> call_good S k q cb)) \<Longrightarrow>
     sess_inv S n B C m calls' tasks L"
  unfolding sess_inv_def by blast

lemma sess_inv_tasks:
  "sess_inv S n B C m calls tasks L \<Longrightarrow> (\<And>k t. (k, t) \<in> set tasks' \<Longrightarrow> (k, t) \<in> set tasks \<or> (k < n \<and> task_good S L k t)) \<Longrightarrow>
     sess_inv S n B C m calls tasks' L"
  unfolding sess_inv_def by blast

lemma sess_inv_login: "sess_inv S n B C m calls tasks L \<Longrightarrow> sess_inv S n B C m calls tasks (L @ ls)"
  using good_mono(1) [of S S L "L @ ls"] unfolding sess_inv_def session_good_def by auto blast

text \<open>Another state of one session, another content of one context.\<close>

lemma sess_inv_state:
  assumes inv: "sess_inv S n B C m calls tasks L" and x: "S sid = Some x" "session_good B C L sid x'"
    and has: "ss_ctx x \<noteq> None \<Longrightarrow> ss_ctx x' \<noteq> None \<or> \<not> ss_open x'" "ss_open x' \<Longrightarrow> ss_open x"
  shows "sess_inv (S(sid \<mapsto> x')) n B C m calls tasks L"
proof -
  have "has_ctx (S(sid \<mapsto> x')) k" if "has_ctx S k" for k using that x(1) has by (auto simp: has_ctx_def)
  from good_mono [OF this subset_refl] show ?thesis using inv x unfolding sess_inv_def by (auto 0 3)
qed

lemma sess_inv_context:
  assumes inv: "sess_inv S n B C m calls tasks L"
    and f: "\<And>c. cx_session (f c) = cx_session c" "\<And>c. cx_username (f c) = cx_username c" "\<And>c. cx_player (f c) = cx_player c"
      "\<And>c. cx_room c \<noteq> None \<Longrightarrow> cx_room (f c) \<noteq> None"
  shows "sess_inv S n B (\<lambda>b. map_option (\<lambda>c. if b = a then f c else c) (C b)) m calls tasks L"
proof -
  define C' where "C' = (\<lambda>b. map_option (\<lambda>c. if b = a then f c else c) (C b))"
  have F: "\<exists>c'. C' b = Some c' \<and> cx_session c' = cx_session c \<and> cx_username c' = cx_username c \<and> cx_player c' = cx_player c \<and>
      (cx_room c \<noteq> None \<longrightarrow> cx_room c' \<noteq> None)" if "C b = Some c" for b c using that f by (cases "b = a") (auto simp: C'_def)
  have "session_good B C' L k x" if g: "session_good B C L k x" for k x
  proof (cases "ss_ctx x")
    case (Some b)
    then obtain c where c: "B k = Some b" "C b = Some c" "(k, cx_username c, cx_player c) \<in> set L" "ss_state x = InRoom \<longrightarrow> cx_room c \<noteq> None"
      using g unfolding session_good_def by blast
    obtain c' where "C' b = Some c'" "cx_username c' = cx_username c" "cx_player c' = cx_player c" "cx_room c \<noteq> None \<longrightarrow> cx_room c' \<noteq> None"
      using F [OF c(2)] by blast
    then show ?thesis using c Some unfolding session_good_def by simp
  qed (use g in \<open>simp add: session_good_def\<close>)
  moreover have "\<exists>c. C' b = Some c \<and> cx_session c = k" if b: "B k = Some b" for k b
  proof -
    obtain c where "C b = Some c" "cx_session c = k" using b inv unfolding sess_inv_def by blast
    then show ?thesis using F by blast
  qed
  moreover have "b < m" if "C' b = Some c" for b c using that inv unfolding sess_inv_def C'_def by auto
  ultimately have "sess_inv S n B C' m calls tasks L" using inv unfolding sess_inv_def by simp
  then show ?thesis unfolding C'_def .
qed

text \<open>Contexts that other sessions do not have come and go.\<close>

lemma sess_inv_heap:
  assumes inv: "sess_inv S n B C m calls tasks L"
    and own: "\<And>k a c. k \<noteq> sid \<Longrightarrow> C a = Some c \<Longrightarrow> cx_session c = k \<Longrightarrow> C' a = Some c"
    and B': "\<And>k. k \<noteq> sid \<Longrightarrow> B' k = B k" "\<And>a. B' sid = Some a \<Longrightarrow> \<exists>c. C' a = Some c \<and> cx_session c = sid"
    and m': "\<And>a c. C' a = Some c \<Longrightarrow> a < m'"
    and S': "\<And>k. k \<noteq> sid \<Longrightarrow> S' k = S k" "\<And>x. S' sid = Some x \<Longrightarrow> sid < n \<and> session_good B' C' L sid x" "has_ctx S sid \<Longrightarrow> has_ctx S' sid"
  shows "sess_inv S' n B' C' m' calls tasks L"
proof -
  have B: "\<exists>c. C' a = Some c \<and> cx_session c = k" if b: "B' k = Some a" for k a
  proof (cases "k = sid")
    case False
    then have "B k = Some a" using b B'(1) by simp
    then obtain c where "C a = Some c" "cx_session c = k" using inv unfolding sess_inv_def by blast
    then show ?thesis using own [OF False] by blast
  qed (use b B'(2) in blast)
  have good: "session_good B' C' L k x" if x: "S' k = Some x" for k x
  proof (cases "k = sid")
    case False
    then have g: "session_good B C L k x" and k: "\<And>a. B k = Some a \<Longrightarrow> \<exists>c. C a = Some c \<and> cx_session c = k"
      using x S'(1) inv unfolding sess_inv_def by auto
    have "C' a = C a" if "B k = Some a" for a using k [OF that] own [OF False] by force
    then show ?thesis using g B'(1) [OF False] unfolding session_good_def by auto
  qed (use x S'(2) in blast)
  have old: "k < n" if x: "S' k = Some x" for k x
  proof (cases "k = sid")
    case False
    then have "S k = Some x" using x S'(1) by simp
    then show ?thesis using inv unfolding sess_inv_def by blast
  qed (use x S'(2) in blast)
  have "has_ctx S' k" if h: "has_ctx S k" for k
  proof (cases "k = sid")
    case False
    show ?thesis using h unfolding has_ctx_def S'(1) [OF False] .
  qed (use h S'(3) in blast)
  note gm = good_mono [OF this subset_refl]
  have tasks: "k < n \<and> task_good S' L k t" if "(k, t) \<in> set tasks" for k t
    using that inv gm(1) unfolding sess_inv_def by blast
  have calls: "k < n \<and> call_good S' k q cb" if "(k, q, cb) \<in> set calls" for k q cb
    using that inv gm(2) unfolding sess_inv_def by blast
  show ?thesis unfolding sess_inv_def using good old B m' tasks calls by blast
qed

definition sessions_ok :: "('r, 's) game_server \<Rightarrow> bool" where
  "sessions_ok s =
     sess_inv (map_of (sv_sessions s)) (sv_next_sid s) (map_of (pm_by_session (sv_players s))) (context_at (sv_players s))
       (pm_next (sv_players s)) (sv_calls s) (sv_tasks s) (sv_logins s)"

lemma sessions_ok_same [simp]:
  "sessions_ok (reply sid m s) = sessions_ok s" "sessions_ok (push_job i t s) = sessions_ok s"
  "sessions_ok (s\<lparr>sv_rooms := rm\<rparr>) = sessions_ok s" "sessions_ok (s\<lparr>sv_jobs := js\<rparr>) = sessions_ok s"
  by (simp_all add: sessions_ok_def reply_def push_job_def)

lemma sessions_ok_session:
  assumes "sessions_ok s" and "map_of (sv_sessions s) sid = Some x"
  shows "sid < sv_next_sid s" and "session_good (map_of (pm_by_session (sv_players s))) (context_at (sv_players s)) (sv_logins s) sid x"
  using assms unfolding sessions_ok_def sess_inv_def by blast+

lemma sessions_upd [simp]:
  "map_of (sv_sessions (upd_session sid f s)) k = map_option (\<lambda>x. if k = sid then f x else x) (map_of (sv_sessions s) k)"
proof -
  have "map_of (map (\<lambda>(k, x). (k, if k = sid then f x else x)) xs) k = map_option (\<lambda>x. if k = sid then f x else x) (map_of xs k)" for xs
    by (induction xs) auto
  then show ?thesis by (simp add: upd_session_def)
qed

lemma sessions_upd_at: "map_of (sv_sessions s) sid = Some x \<Longrightarrow> map_of (sv_sessions (upd_session sid f s)) = (map_of (sv_sessions s))(sid \<mapsto> f x)"
  by (auto simp: option.map_ident)

lemma sessions_ok_issue:
  "sessions_ok s \<Longrightarrow> sid < sv_next_sid s \<Longrightarrow> call_good (map_of (sv_sessions s)) sid q cb \<Longrightarrow> sessions_ok (issue sid q cb s)"
  unfolding sessions_ok_def issue_def by simp (erule sess_inv_calls, auto)

lemma sessions_ok_post:
  "sessions_ok s \<Longrightarrow> sid < sv_next_sid s \<Longrightarrow> task_good (map_of (sv_sessions s)) (sv_logins s) sid t \<Longrightarrow> sessions_ok (post_task sid t s)"
  unfolding sessions_ok_def post_task_def by simp (erule sess_inv_tasks, auto)

lemma sessions_ok_state:
  assumes "sessions_ok s" and "map_of (sv_sessions s) sid = Some x"
    and "session_good (map_of (pm_by_session (sv_players s))) (context_at (sv_players s)) (sv_logins s) sid (x\<lparr>ss_state := st\<rparr>)"
  shows "sessions_ok (set_state sid st s)"
  using sess_inv_state [OF assms(1) [unfolded sessions_ok_def] assms(2,3)]
  by (simp add: sessions_ok_def set_state_def sessions_upd_at [OF assms(2)]) (simp add: upd_session_def)

lemma sessions_ok_context:
  assumes "sessions_ok s"
    and "\<And>c. cx_session (f c) = cx_session c" "\<And>c. cx_username (f c) = cx_username c" "\<And>c. cx_player (f c) = cx_player c"
      "\<And>c. cx_room c \<noteq> None \<Longrightarrow> cx_room (f c) \<noteq> None"
  shows "sessions_ok (s\<lparr>sv_players := upd_context a f (sv_players s)\<rparr>)"
proof -
  have "context_at (upd_context a f (sv_players s)) = (\<lambda>b. map_option (\<lambda>c. if b = a then f c else c) (context_at (sv_players s) b))" by auto
  then show ?thesis
    using sess_inv_context [OF assms(1) [unfolded sessions_ok_def] assms(2-5), of a]
    by (simp add: sessions_ok_def) (simp add: upd_context_def)
qed

section \<open>Every action keeps the sessions in order\<close>

lemma sessions_ok_ctx:
  assumes "sessions_ok s" and "map_of (sv_sessions s) sid = Some x" and "ss_ctx x = Some a"
  obtains c where "context_at (sv_players s) a = Some c" "cx_session c = sid" "map_of (pm_by_session (sv_players s)) sid = Some a"
    "(sid, cx_username c, cx_player c) \<in> set (sv_logins s)"
proof -
  obtain c where c: "map_of (pm_by_session (sv_players s)) sid = Some a" "context_at (sv_players s) a = Some c"
    "(sid, cx_username c, cx_player c) \<in> set (sv_logins s)" using sessions_ok_session(2) [OF assms(1,2)] assms(3) unfolding session_good_def by blast
  then have "cx_session c = sid" using assms(1) unfolding sessions_ok_def sess_inv_def by force
  then show ?thesis using c by (intro that)
qed

text \<open>Entering a room: the context of the session gets the room, then the session its state.\<close>

lemma sessions_ok_enter:
  assumes ok: "sessions_ok s" and x: "map_of (sv_sessions s) sid = Some x" "ss_ctx x = Some a"
  shows "sessions_ok (set_state sid InRoom (set_ctx_room a rid s))"
proof (rule sessions_ok_state)
  show ok': "sessions_ok (set_ctx_room a rid s)" unfolding set_ctx_room_def by (rule sessions_ok_context [OF ok]) simp_all
  show x': "map_of (sv_sessions (set_ctx_room a rid s)) sid = Some x" using x(1) by (simp add: set_ctx_room_def)
  show "session_good (map_of (pm_by_session (sv_players (set_ctx_room a rid s)))) (context_at (sv_players (set_ctx_room a rid s)))
      (sv_logins (set_ctx_room a rid s)) sid (x\<lparr>ss_state := InRoom\<rparr>)"
    using sessions_ok_session(2) [OF ok' x'] x(2) unfolding session_good_def by (auto simp: set_ctx_room_def)
qed

lemma session_fields [simp]:
  "sv_sessions (reply sid m s) = sv_sessions s" "sv_sessions (push_job i t s) = sv_sessions s" "sv_sessions (s\<lparr>sv_rooms := rm\<rparr>) = sv_sessions s"
  "sv_next_sid (reply sid m s) = sv_next_sid s"
  by (simp_all add: reply_def push_job_def)

lemma sessions_ok_create:
  assumes "sessions_ok s" and "map_of (sv_sessions s) sid = Some x" and "HandleCreateRoom env g h sid x pkt s = Some s'"
  shows "sessions_ok s'"
  using assms by (auto simp: HandleCreateRoom_def Let_def elim!: with_ctxE intro!: sessions_ok_enter [where x = x] split: if_splits option.splits prod.splits)

lemma sessions_ok_join:
  assumes "sessions_ok s" and "map_of (sv_sessions s) sid = Some x" and "HandleJoinRoom env g sid x pkt s = Some s'"
  shows "sessions_ok s'"
  using assms by (auto simp: HandleJoinRoom_def Let_def elim!: with_ctxE intro!: sessions_ok_enter [where x = x] split: if_splits option.splits)

lemma sessions_ok_target: "portal_target env h p i old s = (j, s1) \<Longrightarrow> sessions_ok s1 = sessions_ok s"
  by (auto simp: portal_target_def open_portal_def Let_def split: option.splits prod.splits if_splits)

lemma sessions_ok_ctx_room: "sessions_ok s \<Longrightarrow> sessions_ok (set_ctx_room a rid s)"
  unfolding set_ctx_room_def by (rule sessions_ok_context) simp_all

lemma sessions_ok_portal:
  assumes "sessions_ok s" and "HandlePortal env g h sid x pkt s = Some s'"
  shows "sessions_ok s'"
  using assms by (auto simp: HandlePortal_def Let_def elim!: with_ctxE with_roomE intro!: sessions_ok_ctx_room dest!: sessions_ok_target
      split: if_splits option.splits prod.splits)

lemma has_ctx_session: "map_of (sv_sessions s) sid = Some x \<Longrightarrow> ss_ctx x = Some a \<Longrightarrow> has_ctx (map_of (sv_sessions s)) sid"
  by (simp add: has_ctx_def)

lemma sessions_ok_packet:
  assumes ok: "sessions_ok s" and x: "map_of (sv_sessions s) sid = Some x" and "OnPacket env g h sid x req s = Some s'"
  shows "sessions_ok s'"
proof -
  have room: "sessions_ok s'" if "HandleInRoomPacket x req s = Some s'"
    using that ok by (auto simp: HandleInRoomPacket_def elim!: with_ctxE with_roomE)
  note sid = sessions_ok_session(1) [OF ok x] and call = sessions_ok_issue [OF ok sessions_ok_session(1) [OF ok x]]
  show ?thesis
  proof (cases req)
    case (C_PORTAL pkt)
    then show ?thesis using assms sessions_ok_portal by (simp add: OnPacket_def)
  next
    case (C_CREATE_ROOM pkt)
    then show ?thesis using assms sessions_ok_create room by (auto simp: OnPacket_def HandlePreRoomPacket_def split: if_splits)
  next
    case (C_JOIN_ROOM pkt)
    then show ?thesis using assms sessions_ok_join room by (auto simp: OnPacket_def HandlePreRoomPacket_def split: if_splits)
  qed (use assms room has_ctx_session [OF x] in \<open>auto simp: OnPacket_def HandlePreRoomPacket_def HandleLogin_def HandleRegister_def HandleCharList_def
      HandleCreateChar_def HandleSelectChar_def HandleRoomList_def call_good_def elim!: with_ctxE intro!: call split: if_splits option.splits\<close>)
qed

text \<open>Leaving.\<close>

lemma unregister_fields:
  assumes "map_of (pm_by_session pm) sid = Some a" and "context_at pm a = Some c"
  shows "map_of (pm_by_session (PlayerManager_Unregister sid pm)) = (map_of (pm_by_session pm))(sid := None)"
    and "context_at (PlayerManager_Unregister sid pm) = (context_at pm)(a := None)" and "pm_next (PlayerManager_Unregister sid pm) = pm_next pm"
  using assms by (auto simp: PlayerManager_Unregister_def context_at_def AList.delete_conv')

lemma upd_session_fields [simp]:
  "sv_next_sid (upd_session sid f s) = sv_next_sid s" "sv_players (upd_session sid f s) = sv_players s" "sv_calls (upd_session sid f s) = sv_calls s"
  "sv_tasks (upd_session sid f s) = sv_tasks s" "sv_logins (upd_session sid f s) = sv_logins s"
  "sv_jobs (upd_session sid f s) = sv_jobs s" "sv_rooms (upd_session sid f s) = sv_rooms s"
  by (simp_all add: upd_session_def)

lemma sessions_ok_forget:
  assumes ok: "sessions_ok s" and x: "map_of (sv_sessions s) sid = Some x" "ss_ctx x = Some a"
  shows "sessions_ok (upd_session sid (\<lambda>x. x\<lparr>ss_ctx := None, ss_open := False\<rparr>) (s\<lparr>sv_players := PlayerManager_Unregister sid (sv_players s)\<rparr>))"
proof -
  obtain c where c: "context_at (sv_players s) a = Some c" "cx_session c = sid" "map_of (pm_by_session (sv_players s)) sid = Some a"
    using sessions_ok_ctx [OF ok x] by blast
  let ?x = "x\<lparr>ss_ctx := None, ss_open := False\<rparr>" and ?C = "context_at (sv_players s)"
  have x': "map_of (sv_sessions (s\<lparr>sv_players := PlayerManager_Unregister sid (sv_players s)\<rparr>)) sid = Some x" using x by simp
  have m: "b < pm_next (sv_players s)" if "?C b = Some d" for b d using that ok unfolding sessions_ok_def sess_inv_def by blast
  have "sess_inv ((map_of (sv_sessions s))(sid \<mapsto> ?x)) (sv_next_sid s) ((map_of (pm_by_session (sv_players s)))(sid := None)) (?C(a := None))
      (pm_next (sv_players s)) (sv_calls s) (sv_tasks s) (sv_logins s)"
  proof (rule sess_inv_heap [OF ok [unfolded sessions_ok_def], of sid])
    show "(?C(a := None)) b = Some d" if "k \<noteq> sid" "?C b = Some d" "cx_session d = k" for k b d using that c by auto
    show "b < pm_next (sv_players s)" if "(?C(a := None)) b = Some d" for b d using that m by (auto split: if_splits)
    show "sid < sv_next_sid s \<and> session_good ((map_of (pm_by_session (sv_players s)))(sid := None)) (?C(a := None)) (sv_logins s) sid y"
      if "((map_of (sv_sessions s))(sid \<mapsto> ?x)) sid = Some y" for y
      using that sessions_ok_session(1) [OF ok x(1)] by (auto simp: session_good_def)
  qed (simp_all add: has_ctx_def)
  then show ?thesis unfolding sessions_ok_def sessions_upd_at [OF x'] by (simp add: unregister_fields [OF c(3,1)])
qed

lemma sessions_ok_disconnect:
  assumes ok: "sessions_ok s" and x: "map_of (sv_sessions s) sid = Some x" and "OnDisconnected sid x s = Some s'"
  shows "sessions_ok s'"
proof (cases "ss_ctx x")
  case None
  have "sessions_ok (upd_session sid (\<lambda>x. x\<lparr>ss_ctx := None, ss_open := False\<rparr>) s)"
    unfolding sessions_ok_def sessions_upd_at [OF x] upd_session_fields
    by (rule sess_inv_state [OF ok [unfolded sessions_ok_def] x]) (simp_all add: session_good_def)
  then show ?thesis using assms(3) None by (simp add: OnDisconnected_def Let_def)
next
  case (Some a)
  have "sessions_ok (upd_session sid (\<lambda>x. x\<lparr>ss_ctx := None, ss_open := False\<rparr>)
      ((push_job i t s)\<lparr>sv_players := PlayerManager_Unregister sid (sv_players s)\<rparr>))" for i t
    using sessions_ok_forget [of "push_job i t s" sid x a] ok x Some by simp
  then show ?thesis
    using assms(3) Some sessions_ok_forget [OF ok x Some] by (auto simp: OnDisconnected_def Let_def elim!: with_ctxE with_roomE split: if_splits)
qed

text \<open>Logging in.\<close>

lemma register_fields:
  assumes "PlayerManager_Register sid pid w pm = (a, pm')"
  shows "a = pm_next pm" and "pm_next pm' = Suc a" and "map_of (pm_by_session pm') = (map_of (pm_by_session pm))(sid \<mapsto> a)"
    and "context_at pm' b =
      (if b = a then Some (player_context_new sid pid w) else if map_of (pm_by_session pm) sid = Some b then None else context_at pm b)"
  using assms by (auto simp: PlayerManager_Register_def Let_def context_at_def AList.delete_conv' AList.update_conv' split: option.splits)

lemma upd_context_fields [simp]:
  "pm_next (upd_context a f pm) = pm_next pm" "pm_by_session (upd_context a f pm) = pm_by_session pm"
  by (simp_all add: upd_context_def)

lemma sessions_ok_login:
  assumes ok: "sessions_ok s" and x: "map_of (sv_sessions s) sid = Some x" and reg: "PlayerManager_Register sid pid w (sv_players s) = (a, pm)"
    and log: "(sid, n, pid) \<in> set (sv_logins s)"
  shows "sessions_ok (upd_session sid (\<lambda>x. x\<lparr>ss_ctx := Some a, ss_state := Authenticated\<rparr>)
    (s\<lparr>sv_players := upd_context a (cx_username_update (\<lambda>_. n)) pm\<rparr>))"
proof -
  note r = register_fields [OF reg]
  define C' where "C' = context_at (upd_context a (cx_username_update (\<lambda>_. n)) pm)"
  let ?C = "context_at (sv_players s)" and ?B = "map_of (pm_by_session (sv_players s))" and ?x = "x\<lparr>ss_ctx := Some a, ss_state := Authenticated\<rparr>"
  have C': "C' b = (if b = a then Some ((player_context_new sid pid w)\<lparr>cx_username := n\<rparr>) else if ?B sid = Some b then None else ?C b)" for b
    by (simp add: C'_def r(4) option.map_ident)
  have m: "b < pm_next (sv_players s)" if "?C b = Some d" for b d using that ok unfolding sessions_ok_def sess_inv_def by blast
  have own: "\<exists>c. ?C b = Some c \<and> cx_session c = sid" if "?B sid = Some b" for b using that ok unfolding sessions_ok_def sess_inv_def by blast
  have x': "map_of (sv_sessions (s\<lparr>sv_players := upd_context a (cx_username_update (\<lambda>_. n)) pm\<rparr>)) sid = Some x" using x by simp
  have "sess_inv ((map_of (sv_sessions s))(sid \<mapsto> ?x)) (sv_next_sid s) (?B(sid \<mapsto> a)) C' (Suc a) (sv_calls s) (sv_tasks s) (sv_logins s)"
  proof (rule sess_inv_heap [OF ok [unfolded sessions_ok_def], of sid])
    show "C' b = Some d" if "k \<noteq> sid" "?C b = Some d" "cx_session d = k" for k b d
    proof -
      have "?B sid \<noteq> Some b" using that own [of b] by auto
      moreover have "b \<noteq> a" using m [OF that(2)] r(1) by simp
      ultimately show ?thesis using that(2) C' by simp
    qed
    show "b < Suc a" if "C' b = Some d" for b d using that m r(1) C' by (auto split: if_splits intro: less_SucI)
    show "\<exists>c. C' b = Some c \<and> cx_session c = sid" if "(?B(sid \<mapsto> a)) sid = Some b" for b using that C' by (auto simp: player_context_new_def)
    show "sid < sv_next_sid s \<and> session_good (?B(sid \<mapsto> a)) C' (sv_logins s) sid y" if "((map_of (sv_sessions s))(sid \<mapsto> ?x)) sid = Some y" for y
      using that sessions_ok_session(1) [OF ok x] log C' by (auto simp: session_good_def player_context_new_def)
  qed (simp_all add: has_ctx_def)
  then show ?thesis unfolding sessions_ok_def sessions_upd_at [OF x'] C'_def by (simp add: r)
qed

text \<open>Callbacks and tasks.\<close>

lemma sessions_ok_callback:
  assumes ok: "sessions_ok s" and sid: "sid < sv_next_sid s" and good: "call_good (map_of (sv_sessions s)) sid q cb"
  shows "sessions_ok (db_callback_run sid q cb ans s)"
proof (cases cb)
  case (LoginCb n)
  have logged: "sessions_ok (s\<lparr>sv_logins := sv_logins s @ ls\<rparr>)" for ls
    using sess_inv_login [OF ok [unfolded sessions_ok_def]] by (simp add: sessions_ok_def)
  have "sessions_ok (login_callback sid q n ans s)"
    unfolding login_callback_def using ok sid good
    by (auto simp: LoginCb call_good_def task_good_def intro!: sessions_ok_issue sessions_ok_post logged split: db_answer.splits db_request.splits)
  then show ?thesis by (simp add: db_callback_run_def LoginCb)
qed (use assms in \<open>auto simp: db_callback_run_def select_callback_def call_good_def task_good_def intro!: sessions_ok_post split: db_answer.splits option.splits\<close>)

lemma sessions_ok_ring:
  assumes ok: "sessions_ok s" and x: "map_of (sv_sessions s) sid = Some x" and good: "task_good (map_of (sv_sessions s)) (sv_logins s) sid t"
    and run: "ring_task_run sid x t s = Some s'"
  shows "sessions_ok s'"
proof -
  note sid = sessions_ok_session(1) [OF ok x]
  have state: "sessions_ok (set_state sid st (reply sid m s))" if "has_ctx (map_of (sv_sessions s)) sid" "st \<noteq> InRoom" for st m
  proof (rule sessions_ok_state [of _ _ x])
    show "session_good (map_of (pm_by_session (sv_players (reply sid m s)))) (context_at (sv_players (reply sid m s))) (sv_logins (reply sid m s)) sid
        (x\<lparr>ss_state := st\<rparr>)"
      using sessions_ok_session(2) [OF ok x] that x by (auto simp: session_good_def has_ctx_def reply_def)
  qed (use ok x in simp_all)
  show ?thesis
  proof (cases t)
    case (LoginTask good pid n)
    obtain a pm where reg: "PlayerManager_Register sid pid (ss_worker x) (sv_players s) = (a, pm)" by fastforce
    then show ?thesis
      using run good ok sessions_ok_login [OF ok x reg, of n] by (cases "good") (auto simp: LoginTask Let_def task_good_def)
  next
    case (SelectTask ch cid)
    have "sessions_ok (issue sid (InventoryReq cid) (InventoryCb cid) (reply sid m
        (s\<lparr>sv_players := upd_context a (\<lambda>ctx. ctx\<lparr>cx_char := cid, cx_char_name := cr_name ch, cx_level := cr_level ch\<rparr>) (sv_players s)\<rparr>)))" for a m
      using sid good by (intro sessions_ok_issue) (auto simp: SelectTask task_good_def call_good_def intro!: sessions_ok_context [OF ok])
    then show ?thesis using run ok by (auto simp: SelectTask elim!: with_ctxE)
  next
    case (InventoryTask cid its)
    have "sessions_ok (issue sid (CurrencyReq cid) CurrencyCb (reply sid m s))" for m
      using sid good ok by (intro sessions_ok_issue) (auto simp: InventoryTask task_good_def call_good_def)
    then show ?thesis using run by (auto simp: InventoryTask)
  qed (use run ok good state in \<open>auto simp: task_good_def\<close>)
qed

lemma sessions_ok_accept: "sessions_ok s \<Longrightarrow> sessions_ok (accept w s)"
proof -
  assume ok: "sessions_ok s"
  let ?n = "sv_next_sid s" and ?S = "map_of (sv_sessions s)" and ?x = "\<lparr>ss_state = Connected, ss_ctx = None, ss_worker = w, ss_open = True\<rparr>"
  have g: "task_good (?S(?n \<mapsto> ?x)) (sv_logins s) k t = task_good ?S (sv_logins s) k t" "call_good (?S(?n \<mapsto> ?x)) k q cb = call_good ?S k q cb"
    if "k < ?n" for k t q cb using that by (simp_all add: task_good_def call_good_def has_ctx_def cong: ring_task.case_cong db_callback.case_cong)
  have "session_good B C L ?n ?x" for B C L by (simp add: session_good_def)
  then show ?thesis
    using ok g unfolding sessions_ok_def sess_inv_def accept_def by (auto simp: AList.update_conv' less_Suc_eq split: if_splits)
qed

lemma sessions_ok_destroy: "sessions_ok s \<Longrightarrow> sessions_ok (s\<lparr>sv_sessions := AList.delete sid (sv_sessions s)\<rparr>)"
proof -
  assume ok: "sessions_ok s"
  let ?S = "map_of (sv_sessions s)" and ?B = "map_of (pm_by_session (sv_players s))" and ?C = "context_at (sv_players s)"
  have inv: "\<exists>c. ?C a = Some c \<and> cx_session c = sid" if "?B sid = Some a" for a using that ok unfolding sessions_ok_def sess_inv_def by blast
  have m: "a < pm_next (sv_players s)" if "?C a = Some c" for a c using that ok unfolding sessions_ok_def sess_inv_def by blast
  have "sess_inv (?S(sid := None)) (sv_next_sid s) ?B ?C (pm_next (sv_players s)) (sv_calls s) (sv_tasks s) (sv_logins s)"
    by (rule sess_inv_heap [OF ok [unfolded sessions_ok_def], of sid]) (use inv m in \<open>auto simp: has_ctx_def\<close>)
  then show ?thesis by (simp add: sessions_ok_def AList.delete_conv')
qed

lemma sessions_ok_step:
  assumes ok: "sessions_ok s" and step: "server_step env store a s = Some s'"
  shows "sessions_ok s'"
proof (cases a)
  case (DbReturn i v w)
  show ?thesis
  proof (cases "i < length (sv_calls s)")
    case True
    obtain sid q cb where c: "sv_calls s ! i = (sid, q, cb)" by (metis prod_cases3)
    then have mem: "(sid, q, cb) \<in> set (sv_calls s)" using True nth_mem by metis
    have g: "sid < sv_next_sid s" "call_good (map_of (sv_sessions s)) sid q cb"
      using mem ok unfolding sessions_ok_def sess_inv_def by blast+
    have "sessions_ok (s\<lparr>sv_db := db, sv_calls := take i (sv_calls s) @ drop (Suc i) (sv_calls s)\<rparr>)" for db
      using sess_inv_calls [OF ok [unfolded sessions_ok_def], of "take i (sv_calls s) @ drop (Suc i) (sv_calls s)"]
      by (auto simp: sessions_ok_def dest: in_set_takeD in_set_dropD)
    then show ?thesis
      using step c True g by (auto simp: DbReturn intro!: sessions_ok_callback split: prod.splits)
  qed (use step ok DbReturn in simp)
next
  case (RunTask sid)
  show ?thesis
  proof (cases "pop_for sid (sv_tasks s)")
    case (Some tt)
    obtain t ts where tt: "tt = (t, ts)" by fastforce
    note pop = pop_for_facts [OF Some [unfolded tt]]
    have "sessions_ok (s\<lparr>sv_tasks := ts\<rparr>)"
      using sess_inv_tasks [OF ok [unfolded sessions_ok_def], of ts] pop by (auto simp: sessions_ok_def)
    moreover have "task_good (map_of (sv_sessions s)) (sv_logins s) sid t" using pop ok unfolding sessions_ok_def sess_inv_def by blast
    ultimately show ?thesis
      using step Some tt sessions_ok_ring [of "s\<lparr>sv_tasks := ts\<rparr>" sid] by (auto simp: RunTask split: option.splits)
  qed (use step ok RunTask in simp)
next
  case (RunJob i now ps)
  then show ?thesis using step ok by (auto split: option.splits)
next
  case (Receive sid g h req)
  then show ?thesis using step ok sessions_ok_packet by (auto split: option.splits if_splits)
next
  case (Disconnect sid)
  then show ?thesis using step ok sessions_ok_disconnect by (auto split: option.splits if_splits)
next
  case (Destroy sid)
  then show ?thesis using step ok sessions_ok_destroy by (auto split: option.splits if_splits)
qed (use step ok sessions_ok_accept in auto)

lemma sessions_ok_reach: "server_reach env store legal db s \<Longrightarrow> sessions_ok s"
proof (induction rule: server_reach.induct)
  case start
  show ?case by (simp add: sessions_ok_def sess_inv_def game_server_new_def player_manager_new_def context_at_def)
qed (rule sessions_ok_step)

section \<open>Whose session it is\<close>

lemma packet_logins: "OnPacket env g h sid x req s = Some s' \<Longrightarrow> sv_db s' = sv_db s \<and> sv_logins s' = sv_logins s"
proof -
  have t: "portal_target env h p i old s = (j, s1) \<Longrightarrow> sv_db s1 = sv_db s \<and> sv_logins s1 = sv_logins s" for p i old j s1
    by (auto simp: portal_target_def open_portal_def Let_def push_job_def split: option.splits prod.splits if_splits)
  show "OnPacket env g h sid x req s = Some s' \<Longrightarrow> sv_db s' = sv_db s \<and> sv_logins s' = sv_logins s"
    unfolding OnPacket_def HandlePreRoomPacket_def
    by (cases req)
      (auto simp: HandlePortal_def HandleInRoomPacket_def HandleLogin_def HandleRegister_def HandleCharList_def
        HandleCreateChar_def HandleSelectChar_def HandleRoomList_def HandleCreateRoom_def HandleJoinRoom_def Let_def issue_def reply_def push_job_def
        set_ctx_room_def set_state_def upd_session_def elim!: with_ctxE with_roomE dest!: t split: if_splits option.splits prod.splits)
qed

lemma task_logins: "ring_task_run sid x t s = Some s' \<Longrightarrow> sv_db s' = sv_db s \<and> sv_logins s' = sv_logins s"
  by (cases t) (auto simp: Let_def issue_def reply_def set_state_def upd_session_def elim!: with_ctxE split: prod.splits)

lemma disconnect_logins: "OnDisconnected sid x s = Some s' \<Longrightarrow> sv_db s' = sv_db s \<and> sv_logins s' = sv_logins s"
  by (auto simp: OnDisconnected_def Let_def push_job_def upd_session_def elim!: with_ctxE with_roomE split: if_splits)

lemma callback_logins:
  assumes "call_good S sid q cb"
  shows "sv_db (db_callback_run sid q cb ans s) = sv_db s \<and>
    (sv_logins (db_callback_run sid q cb ans s) = sv_logins s \<or>
     (\<exists>n p pid. login_of (call_of q v w) = Some (n, p) \<and> ans = LoginAnswer True pid \<and>
        sv_logins (db_callback_run sid q cb ans s) = sv_logins s @ [(sid, n, pid)]))"
  using assms
  by (cases cb) (auto simp: db_callback_run_def login_callback_def select_callback_def call_good_def issue_def post_task_def
      split: db_answer.splits db_request.splits option.splits)

text \<open>Over a store that keeps its contract, whoever was ever logged in has an account there with the player id it was given.\<close>

context account_store
begin

lemma logins_have_accounts:
  assumes "server_reach env step legal db s" and "invar db"
  shows "invar (sv_db s) \<and> (\<forall>sid n pid. (sid, n, pid) \<in> set (sv_logins s) \<longrightarrow> (\<exists>p. accounts (sv_db s) n = Some (pid, p)))"
  using assms
proof (induction rule: server_reach.induct)
  case start
  then show ?case by (simp add: game_server_new_def)
next
  case (act s a s')
  note IH = act.IH [OF act.prems]
  show ?case
  proof (cases "\<exists>i v w. a = DbReturn i v w \<and> i < length (sv_calls s)")
    case True
    then obtain i v w where a: "a = DbReturn i v w" "i < length (sv_calls s)" by blast
    obtain sid q cb where c: "sv_calls s ! i = (sid, q, cb)" by (metis prod_cases3)
    obtain d ans where st: "step (sv_db s) (call_of q v w) = (d, ans)" by fastforce
    have good: "call_good (map_of (sv_sessions s)) sid q cb"
      using sessions_ok_reach [OF act.hyps(1)] nth_mem [OF a(2)] c unfolding sessions_ok_def sess_inv_def by metis
    have legal: "legal (call_of q v w)" using act.hyps(2) a c by (simp add: Let_def)
    let ?s = "s\<lparr>sv_db := d, sv_calls := take i (sv_calls s) @ drop (Suc i) (sv_calls s)\<rparr>"
    have s': "s' = db_callback_run sid q cb ans ?s" using act.hyps(3) a c st by simp
    have k: "accounts d n = Some p" if "accounts (sv_db s) n = Some p" for n p using keeps [OF _ legal that] IH st by simp
    have d: "sv_db s' = d" and "invar d" using callback_logins [OF good, of ans ?s v w] invar_step [OF _ legal, of "sv_db s"] IH st by (simp_all add: s')
    have stored: "accounts d n = Some (pid, p)" if "login_of (call_of q v w) = Some (n, p)" "ans = LoginAnswer True pid" for n p pid
      using login_stored [OF _ legal that(1), of "sv_db s" pid] IH st that(2) by simp
    have "\<exists>p. accounts d n = Some (pid, p)" if m: "(k, n, pid) \<in> set (sv_logins s')" for k n pid
    proof -
      consider "(k, n, pid) \<in> set (sv_logins s)" | p where "login_of (call_of q v w) = Some (n, p)" "ans = LoginAnswer True pid"
        using callback_logins [OF good, of ans ?s v w] m unfolding s' by auto
      then show ?thesis
      proof cases
        case 1
        then show ?thesis using IH k by blast
      next
        case 2
        then show ?thesis using stored by blast
      qed
    qed
    then show ?thesis using d \<open>invar d\<close> by simp
  next
    case False
    have "sv_db s' = sv_db s \<and> sv_logins s' = sv_logins s"
      using act.hyps(3) False packet_logins task_logins disconnect_logins
      by (cases a) (auto simp: accept_def split: option.splits if_splits dest!: packet_logins task_logins disconnect_logins)
    then show ?thesis using IH by simp
  qed
qed

lemma same_player_same_name:
  assumes "server_reach env step legal db s" and "invar db" and "(k, u, i) \<in> set (sv_logins s)" and "(l, v, j) \<in> set (sv_logins s)"
  shows "i = j \<longleftrightarrow> u = v"
proof -
  note r = logins_have_accounts [OF assms(1,2)]
  then obtain p q where "accounts (sv_db s) u = Some (i, p)" "accounts (sv_db s) v = Some (j, q)" using assms(3,4) by blast
  then show ?thesis using one_name r by (metis option.inject prod.inject)
qed

end

section \<open>Runs\<close>

fun server_run :: "'r lobby_env \<Rightarrow> ('s \<Rightarrow> db_call \<Rightarrow> 's \<times> db_answer) \<Rightarrow> (db_call \<Rightarrow> bool) \<Rightarrow> 'r server_action list \<Rightarrow>
    ('r, 's) game_server \<Rightarrow> ('r, 's) game_server option" where
  "server_run env store legal [] s = Some s"
| "server_run env store legal (a # as) s =
     (if allowed store legal a s then Option.bind (server_step env store a s) (server_run env store legal as) else None)"

lemma server_run_reach:
  "server_reach env store legal db s \<Longrightarrow> server_run env store legal as s = Some s' \<Longrightarrow> server_reach env store legal db s'"
proof (induction as arbitrary: s)
  case (Cons a as)
  then obtain s1 where s1: "allowed store legal a s" "server_step env store a s = Some s1" "server_run env store legal as s1 = Some s'"
    by (auto split: if_splits bind_splits)
  have "server_reach env store legal db s1" by (rule server_reach.act [OF Cons.prems(1) s1(1,2)])
  then show ?case using s1(3) by (rule Cons.IH)
qed simp

text \<open>Two clients log in on PostgreSQL; the first makes a character and chooses it.\<close>

definition demo_lobby_env :: "nat lobby_env" where
  "demo_lobby_env = \<lparr>le_game = demo_game_env, le_seed = (\<lambda>_. 0), le_sort_rooms = (\<lambda>rs. rs), le_sort_portals = (\<lambda>ps. ps)\<rparr>"

definition demo_actions :: "nat server_action list" where
  "demo_actions =
     [Accept 0, Accept 1, Receive 1 0 0 (C_LOGIN (Some (''ann'', ''x''))), Receive 2 0 0 (C_LOGIN (Some (''bob'', ''y''))),
      DbReturn 0 True True, DbReturn 0 True True, DbReturn 0 True True, DbReturn 0 True True, RunTask 1, RunTask 2,
      Receive 1 0 0 (C_CREATE_CHAR (Some ''Ann'')), DbReturn 0 True True, RunTask 1, Receive 1 0 0 (C_SELECT_CHAR (Some 1)),
      DbReturn 0 True True, RunTask 1, DbReturn 0 True True, RunTask 1, DbReturn 0 True True, RunTask 1]"

definition demo_server :: "(nat, sql_tables) game_server" where
  "demo_server = the (server_run demo_lobby_env postgres_step sql_plain demo_actions (game_server_new sql_tables_new))"

lemmas demo_defs =
  demo_actions_def game_server_new_def player_manager_new_def sql_tables_new_def accept_def OnPacket_def HandlePreRoomPacket_def HandleLogin_def
  HandleCreateChar_def HandleSelectChar_def choosing_def with_ctx_def context_at_def issue_def post_task_def reply_def set_state_def upd_session_def
  upd_context_def db_callback_run_def login_callback_def select_callback_def PlayerManager_Register_def player_context_new_def Let_def
  Pg_Login_def Pg_LoginInsert_def Pg_CreateChar_def Pg_LoadCurrency_def select_account_def insert_account_def insert_character_def insert_currency_def
  select_characters_def select_inventory_def c_str_def plain_def

lemma demo_run:
  "\<exists>s. server_run demo_lobby_env postgres_step sql_plain demo_actions (game_server_new sql_tables_new) = Some s \<and>
     map_of (sv_sessions s) 1 = Some \<lparr>ss_state = InLobby, ss_ctx = Some 0, ss_worker = 0, ss_open = True\<rparr> \<and>
     map_of (sv_sessions s) 2 = Some \<lparr>ss_state = Authenticated, ss_ctx = Some 1, ss_worker = 1, ss_open = True\<rparr>"
  by (simp add: demo_defs)

lemma demo_server:
  "server_reach demo_lobby_env postgres_step sql_plain sql_tables_new demo_server"
  "map_of (sv_sessions demo_server) 1 = Some \<lparr>ss_state = InLobby, ss_ctx = Some 0, ss_worker = 0, ss_open = True\<rparr>"
  "map_of (sv_sessions demo_server) 2 = Some \<lparr>ss_state = Authenticated, ss_ctx = Some 1, ss_worker = 1, ss_open = True\<rparr>"
proof -
  obtain s where s: "server_run demo_lobby_env postgres_step sql_plain demo_actions (game_server_new sql_tables_new) = Some s"
    "map_of (sv_sessions s) 1 = Some \<lparr>ss_state = InLobby, ss_ctx = Some 0, ss_worker = 0, ss_open = True\<rparr>"
    "map_of (sv_sessions s) 2 = Some \<lparr>ss_state = Authenticated, ss_ctx = Some 1, ss_worker = 1, ss_open = True\<rparr>" using demo_run by blast
  then have d: "demo_server = s" by (simp add: demo_server_def)
  show "server_reach demo_lobby_env postgres_step sql_plain sql_tables_new demo_server" unfolding d by (rule server_run_reach [OF server_reach.start s(1)])
  show "map_of (sv_sessions demo_server) 1 = Some \<lparr>ss_state = InLobby, ss_ctx = Some 0, ss_worker = 0, ss_open = True\<rparr>"
    "map_of (sv_sessions demo_server) 2 = Some \<lparr>ss_state = Authenticated, ss_ctx = Some 1, ss_worker = 1, ss_open = True\<rparr>" using s d by simp_all
qed

lemma pop_fresh: "k \<notin> fst ` set xs \<Longrightarrow> pop_for k (xs @ [(k, t)]) = Some (t, xs)"
  by (induction xs) auto

lemma pop_append: "pop_for k xs = Some (t, ys) \<Longrightarrow> pop_for k (xs @ zs) = Some (t, ys @ zs)"
proof (induction xs arbitrary: ys)
  case (Cons e xs)
  then show ?case by (cases e) (auto split: if_splits)
qed simp

text \<open>The room a client in the lobby has just opened, before its first job.\<close>

lemma created_room:
  assumes reach: "server_reach env store legal db s" and x: "map_of (sv_sessions s) sid = Some x" "ss_open x" "ss_state x = InLobby"
  obtains a u v s1 where "ss_ctx x = Some a" "server_step env store (Receive sid g h (C_CREATE_ROOM (Some name))) s = Some s1"
    "pop_for (rm_next_id (sv_rooms s)) (sv_jobs s1) = Some (BotsAddTask 15 a u v, sv_jobs s)"
    "FindRoom (rm_next_id (sv_rooms s)) (sv_rooms s1) \<noteq> None"
    "map_of (sv_sessions s1) sid = Some (x\<lparr>ss_state := InRoom\<rparr>)"
proof -
  have good: "session_good (map_of (pm_by_session (sv_players s))) (context_at (sv_players s)) (sv_logins s) sid x"
    using sessions_ok_session(2) [OF sessions_ok_reach [OF reach] x(1)] .
  then obtain a c where a: "ss_ctx x = Some a" "context_at (sv_players s) a = Some c" using x unfolding session_good_def by auto
  obtain rid rm where cr: "CreateRoom name h (sv_rooms s) = (rid, rm)" by fastforce
  note f = find_created [OF cr]
  have none: "FindRoom rid (sv_rooms s) = None"
    using rooms_ok_reach [OF reach] f(1) unfolding rooms_ok_def manager_inv_def by (metis less_irrefl not_None_eq)
  have "rid \<notin> fst ` set (sv_jobs s)" using rooms_ok_reach [OF reach] none unfolding rooms_ok_def manager_inv_def by force
  note pop = pop_fresh [OF this]
  show ?thesis
    by (rule that [of a]) (use a x cr f pop in \<open>auto simp: OnPacket_def HandlePreRoomPacket_def HandleCreateRoom_def with_ctx_def Let_def push_job_def
        set_state_def set_ctx_room_def reply_def\<close>)
qed

text \<open>The first client opens a room.\<close>

definition demo_cave :: "(nat, sql_tables) game_server" where
  "demo_cave = the (server_step demo_lobby_env postgres_step (Receive 1 0 0 (C_CREATE_ROOM (Some ''Cave''))) demo_server)"

lemma demo_cave:
  "server_reach demo_lobby_env postgres_step sql_plain sql_tables_new demo_cave"
  "FindRoom (rm_next_id (sv_rooms demo_server)) (sv_rooms demo_cave) \<noteq> None"
proof -
  have l: "ss_open \<lparr>ss_state = InLobby, ss_ctx = Some 0, ss_worker = 0, ss_open = True\<rparr>"
    "ss_state \<lparr>ss_state = InLobby, ss_ctx = Some 0, ss_worker = 0, ss_open = True\<rparr> = InLobby" by simp_all
  obtain s1 where s1: "server_step demo_lobby_env postgres_step (Receive 1 0 0 (C_CREATE_ROOM (Some ''Cave''))) demo_server = Some s1"
    "FindRoom (rm_next_id (sv_rooms demo_server)) (sv_rooms s1) \<noteq> None" by (rule created_room [OF demo_server(1,2) l])
  have "server_reach demo_lobby_env postgres_step sql_plain sql_tables_new s1" by (rule server_reach.act [OF demo_server(1) _ s1(1)]) simp
  then show "server_reach demo_lobby_env postgres_step sql_plain sql_tables_new demo_cave"
    "FindRoom (rm_next_id (sv_rooms demo_server)) (sv_rooms demo_cave) \<noteq> None" using s1(2) unfolding demo_cave_def s1(1) option.sel by blast+
qed

section \<open>Properties\<close>

text \<open>C6: sessions belong to accounts. In every state the server reaches over a PostgreSQL store that starts empty, whatever the clients send and in
  whatever order answers, tasks and jobs happen, an open session past its first state has a player context that exists, is
  registered for this very session, carries a user name and player id the store confirmed for it, and has a room if the
  session is in one. Two such sessions have the same player id exactly if they logged in with the same user name. Names and
  passwords are free of zero bytes, and account ids stay below the first id of the bots.\<close>

theorem session_identity:
  assumes reach: "server_reach env postgres_step sql_plain sql_tables_new s"
    and x: "map_of (sv_sessions s) k = Some x" "ss_open x" "ss_state x \<noteq> Connected"
    and y: "map_of (sv_sessions s) l = Some y" "ss_open y" "ss_state y \<noteq> Connected"
  shows "\<exists>a c b d. ss_ctx x = Some a \<and> context_at (sv_players s) a = Some c \<and> ss_ctx y = Some b \<and> context_at (sv_players s) b = Some d \<and>
    FindBySession k (sv_players s) = Some a \<and> cx_session c = k \<and> (k, cx_username c, cx_player c) \<in> set (sv_logins s) \<and>
    (ss_state x = InRoom \<longrightarrow> cx_room c \<noteq> None) \<and> (cx_player c = cx_player d \<longleftrightarrow> cx_username c = cx_username d)"
proof -
  note ok = sessions_ok_reach [OF reach]
  have good: "\<exists>a. ss_ctx z = Some a" "ss_ctx z = Some a \<Longrightarrow> context_at (sv_players s) a = Some c \<Longrightarrow> ss_state z = InRoom \<Longrightarrow> cx_room c \<noteq> None"
    if "map_of (sv_sessions s) m = Some z" "ss_open z" "ss_state z \<noteq> Connected" for m z a c
    using sessions_ok_session(2) [OF ok that(1)] that(2,3) unfolding session_good_def by auto
  obtain a b where ab: "ss_ctx x = Some a" "ss_ctx y = Some b" using good(1) [OF x] good(1) [OF y] by blast
  obtain c where c: "context_at (sv_players s) a = Some c" "cx_session c = k" "map_of (pm_by_session (sv_players s)) k = Some a"
    "(k, cx_username c, cx_player c) \<in> set (sv_logins s)" by (rule sessions_ok_ctx [OF ok x(1) ab(1)])
  obtain d where d: "context_at (sv_players s) b = Some d" "(l, cx_username d, cx_player d) \<in> set (sv_logins s)"
    by (rule sessions_ok_ctx [OF ok y(1) ab(2)])
  have "cx_player c = cx_player d \<longleftrightarrow> cx_username c = cx_username d"
    by (rule postgres.same_player_same_name [OF reach _ c(4) d(2)]) (simp add: sql_ok_def sql_tables_new_def)
  then show ?thesis using ab c d good(2) [OF x ab(1) c(1)] by (auto simp: FindBySession_def)
qed

theorem session_identity_witness:
  "\<exists>a c b d. ss_ctx \<lparr>ss_state = InLobby, ss_ctx = Some 0, ss_worker = 0, ss_open = True\<rparr> = Some a \<and> context_at (sv_players demo_server) a = Some c \<and>
    ss_ctx \<lparr>ss_state = Authenticated, ss_ctx = Some 1, ss_worker = 1, ss_open = True\<rparr> = Some b \<and> context_at (sv_players demo_server) b = Some d \<and>
    FindBySession 1 (sv_players demo_server) = Some a \<and> cx_session c = 1 \<and> (1, cx_username c, cx_player c) \<in> set (sv_logins demo_server) \<and>
    (cx_player c = cx_player d \<longleftrightarrow> cx_username c = cx_username d)"
  using session_identity [OF demo_server(1,2) _ _ demo_server(3)] by auto

text \<open>C13: the portals of the dungeon form a graph of levels. In every state the server reaches, each connection of each room is
  behind a portal of that room and leads to a room that exists, one level up or down, and the room of every player context
  exists. Account ids stay below the first id of the bots.\<close>

theorem portal_graph_sound:
  assumes "server_reach env store legal db s"
  shows "list_all (\<lambda>(i, r). list_all (\<lambda>(p, t). p < length (dg_portals (gr_dungeon r)) \<and>
      (case FindRoom t (sv_rooms s) of None \<Rightarrow> False | Some r' \<Rightarrow> \<bar>gr_depth r' - gr_depth r\<bar> = 1)) (gr_connections r)) (rm_rooms (sv_rooms s)) \<and>
    (\<forall>a c i. context_at (sv_players s) a = Some c \<and> cx_room c = Some i \<longrightarrow> FindRoom i (sv_rooms s) \<noteq> None)"
proof (intro conjI)
  note ok = rooms_ok_reach [OF assms]
  have "links_ok (\<lambda>j. FindRoom j (sv_rooms s)) r" if "(i, r) \<in> set (rm_rooms (sv_rooms s))" for i r
  proof -
    have "FindRoom i (sv_rooms s) = Some r" using that ok unfolding FindRoom_def rooms_ok_def manager_inv_def by simp
    then show ?thesis using ok unfolding rooms_ok_def manager_inv_def room_good_def by blast
  qed
  then show "list_all (\<lambda>(i, r). list_all (\<lambda>(p, t). p < length (dg_portals (gr_dungeon r)) \<and>
      (case FindRoom t (sv_rooms s) of None \<Rightarrow> False | Some r' \<Rightarrow> \<bar>gr_depth r' - gr_depth r\<bar> = 1)) (gr_connections r)) (rm_rooms (sv_rooms s))"
    unfolding list_all_iff links_ok_def by fastforce
  show "\<forall>a c i. context_at (sv_players s) a = Some c \<and> cx_room c = Some i \<longrightarrow> FindRoom i (sv_rooms s) \<noteq> None"
    using rooms_ok_context(2) [OF ok] by blast
qed

theorem portal_graph_sound_witness:
  "FindRoom (rm_next_id (sv_rooms demo_server)) (sv_rooms demo_cave) \<noteq> None \<and>
   list_all (\<lambda>(i, r). list_all (\<lambda>(p, t). p < length (dg_portals (gr_dungeon r)) \<and>
      (case FindRoom t (sv_rooms demo_cave) of None \<Rightarrow> False | Some r' \<Rightarrow> \<bar>gr_depth r' - gr_depth r\<bar> = 1)) (gr_connections r))
     (rm_rooms (sv_rooms demo_cave))"
  using portal_graph_sound [OF demo_cave(1)] demo_cave(2) by blast

text \<open>C36: rooms are never cleaned up. In every state the server reaches, the cleanup of empty rooms that the main thread runs
  every ten seconds changes nothing, whatever the time: the bots of a room count as its players, so no room with bots is
  ever empty, and every room gets bots before its first player. Account ids stay below the first id of the bots.\<close>

theorem rooms_never_removed:
  assumes "server_reach env store legal db s"
  shows "CleanupEmptyRooms now (sv_rooms s) = sv_rooms s"
  by (rule manager_inv_cleanup) (rule rooms_ok_reach [OF assms, unfolded rooms_ok_def])

theorem rooms_never_removed_witness:
  "FindRoom (rm_next_id (sv_rooms demo_server)) (sv_rooms demo_cave) \<noteq> None \<and>
   CleanupEmptyRooms (milliseconds 3600000) (sv_rooms demo_cave) = sv_rooms demo_cave"
  using rooms_never_removed [OF demo_cave(1)] demo_cave(2) by blast

text \<open>C35: a job can read a player context that is gone. Whenever a client in the lobby opens a room and disconnects before the
  room has run its first job, that job reads the freed context.\<close>

theorem freed_context_read:
  assumes reach: "server_reach env store legal db s" and x: "map_of (sv_sessions s) sid = Some x" "ss_open x" "ss_state x = InLobby"
  shows "\<exists>s1 s2. server_step env store (Receive sid g h (C_CREATE_ROOM (Some name))) s = Some s1 \<and>
    server_step env store (Disconnect sid) s1 = Some s2 \<and> server_step env store (RunJob (rm_next_id (sv_rooms s)) now ps) s2 = None"
proof -
  let ?rid = "rm_next_id (sv_rooms s)"
  obtain a u v s1 where s1: "ss_ctx x = Some a" "server_step env store (Receive sid g h (C_CREATE_ROOM (Some name))) s = Some s1"
    "pop_for ?rid (sv_jobs s1) = Some (BotsAddTask 15 a u v, sv_jobs s)" "FindRoom ?rid (sv_rooms s1) \<noteq> None"
    "map_of (sv_sessions s1) sid = Some (x\<lparr>ss_state := InRoom\<rparr>)" by (rule created_room [OF reach x])
  have reach1: "server_reach env store legal db s1" by (rule server_reach.act [OF reach _ s1(2)]) simp
  obtain c where c: "context_at (sv_players s1) a = Some c" "map_of (pm_by_session (sv_players s1)) sid = Some a"
    using sessions_ok_ctx [OF sessions_ok_reach [OF reach1] s1(5)] s1(1) by auto
  have room: "cx_room c = Some i \<Longrightarrow> FindRoom i (sv_rooms s1) \<noteq> None" for i by (rule rooms_ok_context(2) [OF rooms_ok_reach [OF reach1] c(1)])
  obtain s2 where s2: "OnDisconnected sid (x\<lparr>ss_state := InRoom\<rparr>) s1 = Some s2" "context_at (sv_players s2) a = None"
    "sv_rooms s2 = sv_rooms s1" "sv_jobs s2 = sv_jobs s1 \<or> (\<exists>i t. sv_jobs s2 = sv_jobs s1 @ [(i, t)])"
    using s1(1) c room unregister_fields(2) [OF c(2,1)]
    by (cases "cx_room c") (auto simp: OnDisconnected_def Let_def with_ctx_def with_room_def push_job_def)
  obtain js where "pop_for ?rid (sv_jobs s2) = Some (BotsAddTask 15 a u v, js)" using s1(3) s2(4) pop_append by fastforce
  then have "server_step env store (RunJob ?rid now ps) s2 = None" using s2(2,3) s1(4) by auto
  moreover have "server_step env store (Disconnect sid) s1 = Some s2" using s1(5) s2(1) x(2) by simp
  ultimately show ?thesis using s1(2) by blast
qed

theorem freed_context_read_witness:
  "\<exists>s1 s2. server_step demo_lobby_env postgres_step (Receive 1 0 0 (C_CREATE_ROOM (Some ''Cave''))) demo_server = Some s1 \<and>
    server_step demo_lobby_env postgres_step (Disconnect 1) s1 = Some s2 \<and>
    server_step demo_lobby_env postgres_step (RunJob (rm_next_id (sv_rooms demo_server)) 0 party_system_new) s2 = None"
  by (rule freed_context_read [OF demo_server(1,2)]) simp_all

end
