(* ===== verification/Spec2Isabelle.thy ===== *)
theory Spec2Isabelle
  imports Prelude Recv_Buffer Send_Buffer Ws_Builder Radix_Tree Routing Session_IO Job_System Mpsc_Queue Io_Ring Listener_IO Auth Web_Middleware Http_Session Reverse_Proxy Matchmaker Storage Dungeon_Place
    Packet_Framing Game_Sessions
begin

text \<open>
  This is a verification library of the server toolkit \<^verbatim>\<open>libiouring-server\<close>: a reactor on Linux io_uring
  (\<^verbatim>\<open>servercore\<close>), an HTTP and WebSocket server with a reverse proxy (\<^verbatim>\<open>serverweb\<close>), game services
  (\<^verbatim>\<open>servergame\<close>), a database layer (\<^verbatim>\<open>serverstorage\<close>) and the example game server. Paths are relative to \<^verbatim>\<open>src/\<close>.

  \<^bold>\<open>How the program is put together.\<close> A worker thread owns an \<^verbatim>\<open>IoRing\<close>. Completions are dispatched to the owner of
  their event: a \<^verbatim>\<open>Listener\<close>, a \<^verbatim>\<open>Session\<close> or an \<^verbatim>\<open>UpstreamSession\<close>. Received bytes go from provided buffers into a
  \<^verbatim>\<open>RecvBuffer\<close> and to a protocol: \<^verbatim>\<open>HttpParser\<close>, after an upgrade \<^verbatim>\<open>WsFrameParser\<close>. A parsed request runs through middlewares
  and the \<^verbatim>\<open>Router\<close>; the answer is written into a \<^verbatim>\<open>SendBuffer\<close> of the \<^verbatim>\<open>BufferPool\<close> and leaves through the \<^verbatim>\<open>SendQueue\<close>.
  Work that must not run concurrently is pushed to a \<^verbatim>\<open>JobQueue\<close>; queries go to the \<^verbatim>\<open>PgWorkerPool\<close> and come back as
  tasks of the ring they were sent from.

  \<^bold>\<open>Theories and the code they model.\<close> A struct or class is a record, an enumeration a datatype, an operation a function
  that returns the new state, and an error a value. Names are those of the source, with a prefix where two classes use
  the same one.

  \<^item> \<^verbatim>\<open>Prelude\<close>, \<^verbatim>\<open>Text_Lib\<close>: bytes and machine words, error enumerations, the parts of the standard library in use.
  \<^item> \<^verbatim>\<open>Byte_Stream\<close>: the interface between a byte buffer and its reader, as a locale; \<^verbatim>\<open>Recv_Buffer\<close>
    (\<^verbatim>\<open>include/servercore/buffer/RecvBuffer.h\<close>) interprets it and is shown to be a bounded byte queue.
  \<^item> \<^verbatim>\<open>Send_Buffer\<close>, \<^verbatim>\<open>Send_Queue\<close> (\<^verbatim>\<open>buffer/SendBuffer.h\<close>, \<^verbatim>\<open>buffer/SendQueue.h\<close>): reference-counted chunks. Allocations and
    the three unlocked steps of a release interleave. Live buffers are disjoint and keep their bytes as long as nobody allocates
    between the decrement of a release and its test; when somebody does, a chunk is recycled under a live buffer.
  \<^item> \<^verbatim>\<open>Mpsc_Queue\<close>, \<^verbatim>\<open>Job_System\<close> (\<^verbatim>\<open>MpscQueue.h\<close>, \<^verbatim>\<open>src/job\<close>): step relations with one step per atomic access or critical section.
    Order, exactly-once execution, mutual exclusion, memory safety, and that a queue can always be drained.
  \<^item> \<^verbatim>\<open>Ring_Buffer\<close>, \<^verbatim>\<open>Io_Ring\<close> (\<^verbatim>\<open>src/ring\<close>): address arithmetic of provided buffers; submission, dispatch by pointer tag, tasks
    handed from ring to ring exactly once, and what happens when a submit fails.
  \<^item> \<^verbatim>\<open>Listener_IO\<close>, \<^verbatim>\<open>Session_IO\<close> (\<^verbatim>\<open>src/io\<close>): the life of a connection. It is released once and only when the kernel owes it
    no completion, provided its shutdown could be submitted; buffers are sent in the order accepted.
  \<^item> \<^verbatim>\<open>Ws_Parser\<close>, \<^verbatim>\<open>Ws_Builder\<close>, \<^verbatim>\<open>Ws_Handshake\<close> (\<^verbatim>\<open>src/web/ws\<close>, \<^verbatim>\<open>src/game/WsFrameBuilder.cpp\<close>): decoding against a grammar of frames,
    independence of how the input is cut, bounded memory, round trip with the builders.
  \<^item> \<^verbatim>\<open>Http_Message\<close>, \<^verbatim>\<open>Http_Parser\<close>, \<^verbatim>\<open>Http_Session\<close> (\<^verbatim>\<open>src/web\<close>): requests, responses, the callbacks around llhttp, a web connection.
  \<^item> \<^verbatim>\<open>Radix_Tree\<close>, \<^verbatim>\<open>Routing\<close> (\<^verbatim>\<open>src/web/RadixTree.cpp\<close>, \<^verbatim>\<open>Router.cpp\<close>, \<^verbatim>\<open>Middleware.cpp\<close>, \<^verbatim>\<open>RouteGroup.cpp\<close>): the tree refines a search of the
    route table in priority order.
  \<^item> \<^verbatim>\<open>Base64\<close>, \<^verbatim>\<open>Jwt_Codec\<close>, \<^verbatim>\<open>Auth\<close>, \<^verbatim>\<open>Web_Middleware\<close> (\<^verbatim>\<open>src/web/auth\<close>, \<^verbatim>\<open>src/web/middleware\<close>): token round trip; outside the excluded prefixes guarded handlers run
    only with a signed, unexpired token.
  \<^item> \<^verbatim>\<open>Upstream\<close>, \<^verbatim>\<open>Reverse_Proxy\<close> (\<^verbatim>\<open>UpstreamSession.cpp\<close>, \<^verbatim>\<open>UpstreamPool.cpp\<close>, \<^verbatim>\<open>ReverseProxy.cpp\<close>): one outcome per forwarded request; a
    serialized response is read back.
  \<^item> \<^verbatim>\<open>Presence\<close>, \<^verbatim>\<open>Match_Service\<close>, \<^verbatim>\<open>Matchmaker\<close> (\<^verbatim>\<open>src/game\<close>): indexes that describe one relation, the roster of a match, grouping of
    tickets and their query language.
  \<^item> \<^verbatim>\<open>Storage\<close> (\<^verbatim>\<open>src/storage\<close>): every accepted query is taken in order, executed once and answered on its ring, also across a stop.
  \<^item> \<^verbatim>\<open>Dungeon_Grid\<close>, \<^verbatim>\<open>Dungeon_Passage\<close>, \<^verbatim>\<open>Dungeon_Rooms\<close>, \<^verbatim>\<open>Dungeon_Map\<close>, \<^verbatim>\<open>Dungeon_Place\<close>
    (\<^verbatim>\<open>examples/GameServer/src/game/dungeon_generator.cpp\<close>): flood fill finds the connected components, a carved passage joins its ends,
    all floor of a generated map is connected, and everything placed on it stands on floor.
  \<^item> \<^verbatim>\<open>Packet_Framing\<close> (\<^verbatim>\<open>examples/GameServer/src/net/packet_session.cpp\<close>, \<^verbatim>\<open>packet_builder.h\<close>, \<^verbatim>\<open>examples/benchmarks\<close>, \<^verbatim>\<open>examples/EchoServer\<close>): packets
    are delivered whole and in order however the stream is cut.
  \<^item> \<^verbatim>\<open>Bot_Path\<close> (\<^verbatim>\<open>AStarSearch\<close> of \<^verbatim>\<open>game/bot_manager.cpp\<close>): the path search ends and its path is a shortest one.
  \<^item> \<^verbatim>\<open>Game_Room\<close>, \<^verbatim>\<open>Game_Combat\<close>, \<^verbatim>\<open>Game_Bots\<close>, \<^verbatim>\<open>Party_System\<close>, \<^verbatim>\<open>Game_Handlers\<close>, \<^verbatim>\<open>Game_Jobs\<close> (\<^verbatim>\<open>game/room.cpp\<close>, \<^verbatim>\<open>system\<close>,
    \<^verbatim>\<open>game/projectile_manager.cpp\<close>, \<^verbatim>\<open>game/bot_manager.cpp\<close>, \<^verbatim>\<open>handler/game_handler.cpp\<close> of the game server): a room over any sequence of its jobs. A ready client
    knows every ready player and bot of its room and nobody outside it, health stays in bounds, kills match deaths.
  \<^item> \<^verbatim>\<open>Game_Db\<close> (\<^verbatim>\<open>db\<close> of the game server): the stores in memory, on SQLite and on PostgreSQL; an account is one player.
  \<^item> \<^verbatim>\<open>Game_Lobby\<close>, \<^verbatim>\<open>Game_Server\<close>, \<^verbatim>\<open>Game_Sessions\<close> (\<^verbatim>\<open>net/game_session.cpp\<close>, \<^verbatim>\<open>handler\<close>, \<^verbatim>\<open>game/room_manager.cpp\<close>, \<^verbatim>\<open>game/player_context.cpp\<close>): the
    whole game server over any interleaving of packets, store answers, tasks and jobs. Sessions belong to accounts, portals form
    a graph of levels, and two defects: rooms are never cleaned up, and a job can read a freed player context.

  \<^bold>\<open>Locales.\<close> \<^verbatim>\<open>Byte_Stream\<close> states the contract of a byte buffer and \<^verbatim>\<open>Presence\<close> those of a table of sets and of two tables that
  are inverse to each other; \<^verbatim>\<open>Packet_Framing\<close> that of a packet reader, and \<^verbatim>\<open>Game_Db\<close> that of an account store, under which
  \<^verbatim>\<open>Game_Sessions\<close> proves whose session it is for every store at once. Each is interpreted on the model's own operations and the
  properties use the interpreted facts.

  \<^bold>\<open>Termination, fuel and bounds.\<close> No operation uses fuel. Loops are recursive functions with a measure: the bytes left for
  parsers, the unmarked tiles for flood fill, the inaccessible rooms for passages, the sum of costs and the queue for the path
  search. Following the parents of a path is a partial function that is shown to return. The loop around llhttp may run
  for ever for an ill-behaved library and is a partial function; it is shown to return when the library consumes input.
  Cursors, sizes, masks and addresses are words of the source's width; counters whose overflow needs more objects than
  memory can hold are natural numbers, and the component's text says so. Coordinates and distances of the game are floats in
  the source and real numbers here. A job of a room reads the clock once.

  \<^bold>\<open>Parameters.\<close> Code outside the repository is an argument of the definitions that use it, with its documented behaviour as
  named hypotheses where a property needs it: llhttp, the JSON library, HMAC and SHA-1, libpq and the database, the file
  system, name resolution and sockets, the kernel side of io_uring (free submission entries and the order of completions),
  random engines with their distributions, and \<^verbatim>\<open>std::sort\<close> and \<^verbatim>\<open>std::priority_queue\<close> where they leave an order open. SQL statements are
  known by what they document, and whether one succeeds is part of the call.

  \<^bold>\<open>Not modelled.\<close> Logging, the profiler and the logger middleware, which only write text. Memory orderings weaker than
  sequential consistency; in \<^verbatim>\<open>Game_Server\<close> a handler, a callback or a job is one action, so races inside two handlers on two
  threads are not seen, such as a join between the creation of a room and that of its map. Start-up code that only wires components together (\<^verbatim>\<open>WebServer::Start\<close>, the \<^verbatim>\<open>main\<close> functions, worker
  pools). \<^verbatim>\<open>ProcessExecutor\<close>, a sequence of fork, exec and pipe calls with no logic of its own. The zones,
  packet handlers and combat of the benchmark servers, cut-down copies of the rooms of the game server. The document platform
  under \<^verbatim>\<open>examples/QuartoPlatform\<close>, whose behaviour is that of the services it calls, the web server and proxy examples, and the
  load generators under \<^verbatim>\<open>tools/\<close>. The vendored
  database engine under \<^verbatim>\<open>examples/GameServer/vendor\<close>.
\<close>

end
